(* ===== verification/Solix_Base.thy ===== *)
theory Solix_Base
  imports Main "HOL-Library.Word"
begin

text \<open>
  Shared vocabulary of the development: the integer types of \<^verbatim>\<open>include/types.h\<close> as words,
  the ways a kernel operation can go wrong, bitmaps stored in arrays of words (they occur in
  the frame allocator, the process table, SolixFS and the scheduler), and the interface of a
  slot allocator that these bitmap users implement.
\<close>

unbundle bit_operations_syntax

section \<open>Types of \<^verbatim>\<open>include/types.h\<close>\<close>

type_synonym u8 = "8 word"
type_synonym u16 = "16 word"
type_synonym u32 = "32 word"
type_synonym u64 = "64 word"

text \<open>
  What can stop an operation: a call of \<^verbatim>\<open>panic\<close> (which never returns), an access to memory
  that holds no object of the expected kind, an array access out of range, and a machine
  division by zero.
\<close>

datatype fault =
    Panic string
  | Wild_Access u32
  | Out_Of_Bounds
  | Divide_Error

definition bind_res :: "fault + 'a \<Rightarrow> ('a \<Rightarrow> fault + 'b) \<Rightarrow> fault + 'b" where
  "bind_res r f = (case r of Inl e \<Rightarrow> Inl e | Inr x \<Rightarrow> f x)"

text \<open>Sequencing for operations that may also fail to return (\<open>None\<close>).\<close>

type_synonym 'a run = "(fault + 'a) option"

definition bind_run :: "'a run \<Rightarrow> ('a \<Rightarrow> 'b run) \<Rightarrow> 'b run" where
  "bind_run r f = (case r of None \<Rightarrow> None | Some (Inl e) \<Rightarrow> Some (Inl e) | Some (Inr x) \<Rightarrow> f x)"

section \<open>Bitmaps in arrays of words\<close>

text \<open>
  The C code tests bit \<open>i\<close> of a bitmap of \<open>w\<close>-bit words by \<^verbatim>\<open>bm[i / w] & (1 << (i % w))\<close>,
  sets it with \<^verbatim>\<open>|=\<close> and clears it with \<^verbatim>\<open>&= ~\<close>. The three functions follow these
  expressions for any word length.
\<close>

definition bm_mask :: "nat \<Rightarrow> 'a::len word" where
  "bm_mask i = push_bit (i mod LENGTH('a)) 1"

definition bm_test :: "'a::len word list \<Rightarrow> nat \<Rightarrow> bool" where
  "bm_test bm i \<longleftrightarrow> (bm ! (i div LENGTH('a))) AND bm_mask i \<noteq> 0"

definition bm_set :: "'a::len word list \<Rightarrow> nat \<Rightarrow> 'a word list" where
  "bm_set bm i = bm[i div LENGTH('a) := (bm ! (i div LENGTH('a))) OR bm_mask i]"

definition bm_clear :: "'a::len word list \<Rightarrow> nat \<Rightarrow> 'a word list" where
  "bm_clear bm i = bm[i div LENGTH('a) := (bm ! (i div LENGTH('a))) AND NOT (bm_mask i)]"

text \<open>The set of the bits below \<open>n\<close> that are set: what a bitmap stands for.\<close>

definition bm_set_of :: "'a::len word list \<Rightarrow> nat \<Rightarrow> nat set" where
  "bm_set_of bm n = {i. i < n \<and> bm_test bm i}"

text \<open>A bitmap is large enough for \<open>n\<close> bits.\<close>

definition bm_fits :: "'a::len word list \<Rightarrow> nat \<Rightarrow> bool" where
  "bm_fits bm n \<longleftrightarrow> n \<le> length bm * LENGTH('a)"

section \<open>Runs of an allocator\<close>

text \<open>
  \<open>n\<close> successive successful calls of an allocation operation, with the slots handed out;
  \<open>None\<close> as soon as one of them fails.
\<close>

fun alloc_run :: "('s \<Rightarrow> (nat \<times> 's) option) \<Rightarrow> nat \<Rightarrow> 's \<Rightarrow> (nat list \<times> 's) option" where
  "alloc_run alloc 0 s = Some ([], s)"
| "alloc_run alloc (Suc n) s =
     (case alloc s of
        None \<Rightarrow> None
      | Some (i, s') \<Rightarrow> map_option (\<lambda>(is, t). (i # is, t)) (alloc_run alloc n s'))"

section \<open>Lemmas\<close>

named_theorems bm_simps \<open>facts about bitmap tests and updates\<close>

lemma bind_res_simps [simp]:
  "bind_res (Inl e) f = Inl e"
  "bind_res (Inr x) f = f x"
  by (simp_all add: bind_res_def)

lemma bind_res_Inr_iff:
  "bind_res r f = Inr y \<longleftrightarrow> (\<exists>x. r = Inr x \<and> f x = Inr y)"
  by (cases r) auto

lemma bind_res_Inl_iff:
  "bind_res r f = Inl e \<longleftrightarrow> r = Inl e \<or> (\<exists>x. r = Inr x \<and> f x = Inl e)"
  by (cases r) auto

lemma bind_run_simps [simp]:
  "bind_run None f = None"
  "bind_run (Some (Inl e)) f = Some (Inl e)"
  "bind_run (Some (Inr x)) f = f x"
  by (simp_all add: bind_run_def)

lemma bind_run_Inr_iff:
  "bind_run r f = Some (Inr y) \<longleftrightarrow> (\<exists>x. r = Some (Inr x) \<and> f x = Some (Inr y))"
  by (auto simp: bind_run_def split: option.splits sum.splits)

text \<open>Loops of partial functions may run under the sequencing.\<close>

lemma bind_run_mono [partial_function_mono]:
  assumes "mono_option B" and "\<And>y. mono_option (\<lambda>f. C y f)"
  shows "mono_option (\<lambda>f. bind_run (B f) (\<lambda>y. C y f))"
proof -
  have "option_ord (bind_run (B f) (\<lambda>y. C y f)) (bind_run (B g) (\<lambda>y. C y g))" if "fun_ord option_ord f g" for f g
    using monotoneD [of _ _ _ f g, OF assms(1) that] monotoneD [of _ _ _ f g, OF assms(2) that]
    by (cases "B g"; force simp: flat_ord_def bind_run_def split: sum.splits)
  thus ?thesis by (rule monotoneI)
qed

lemma bit_bm_mask: "bit (bm_mask i :: 'a::len word) k \<longleftrightarrow> k = i mod LENGTH('a)"
  by (auto simp: bm_mask_def push_bit_of_1 bit_exp_iff possible_bit_def)

lemma bm_test_bit: "bm_test (bm :: 'a::len word list) i \<longleftrightarrow> bit (bm ! (i div LENGTH('a))) (i mod LENGTH('a))"
proof -
  let ?w = "bm ! (i div LENGTH('a))"
  have "?w AND bm_mask i \<noteq> 0 \<longleftrightarrow> (\<exists>k. bit (?w AND bm_mask i) k)"
    by (metis bit_0_eq bot_apply bot_bool_def bit_word_eqI)
  also have "\<dots> \<longleftrightarrow> bit ?w (i mod LENGTH('a))"
    by (auto simp: bit_and_iff bit_bm_mask)
  finally show ?thesis by (simp add: bm_test_def)
qed

lemma bm_lengths [simp]:
  "length (bm_set bm i) = length bm"
  "length (bm_clear bm i) = length bm"
  by (simp_all add: bm_set_def bm_clear_def)

lemma bm_fits_upd [simp]:
  "bm_fits (bm_set bm i) n = bm_fits bm n"
  "bm_fits (bm_clear bm i) n = bm_fits bm n"
  by (simp_all add: bm_fits_def)

lemma bm_fits_index:
  "bm_fits (bm :: 'a::len word list) n \<Longrightarrow> i < n \<Longrightarrow> i div LENGTH('a) < length bm"
  by (simp add: bm_fits_def less_mult_imp_div_less)

lemma same_slot_iff:
  "j div w = i div w \<and> j mod w = i mod w \<longleftrightarrow> j = (i::nat)"
  by (metis div_mult_mod_eq)

lemma bm_test_set [bm_simps]:
  assumes "i div LENGTH('a) < length (bm :: 'a::len word list)"
  shows "bm_test (bm_set bm i) j \<longleftrightarrow> j = i \<or> bm_test bm j"
  using assms same_slot_iff [of j "LENGTH('a)" i]
  by (cases "j div LENGTH('a) = i div LENGTH('a)")
     (auto simp: bm_test_bit bm_set_def bit_or_iff bit_bm_mask)

lemma bm_test_clear [bm_simps]:
  assumes "i div LENGTH('a) < length (bm :: 'a::len word list)"
  shows "bm_test (bm_clear bm i) j \<longleftrightarrow> j \<noteq> i \<and> bm_test bm j"
  using assms same_slot_iff [of j "LENGTH('a)" i]
  by (cases "j div LENGTH('a) = i div LENGTH('a)")
     (auto simp: bm_test_bit bm_clear_def bit_and_iff bit_not_iff bit_bm_mask)

lemma bm_set_of_finite [simp]: "finite (bm_set_of bm n)"
  by (simp add: bm_set_of_def)

lemma bm_set_of_subset: "bm_set_of bm n \<subseteq> {..<n}"
  by (auto simp: bm_set_of_def)

lemma bm_set_of_set:
  "bm_fits bm n \<Longrightarrow> i < n \<Longrightarrow> bm_set_of (bm_set bm i) n = insert i (bm_set_of bm n)"
  by (auto simp: bm_set_of_def bm_test_set bm_fits_index)

lemma bm_set_of_clear:
  "bm_fits bm n \<Longrightarrow> i < n \<Longrightarrow> bm_set_of (bm_clear bm i) n = bm_set_of bm n - {i}"
  by (auto simp: bm_set_of_def bm_test_clear bm_fits_index)

lemma bm_set_of_full:
  "{..<n} \<subseteq> bm_set_of bm n \<longleftrightarrow> (\<forall>i<n. bm_test bm i)"
  by (auto simp: bm_set_of_def)

lemma bm_test_replicate_0:
  "i div LENGTH('a) < k \<Longrightarrow> \<not> bm_test (replicate k (0 :: 'a::len word)) i"
  by (simp add: bm_test_bit)

lemma empty_neq_lessThan_numeral [simp]: "({} :: nat set) \<noteq> {..<numeral k}"
  by (metis empty_iff lessThan_iff zero_less_numeral)

text \<open>A search loop that returns the first index with a property is \<^const>\<open>find\<close> on an interval.\<close>

lemma find_upt_Some:
  "find P [0..<n] = Some i \<longleftrightarrow> i < n \<and> P i \<and> (\<forall>j<i. \<not> P j)"
proof -
  have *: "find P [0..<n] = Some i \<longleftrightarrow>
      (\<exists>k<length [0..<n]. P ([0..<n] ! k) \<and> i = [0..<n] ! k \<and> (\<forall>j<k. \<not> P ([0..<n] ! j)))"
    by (rule find_Some_iff)
  show ?thesis by (auto simp: *)
qed

lemma find_append: "find P (xs @ ys) = (case find P xs of None \<Rightarrow> find P ys | Some x \<Rightarrow> Some x)"
  by (induction xs) auto

lemma find_upt_None: "find P [0..<n] = None \<longleftrightarrow> (\<forall>i<n. \<not> P i)"
  by (auto simp: find_None_iff)

lemma and_not_mask: "w AND NOT (mask n) = push_bit n (drop_bit n (w :: 'a::len word))"
  by (rule bit_eqI) (auto simp: bit_simps)

lemma find_upt_Suc: "find P [0..<Suc n] = (if P 0 then Some 0 else map_option Suc (find (\<lambda>i. P (Suc i)) [0..<n]))"
proof -
  have "[0..<Suc n] = 0 # map Suc [0..<n]" by (simp add: map_Suc_upt upt_conv_Cons del: upt_Suc)
  moreover have "find P (map Suc xs) = map_option Suc (find (\<lambda>i. P (Suc i)) xs)" for xs
    by (induction xs) auto
  ultimately show ?thesis by simp
qed

section \<open>The slot allocator interface\<close>

text \<open>
  A slot allocator owns the slots \<open>{..<cap s}\<close> and knows the set \<open>used s\<close> of those handed out.
  Allocation fails only when nothing is free, and otherwise hands out one free slot; releasing
  a used slot makes exactly that slot free again. The physical frames of \<^verbatim>\<open>kernel/mm.c\<close>, the
  process slots of \<^verbatim>\<open>kernel/kernel.c\<close>, and the blocks and inodes of \<^verbatim>\<open>fs/solixfs.c\<close> are
  interpretations.
\<close>

locale slot_allocator =
  fixes invar :: "'s \<Rightarrow> bool"
    and cap :: "'s \<Rightarrow> nat"
    and used :: "'s \<Rightarrow> nat set"
    and alloc :: "'s \<Rightarrow> (nat \<times> 's) option"
    and release :: "nat \<Rightarrow> 's \<Rightarrow> 's"
  assumes used_cap: "invar s \<Longrightarrow> used s \<subseteq> {..<cap s}"
    and alloc_None: "invar s \<Longrightarrow> alloc s = None \<longleftrightarrow> {..<cap s} \<subseteq> used s"
    and alloc_fresh: "invar s \<Longrightarrow> alloc s = Some (i, s') \<Longrightarrow> i < cap s \<and> i \<notin> used s"
    and alloc_used: "invar s \<Longrightarrow> alloc s = Some (i, s') \<Longrightarrow> used s' = insert i (used s)"
    and alloc_cap: "invar s \<Longrightarrow> alloc s = Some (i, s') \<Longrightarrow> cap s' = cap s"
    and alloc_invar: "invar s \<Longrightarrow> alloc s = Some (i, s') \<Longrightarrow> invar s'"
    and release_used: "invar s \<Longrightarrow> i \<in> used s \<Longrightarrow> used (release i s) = used s - {i}"
    and release_cap: "invar s \<Longrightarrow> i \<in> used s \<Longrightarrow> cap (release i s) = cap s"
    and release_invar: "invar s \<Longrightarrow> i \<in> used s \<Longrightarrow> invar (release i s)"
begin

lemma used_finite: "invar s \<Longrightarrow> finite (used s)"
  using used_cap finite_subset by blast

lemma used_card: "invar s \<Longrightarrow> card (used s) \<le> cap s"
  using used_cap card_mono [of "{..<cap s}" "used s"] by simp

lemma full_iff_card: "invar s \<Longrightarrow> {..<cap s} \<subseteq> used s \<longleftrightarrow> card (used s) = cap s"
  using used_cap [of s] card_subset_eq [of "{..<cap s}" "used s"]
  by (metis card_lessThan finite_lessThan subset_antisym subset_refl)

lemma alloc_card:
  "invar s \<Longrightarrow> alloc s = Some (i, s') \<Longrightarrow> card (used s') = Suc (card (used s))"
  by (simp add: alloc_used used_finite alloc_fresh)

lemma alloc_progress: "invar s \<Longrightarrow> card (used s) < cap s \<Longrightarrow> \<exists>i s'. alloc s = Some (i, s')"
  using alloc_None [of s] full_iff_card [of s] by (cases "alloc s") auto

lemma alloc_run_sound:
  assumes "invar s" and "alloc_run alloc n s = Some (is, t)"
  shows "invar t \<and> cap t = cap s \<and> used t = used s \<union> set is \<and> length is = n \<and>
    distinct is \<and> set is \<inter> used s = {} \<and> set is \<subseteq> {..<cap s}"
  using assms
proof (induction n arbitrary: s "is")
  case 0
  then show ?case by simp
next
  case (Suc n)
  from Suc.prems(2) obtain i s' js where a: "alloc s = Some (i, s')"
    and r: "alloc_run alloc n s' = Some (js, t)" and "is": "is = i # js"
    by (auto split: option.splits)
  note step = alloc_invar [OF Suc.prems(1) a] alloc_used [OF Suc.prems(1) a]
    alloc_cap [OF Suc.prems(1) a] alloc_fresh [OF Suc.prems(1) a]
  from Suc.IH [OF step(1) r] step show ?case by (auto simp: "is")
qed

lemma alloc_run_total:
  "invar s \<Longrightarrow> n + card (used s) \<le> cap s \<Longrightarrow> \<exists>is t. alloc_run alloc n s = Some (is, t)"
proof (induction n arbitrary: s)
  case 0
  then show ?case by simp
next
  case (Suc n)
  then obtain i s' where a: "alloc s = Some (i, s')" using alloc_progress by fastforce
  have "n + card (used s') \<le> cap s'"
    using Suc.prems alloc_card [OF Suc.prems(1) a] alloc_cap [OF Suc.prems(1) a] by simp
  then obtain "is" t where "alloc_run alloc n s' = Some (is, t)"
    using Suc.IH [OF alloc_invar [OF Suc.prems(1) a]] by blast
  with a show ?case by simp
qed

lemma alloc_run_exhausts:
  assumes "invar s" and "alloc_run alloc (cap s - card (used s)) s = Some (is, t)"
  shows "used t = {..<cap s}" and "alloc t = None"
proof -
  note r = alloc_run_sound [OF assms]
  have "card (used t) = card (used s) + card (set is)"
    using r used_finite [OF assms(1)] by (simp add: card_Un_disjoint Int_commute)
  with r used_card [OF assms(1)] have "card (used t) = cap t"
    by (simp add: distinct_card)
  with r full_iff_card [of t] have full: "{..<cap t} \<subseteq> used t" by blast
  with r show "alloc t = None" by (simp add: alloc_None)
  from full r used_cap [of t] show "used t = {..<cap s}" by auto
qed

lemma release_alloc: "invar s \<Longrightarrow> i \<in> used s \<Longrightarrow> alloc (release i s) \<noteq> None"
  using alloc_None [OF release_invar] release_used release_cap used_cap by fastforce

lemma alloc_release:
  "invar s \<Longrightarrow> alloc s = Some (i, s') \<Longrightarrow> used (release i s') = used s"
  using release_used [of s' i] alloc_invar alloc_used alloc_fresh by fastforce

end

end
