(* ===== verification/Solix_Heap.thy ===== *)
theory Solix_Heap
  imports Solix_Base
begin

text \<open>
  The kernel heap of \<^verbatim>\<open>kernel/mm.c\<close>: a doubly linked list of blocks, each a 24 byte header
  followed by its payload, laid out without gaps from \<^verbatim>\<open>kernel_heap_start\<close> on. The headers are
  objects in a store from addresses to header records, so that every pointer the code follows is
  looked up and a pointer to no header is a fault; the list may be cyclic in a corrupted heap, so
  the search loop of \<^verbatim>\<open>kmalloc\<close> is a partial function whose value \<open>None\<close> means that it does not
  return. The abstract view of a heap is the list of its blocks with their sizes and use bits.
\<close>

section \<open>State\<close>

abbreviation HEAP_BLOCK_MAGIC :: u32 where "HEAP_BLOCK_MAGIC \<equiv> 0xDEADBEEF"
abbreviation HEAP_BLOCK_FREE_MAGIC :: u32 where "HEAP_BLOCK_FREE_MAGIC \<equiv> 0xFEEDFACE"
abbreviation KERNEL_HEAP_SIZE :: u32 where "KERNEL_HEAP_SIZE \<equiv> 16 * 1024 * 1024"
abbreviation SIZE_MAX :: u32 where "SIZE_MAX \<equiv> - 1"

text \<open>\<^verbatim>\<open>sizeof(heap_block_t)\<close>: six 32-bit fields.\<close>

abbreviation HDR :: u32 where "HDR \<equiv> 24"

record heap_block =
  magic :: u32
  size :: u32
  used :: u32
  nxt :: u32
  prv :: u32
  checksum :: u32

type_synonym hmem = "u32 \<rightharpoonup> heap_block"

record mem_stats =
  total_allocations :: u32
  total_frees :: u32
  peak_usage :: u32
  current_usage :: u32
  fragmentation_count :: u32

record heap =
  kernel_heap_start :: u32
  kernel_heap_end :: u32
  kernel_heap_current :: u32
  heap_head :: u32
  heap_tail :: u32
  hmem :: hmem
  stats :: mem_stats

section \<open>Operations\<close>

text \<open>The bytes of a word in memory order; the checksum adds up the bytes of the first five fields.\<close>

definition word_bytes :: "u32 \<Rightarrow> u32 list" where
  "word_bytes w = map (\<lambda>k. drop_bit (8 * k) w AND 255) [0..<4]"

definition calculate_block_checksum :: "heap_block \<Rightarrow> u32" where
  "calculate_block_checksum b =
     sum_list (concat (map word_bytes [magic b, size b, used b, nxt b, prv b]))"

definition verify_block_integrity :: "heap_block \<Rightarrow> bool" where
  "verify_block_integrity b \<longleftrightarrow>
     magic b = (if used b \<noteq> 0 then HEAP_BLOCK_MAGIC else HEAP_BLOCK_FREE_MAGIC) \<and>
     checksum b = calculate_block_checksum b"

definition update_block_checksum :: "heap_block \<Rightarrow> heap_block" where
  "update_block_checksum b = b\<lparr>checksum := calculate_block_checksum b\<rparr>"

text \<open>Reading and updating the header a pointer points to.\<close>

definition load :: "hmem \<Rightarrow> u32 \<Rightarrow> fault + heap_block" where
  "load m p = (case m p of None \<Rightarrow> Inl (Wild_Access p) | Some b \<Rightarrow> Inr b)"

definition modify :: "(heap_block \<Rightarrow> heap_block) \<Rightarrow> u32 \<Rightarrow> hmem \<Rightarrow> fault + hmem" where
  "modify f p m = bind_res (load m p) (\<lambda>b. Inr (m(p \<mapsto> f b)))"

definition heap_init :: "u32 \<Rightarrow> fault + heap" where
  "heap_init end_sym =
     (if end_sym + KERNEL_HEAP_SIZE \<le> end_sym then Inl (Panic ''Invalid heap size configuration'')
      else Inr \<lparr>kernel_heap_start = end_sym, kernel_heap_end = end_sym + KERNEL_HEAP_SIZE,
                kernel_heap_current = end_sym, heap_head = end_sym, heap_tail = end_sym,
                hmem = [end_sym \<mapsto> update_block_checksum
                          \<lparr>magic = HEAP_BLOCK_FREE_MAGIC, size = KERNEL_HEAP_SIZE - HDR, used = 0,
                           nxt = 0, prv = 0, checksum = 0\<rparr>],
                stats = \<lparr>total_allocations = 0, total_frees = 0, peak_usage = 0,
                         current_usage = 0, fragmentation_count = 0\<rparr>\<rparr>)"

text \<open>The best-fit search: current block, best block so far and its size.\<close>

partial_function (option) find_best ::
    "hmem \<Rightarrow> u32 \<Rightarrow> u32 \<Rightarrow> u32 \<Rightarrow> u32 \<Rightarrow> (fault + u32) option" where
  "find_best m sz block best best_size =
     (if block = 0 then Some (Inr best)
      else case m block of
             None \<Rightarrow> Some (Inl (Wild_Access block))
           | Some b \<Rightarrow>
               if used b = 0 \<and> sz \<le> size b \<and> size b < best_size
               then if size b = sz then Some (Inr block)
                    else find_best m sz (nxt b) block (size b)
               else find_best m sz (nxt b) best best_size)"

declare find_best.simps [code]

definition round_size :: "u32 \<Rightarrow> u32" where
  "round_size sz = (let s = (sz + 3) AND NOT 3 in if s < 16 then 16 else s)"

definition set_tail_or_prev :: "u32 \<Rightarrow> u32 \<Rightarrow> heap \<Rightarrow> fault + heap" where
  "set_tail_or_prev q p h =
     (if q \<noteq> 0 then bind_res (modify (prv_update (\<lambda>_. p)) q (hmem h)) (\<lambda>m. Inr (h\<lparr>hmem := m\<rparr>))
      else Inr (h\<lparr>heap_tail := p\<rparr>))"

text \<open>Lines 153--172: cut the block down to \<open>sz\<close> bytes and insert the remainder as a free block.\<close>

definition split_block :: "u32 \<Rightarrow> u32 \<Rightarrow> heap \<Rightarrow> fault + heap" where
  "split_block block sz h =
     bind_res (load (hmem h) block) (\<lambda>b.
       if size b > sz + HDR + 16 then
         let new_block = block + HDR + sz;
             nb = update_block_checksum
                    \<lparr>magic = HEAP_BLOCK_FREE_MAGIC, size = size b - sz - HDR, used = 0,
                     nxt = nxt b, prv = block, checksum = 0\<rparr>
         in bind_res (set_tail_or_prev (nxt b) new_block (h\<lparr>hmem := (hmem h)(new_block \<mapsto> nb)\<rparr>)) (\<lambda>h1.
            bind_res (modify (\<lambda>b. update_block_checksum (b\<lparr>size := sz, nxt := new_block\<rparr>)) block (hmem h1))
              (\<lambda>m. Inr (h1\<lparr>hmem := m\<rparr>)))
       else Inr h)"

definition note_alloc :: "u32 \<Rightarrow> mem_stats \<Rightarrow> mem_stats" where
  "note_alloc sz st =
     (let cur = current_usage st + sz
      in st\<lparr>total_allocations := total_allocations st + 1, current_usage := cur,
            peak_usage := if cur > peak_usage st then cur else peak_usage st\<rparr>)"

definition take_block :: "u32 \<Rightarrow> u32 \<Rightarrow> heap \<Rightarrow> fault + u32 \<times> heap" where
  "take_block block sz h =
     bind_res (load (hmem h) block) (\<lambda>b.
       if \<not> verify_block_integrity b then Inl (Panic ''Heap corruption detected in kmalloc'')
       else bind_res (split_block block sz h) (\<lambda>h1.
            bind_res (modify (\<lambda>b. update_block_checksum (b\<lparr>used := 1, magic := HEAP_BLOCK_MAGIC\<rparr>)) block (hmem h1))
              (\<lambda>m. Inr (block + HDR, h1\<lparr>hmem := m, stats := note_alloc sz (stats h1)\<rparr>))))"

definition kmalloc :: "u32 \<Rightarrow> heap \<Rightarrow> (fault + u32 \<times> heap) option" where
  "kmalloc request h =
     (if request = 0 then Some (Inr (0, h))
      else let sz = round_size request
           in map_option (\<lambda>r. bind_res r (\<lambda>best.
                if best = 0
                then Inr (0, h\<lparr>stats := (stats h)\<lparr>fragmentation_count := fragmentation_count (stats h) + 1\<rparr>\<rparr>)
                else take_block best sz h))
              (find_best (hmem h) sz (heap_head h) 0 SIZE_MAX))"

text \<open>Lines 213--221 and 226--234: block \<open>p\<close> absorbs its successor \<open>q\<close>.\<close>

definition absorb :: "u32 \<Rightarrow> u32 \<Rightarrow> heap \<Rightarrow> fault + heap" where
  "absorb p q h =
     bind_res (load (hmem h) q) (\<lambda>bq.
     bind_res (modify (\<lambda>b. b\<lparr>size := size b + (size bq + HDR), nxt := nxt bq\<rparr>) p (hmem h)) (\<lambda>m.
     bind_res (set_tail_or_prev (nxt bq) p (h\<lparr>hmem := m\<rparr>)) (\<lambda>h1.
     bind_res (modify update_block_checksum p (hmem h1)) (\<lambda>m2. Inr (h1\<lparr>hmem := m2\<rparr>)))))"

text \<open>The tests that guard coalescing: the neighbour exists, is free and passes the check.\<close>

definition can_absorb :: "hmem \<Rightarrow> u32 \<Rightarrow> fault + bool" where
  "can_absorb m q =
     (if q = 0 then Inr False
      else bind_res (load m q) (\<lambda>b. Inr (used b = 0 \<and> verify_block_integrity b)))"

definition coalesce_next :: "u32 \<Rightarrow> heap \<Rightarrow> fault + heap" where
  "coalesce_next block h =
     bind_res (load (hmem h) block) (\<lambda>b.
     bind_res (can_absorb (hmem h) (nxt b)) (\<lambda>ok. if ok then absorb block (nxt b) h else Inr h))"

definition coalesce_prev :: "u32 \<Rightarrow> heap \<Rightarrow> fault + heap" where
  "coalesce_prev block h =
     bind_res (load (hmem h) block) (\<lambda>b.
     bind_res (can_absorb (hmem h) (prv b)) (\<lambda>ok. if ok then absorb (prv b) block h else Inr h))"

definition note_free :: "u32 \<Rightarrow> mem_stats \<Rightarrow> mem_stats" where
  "note_free sz st = st\<lparr>total_frees := total_frees st + 1, current_usage := current_usage st - sz\<rparr>"

definition kfree :: "u32 \<Rightarrow> heap \<Rightarrow> fault + heap" where
  "kfree ptr h =
     (if ptr = 0 then Inr h
      else let block = ptr - HDR
           in bind_res (load (hmem h) block) (\<lambda>b.
                if \<not> verify_block_integrity b then Inl (Panic ''Heap corruption detected in kfree'')
                else if used b = 0 then Inl (Panic ''Double free detected'')
                else bind_res (modify (\<lambda>b. update_block_checksum (b\<lparr>used := 0, magic := HEAP_BLOCK_FREE_MAGIC\<rparr>))
                                 block (hmem h)) (\<lambda>m.
                     bind_res (coalesce_next block (h\<lparr>hmem := m\<rparr>)) (\<lambda>h1.
                     bind_res (coalesce_prev block h1) (\<lambda>h2.
                       Inr (h2\<lparr>stats := note_free (size b) (stats h2)\<rparr>))))))"

text \<open>
  \<^verbatim>\<open>verify_heap_integrity\<close>: \<open>count\<close> is \<^verbatim>\<open>block_count\<close>, \<open>frames\<close> the number \<^verbatim>\<open>total_frames\<close> that
  bounds it.
\<close>

partial_function (option) verify_heap_from ::
    "hmem \<Rightarrow> u32 \<Rightarrow> u32 \<Rightarrow> u32 \<Rightarrow> (fault + bool) option" where
  "verify_heap_from m frames block count =
     (if block = 0 then Some (Inr True)
      else case m block of
             None \<Rightarrow> Some (Inl (Wild_Access block))
           | Some b \<Rightarrow>
               if \<not> verify_block_integrity b then Some (Inr False)
               else if count > frames then Some (Inr False)
               else verify_heap_from m frames (nxt b) (count + 1))"

declare verify_heap_from.simps [code]

definition verify_heap_integrity :: "u32 \<Rightarrow> heap \<Rightarrow> (fault + bool) option" where
  "verify_heap_integrity frames h = verify_heap_from (hmem h) frames (heap_head h) 0"

section \<open>The abstract view\<close>

text \<open>
  A block is its payload size and whether it is in use; a heap is the list of its blocks. The
  extent of a list of blocks includes the headers.
\<close>

type_synonym blk = "nat \<times> bool"

definition ext :: "blk list \<Rightarrow> nat" where
  "ext bs = (\<Sum>(n, u) \<leftarrow> bs. n + 24)"

definition link :: "nat \<Rightarrow> nat \<Rightarrow> u32" where
  "link hi a = (if a = hi then 0 else of_nat a)"

definition node :: "hmem \<Rightarrow> nat \<Rightarrow> u32 \<Rightarrow> nat \<Rightarrow> blk \<Rightarrow> bool" where
  "node m hi p a = (\<lambda>(n, u). case m (of_nat a) of None \<Rightarrow> False
     | Some b \<Rightarrow> size b = of_nat n \<and> used b = (if u then 1 else 0) \<and>
        magic b = (if u then HEAP_BLOCK_MAGIC else HEAP_BLOCK_FREE_MAGIC) \<and>
        nxt b = link hi (a + (n + 24)) \<and> prv b = p \<and> 16 \<le> n \<and> 4 dvd n)"

text \<open>The blocks \<open>bs\<close> lie from \<open>a\<close> up to \<open>e\<close> in a heap that ends at \<open>hi\<close>; \<open>p\<close> points to the block before.\<close>

fun bseg :: "hmem \<Rightarrow> nat \<Rightarrow> u32 \<Rightarrow> nat \<Rightarrow> blk list \<Rightarrow> nat \<Rightarrow> bool" where
  "bseg m hi p a [] e \<longleftrightarrow> a = e"
| "bseg m hi p a (b # bs) e \<longleftrightarrow> node m hi p a b \<and> bseg m hi (of_nat a) (a + (fst b + 24)) bs e"

definition last_ptr :: "u32 \<Rightarrow> nat \<Rightarrow> blk list \<Rightarrow> u32" where
  "last_ptr p a bs = (if bs = [] then p else of_nat (a + ext (butlast bs)))"

definition heap_rep :: "heap \<Rightarrow> blk list \<Rightarrow> bool" where
  "heap_rep h bs \<longleftrightarrow>
     (let lo = unat (kernel_heap_start h); hi = unat (kernel_heap_end h)
      in 16 \<le> lo \<and> bs \<noteq> [] \<and> bseg (hmem h) hi 0 lo bs hi \<and>
         heap_head h = of_nat lo \<and> heap_tail h = last_ptr 0 lo bs)"

text \<open>The operations on the abstract view.\<close>

fun best_scan :: "nat \<Rightarrow> nat \<Rightarrow> blk list \<Rightarrow> nat option \<Rightarrow> nat \<Rightarrow> nat option" where
  "best_scan req i [] best bsz = best"
| "best_scan req i ((n, u) # bs) best bsz =
     (if \<not> u \<and> req \<le> n \<and> n < bsz
      then if n = req then Some i else best_scan req (Suc i) bs (Some i) n
      else best_scan req (Suc i) bs best bsz)"

definition abs_alloc :: "nat \<Rightarrow> nat \<Rightarrow> blk list \<Rightarrow> blk list" where
  "abs_alloc req i bs =
     (let n = fst (bs ! i)
      in take i bs @ (if n > req + 40 then [(req, True), (n - req - 24, False)] else [(n, True)])
         @ drop (Suc i) bs)"

definition best_fit :: "nat \<Rightarrow> blk list \<Rightarrow> nat \<Rightarrow> bool" where
  "best_fit req bs i \<longleftrightarrow> i < length bs \<and> \<not> snd (bs ! i) \<and> req \<le> fst (bs ! i) \<and>
     (\<forall>k<length bs. \<not> snd (bs ! k) \<and> req \<le> fst (bs ! k) \<longrightarrow>
        fst (bs ! i) \<le> fst (bs ! k) \<and> (k < i \<longrightarrow> fst (bs ! i) < fst (bs ! k)))"

section \<open>Lemmas on chains of blocks\<close>

text \<open>Addresses are kept as \<open>of_nat\<close> of one number, not as sums of words.\<close>

declare of_nat_add [simp del]

lemma ext_simps [simp]:
  "ext [] = 0"
  "ext (b # bs) = fst b + 24 + ext bs"
  "ext (xs @ ys) = ext xs + ext ys"
  by (simp_all add: ext_def case_prod_unfold)

lemma last_ptr_simps [simp]:
  "last_ptr p a [] = p"
  "last_ptr p a (b # bs) = last_ptr (of_nat a) (a + (fst b + 24)) bs"
  by (simp_all add: last_ptr_def add.assoc)

lemma last_ptr_append [simp]:
  "last_ptr p a (xs @ ys) = last_ptr (last_ptr p a xs) (a + ext xs) ys"
  by (induction xs arbitrary: p a) (simp_all add: add.assoc)

lemma bseg_end: "bseg m hi p a bs e \<Longrightarrow> e = a + ext bs"
  by (induction bs arbitrary: p a) (fastforce simp: add.assoc)+

lemma bseg_append:
  "bseg m hi p a (xs @ ys) e \<longleftrightarrow>
     bseg m hi p a xs (a + ext xs) \<and> bseg m hi (last_ptr p a xs) (a + ext xs) ys e"
  by (induction xs arbitrary: p a) (auto simp: add.assoc)

lemma bseg_cong:
  assumes "bseg m hi p a bs e" and "\<And>x. a \<le> x \<Longrightarrow> x < e \<Longrightarrow> m' (of_nat x) = m (of_nat x)"
  shows "bseg m' hi p a bs e"
  using assms
proof (induction bs arbitrary: p a)
  case (Cons b bs)
  from Cons.prems(1) have "e = a + (fst b + 24) + ext bs" using bseg_end by fastforce
  then have "m' (of_nat a) = m (of_nat a)" using Cons.prems(2) by simp
  moreover have "bseg m' hi (of_nat a) (a + (fst b + 24)) bs e"
    using Cons.IH Cons.prems by simp
  ultimately show ?case using Cons.prems(1) by (simp add: node_def)
qed simp

lemma of_nat_u32_eq: "a < 2 ^ 32 \<Longrightarrow> b < 2 ^ 32 \<Longrightarrow> (of_nat a :: u32) = of_nat b \<longleftrightarrow> a = b"
  by (simp add: word_of_nat_eq_iff take_bit_nat_eq_self)

lemma unat_of_nat_u32: "a < 2 ^ 32 \<Longrightarrow> unat (of_nat a :: u32) = a"
  by (simp add: unat_of_nat take_bit_nat_eq_self)

lemma of_nat_u32_0: "a < 2 ^ 32 \<Longrightarrow> (of_nat a :: u32) = 0 \<longleftrightarrow> a = 0"
  using of_nat_u32_eq [of a 0] by simp

lemma unat_max_u32: "unat (- 1 :: u32) = 2 ^ 32 - 1"
  by (simp add: unsigned_minus_1_eq_mask mask_eq_exp_minus_1)

lemma link_0_iff: "0 < a \<Longrightarrow> a \<le> hi \<Longrightarrow> hi < 2 ^ 32 \<Longrightarrow> link hi a = 0 \<longleftrightarrow> a = hi"
  by (simp add: link_def of_nat_u32_0)

text \<open>Redirecting the \<^verbatim>\<open>prev\<close> pointer of the first block of a chain.\<close>

definition relink :: "u32 \<Rightarrow> u32 \<Rightarrow> hmem \<Rightarrow> hmem" where
  "relink q p m = (if q = 0 then m else m(q := map_option (prv_update (\<lambda>_. p)) (m q)))"

lemma relink_other: "x \<noteq> q \<Longrightarrow> relink q p m x = m x"
  by (simp add: relink_def)

lemma bseg_relink:
  assumes seg: "bseg m hi p a bs hi" and "0 < a" and "hi < 2 ^ 32"
  shows "bseg (relink (link hi a) p' m) hi p' a bs hi"
proof (cases bs)
  case Nil
  with seg show ?thesis by simp
next
  case (Cons b bs')
  have lt: "a < hi" using bseg_end [OF seg] Cons by simp
  then have l: "link hi a = of_nat a" "(of_nat a :: u32) \<noteq> 0"
    using assms by (simp_all add: link_def of_nat_u32_0)
  let ?m = "relink (link hi a) p' m"
  have "node ?m hi p' a b"
    using seg Cons l by (auto simp: node_def relink_def split: option.splits)
  moreover have "bseg ?m hi (of_nat a) (a + (fst b + 24)) bs' hi"
  proof (rule bseg_cong)
    show "bseg m hi (of_nat a) (a + (fst b + 24)) bs' hi" using seg Cons by simp
    fix x assume "a + (fst b + 24) \<le> x" "x < hi"
    then have "(of_nat x :: u32) \<noteq> of_nat a" using lt assms(3) by (simp add: of_nat_u32_eq)
    then show "?m (of_nat x) = m (of_nat x)" using l by (simp add: relink_other)
  qed
  ultimately show ?thesis using Cons by simp
qed

section \<open>The search\<close>

definition blk_addr :: "nat \<Rightarrow> blk list \<Rightarrow> nat \<Rightarrow> nat" where
  "blk_addr lo bs i = lo + ext (take i bs)"

definition blk_ptr :: "nat \<Rightarrow> blk list \<Rightarrow> nat option \<Rightarrow> u32" where
  "blk_ptr lo bs o' = (case o' of None \<Rightarrow> 0 | Some i \<Rightarrow> of_nat (blk_addr lo bs i))"

lemma find_best_scan:
  assumes "bseg m hi q lo (xs @ ys) hi" and "0 < lo" and "hi < 2 ^ 32"
  shows "find_best m sz (link hi (lo + ext xs)) (blk_ptr lo (xs @ ys) best) bsz =
    Some (Inr (blk_ptr lo (xs @ ys) (best_scan (unat sz) (length xs) ys best (unat bsz))))"
  using assms
proof (induction ys arbitrary: xs best bsz)
  case Nil
  have "link hi (lo + ext xs) = 0"
    using Nil(1) bseg_end by (fastforce simp: link_def)
  then show ?case by (subst find_best.simps) simp
next
  case (Cons b ys)
  obtain n u where b: "b = (n, u)" by (cases b)
  let ?a = "lo + ext xs"
  have hi: "hi = ?a + (n + 24) + ext ys" using Cons.prems(1) bseg_end b by fastforce
  have nz: "link hi ?a \<noteq> 0" "link hi ?a = of_nat ?a"
    using hi Cons.prems(2,3) link_0_iff [of ?a hi] by (simp_all add: link_def)
  have "node m hi (last_ptr q lo xs) ?a (n, u)"
    using Cons.prems(1) b by (simp add: bseg_append)
  then obtain c where c: "m (of_nat ?a) = Some c" "size c = of_nat n" "used c = (if u then 1 else 0)"
    "nxt c = link hi (?a + (n + 24))"
    by (auto simp: node_def split: option.splits)
  have n: "unat (size c) = n" using c hi Cons.prems(3) by (simp add: unat_of_nat_u32)
  have ptr: "of_nat ?a = blk_ptr lo (xs @ b # ys) (Some (length xs))"
    by (simp add: blk_ptr_def blk_addr_def)
  have test: "used c = 0 \<and> sz \<le> size c \<and> size c < bsz \<longleftrightarrow> \<not> u \<and> unat sz \<le> n \<and> n < unat bsz"
    and eq: "size c = sz \<longleftrightarrow> n = unat sz"
    using n c(3) by (auto simp: word_le_nat_alt word_less_nat_alt word_unat_eq_iff)
  have IH: "find_best m sz (link hi (?a + (n + 24))) (blk_ptr lo (xs @ b # ys) best') bsz' =
      Some (Inr (blk_ptr lo (xs @ b # ys) (best_scan (unat sz) (Suc (length xs)) ys best' (unat bsz'))))"
    for best' bsz'
    using Cons.IH [of "xs @ [b]" best' bsz'] Cons.prems b by (simp add: add.assoc)
  show ?case
    using nz c(1,4) IH n
    by (cases u; subst find_best.simps; simp add: test eq b ptr [unfolded b] add.assoc)
qed

text \<open>What the search has established after the blocks \<open>xs\<close>.\<close>

definition scan_inv :: "nat \<Rightarrow> blk list \<Rightarrow> nat option \<Rightarrow> nat \<Rightarrow> bool" where
  "scan_inv req xs best bsz \<longleftrightarrow>
     (case best of
        None \<Rightarrow> (\<forall>b\<in>set xs. snd b \<or> fst b < req)
      | Some i \<Rightarrow> best_fit req xs i \<and> bsz = fst (xs ! i))"

lemma best_fit_snoc_worse:
  "best_fit req xs i \<Longrightarrow> snd b \<or> fst b < req \<or> fst (xs ! i) \<le> fst b \<Longrightarrow> best_fit req (xs @ [b]) i"
  by (auto simp: best_fit_def nth_append less_Suc_eq)

lemma best_fit_snoc_better:
  assumes "\<not> snd b" and "req \<le> fst b" and "\<forall>c\<in>set xs. snd c \<or> fst c < req \<or> fst b < fst c"
  shows "best_fit req (xs @ [b]) (length xs)"
  using assms by (auto simp: best_fit_def nth_append less_Suc_eq dest: nth_mem)

lemma scan_inv_lower:
  assumes "scan_inv req xs (Some i) bsz" and "n < bsz"
  shows "\<forall>c\<in>set xs. snd c \<or> fst c < req \<or> n < fst c"
proof
  fix c assume "c \<in> set xs"
  then obtain k where "k < length xs" "c = xs ! k" by (auto simp: in_set_conv_nth)
  with assms show "snd c \<or> fst c < req \<or> n < fst c"
    by (fastforce simp: scan_inv_def best_fit_def)
qed

lemma best_fit_exact_append:
  assumes "best_fit req xs i" and "fst (xs ! i) = req"
  shows "best_fit req (xs @ ys) i"
  using assms by (auto simp: best_fit_def nth_append)

lemma best_scan_inv:
  assumes "scan_inv req xs best bsz" and "best = None \<Longrightarrow> \<forall>b\<in>set ys. fst b < bsz"
  shows "(case best_scan req (length xs) ys best bsz of
            None \<Rightarrow> \<forall>b\<in>set (xs @ ys). snd b \<or> fst b < req
          | Some i \<Rightarrow> best_fit req (xs @ ys) i)"
  using assms
proof (induction ys arbitrary: xs best bsz)
  case Nil
  then show ?case by (auto simp: scan_inv_def split: option.splits)
next
  case (Cons b ys)
  obtain n u where b: "b = (n, u)" by (cases b)
  show ?case
  proof (cases "\<not> u \<and> req \<le> n \<and> n < bsz")
    case better: True
    have "\<forall>c\<in>set xs. snd c \<or> fst c < req \<or> fst b < fst c"
      using Cons.prems(1) scan_inv_lower [of req xs _ bsz n] better b
      by (cases best) (auto simp: scan_inv_def)
    then have fit: "best_fit req (xs @ [b]) (length xs)"
      using better b by (intro best_fit_snoc_better) auto
    show ?thesis
    proof (cases "n = req")
      case True
      then show ?thesis using best_fit_exact_append [OF fit, of ys] better b by simp
    next
      case False
      have "scan_inv req (xs @ [b]) (Some (length xs)) n" using fit b by (simp add: scan_inv_def)
      from Cons.IH [OF this] False better b show ?thesis by (simp cong: option.case_cong)
    qed
  next
    case worse: False
    have "scan_inv req (xs @ [b]) best bsz"
    proof (cases best)
      case None
      then show ?thesis using Cons.prems worse b by (auto simp: scan_inv_def)
    next
      case (Some i)
      then have fit: "best_fit req xs i" and bsz: "bsz = fst (xs ! i)"
        using Cons.prems(1) by (simp_all add: scan_inv_def)
      have "best_fit req (xs @ [b]) i" using fit bsz worse b by (auto intro!: best_fit_snoc_worse)
      moreover have "i < length xs" using fit by (simp add: best_fit_def)
      ultimately show ?thesis using Some bsz by (simp add: scan_inv_def nth_append)
    qed
    from Cons.IH [OF this] Cons.prems(2) worse b show ?thesis by (auto cong: option.case_cong)
  qed
qed

lemma best_scan_spec:
  assumes "\<forall>b\<in>set bs. fst b < bsz"
  shows "(case best_scan req 0 bs None bsz of
            None \<Rightarrow> \<forall>b\<in>set bs. snd b \<or> fst b < req
          | Some i \<Rightarrow> best_fit req bs i)"
  using best_scan_inv [of req "[]" None bsz bs] assms by (simp add: scan_inv_def cong: option.case_cong)

lemma best_fit_unique: "best_fit req bs i \<Longrightarrow> best_fit req bs j \<Longrightarrow> i = j"
  unfolding best_fit_def by (meson leD linorder_neqE_nat)

section \<open>Splitting and marking\<close>

abbreviation heap_lo :: "heap \<Rightarrow> nat" where "heap_lo h \<equiv> unat (kernel_heap_start h)"
abbreviation heap_hi :: "heap \<Rightarrow> nat" where "heap_hi h \<equiv> unat (kernel_heap_end h)"

lemma heap_hi_lt: "heap_hi h < 2 ^ 32"
  using unsigned_less [of "kernel_heap_end h", where 'a = nat] by simp

lemma heap_rep_bseg: "heap_rep h bs \<Longrightarrow> bseg (hmem h) (heap_hi h) 0 (heap_lo h) bs (heap_hi h)"
  by (simp add: heap_rep_def Let_def)

lemma heap_rep_lo: "heap_rep h bs \<Longrightarrow> 16 \<le> heap_lo h"
  by (simp add: heap_rep_def Let_def)

lemma heap_rep_hi: "heap_rep h bs \<Longrightarrow> heap_hi h = heap_lo h + ext bs"
  using bseg_end heap_rep_bseg by blast

text \<open>A heap seen from one of its blocks, at address \<open>a\<close>, with the rest starting at \<open>e\<close>.\<close>

lemma heap_rep_at:
  assumes rep: "heap_rep h (xs @ (n, u) # ys)" and a: "a = heap_lo h + ext xs" and e: "e = a + (n + 24)"
  shows "16 \<le> a" and "e \<le> heap_hi h" and "a < 2 ^ 32" and "n + 40 < 2 ^ 32"
    and "bseg (hmem h) (heap_hi h) 0 (heap_lo h) xs a"
    and "node (hmem h) (heap_hi h) (last_ptr 0 (heap_lo h) xs) a (n, u)"
    and "bseg (hmem h) (heap_hi h) (of_nat a) e ys (heap_hi h)"
    and "heap_tail h = last_ptr (of_nat a) e ys"
  using heap_rep_bseg [OF rep] heap_rep_lo [OF rep] heap_rep_hi [OF rep] rep heap_hi_lt [of h] a e
  by (auto simp: bseg_append heap_rep_def Let_def)

lemma heap_rep_splice:
  assumes rep: "heap_rep h (xs @ ys)" and zs: "zs \<noteq> []"
    and same: "kernel_heap_start h' = kernel_heap_start h" "kernel_heap_end h' = kernel_heap_end h"
      "heap_head h' = heap_head h"
    and low: "\<And>x. heap_lo h \<le> x \<Longrightarrow> x < heap_lo h + ext xs \<Longrightarrow> hmem h' (of_nat x) = hmem h (of_nat x)"
    and seg: "bseg (hmem h') (heap_hi h) (last_ptr 0 (heap_lo h) xs) (heap_lo h + ext xs) zs (heap_hi h)"
    and tail: "heap_tail h' = last_ptr (last_ptr 0 (heap_lo h) xs) (heap_lo h + ext xs) zs"
  shows "heap_rep h' (xs @ zs)"
proof -
  have "bseg (hmem h) (heap_hi h) 0 (heap_lo h) xs (heap_lo h + ext xs)"
    using heap_rep_bseg [OF rep] by (simp add: bseg_append)
  then have "bseg (hmem h') (heap_hi h) 0 (heap_lo h) xs (heap_lo h + ext xs)"
    by (rule bseg_cong) (use low in auto)
  with seg tail same zs rep show ?thesis by (simp add: heap_rep_def Let_def bseg_append)
qed

lemma node_header:
  assumes "node m hi p a (n, u)"
  obtains c where "m (of_nat a) = Some c" "size c = of_nat n" "used c = (if u then 1 else 0)"
    "magic c = (if u then HEAP_BLOCK_MAGIC else HEAP_BLOCK_FREE_MAGIC)"
    "nxt c = link hi (a + (n + 24))" "prv c = p" "16 \<le> n" "4 dvd n"
  using assms by (auto simp: node_def split: option.splits)

lemma bseg_rest:
  assumes "bseg m hi p e ys hi" and "0 < e" and "hi < 2 ^ 32"
    and "\<And>x. e \<le> x \<Longrightarrow> x < hi \<Longrightarrow> m' (of_nat x) = relink (link hi e) p' m (of_nat x)"
  shows "bseg m' hi p' e ys hi"
  by (rule bseg_cong [OF bseg_relink [OF assms(1-3)]]) (fact assms(4))

lemma bseg_link_dom:
  assumes "bseg m hi p e ys hi" and "link hi e \<noteq> 0"
  shows "m (link hi e) \<noteq> None"
  using assms by (cases ys) (auto simp: link_def node_def split: option.splits if_splits)

lemma set_tail_or_prev_eq:
  assumes "q \<noteq> 0 \<Longrightarrow> hmem h q \<noteq> None"
  shows "set_tail_or_prev q p h =
    Inr (h\<lparr>hmem := relink q p (hmem h), heap_tail := (if q = 0 then p else heap_tail h)\<rparr>)"
  using assms by (auto simp: set_tail_or_prev_def modify_def load_def relink_def)

lemma last_ptr_ne: "ys \<noteq> [] \<Longrightarrow> last_ptr p a ys = last_ptr p' a ys"
  by (simp add: last_ptr_def)

text \<open>The tail pointer after the block before \<open>ys\<close> has been replaced.\<close>

lemma tail_relink:
  assumes "bseg m hi p e ys hi" and "0 < e" and "hi < 2 ^ 32"
  shows "(if link hi e = 0 then p' else last_ptr p e ys) = last_ptr p' e ys"
proof (cases ys)
  case Nil
  with assms show ?thesis by (simp add: link_def)
next
  case (Cons b bs)
  then have "e < hi" using bseg_end [OF assms(1)] by simp
  then have "link hi e \<noteq> 0" using assms link_0_iff [of e hi] by simp
  then show ?thesis using last_ptr_ne [of ys p e p'] Cons by simp
qed

lemma link_below: "e \<le> hi \<Longrightarrow> hi < 2 ^ 32 \<Longrightarrow> 0 < x \<Longrightarrow> x < e \<Longrightarrow> of_nat x \<noteq> link hi e"
  by (auto simp: link_def of_nat_u32_eq of_nat_u32_0)

lemma update_checksum_simps [simp]:
  "magic (update_block_checksum b) = magic b" "size (update_block_checksum b) = size b"
  "used (update_block_checksum b) = used b" "nxt (update_block_checksum b) = nxt b"
  "prv (update_block_checksum b) = prv b"
  by (simp_all add: update_block_checksum_def)

text \<open>The memory after a split, and the chain it holds.\<close>

definition split_mem :: "nat \<Rightarrow> nat \<Rightarrow> u32 \<Rightarrow> heap_block \<Rightarrow> hmem \<Rightarrow> hmem" where
  "split_mem a req q c m =
     (relink q (of_nat (a + (req + 24)))
        (m(of_nat (a + (req + 24)) \<mapsto> update_block_checksum
             \<lparr>magic = HEAP_BLOCK_FREE_MAGIC, size = size c - of_nat req - HDR, used = 0,
              nxt = nxt c, prv = of_nat a, checksum = 0\<rparr>)))
     (of_nat a \<mapsto> update_block_checksum (c\<lparr>size := of_nat req, nxt := of_nat (a + (req + 24))\<rparr>))"

lemma split_mem_chain:
  assumes c: "m (of_nat a) = Some c" and node: "node m hi p a (n, False)"
    and rest: "bseg m hi (of_nat a) (a + (n + 24)) ys hi"
    and "0 < a" "a + (n + 24) \<le> hi" "hi < 2 ^ 32" "16 \<le> req" "4 dvd req" "req + 40 < n"
  shows "bseg (split_mem a req (link hi (a + (n + 24))) c m) hi p a
           ((req, False) # (n - req - 24, False) # ys) hi"
proof -
  let ?new = "a + (req + 24)" and ?e = "a + (n + 24)"
  let ?m = "split_mem a req (link hi ?e) c m"
  obtain hc: "size c = of_nat n" "used c = 0" "magic c = HEAP_BLOCK_FREE_MAGIC" "nxt c = link hi ?e"
      "prv c = p" "4 dvd n" using node c by (auto elim: node_header)
  have ne: "(of_nat ?new :: u32) \<noteq> of_nat a" "of_nat a \<noteq> link hi ?e" "of_nat ?new \<noteq> link hi ?e"
    using assms link_below [of ?e hi a] link_below [of ?e hi ?new] by (simp_all add: of_nat_u32_eq)
  have lk: "link hi ?new = of_nat ?new" using assms by (simp add: link_def)
  have sz: "(of_nat n :: u32) - of_nat req - 24 = of_nat (n - req - 24)"
    using assms by (simp add: of_nat_diff of_nat_add)
  have "node ?m hi p a (req, False)"
    using hc assms lk by (simp add: node_def split_mem_def)
  moreover have "node ?m hi (of_nat a) ?new (n - req - 24, False)"
    using hc assms ne by (simp add: node_def split_mem_def relink_other sz dvd_diff_nat add_ac)
  moreover have "bseg ?m hi (of_nat ?new) ?e ys hi"
  proof (rule bseg_rest [OF rest])
    fix x assume x: "?e \<le> x" "x < hi"
    then have "(of_nat x :: u32) \<noteq> of_nat a" "(of_nat x :: u32) \<noteq> of_nat ?new"
      using assms by (auto simp: of_nat_u32_eq)
    then show "?m (of_nat x) = relink (link hi ?e) (of_nat ?new) m (of_nat x)"
      using ne by (simp add: split_mem_def relink_def)
  qed (use assms in auto)
  ultimately show ?thesis using assms by (simp add: add_ac)
qed

lemma bseg_mark:
  assumes c: "m (of_nat a) = Some c" and seg: "bseg m hi p a ((n, u) # ys) hi" and "hi < 2 ^ 32"
    and mg: "mg = (if v then HEAP_BLOCK_MAGIC else HEAP_BLOCK_FREE_MAGIC)" "us = (if v then 1 else 0)"
  shows "bseg (m(of_nat a \<mapsto> update_block_checksum (c\<lparr>used := us, magic := mg\<rparr>))) hi p a ((n, v) # ys) hi"
proof -
  let ?m = "m(of_nat a \<mapsto> update_block_checksum (c\<lparr>used := us, magic := mg\<rparr>))"
  have rest: "bseg m hi (of_nat a) (a + (n + 24)) ys hi" using seg by simp
  then have e: "a + (n + 24) \<le> hi" using bseg_end by fastforce
  have "bseg ?m hi (of_nat a) (a + (n + 24)) ys hi"
  proof (rule bseg_cong [OF rest])
    fix x assume "a + (n + 24) \<le> x" "x < hi"
    then have "(of_nat x :: u32) \<noteq> of_nat a" using e assms(3) by (simp add: of_nat_u32_eq)
    then show "?m (of_nat x) = m (of_nat x)" by simp
  qed
  moreover have "node ?m hi p a (n, v)" using seg c mg by (simp add: node_def)
  ultimately show ?thesis by simp
qed

text \<open>What a split and the marking of a block leave alone.\<close>

definition split_room :: "nat \<Rightarrow> nat \<Rightarrow> bool" where
  "split_room req n \<longleftrightarrow> req + 40 < n"

lemma split_block_eq:
  assumes rep: "heap_rep h (xs @ (n, False) # ys)" and a: "a = heap_lo h + ext xs"
    and c: "hmem h (of_nat a) = Some c" and "req \<le> n"
  shows "split_block (of_nat a) (of_nat req) h =
    Inr (if split_room req n
         then h\<lparr>hmem := split_mem a req (link (heap_hi h) (a + (n + 24))) c (hmem h),
                heap_tail := last_ptr (of_nat (a + (req + 24))) (a + (n + 24)) ys\<rparr>
         else h)"
proof -
  let ?e = "a + (n + 24)" and ?hi = "heap_hi h" and ?new = "a + (req + 24)"
  note at = heap_rep_at [OF rep a refl]
  have hc: "size c = of_nat n" "nxt c = link ?hi ?e"
    using at(6) c by (auto elim: node_header)
  have cond: "size c > of_nat req + HDR + 16 \<longleftrightarrow> split_room req n"
    using assms(4) at(4) hc
    by (simp add: word_less_nat_alt unat_word_ariths unat_of_nat_u32 split_room_def add.commute [of _ req])
  have new: "of_nat a + HDR + of_nat req = (of_nat ?new :: u32)" by (simp add: of_nat_add)
  show ?thesis
  proof (cases "split_room req n")
    case False
    then show ?thesis using c cond by (simp add: split_block_def load_def)
  next
    case True
    let ?nb = "update_block_checksum
        \<lparr>magic = HEAP_BLOCK_FREE_MAGIC, size = size c - of_nat req - HDR, used = 0,
         nxt = nxt c, prv = of_nat a, checksum = 0\<rparr>"
    let ?m1 = "(hmem h)(of_nat ?new \<mapsto> ?nb)"
    have hi: "?e \<le> ?hi" "?hi < 2 ^ 32" using at heap_hi_lt by simp_all
    have tail: "(if link ?hi ?e = 0 then of_nat ?new else heap_tail h) = last_ptr (of_nat ?new) ?e ys"
      unfolding at(8) by (rule tail_relink [OF at(7) _ hi(2)]) (use at(1) in simp)
    have st: "set_tail_or_prev (link ?hi ?e) (of_nat ?new) (h\<lparr>hmem := ?m1\<rparr>) =
        Inr (h\<lparr>hmem := relink (link ?hi ?e) (of_nat ?new) ?m1, heap_tail := last_ptr (of_nat ?new) ?e ys\<rparr>)"
      using bseg_link_dom [OF at(7)] tail by (subst set_tail_or_prev_eq) auto
    have "relink (link ?hi ?e) (of_nat ?new) ?m1 (of_nat a) = Some c"
      using True hi at(1) c link_below [of ?e ?hi a]
      by (simp add: relink_other of_nat_u32_eq split_room_def)
    then show ?thesis using c cond True st hc
      by (simp add: split_block_def load_def modify_def Let_def new split_mem_def)
  qed
qed

text \<open>The blocks an allocation of \<open>req\<close> bytes puts in place of a free block of \<open>n\<close> bytes.\<close>

definition cut :: "nat \<Rightarrow> nat \<Rightarrow> blk list" where
  "cut req n = (if split_room req n then [(req, True), (n - req - 24, False)] else [(n, True)])"

text \<open>A header passes the check of \<^verbatim>\<open>verify_block_integrity\<close>.\<close>

definition header_ok :: "hmem \<Rightarrow> u32 \<Rightarrow> bool" where
  "header_ok m p = (case m p of None \<Rightarrow> False | Some b \<Rightarrow> verify_block_integrity b)"

lemma verify_update_checksum:
  "verify_block_integrity (update_block_checksum b) \<longleftrightarrow>
     magic b = (if used b \<noteq> 0 then HEAP_BLOCK_MAGIC else HEAP_BLOCK_FREE_MAGIC)"
  by (simp add: verify_block_integrity_def update_block_checksum_def calculate_block_checksum_def)

text \<open>
  What an operation does to the headers: those in \<open>W\<close> are rewritten together with their checksum,
  those in \<open>R\<close> change without it, all others stay.
\<close>

definition touched :: "hmem \<Rightarrow> hmem \<Rightarrow> u32 set \<Rightarrow> u32 set \<Rightarrow> bool" where
  "touched m m' W R \<longleftrightarrow> (\<forall>x. x \<notin> W \<longrightarrow> x \<notin> R \<longrightarrow> m' x = m x) \<and>
     (\<forall>x. x \<notin> W \<longrightarrow> map_option checksum (m' x) = map_option checksum (m x))"

lemma touched_refl: "touched m m W R"
  by (simp add: touched_def)

lemma touched_trans:
  "touched m m' W R \<Longrightarrow> touched m' m'' W' R' \<Longrightarrow> touched m m'' (W \<union> W') (R \<union> R')"
  by (simp add: touched_def)

lemma touched_mono: "touched m m' W R \<Longrightarrow> W \<subseteq> W' \<Longrightarrow> R \<subseteq> R' \<Longrightarrow> touched m m' W' R'"
  by (auto simp: touched_def)

lemma touched_upd: "touched m (m(p \<mapsto> b)) {p} {}"
  by (simp add: touched_def)

lemma touched_relink: "touched m (relink q p m) {} {q}"
  by (auto simp: touched_def relink_def option.map_comp comp_def)

lemma take_block_rep:
  assumes rep: "heap_rep h (xs @ (n, False) # ys)" and a: "a = heap_lo h + ext xs"
    and c: "hmem h (of_nat a) = Some c" and "req \<le> n" and "16 \<le> req" and "4 dvd req"
    and ok: "verify_block_integrity c"
  shows "\<exists>h'. take_block (of_nat a) (of_nat req) h = Inr (of_nat (a + 24), h') \<and>
           heap_rep h' (xs @ cut req n @ ys) \<and> kernel_heap_start h' = kernel_heap_start h \<and>
           kernel_heap_end h' = kernel_heap_end h \<and> stats h' = note_alloc (of_nat req) (stats h) \<and>
           header_ok (hmem h') (of_nat a) \<and>
           (split_room req n \<longrightarrow> header_ok (hmem h') (of_nat (a + (req + 24)))) \<and>
           (\<forall>x. x \<noteq> of_nat a \<and> x \<noteq> of_nat (a + (req + 24)) \<and> x \<noteq> link (heap_hi h) (a + (n + 24)) \<longrightarrow>
              hmem h' x = hmem h x) \<and>
           touched (hmem h) (hmem h') (insert (of_nat a) (if split_room req n then {of_nat (a + (req + 24))} else {})) {link (heap_hi h) (a + (n + 24))}"
proof -
  let ?e = "a + (n + 24)" and ?hi = "heap_hi h" and ?p = "last_ptr 0 (heap_lo h) xs"
  note at = heap_rep_at [OF rep a refl]
  have hi: "?e \<le> ?hi" "?hi < 2 ^ 32" "0 < a" using at heap_hi_lt by simp_all
  obtain h1 where h1: "split_block (of_nat a) (of_nat req) h = Inr h1"
    and h1_def: "h1 = (if split_room req n
         then h\<lparr>hmem := split_mem a req (link ?hi ?e) c (hmem h),
                heap_tail := last_ptr (of_nat (a + (req + 24))) ?e ys\<rparr> else h)"
    using split_block_eq [OF rep a c assms(4)] by blast
  obtain c1 where c1: "hmem h1 (of_nat a) = Some c1"
    using c by (cases "split_room req n") (simp_all add: h1_def split_mem_def)
  let ?zs = "if split_room req n then [(req, False), (n - req - 24, False)] else [(n, False)]"
  have seg: "bseg (hmem h1) ?hi ?p a (?zs @ ys) ?hi"
    using split_mem_chain [OF c at(6,7) hi(3,1,2) assms(5,6)] at(6,7)
    by (simp add: h1_def split_room_def)
  have len: "a + (req + 24) + (n - req - 24 + 24) = ?e" if "split_room req n"
    using that by (simp add: split_room_def)
  have tail: "heap_tail h1 = last_ptr ?p a (cut req n @ ys)"
    using at(8) len by (cases "split_room req n") (simp_all add: h1_def cut_def add.commute [of 24])
  let ?m = "(hmem h1)(of_nat a \<mapsto> update_block_checksum (c1\<lparr>used := 1, magic := HEAP_BLOCK_MAGIC\<rparr>))"
  let ?h = "h1\<lparr>hmem := ?m, stats := note_alloc (of_nat req) (stats h1)\<rparr>"
  have "take_block (of_nat a) (of_nat req) h = Inr (of_nat (a + 24), ?h)"
    using c ok h1 c1 by (simp add: take_block_def load_def modify_def of_nat_add)
  moreover have "bseg ?m ?hi ?p a (cut req n @ ys) ?hi"
    using bseg_mark [where v = True and m = "hmem h1" and a = a, OF c1 _ hi(2) refl refl] seg
    by (cases "split_room req n") (simp_all add: cut_def del: bseg.simps)
  then have "heap_rep ?h (xs @ (cut req n @ ys))"
  proof (intro heap_rep_splice [OF rep])
    fix x assume "heap_lo h \<le> x" "x < heap_lo h + ext xs"
    then have x: "0 < x" "x < a" using heap_rep_lo [OF rep] a by auto
    then have "(of_nat x :: u32) \<noteq> of_nat a" "(of_nat x :: u32) \<noteq> link ?hi ?e"
      "(of_nat x :: u32) \<noteq> of_nat (a + (req + 24))"
      using hi assms(4) link_below [of ?e ?hi x] by (auto simp: of_nat_u32_eq)
    then show "hmem ?h (of_nat x) = hmem h (of_nat x)"
      by (simp add: h1_def split_mem_def relink_other)
  qed (use a tail in \<open>auto simp: h1_def cut_def\<close>)
  moreover have "kernel_heap_start h1 = kernel_heap_start h" "kernel_heap_end h1 = kernel_heap_end h"
    "stats h1 = stats h" by (simp_all add: h1_def)
  moreover have "header_ok ?m (of_nat (a + (req + 24)))" if "split_room req n"
  proof -
    have "(of_nat (a + (req + 24)) :: u32) \<noteq> of_nat a" "of_nat (a + (req + 24)) \<noteq> link ?hi ?e"
      using that hi link_below [of ?e ?hi "a + (req + 24)"] by (simp_all add: of_nat_u32_eq split_room_def)
    then show ?thesis
      using that by (simp add: header_ok_def h1_def split_mem_def relink_other verify_update_checksum)
  qed
  moreover have "header_ok ?m (of_nat a)" by (simp add: header_ok_def verify_update_checksum)
  moreover have "?m x = hmem h x"
    if "x \<noteq> of_nat a" "x \<noteq> of_nat (a + (req + 24))" "x \<noteq> link ?hi ?e" for x
    using that by (simp add: h1_def split_mem_def relink_other)
  moreover have "touched (hmem h) (hmem h1) (insert (of_nat a) (if split_room req n then {of_nat (a + (req + 24))} else {})) {link ?hi ?e}"
  proof (cases "split_room req n")
    case True
    then show ?thesis unfolding h1_def split_mem_def
      using touched_mono [OF touched_trans [OF touched_trans [OF touched_upd touched_relink] touched_upd]] by auto
  qed (simp add: h1_def touched_refl)
  then have "touched (hmem h) ?m (insert (of_nat a) (if split_room req n then {of_nat (a + (req + 24))} else {})) {link ?hi ?e}"
    by (rule touched_mono [OF touched_trans [OF _ touched_upd]]) auto
  ultimately show ?thesis by auto
qed

section \<open>Allocation\<close>

lemma unat_and_minus_4: "unat ((w :: u32) AND - 4) = 4 * (unat w div 4)"
proof -
  have m: "NOT (mask 2) = (- 4 :: u32)" by (simp add: mask_eq_exp_minus_1)
  have lt: "unat w < 2 ^ 32" using unsigned_less [of w, where 'a = nat] by simp
  have "unat (w AND - 4) = unat (push_bit 2 (drop_bit 2 w))" using and_not_mask [of w 2] m by simp
  also have "\<dots> = (4 * (unat w div 4)) mod 2 ^ 32"
    using lt by (simp add: push_bit_eq_mult drop_bit_eq_div unat_word_ariths unat_div_distrib mult.commute)
  finally show ?thesis using lt by simp
qed

lemma round_size_props: "16 \<le> unat (round_size r)" "4 dvd unat (round_size r)"
  by (simp_all add: round_size_def Let_def unat_and_minus_4 word_less_nat_alt not_less)

lemma round_size_exact:
  assumes "r \<le> 0xFFFFFFFC"
  shows "unat (round_size r) = max 16 (4 * ((unat r + 3) div 4))"
proof -
  have "unat (r + 3) = unat r + 3" using assms by (simp add: unat_word_ariths word_le_nat_alt)
  then show ?thesis by (simp add: round_size_def Let_def unat_and_minus_4 word_less_nat_alt)
qed

lemma round_size_ge: "r \<le> 0xFFFFFFFC \<Longrightarrow> unat r \<le> unat (round_size r)"
  by (simp add: round_size_exact le_max_iff_disj) presburger

lemma heap_rep_sizes:
  assumes "heap_rep h bs" and "b \<in> set bs"
  shows "fst b + 40 < 2 ^ 32"
proof -
  from assms(2) obtain xs ys where "bs = xs @ b # ys" by (auto simp: in_set_conv_decomp)
  with heap_rep_at(4) [of h xs "fst b" "snd b" ys] assms(1) show ?thesis by simp
qed

lemma heap_rep_nth:
  assumes "heap_rep h bs" and "i < length bs"
  obtains c where "hmem h (of_nat (blk_addr (heap_lo h) bs i)) = Some c" "size c = of_nat (fst (bs ! i))"
    "used c = (if snd (bs ! i) then 1 else 0)"
    "magic c = (if snd (bs ! i) then HEAP_BLOCK_MAGIC else HEAP_BLOCK_FREE_MAGIC)"
proof -
  have "heap_rep h (take i bs @ (fst (bs ! i), snd (bs ! i)) # drop (Suc i) bs)"
    using assms id_take_nth_drop [OF assms(2)] by simp
  from heap_rep_at(6) [OF this refl refl] that show ?thesis
    by (auto simp: blk_addr_def simp del: prod.collapse elim!: node_header)
qed

lemma blk_ptr_ne_0:
  assumes "heap_rep h bs" and "i < length bs"
  shows "(of_nat (blk_addr (heap_lo h) bs i) :: u32) \<noteq> 0"
proof -
  have "heap_rep h (take i bs @ (fst (bs ! i), snd (bs ! i)) # drop (Suc i) bs)"
    using assms id_take_nth_drop [OF assms(2)] by simp
  from heap_rep_at(1,3) [OF this refl refl] show ?thesis
    by (subst of_nat_u32_0) (auto simp: blk_addr_def)
qed

lemma heap_search:
  assumes "heap_rep h bs"
  shows "find_best (hmem h) sz (heap_head h) 0 SIZE_MAX =
    Some (Inr (blk_ptr (heap_lo h) bs (best_scan (unat sz) 0 bs None (2 ^ 32 - 1))))"
proof -
  have "heap_lo h < heap_hi h"
    using heap_rep_hi [OF assms] assms by (cases bs) (auto simp: heap_rep_def Let_def)
  then have "heap_head h = link (heap_hi h) (heap_lo h)"
    using assms by (simp add: heap_rep_def Let_def link_def)
  then show ?thesis
    using find_best_scan [of "hmem h" "heap_hi h" 0 "heap_lo h" "[]" bs sz None SIZE_MAX]
      heap_rep_bseg [OF assms] heap_rep_lo [OF assms] heap_hi_lt [of h]
    by (simp add: blk_ptr_def unat_max_u32)
qed

lemma kmalloc_cases:
  assumes rep: "heap_rep h bs" and "r \<noteq> 0" and req: "req = unat (round_size r)"
  shows "if \<forall>b\<in>set bs. snd b \<or> fst b < req
         then kmalloc r h = Some (Inr (0, h\<lparr>stats := (stats h)\<lparr>fragmentation_count := fragmentation_count (stats h) + 1\<rparr>\<rparr>))
         else \<exists>i. best_fit req bs i \<and>
           kmalloc r h = Some (take_block (of_nat (blk_addr (heap_lo h) bs i)) (of_nat req) h)"
proof -
  let ?s = "best_scan req 0 bs None (2 ^ 32 - 1)"
  have "\<forall>b\<in>set bs. fst b < 2 ^ 32 - 1" using heap_rep_sizes [OF rep] by fastforce
  note spec = best_scan_spec [OF this, of req]
  have run: "find_best (hmem h) (round_size r) (heap_head h) 0 SIZE_MAX = Some (Inr (blk_ptr (heap_lo h) bs ?s))"
    using heap_search [OF rep] req by simp
  show ?thesis
  proof (cases ?s)
    case None
    with spec run assms(2) show ?thesis by (simp add: kmalloc_def Let_def blk_ptr_def)
  next
    case (Some i)
    then have fit: "best_fit req bs i" using spec by simp
    then have "i < length bs" and "\<not> (\<forall>b\<in>set bs. snd b \<or> fst b < req)"
      by (auto simp: best_fit_def dest!: nth_mem bspec [of _ _ "bs ! i"])
    with fit Some run assms(2) blk_ptr_ne_0 [OF rep, of i] req show ?thesis
      by (auto simp: kmalloc_def Let_def blk_ptr_def)
  qed
qed

section \<open>Freeing\<close>

lemma absorb_rep:
  assumes rep: "heap_rep h (xs @ (n1, u1) # (n2, u2) # ys)" and a: "a = heap_lo h + ext xs"
  shows "\<exists>h'. absorb (of_nat a) (of_nat (a + (n1 + 24))) h = Inr h' \<and>
           heap_rep h' (xs @ (n1 + (n2 + 24), u1) # ys) \<and>
           kernel_heap_start h' = kernel_heap_start h \<and> kernel_heap_end h' = kernel_heap_end h \<and>
           stats h' = stats h \<and> (\<forall>x. 0 < x \<and> x < a \<longrightarrow> hmem h' (of_nat x) = hmem h (of_nat x)) \<and>
           touched (hmem h) (hmem h') {of_nat a} {link (heap_hi h) (a + (n1 + (n2 + 24) + 24))} \<and>
           header_ok (hmem h') (of_nat a)"
proof -
  let ?hi = "heap_hi h" and ?q = "a + (n1 + 24)" and ?p = "last_ptr 0 (heap_lo h) xs"
  let ?e = "?q + (n2 + 24)"
  note at1 = heap_rep_at [OF rep a refl]
  have rep2: "heap_rep h ((xs @ [(n1, u1)]) @ (n2, u2) # ys)" using rep by simp
  have q: "?q = heap_lo h + ext (xs @ [(n1, u1)])" using a by simp
  note at2 = heap_rep_at [OF rep2 q refl]
  have hi: "?e \<le> ?hi" "?hi < 2 ^ 32" "0 < a" using at1(1) at2(2) heap_hi_lt by simp_all
  obtain c where c: "hmem h (of_nat a) = Some c" "size c = of_nat n1" "used c = (if u1 then 1 else 0)"
      "magic c = (if u1 then HEAP_BLOCK_MAGIC else HEAP_BLOCK_FREE_MAGIC)" "prv c = ?p" "16 \<le> n1" "4 dvd n1"
    using at1(6) by (rule node_header)
  obtain d where d: "hmem h (of_nat ?q) = Some d" "size d = of_nat n2" "nxt d = link ?hi ?e" "4 dvd n2"
    using at2(6) by (rule node_header)
  have ne: "(of_nat a :: u32) \<noteq> link ?hi ?e" using hi link_below [of ?e ?hi a] by simp
  let ?c = "c\<lparr>size := size c + (size d + HDR), nxt := nxt d\<rparr>"
  let ?m = "(relink (link ?hi ?e) (of_nat a) ((hmem h)(of_nat a \<mapsto> ?c)))(of_nat a \<mapsto> update_block_checksum ?c)"
  let ?h = "h\<lparr>hmem := ?m, heap_tail := last_ptr (of_nat a) ?e ys\<rparr>"
  have tail: "(if link ?hi ?e = 0 then of_nat a else heap_tail h) = last_ptr (of_nat a) ?e ys"
    unfolding at2(8) by (rule tail_relink [OF at2(7) _ hi(2)]) simp
  have "set_tail_or_prev (link ?hi ?e) (of_nat a) (h\<lparr>hmem := (hmem h)(of_nat a \<mapsto> ?c)\<rparr>) =
      Inr (h\<lparr>hmem := relink (link ?hi ?e) (of_nat a) ((hmem h)(of_nat a \<mapsto> ?c)),
             heap_tail := last_ptr (of_nat a) ?e ys\<rparr>)"
    using bseg_link_dom [OF at2(7)] tail by (subst set_tail_or_prev_eq) auto
  then have run: "absorb (of_nat a) (of_nat ?q) h = Inr ?h"
    using c d ne by (simp add: absorb_def load_def modify_def relink_other)
  have node: "node ?m ?hi ?p a (n1 + (n2 + 24), u1)"
    using c d by (simp add: node_def of_nat_add add_ac)
  have "bseg ?m ?hi (of_nat a) ?e ys ?hi"
  proof (rule bseg_rest [OF at2(7)])
    fix x assume "?e \<le> x" "x < ?hi"
    then have "(of_nat x :: u32) \<noteq> of_nat a" using hi by (simp add: of_nat_u32_eq)
    then show "?m (of_nat x) = relink (link ?hi ?e) (of_nat a) (hmem h) (of_nat x)"
      by (simp add: relink_def)
  qed (use hi in auto)
  then have seg: "bseg ?m ?hi ?p a ((n1 + (n2 + 24), u1) # ys) ?hi" using node by (simp add: add_ac)
  have low: "?m (of_nat x) = hmem h (of_nat x)" if "0 < x" "x < a" for x
  proof -
    have "(of_nat x :: u32) \<noteq> of_nat a" "(of_nat x :: u32) \<noteq> link ?hi ?e"
      using hi that link_below [of ?e ?hi x] by (auto simp: of_nat_u32_eq)
    then show ?thesis by (simp add: relink_other)
  qed
  have "heap_rep ?h (xs @ (n1 + (n2 + 24), u1) # ys)"
    by (rule heap_rep_splice [OF rep]) (use seg low heap_rep_lo [OF rep] a in \<open>auto simp: add_ac\<close>)
  moreover have "touched (hmem h) ?m {of_nat a} {link ?hi ?e}"
    by (rule touched_mono [OF touched_trans [OF touched_trans [OF touched_upd touched_relink] touched_upd]]) auto
  moreover have "header_ok ?m (of_nat a)" using c by (simp add: header_ok_def verify_update_checksum)
  ultimately show ?thesis using run low by (auto simp: add_ac)
qed

text \<open>Coalescing on the abstract view; \<open>ok\<close> says that the neighbour's header passes the check.\<close>

definition merge_next :: "bool \<Rightarrow> nat \<Rightarrow> blk list \<Rightarrow> nat \<times> blk list" where
  "merge_next ok n ys =
     (if ok \<and> ys \<noteq> [] \<and> \<not> snd (hd ys) then (n + (fst (hd ys) + 24), tl ys) else (n, ys))"

definition merge_prev :: "bool \<Rightarrow> blk list \<Rightarrow> nat \<Rightarrow> blk list \<times> nat" where
  "merge_prev ok xs n =
     (if ok \<and> xs \<noteq> [] \<and> \<not> snd (last xs) then (butlast xs, fst (last xs) + (n + 24)) else (xs, n))"

lemma coalesce_next_rep:
  assumes rep: "heap_rep h (xs @ (n, u) # ys)" and a: "a = heap_lo h + ext xs"
    and m: "(n', ys') = merge_next (header_ok (hmem h) (of_nat (a + (n + 24)))) n ys"
  shows "\<exists>h'. coalesce_next (of_nat a) h = Inr h' \<and> heap_rep h' (xs @ (n', u) # ys') \<and>
           kernel_heap_start h' = kernel_heap_start h \<and> kernel_heap_end h' = kernel_heap_end h \<and>
           stats h' = stats h \<and> (\<forall>x. 0 < x \<and> x < a \<longrightarrow> hmem h' (of_nat x) = hmem h (of_nat x)) \<and>
           touched (hmem h) (hmem h') {of_nat a} {link (heap_hi h) (a + (n' + 24))} \<and>
           (header_ok (hmem h) (of_nat a) \<longrightarrow> header_ok (hmem h') (of_nat a))"
proof -
  let ?e = "a + (n + 24)"
  note at = heap_rep_at [OF rep a refl]
  obtain c where c: "hmem h (of_nat a) = Some c" "nxt c = link (heap_hi h) ?e"
    using at(6) by (rule node_header)
  show ?thesis
  proof (cases ys)
    case Nil
    then have "link (heap_hi h) ?e = 0" using at(7) by (simp add: link_def)
    then show ?thesis using c rep m Nil
      by (simp add: coalesce_next_def load_def can_absorb_def merge_next_def touched_refl)
  next
    case (Cons b zs)
    obtain n2 u2 where b: "b = (n2, u2)" by (cases b)
    have "heap_hi h = ?e + ext ys" using bseg_end [OF at(7)] .
    then have l: "link (heap_hi h) ?e = of_nat ?e" "(of_nat ?e :: u32) \<noteq> 0"
      using Cons heap_hi_lt [of h] of_nat_u32_0 [of ?e] by (simp_all add: link_def)
    obtain d where d: "hmem h (of_nat ?e) = Some d" "used d = (if u2 then 1 else 0)"
      using at(7) Cons b by (auto elim: node_header)
    show ?thesis
    proof (cases "u2 \<or> \<not> verify_block_integrity d")
      case True
      then show ?thesis using c d l rep m Cons b
        by (auto simp: coalesce_next_def load_def can_absorb_def merge_next_def header_ok_def touched_refl)
    next
      case False
      then show ?thesis using absorb_rep [of h xs n u n2 u2 zs, OF _ a] c d l rep m Cons b
        by (auto simp: coalesce_next_def load_def can_absorb_def merge_next_def header_ok_def)
    qed
  qed
qed

lemma coalesce_prev_rep:
  assumes rep: "heap_rep h (xs @ (n, False) # ys)" and a: "a = heap_lo h + ext xs"
    and m: "(xs', n') = merge_prev (header_ok (hmem h) (last_ptr 0 (heap_lo h) xs)) xs n"
  shows "\<exists>h'. coalesce_prev (of_nat a) h = Inr h' \<and> heap_rep h' (xs' @ (n', False) # ys) \<and>
           kernel_heap_start h' = kernel_heap_start h \<and> kernel_heap_end h' = kernel_heap_end h \<and>
           stats h' = stats h \<and>
           touched (hmem h) (hmem h') (if xs' = xs then {} else {last_ptr 0 (heap_lo h) xs})
             {link (heap_hi h) (a + (n + 24))} \<and>
           (header_ok (hmem h) (of_nat a) \<longrightarrow> header_ok (hmem h') (of_nat (heap_lo h + ext xs')))"
proof -
  note at = heap_rep_at [OF rep a refl]
  obtain c where c: "hmem h (of_nat a) = Some c" "prv c = last_ptr 0 (heap_lo h) xs"
    using at(6) by (rule node_header)
  show ?thesis
  proof (cases xs rule: rev_cases)
    case Nil
    then show ?thesis using c rep m a
      by (simp add: coalesce_prev_def load_def can_absorb_def merge_prev_def touched_refl)
  next
    case (snoc ws b)
    obtain n0 u0 where b: "b = (n0, u0)" by (cases b)
    let ?q = "heap_lo h + ext ws"
    have rep0: "heap_rep h (ws @ (n0, u0) # (n, False) # ys)" using rep snoc b by simp
    note at0 = heap_rep_at [OF rep0 refl refl]
    have aq: "a = ?q + (n0 + 24)" using a snoc b by simp
    have l: "last_ptr 0 (heap_lo h) xs = of_nat ?q" "(of_nat ?q :: u32) \<noteq> 0"
      using snoc b at0(1,3) of_nat_u32_0 [of ?q] by auto
    obtain d where d: "hmem h (of_nat ?q) = Some d" "used d = (if u0 then 1 else 0)"
      using at0(6) by (rule node_header)
    show ?thesis
    proof (cases "u0 \<or> \<not> verify_block_integrity d")
      case True
      then have "coalesce_prev (of_nat a) h = Inr h" "xs' = xs" "n' = n"
        using c d l m snoc b
        by (auto simp: coalesce_prev_def load_def can_absorb_def merge_prev_def header_ok_def)
      then show ?thesis using rep a by (simp add: touched_refl)
    next
      case False
      then have run: "coalesce_prev (of_nat a) h = absorb (of_nat ?q) (of_nat (?q + (n0 + 24))) h"
        using c d l aq by (simp add: coalesce_prev_def load_def can_absorb_def)
      have eq: "xs' = ws" "n' = n0 + (n + 24)"
        using False d l m snoc b by (auto simp: merge_prev_def header_ok_def)
      have e: "?q + (n0 + (n + 24) + 24) = a + (n + 24)" using aq by simp
      have "xs' \<noteq> xs" using eq(1) snoc by simp
      with absorb_rep [OF rep0 refl, unfolded e] False show ?thesis unfolding run eq l(1) by auto
    qed
  qed
qed

text \<open>Freeing block \<open>i\<close> of the abstract heap; \<open>okn\<close> and \<open>okp\<close> are the checks of its neighbours.\<close>

definition abs_free :: "bool \<Rightarrow> bool \<Rightarrow> nat \<Rightarrow> blk list \<Rightarrow> blk list" where
  "abs_free okn okp i bs =
     (let (n, ys) = merge_next okn (fst (bs ! i)) (drop (Suc i) bs);
          (xs, n) = merge_prev okp (take i bs) n
      in xs @ (n, False) # ys)"

lemma mark_free_rep:
  assumes rep: "heap_rep h (xs @ (n, u) # ys)" and a: "a = heap_lo h + ext xs"
    and c: "hmem h (of_nat a) = Some c"
  shows "heap_rep (h\<lparr>hmem := (hmem h)(of_nat a \<mapsto> update_block_checksum (c\<lparr>used := 0, magic := HEAP_BLOCK_FREE_MAGIC\<rparr>))\<rparr>)
           (xs @ (n, False) # ys)"
proof (rule heap_rep_splice [OF rep])
  note at = heap_rep_at [OF rep a refl]
  let ?m = "(hmem h)(of_nat a \<mapsto> update_block_checksum (c\<lparr>used := 0, magic := HEAP_BLOCK_FREE_MAGIC\<rparr>))"
  let ?h = "h\<lparr>hmem := ?m\<rparr>"
  have "bseg ?m (heap_hi h) (last_ptr 0 (heap_lo h) xs) a ((n, False) # ys) (heap_hi h)"
    using bseg_mark [where v = False and m = "hmem h" and a = a, OF c _ heap_hi_lt refl refl] at(6,7)
    by (simp del: bseg.simps add: bseg.simps(2) [of "hmem h"])
  then show "bseg (hmem ?h) (heap_hi h) (last_ptr 0 (heap_lo h) xs) (heap_lo h + ext xs) ((n, False) # ys) (heap_hi h)"
    using a by simp
  show "heap_tail ?h = last_ptr (last_ptr 0 (heap_lo h) xs) (heap_lo h + ext xs) ((n, False) # ys)"
    using at(8) a by simp
  fix x assume "heap_lo h \<le> x" "x < heap_lo h + ext xs"
  then have "(of_nat x :: u32) \<noteq> of_nat a" using at(3) a by (subst of_nat_u32_eq) auto
  then show "hmem ?h (of_nat x) = hmem h (of_nat x)" by simp
qed simp_all

text \<open>Marking a block free leaves the check of its neighbours as it was.\<close>

lemma header_ok_mark:
  assumes "x < 2 ^ 32" and "a < 2 ^ 32" and "x \<noteq> a"
  shows "header_ok (m(of_nat a \<mapsto> b)) (of_nat x) = header_ok m (of_nat x)"
  using assms by (simp add: header_ok_def of_nat_u32_eq)

lemma ext_butlast: "xs \<noteq> [] \<Longrightarrow> ext xs = ext (butlast xs) + (fst (last xs) + 24)"
  using append_butlast_last_id [of xs] by (metis add.right_neutral ext_simps(1,2,3))

lemma kfree_at:
  assumes rep: "heap_rep h (xs @ (n, True) # ys)" and a: "a = heap_lo h + ext xs"
    and c: "hmem h (of_nat a) = Some c" and ok: "verify_block_integrity c"
    and m1: "(n1, ys1) = merge_next (header_ok (hmem h) (of_nat (a + (n + 24)))) n ys"
    and m2: "(xs2, n2) = merge_prev (header_ok (hmem h) (last_ptr 0 (heap_lo h) xs)) xs n1"
  shows "\<exists>h'. kfree (of_nat (a + 24)) h = Inr h' \<and> heap_rep h' (xs2 @ (n2, False) # ys1) \<and>
    kernel_heap_start h' = kernel_heap_start h \<and> kernel_heap_end h' = kernel_heap_end h \<and>
    stats h' = note_free (of_nat n) (stats h) \<and> header_ok (hmem h') (of_nat (heap_lo h + ext xs2)) \<and>
    touched (hmem h) (hmem h') (insert (of_nat a) (if xs2 = xs then {} else {last_ptr 0 (heap_lo h) xs}))
      {link (heap_hi h) (a + (n1 + 24))}"
proof -
  note at = heap_rep_at [OF rep a refl]
  have hc: "size c = of_nat n" "used c = 1" using at(6) c by (auto elim: node_header)
  let ?c = "update_block_checksum (c\<lparr>used := 0, magic := HEAP_BLOCK_FREE_MAGIC\<rparr>)"
  let ?h0 = "h\<lparr>hmem := (hmem h)(of_nat a \<mapsto> ?c)\<rparr>"
  have r0: "heap_rep ?h0 (xs @ (n, False) # ys)" by (rule mark_free_rep [OF rep a c])
  have "a + (n + 24) < 2 ^ 32" using bseg_end [OF at(7)] heap_hi_lt [of h] by linarith
  then have "(n1, ys1) = merge_next (header_ok (hmem ?h0) (of_nat (a + (n + 24)))) n ys"
    using m1 at(3) by (simp add: header_ok_mark)
  from coalesce_next_rep [OF r0 _ this] a obtain h1 where h1: "coalesce_next (of_nat a) ?h0 = Inr h1"
    "heap_rep h1 (xs @ (n1, False) # ys1)" "kernel_heap_start h1 = kernel_heap_start h"
    "kernel_heap_end h1 = kernel_heap_end h" "stats h1 = stats h"
    "\<forall>x. 0 < x \<and> x < a \<longrightarrow> hmem h1 (of_nat x) = hmem ?h0 (of_nat x)"
    "touched (hmem ?h0) (hmem h1) {of_nat a} {link (heap_hi h) (a + (n1 + 24))}" "header_ok (hmem h1) (of_nat a)"
    by (auto simp: header_ok_def verify_update_checksum)
  have "header_ok (hmem h1) (last_ptr 0 (heap_lo h) xs) = header_ok (hmem h) (last_ptr 0 (heap_lo h) xs)" if "xs \<noteq> []"
  proof -
    let ?x = "heap_lo h + ext (butlast xs)"
    have "0 < ?x" "?x < a" using ext_butlast [OF that] a heap_rep_lo [OF rep] by simp_all
    then show ?thesis using h1(6) that header_ok_mark [of ?x a] at(3) by (simp add: header_ok_def last_ptr_def)
  qed
  then have m2': "(xs2, n2) = merge_prev (header_ok (hmem h1) (last_ptr 0 (heap_lo h1) xs)) xs n1"
    using m2 h1(3) by (cases "xs = []") (simp_all add: merge_prev_def)
  have a1: "a = heap_lo h1 + ext xs" using a h1(3) by simp
  from coalesce_prev_rep [OF h1(2) a1 m2', unfolded h1(3,4,5)] obtain h2 where h2: "coalesce_prev (of_nat a) h1 = Inr h2"
    "heap_rep h2 (xs2 @ (n2, False) # ys1)" "kernel_heap_start h2 = kernel_heap_start h"
    "kernel_heap_end h2 = kernel_heap_end h" "stats h2 = stats h"
    "touched (hmem h1) (hmem h2) (if xs2 = xs then {} else {last_ptr 0 (heap_lo h) xs}) {link (heap_hi h) (a + (n1 + 24))}"
    "header_ok (hmem h2) (of_nat (heap_lo h + ext xs2))" using h1(8) by blast
  have "(of_nat (a + 24) :: u32) \<noteq> 0" using at(2) heap_hi_lt [of h] by (subst of_nat_u32_0) auto
  moreover have "of_nat (a + 24) - HDR = (of_nat a :: u32)" by (simp add: of_nat_add)
  ultimately have "kfree (of_nat (a + 24)) h = Inr (h2\<lparr>stats := note_free (of_nat n) (stats h)\<rparr>)"
    using c ok hc h1(1) h2 by (simp add: kfree_def Let_def load_def modify_def)
  moreover have "heap_rep (h2\<lparr>stats := note_free (of_nat n) (stats h)\<rparr>) (xs2 @ (n2, False) # ys1)"
    using h2(2) by (simp add: heap_rep_def)
  moreover have "touched (hmem h) (hmem h2) (insert (of_nat a) (if xs2 = xs then {} else {last_ptr 0 (heap_lo h) xs}))
      {link (heap_hi h) (a + (n1 + 24))}"
    by (rule touched_mono [OF touched_trans [OF touched_trans [OF touched_upd h1(7) [simplified]] h2(6)]]) auto
  ultimately show ?thesis using h2 by auto
qed

lemma kfree_rep:
  assumes rep: "heap_rep h bs" and i: "i < length bs" "snd (bs ! i)"
    and a: "a = blk_addr (heap_lo h) bs i" and c: "hmem h (of_nat a) = Some c"
    and ok: "verify_block_integrity c"
  shows "\<exists>h'. kfree (of_nat (a + 24)) h = Inr h' \<and>
           heap_rep h' (abs_free (header_ok (hmem h) (of_nat (blk_addr (heap_lo h) bs (Suc i))))
                          (header_ok (hmem h) (last_ptr 0 (heap_lo h) (take i bs))) i bs) \<and>
           kernel_heap_start h' = kernel_heap_start h \<and> kernel_heap_end h' = kernel_heap_end h \<and>
           stats h' = note_free (of_nat (fst (bs ! i))) (stats h)"
proof -
  let ?xs = "take i bs" and ?ys = "drop (Suc i) bs" and ?lo = "heap_lo h"
  obtain n where n: "bs ! i = (n, True)" using i by (cases "bs ! i") auto
  have bs: "bs = ?xs @ (n, True) # ?ys" using id_take_nth_drop [OF i(1)] n by simp
  have a': "a = ?lo + ext ?xs" using a by (simp add: blk_addr_def)
  have e: "blk_addr ?lo bs (Suc i) = a + (n + 24)"
    using a' n i by (simp add: blk_addr_def take_Suc_conv_app_nth add_ac)
  have rep': "heap_rep h (?xs @ (n, True) # ?ys)" using rep bs by simp
  obtain n1 ys1 where m1: "(n1, ys1) = merge_next (header_ok (hmem h) (of_nat (a + (n + 24)))) n ?ys"
    by (metis surj_pair)
  obtain xs2 n2 where m2: "(xs2, n2) = merge_prev (header_ok (hmem h) (last_ptr 0 ?lo ?xs)) ?xs n1"
    by (metis surj_pair)
  have "abs_free (header_ok (hmem h) (of_nat (a + (n + 24)))) (header_ok (hmem h) (last_ptr 0 ?lo ?xs)) i bs =
      xs2 @ (n2, False) # ys1"
    using m1 [symmetric] m2 [symmetric] n by (simp add: abs_free_def)
  with kfree_at [OF rep' a' c ok m1 m2] e n show ?thesis by auto
qed

end
