(* ===== verification/Solix_Alloc.thy ===== *)
theory Solix_Alloc
  imports Solix_Heap "HOL-Library.Disjoint_Sets"
begin

text \<open>
  What \<^verbatim>\<open>kmalloc\<close> and \<^verbatim>\<open>kfree\<close> promise to the rest of the kernel. A heap is seen as the set of
  its live regions (address and length of the payloads handed out); the contract of an allocator
  of regions is the locale \<open>region_allocator\<close>, and the heap of \<open>Solix_Heap\<close> is its
  interpretation. The properties of the heap follow, with the sequence of calls on which the
  checksums of the headers go stale.
\<close>

declare of_nat_add [simp del]

section \<open>Live regions\<close>

type_synonym region = "nat \<times> nat"

definition region_of :: "region \<Rightarrow> nat set" where
  "region_of r = {fst r ..< fst r + snd r}"

fun live_at :: "nat \<Rightarrow> blk list \<Rightarrow> region set" where
  "live_at a [] = {}"
| "live_at a ((n, u) # bs) = (if u then {(a + 24, n)} else {}) \<union> live_at (a + (n + 24)) bs"

definition heap_live :: "heap \<Rightarrow> region set \<Rightarrow> bool" where
  "heap_live h L \<longleftrightarrow> (\<exists>bs. heap_rep h bs \<and> L = live_at (heap_lo h) bs)"

text \<open>Successive calls of an allocator, with the pointers they return.\<close>

fun malloc_seq :: "(u32 \<Rightarrow> 's \<Rightarrow> (fault + u32 \<times> 's) option) \<Rightarrow> u32 list \<Rightarrow> 's \<Rightarrow> (fault + u32 list \<times> 's) option" where
  "malloc_seq alloc [] s = Some (Inr ([], s))"
| "malloc_seq alloc (r # rs) s =
     (case alloc r s of
        None \<Rightarrow> None
      | Some (Inl e) \<Rightarrow> Some (Inl e)
      | Some (Inr (p, s')) \<Rightarrow>
          map_option (\<lambda>res. bind_res res (\<lambda>(ps, t). Inr (p # ps, t))) (malloc_seq alloc rs s'))"

section \<open>The contract of a region allocator\<close>

locale region_allocator =
  fixes rep :: "'s \<Rightarrow> region set \<Rightarrow> bool"
    and alloc :: "u32 \<Rightarrow> 's \<Rightarrow> (fault + u32 \<times> 's) option"
    and release :: "u32 \<Rightarrow> 's \<Rightarrow> fault + 's"
  assumes live_disjoint: "rep s L \<Longrightarrow> disjoint_family_on region_of L"
    and live_bound: "rep s L \<Longrightarrow> x \<in> L \<Longrightarrow> 0 < fst x \<and> fst x + snd x < 2 ^ 32"
    and alloc_returns: "rep s L \<Longrightarrow> alloc r s \<noteq> None"
    and alloc_panic: "rep s L \<Longrightarrow> alloc r s = Some (Inl e) \<Longrightarrow> \<exists>msg. e = Panic msg"
    and alloc_null: "rep s L \<Longrightarrow> alloc r s = Some (Inr (0, t)) \<Longrightarrow> rep t L"
    and alloc_region: "rep s L \<Longrightarrow> alloc r s = Some (Inr (p, t)) \<Longrightarrow> p \<noteq> 0 \<Longrightarrow> r \<le> 0xFFFFFFFC \<Longrightarrow>
      \<exists>n\<ge>unat r. unat p \<notin> fst ` L \<and> rep t (insert (unat p, n) L)"
    and release_region: "rep s L \<Longrightarrow> (unat p, n) \<in> L \<Longrightarrow> release p s = Inr t \<Longrightarrow> rep t (L - {(unat p, n)})"
    and release_panic: "rep s L \<Longrightarrow> (unat p, n) \<in> L \<Longrightarrow> release p s = Inl e \<Longrightarrow> \<exists>msg. e = Panic msg"
begin

lemma alloc_fresh_region:
  assumes "rep s L" and "alloc r s = Some (Inr (p, t))" and "p \<noteq> 0" and "r \<le> 0xFFFFFFFC"
  shows "\<exists>n\<ge>unat r. unat p + n < 2 ^ 32 \<and> rep t (insert (unat p, n) L) \<and> unat p \<notin> fst ` L \<and>
           (\<forall>q\<in>L. region_of (unat p, n) \<inter> region_of q = {})"
proof -
  obtain n where n: "unat r \<le> n" "unat p \<notin> fst ` L" "rep t (insert (unat p, n) L)"
    using alloc_region [OF assms] by blast
  then have "(unat p, n) \<notin> L" by force
  then have "\<forall>q\<in>L. region_of (unat p, n) \<inter> region_of q = {}"
    using live_disjoint [OF n(3)] by (auto simp: disjoint_family_on_def)
  with n live_bound [OF n(3), of "(unat p, n)"] show ?thesis by auto
qed

lemma alloc_release_live:
  assumes "rep s L" and "alloc r s = Some (Inr (p, t))" and "p \<noteq> 0" and "r \<le> 0xFFFFFFFC"
    and "release p t = Inr u"
  shows "rep u L"
proof -
  obtain n where n: "unat p \<notin> fst ` L" "rep t (insert (unat p, n) L)"
    using alloc_region [OF assms(1-4)] by blast
  then have "insert (unat p, n) L - {(unat p, n)} = L" by force
  with release_region [OF n(2) insertI1 assms(5)] show ?thesis by simp
qed

text \<open>
  The regions of a whole sequence of allocations are live together, at different addresses, and
  hence disjoint.
\<close>

lemma malloc_seq_live:
  assumes "rep s L" and "malloc_seq alloc rs s = Some (Inr (ps, t))" and "\<forall>r\<in>set rs. r \<le> 0xFFFFFFFC"
  shows "\<exists>M. rep t M \<and> L \<subseteq> M \<and> distinct (filter (\<lambda>p. p \<noteq> 0) ps) \<and>
           list_all2 (\<lambda>r p. p \<noteq> 0 \<longrightarrow> unat p \<notin> fst ` L \<and> (\<exists>n\<ge>unat r. (unat p, n) \<in> M)) rs ps"
  using assms
proof (induction rs arbitrary: s L ps)
  case Nil
  then show ?case by auto
next
  case (Cons r rs)
  from Cons.prems(2) obtain p s' ps' where a: "alloc r s = Some (Inr (p, s'))"
    and q: "malloc_seq alloc rs s' = Some (Inr (ps', t))" and ps: "ps = p # ps'"
    by (auto simp: bind_res_Inr_iff split: option.splits sum.splits)
  have r: "r \<le> 0xFFFFFFFC" "\<forall>r\<in>set rs. r \<le> 0xFFFFFFFC" using Cons.prems(3) by auto
  show ?case
  proof (cases "p = 0")
    case True
    then have "rep s' L" using alloc_null [OF Cons.prems(1)] a by simp
    from Cons.IH [OF this q r(2)] True ps show ?thesis by simp
  next
    case False
    from alloc_region [OF Cons.prems(1) a False r(1)] obtain n
      where n: "unat r \<le> n" "unat p \<notin> fst ` L" "rep s' (insert (unat p, n) L)" by blast
    from Cons.IH [OF n(3) q r(2)] obtain M where M: "rep t M" "insert (unat p, n) L \<subseteq> M"
      "distinct (filter (\<lambda>p. p \<noteq> 0) ps')"
      "list_all2 (\<lambda>r p'. p' \<noteq> 0 \<longrightarrow> unat p' \<notin> fst ` insert (unat p, n) L \<and> (\<exists>n\<ge>unat r. (unat p', n) \<in> M)) rs ps'"
      by blast
    have "p \<notin> set (filter (\<lambda>p. p \<noteq> 0) ps')"
      using M(4) by (auto simp: list_all2_conv_all_nth in_set_conv_nth)
    moreover have "list_all2 (\<lambda>r p. p \<noteq> 0 \<longrightarrow> unat p \<notin> fst ` L \<and> (\<exists>n\<ge>unat r. (unat p, n) \<in> M)) rs ps'"
      by (rule list_all2_mono [OF M(4)]) auto
    ultimately show ?thesis using M n ps False by (intro exI [of _ M]) auto
  qed
qed

end

section \<open>The heap as a region allocator\<close>

lemma blk_decomp:
  "i < length bs \<Longrightarrow> snd (bs ! i) = u \<Longrightarrow> bs = take i bs @ (fst (bs ! i), u) # drop (Suc i) bs"
  by (metis id_take_nth_drop prod.collapse)

lemma live_at_append [simp]: "live_at a (xs @ ys) = live_at a xs \<union> live_at (a + ext xs) ys"
  by (induction a xs rule: live_at.induct) (auto simp: add_ac)

lemma live_at_bounds: "(q, k) \<in> live_at a bs \<Longrightarrow> a + 24 \<le> q \<and> q + k \<le> a + ext bs"
  by (induction a bs rule: live_at.induct) (auto split: if_splits)

lemma live_at_nth:
  "(q, k) \<in> live_at a bs \<longleftrightarrow>
     (\<exists>i<length bs. snd (bs ! i) \<and> q = blk_addr a bs i + 24 \<and> k = fst (bs ! i))"
proof (induction a bs rule: live_at.induct)
  case (2 a n u bs)
  have addr: "blk_addr a ((n, u) # bs) (Suc i) = blk_addr (a + (n + 24)) bs i" for i
    by (simp add: blk_addr_def add_ac)
  have "(\<exists>i<Suc (length bs). P i) \<longleftrightarrow> P 0 \<or> (\<exists>i<length bs. P (Suc i))" for P
    using less_Suc_eq_0_disj by auto
  then show ?case by (auto simp: 2 addr) (auto simp: blk_addr_def)
qed simp

lemma live_at_disjoint: "disjoint_family_on region_of (live_at a bs)"
proof (induction a bs rule: live_at.induct)
  case (2 a n u bs)
  have "region_of (a + 24, n) \<inter> region_of (q, k) = {}" if "(q, k) \<in> live_at (a + (n + 24)) bs" for q k
    using live_at_bounds [OF that] by (auto simp: region_of_def)
  then have "region_of (a + 24, n) \<inter> region_of r = {}" if "r \<in> live_at (a + (n + 24)) bs" for r
    using that by (cases r) auto
  with 2 show ?case by (simp add: disjoint_family_on_def Int_commute)
qed (simp add: disjoint_family_on_def)

lemma live_at_cut:
  "live_at a (xs @ cut req n @ ys) =
     insert (a + ext xs + 24, if split_room req n then req else n) (live_at a (xs @ (n, False) # ys))"
proof -
  have "a + ext xs + (req + 24) + (n - req - 24 + 24) = a + ext xs + (n + 24)" if "split_room req n"
    using that by (simp add: split_room_def)
  then show ?thesis by (auto simp: cut_def add_ac)
qed

lemma abs_alloc_cut:
  "i < length bs \<Longrightarrow> abs_alloc req i bs = take i bs @ cut req (fst (bs ! i)) @ drop (Suc i) bs"
  by (simp add: abs_alloc_def cut_def split_room_def Let_def)

lemma live_at_merge_next:
  "(n', ys') = merge_next ok n ys \<Longrightarrow>
     live_at (a + (n' + 24)) ys' = live_at (a + (n + 24)) ys"
  by (cases ys) (auto simp: merge_next_def add_ac split: if_splits)

lemma live_at_merge_prev:
  "(xs', n') = merge_prev ok xs n \<Longrightarrow>
     live_at a (xs' @ (n', False) # ys) = live_at a (xs @ (n, False) # ys)"
  by (cases xs rule: rev_cases) (auto simp: merge_prev_def add_ac split: if_splits)

lemma live_at_abs_free:
  assumes "i < length bs" and "snd (bs ! i)"
  shows "live_at a (abs_free okn okp i bs) = live_at a bs - {(blk_addr a bs i + 24, fst (bs ! i))}"
proof -
  let ?xs = "take i bs" and ?ys = "drop (Suc i) bs" and ?n = "fst (bs ! i)"
  let ?e = "a + ext ?xs + (?n + 24)"
  obtain n1 ys1 where m1: "(n1, ys1) = merge_next okn ?n ?ys" by (metis surj_pair)
  obtain xs2 n2 where m2: "(xs2, n2) = merge_prev okp ?xs n1" by (metis surj_pair)
  have "live_at a (abs_free okn okp i bs) = live_at a (xs2 @ (n2, False) # ys1)"
    using m1 [symmetric] m2 [symmetric] by (simp add: abs_free_def)
  also have "\<dots> = live_at a ?xs \<union> live_at ?e ?ys"
    using live_at_merge_prev [OF m2] live_at_merge_next [OF m1, of "a + ext ?xs"] by simp
  also have "\<dots> = live_at a bs - {(blk_addr a bs i + 24, ?n)}"
  proof -
    have "live_at a bs = live_at a (?xs @ (?n, True) # ?ys)"
      using blk_decomp [OF assms(1)] assms(2) by (intro arg_cong [where f = "live_at a"]) simp
    then have "live_at a bs = live_at a ?xs \<union> ({(a + ext ?xs + 24, ?n)} \<union> live_at ?e ?ys)" by simp
    moreover have "(a + ext ?xs + 24, ?n) \<notin> live_at a ?xs" "(a + ext ?xs + 24, ?n) \<notin> live_at ?e ?ys"
      by (auto dest: live_at_bounds)
    ultimately show ?thesis by (auto simp: blk_addr_def)
  qed
  finally show ?thesis .
qed

lemma take_block_nth:
  assumes rep: "heap_rep h bs" and fit: "best_fit req bs i" and req: "16 \<le> req" "4 dvd req"
    and a: "a = blk_addr (heap_lo h) bs i" and c: "hmem h (of_nat a) = Some c"
  shows "if verify_block_integrity c
         then \<exists>h'. take_block (of_nat a) (of_nat req) h = Inr (of_nat (a + 24), h') \<and>
           heap_rep h' (abs_alloc req i bs) \<and> kernel_heap_start h' = kernel_heap_start h \<and>
           kernel_heap_end h' = kernel_heap_end h \<and> stats h' = note_alloc (of_nat req) (stats h)
         else take_block (of_nat a) (of_nat req) h = Inl (Panic ''Heap corruption detected in kmalloc'')"
proof -
  have i: "i < length bs" "\<not> snd (bs ! i)" "req \<le> fst (bs ! i)" using fit by (auto simp: best_fit_def)
  have "bs = take i bs @ (fst (bs ! i), False) # drop (Suc i) bs"
    using blk_decomp [OF i(1)] i(2) by simp
  then have rep': "heap_rep h (take i bs @ (fst (bs ! i), False) # drop (Suc i) bs)" using rep by metis
  show ?thesis
  proof (cases "verify_block_integrity c")
    case True
    with take_block_rep [OF rep' _ c i(3) req True] a i(1) show ?thesis
      by (auto simp: blk_addr_def abs_alloc_cut)
  next
    case False
    then show ?thesis using c by (simp add: take_block_def load_def)
  qed
qed

lemma heap_live_rep: "heap_rep h bs \<Longrightarrow> heap_live h (live_at (heap_lo h) bs)"
  by (auto simp: heap_live_def)

lemma heap_rep_stats [simp]: "heap_rep (h\<lparr>stats := st\<rparr>) bs = heap_rep h bs"
  by (simp add: heap_rep_def)

text \<open>The result of \<^verbatim>\<open>kmalloc\<close> in all cases, with the best-fit block named.\<close>

lemma kmalloc_result:
  assumes rep: "heap_rep h bs" and "r \<noteq> 0" and req: "req = unat (round_size r)"
  shows "if \<forall>b\<in>set bs. snd b \<or> fst b < req
         then kmalloc r h = Some (Inr (0, h\<lparr>stats := (stats h)\<lparr>fragmentation_count := fragmentation_count (stats h) + 1\<rparr>\<rparr>))
         else \<exists>i c. best_fit req bs i \<and> hmem h (of_nat (blk_addr (heap_lo h) bs i)) = Some c \<and>
           (if verify_block_integrity c
            then \<exists>h'. kmalloc r h = Some (Inr (of_nat (blk_addr (heap_lo h) bs i + 24), h')) \<and>
              heap_rep h' (abs_alloc req i bs) \<and> kernel_heap_start h' = kernel_heap_start h \<and>
              kernel_heap_end h' = kernel_heap_end h \<and> stats h' = note_alloc (round_size r) (stats h)
            else kmalloc r h = Some (Inl (Panic ''Heap corruption detected in kmalloc'')))"
proof (cases "\<forall>b\<in>set bs. snd b \<or> fst b < req")
  case True
  then show ?thesis using kmalloc_cases [OF assms] by simp
next
  case False
  then obtain i where i: "best_fit req bs i"
    "kmalloc r h = Some (take_block (of_nat (blk_addr (heap_lo h) bs i)) (of_nat req) h)"
    using kmalloc_cases [OF assms] unfolding if_not_P [OF False] by blast
  then have "i < length bs" by (simp add: best_fit_def)
  from heap_rep_nth [OF rep this] obtain c where c: "hmem h (of_nat (blk_addr (heap_lo h) bs i)) = Some c"
    by blast
  have sz: "(of_nat req :: u32) = round_size r" by (simp add: req)
  have "if verify_block_integrity c
        then \<exists>h'. kmalloc r h = Some (Inr (of_nat (blk_addr (heap_lo h) bs i + 24), h')) \<and>
          heap_rep h' (abs_alloc req i bs) \<and> kernel_heap_start h' = kernel_heap_start h \<and>
          kernel_heap_end h' = kernel_heap_end h \<and> stats h' = note_alloc (round_size r) (stats h)
        else kmalloc r h = Some (Inl (Panic ''Heap corruption detected in kmalloc''))"
    using take_block_nth [OF rep i(1) round_size_props [of r, folded req] refl c] i(2)
    unfolding sz by (auto split: if_splits)
  with i(1) c show ?thesis unfolding if_not_P [OF False] by blast
qed

lemma abs_alloc_live:
  assumes "best_fit req bs i"
  shows "\<exists>n\<ge>req. live_at a (abs_alloc req i bs) = insert (blk_addr a bs i + 24, n) (live_at a bs) \<and>
    blk_addr a bs i + 24 \<notin> fst ` live_at a bs"
proof -
  have i: "i < length bs" "\<not> snd (bs ! i)" "req \<le> fst (bs ! i)" using assms by (auto simp: best_fit_def)
  let ?xs = "take i bs" and ?ys = "drop (Suc i) bs" and ?n = "fst (bs ! i)"
  have bs: "bs = ?xs @ (?n, False) # ?ys" using blk_decomp [OF i(1)] i(2) by simp
  have "live_at a (abs_alloc req i bs) =
      insert (a + ext ?xs + 24, if split_room req ?n then req else ?n) (live_at a bs)"
    using live_at_cut [of a ?xs req ?n ?ys] bs i(1) by (simp add: abs_alloc_cut)
  moreover have "live_at a bs = live_at a ?xs \<union> live_at (a + ext ?xs + (?n + 24)) ?ys"
    by (subst bs) simp
  then have "a + ext ?xs + 24 \<notin> fst ` live_at a bs" by (force dest: live_at_bounds)
  ultimately show ?thesis using i(3) by (auto simp: blk_addr_def)
qed

lemma blk_addr_bounds:
  assumes "heap_rep h bs" and "i < length bs"
  shows "heap_lo h \<le> blk_addr (heap_lo h) bs i"
    and "blk_addr (heap_lo h) bs i + fst (bs ! i) + 24 \<le> heap_hi h"
proof -
  have rep: "heap_rep h (take i bs @ (fst (bs ! i), snd (bs ! i)) # drop (Suc i) bs)"
    using assms(1) blk_decomp [OF assms(2) refl] by metis
  show "heap_lo h \<le> blk_addr (heap_lo h) bs i" by (simp add: blk_addr_def)
  show "blk_addr (heap_lo h) bs i + fst (bs ! i) + 24 \<le> heap_hi h"
    using heap_rep_at(2) [OF rep refl refl] by (simp add: blk_addr_def)
qed

lemma unat_blk_payload:
  assumes "heap_rep h bs" and "i < length bs"
  shows "unat (of_nat (blk_addr (heap_lo h) bs i + 24) :: u32) = blk_addr (heap_lo h) bs i + 24"
  using blk_addr_bounds [OF assms] heap_hi_lt [of h] by (intro unat_of_nat_u32) linarith

lemma heap_live_bound:
  assumes "heap_live h L" and "x \<in> L"
  shows "0 < fst x \<and> fst x + snd x < 2 ^ 32"
proof -
  obtain bs where bs: "heap_rep h bs" "L = live_at (heap_lo h) bs" using assms(1) by (auto simp: heap_live_def)
  with assms(2) live_at_bounds [of "fst x" "snd x" "heap_lo h" bs] heap_rep_hi [OF bs(1)] heap_hi_lt [of h]
  show ?thesis by (cases x) auto
qed

lemma kmalloc_zero: "kmalloc 0 h = Some (Inr (0, h))"
  by (simp add: kmalloc_def)

lemma kmalloc_full:
  assumes "heap_rep h bs" and "r \<noteq> 0" and "\<forall>b\<in>set bs. snd b \<or> fst b < unat (round_size r)"
  shows "kmalloc r h = Some (Inr (0, h\<lparr>stats := (stats h)\<lparr>fragmentation_count := fragmentation_count (stats h) + 1\<rparr>\<rparr>))"
  using kmalloc_result [OF assms(1,2) refl] unfolding if_P [OF assms(3)] .

lemma kmalloc_fit:
  assumes "heap_rep h bs" and "r \<noteq> 0" and "\<not> (\<forall>b\<in>set bs. snd b \<or> fst b < unat (round_size r))"
  obtains i c where "best_fit (unat (round_size r)) bs i" "hmem h (of_nat (blk_addr (heap_lo h) bs i)) = Some c"
    "if verify_block_integrity c
     then \<exists>h'. kmalloc r h = Some (Inr (of_nat (blk_addr (heap_lo h) bs i + 24), h')) \<and>
       heap_rep h' (abs_alloc (unat (round_size r)) i bs) \<and> kernel_heap_start h' = kernel_heap_start h \<and>
       kernel_heap_end h' = kernel_heap_end h \<and> stats h' = note_alloc (round_size r) (stats h)
     else kmalloc r h = Some (Inl (Panic ''Heap corruption detected in kmalloc''))"
  using kmalloc_result [OF assms(1,2) refl] unfolding if_not_P [OF assms(3)] by blast

lemma kmalloc_live:
  assumes "heap_live h L" and "kmalloc r h = Some (Inr (p, h'))"
  shows "p = 0 \<and> heap_live h' L \<or>
    p \<noteq> 0 \<and> (\<exists>n\<ge>unat (round_size r). unat p \<notin> fst ` L \<and> heap_live h' (insert (unat p, n) L))"
proof -
  obtain bs where bs: "heap_rep h bs" "L = live_at (heap_lo h) bs" using assms(1) by (auto simp: heap_live_def)
  show ?thesis
  proof (cases "r = 0 \<or> (\<forall>b\<in>set bs. snd b \<or> fst b < unat (round_size r))")
    case True
    then have "p = 0 \<and> (h' = h \<or> (\<exists>st. h' = h\<lparr>stats := st\<rparr>))"
      using assms(2) kmalloc_full [OF bs(1), of r] by (cases "r = 0") (auto simp: kmalloc_zero)
    then show ?thesis using bs by (auto simp: heap_live_def)
  next
    case False
    with kmalloc_fit [OF bs(1), of r] assms(2) obtain i where i: "best_fit (unat (round_size r)) bs i"
      "p = of_nat (blk_addr (heap_lo h) bs i + 24)" "heap_rep h' (abs_alloc (unat (round_size r)) i bs)"
      "kernel_heap_start h' = kernel_heap_start h" by (force split: if_splits)
    then have len: "i < length bs" by (simp add: best_fit_def)
    note p = unat_blk_payload [OF bs(1) len]
    from abs_alloc_live [OF i(1), of "heap_lo h"] i(3,4) bs(2) i(2) p show ?thesis
      by (auto simp: heap_live_def word_unat_eq_iff)
  qed
qed

lemma kmalloc_returns:
  assumes "heap_live h L"
  shows "kmalloc r h \<noteq> None" and "kmalloc r h = Some (Inl e) \<Longrightarrow> \<exists>msg. e = Panic msg"
proof -
  obtain bs where bs: "heap_rep h bs" using assms by (auto simp: heap_live_def)
  have "\<exists>res. kmalloc r h = Some res \<and> (\<forall>e. res = Inl e \<longrightarrow> (\<exists>msg. e = Panic msg))"
  proof (cases "r = 0 \<or> (\<forall>b\<in>set bs. snd b \<or> fst b < unat (round_size r))")
    case True
    then show ?thesis using kmalloc_full [OF bs, of r] by (cases "r = 0") (auto simp: kmalloc_zero)
  next
    case False
    then have "r \<noteq> 0" "\<not> (\<forall>b\<in>set bs. snd b \<or> fst b < unat (round_size r))" by blast+
    from kmalloc_fit [OF bs this] show ?thesis by (metis old.sum.distinct(2) sum.sel(1))
  qed
  then show "kmalloc r h \<noteq> None" "kmalloc r h = Some (Inl e) \<Longrightarrow> \<exists>msg. e = Panic msg" by auto
qed

lemma kfree_live:
  assumes "heap_live h L" and "(unat p, n) \<in> L"
  shows "kfree p h = Inr h' \<Longrightarrow> heap_live h' (L - {(unat p, n)})"
    and "kfree p h = Inl e \<Longrightarrow> \<exists>msg. e = Panic msg"
proof -
  obtain bs where bs: "heap_rep h bs" "L = live_at (heap_lo h) bs" using assms(1) by (auto simp: heap_live_def)
  obtain i where i: "i < length bs" "snd (bs ! i)" "unat p = blk_addr (heap_lo h) bs i + 24" "n = fst (bs ! i)"
    using assms(2) bs(2) by (auto simp: live_at_nth)
  let ?a = "blk_addr (heap_lo h) bs i"
  have p: "p = of_nat (?a + 24)" using i(3) by (simp add: word_unat_eq_iff unat_blk_payload [OF bs(1) i(1)])
  obtain c where c: "hmem h (of_nat ?a) = Some c" using heap_rep_nth [OF bs(1) i(1)] by blast
  have "(\<exists>t. kfree p h = Inr t \<and> heap_live t (L - {(unat p, n)})) \<or> (\<exists>msg. kfree p h = Inl (Panic msg))"
  proof (cases "verify_block_integrity c")
    case True
    from kfree_rep [OF bs(1) i(1,2) refl c True] p obtain t okn okp where "kfree p h = Inr t"
      "heap_rep t (abs_free okn okp i bs)" "kernel_heap_start t = kernel_heap_start h" by blast
    then show ?thesis
      using live_at_abs_free [OF i(1,2), of "heap_lo h"] bs(2) i(3,4) by (auto simp: heap_live_def)
  next
    case False
    have "p \<noteq> 0" using i(3) by auto
    then show ?thesis using False c p by (simp add: kfree_def Let_def load_def of_nat_add)
  qed
  then show "kfree p h = Inr h' \<Longrightarrow> heap_live h' (L - {(unat p, n)})"
    and "kfree p h = Inl e \<Longrightarrow> \<exists>msg. e = Panic msg" by auto
qed

interpretation kheap: region_allocator heap_live kmalloc kfree
proof (unfold_locales, goal_cases)
  case (1 s L) then show ?case using live_at_disjoint by (auto simp: heap_live_def)
next
  case (2 s L x) then show ?case by (rule heap_live_bound)
next
  case (3 s L r) then show ?case by (rule kmalloc_returns)
next
  case (4 s L r e) then show ?case by (rule kmalloc_returns)
next
  case (5 s L r t) then show ?case using kmalloc_live by blast
next
  case (6 s L r p t)
  then show ?case using kmalloc_live [OF 6(1,2)] round_size_ge [of r] le_trans by blast
next
  case (7 s L p n t) then show ?case by (rule kfree_live)
next
  case (8 s L p n e) then show ?case by (rule kfree_live)
qed

section \<open>Properties\<close>

lemma heap_init_rep:
  assumes "16 \<le> e" and "unat e + 2 ^ 24 < 2 ^ 32"
  shows "\<exists>h. heap_init e = Inr h \<and> kernel_heap_start h = e \<and> unat (kernel_heap_end h) = unat e + 2 ^ 24 \<and>
    heap_rep h [(16777192, False)] \<and> header_ok (hmem h) e"
proof -
  have add: "unat (e + KERNEL_HEAP_SIZE) = unat e + 2 ^ 24"
    using assms(2) by (simp add: unat_word_ariths)
  then have "\<not> e + KERNEL_HEAP_SIZE \<le> e" by (simp add: word_le_nat_alt)
  then show ?thesis
    using add assms(1)
    by (simp add: heap_init_def heap_rep_def Let_def node_def word_le_nat_alt link_def header_ok_def
        verify_update_checksum)
qed

text \<open>The heap after start-up, and after a first allocation.\<close>

lemma boot_heap:
  obtains h where "heap_init 0x200000 = Inr h" "kernel_heap_start h = 0x200000"
    "heap_rep h [(16777192, False)]" "header_ok (hmem h) 0x200000"
  using heap_init_rep [of "0x200000"] by auto

lemma boot_heap_alloc:
  obtains h h' where "heap_init 0x200000 = Inr h" "heap_rep h [(16777192, False)]"
    "kmalloc 100 h = Some (Inr (0x200018, h'))"
    "heap_rep h' [(100, True), (16777068, False)]" "kernel_heap_start h' = 0x200000"
    "header_ok (hmem h') 0x200000"
proof -
  obtain h where h: "heap_init 0x200000 = Inr h" "kernel_heap_start h = 0x200000"
    "heap_rep h [(16777192, False)]" "header_ok (hmem h) 0x200000" by (rule boot_heap)
  obtain c where c: "hmem h 0x200000 = Some c" "verify_block_integrity c"
    using h(4) by (auto simp: header_ok_def split: option.splits)
  have req: "round_size 100 = 100" by (simp add: round_size_def Let_def)
  have fit: "best_fit 100 [(16777192, False)] i \<longleftrightarrow> i = 0" for i by (auto simp: best_fit_def)
  have run: "kmalloc 100 h = Some (take_block 0x200000 100 h)"
    using kmalloc_cases [OF h(3), of 100] h(2) by (simp add: fit req blk_addr_def)
  from take_block_rep [where h = h and xs = "[]" and n = 16777192 and ys = "[]" and a = "0x200000" and c = c and req = 100] h c run that show ?thesis
    by (auto simp: cut_def split_room_def)
qed

text \<open>
  \<^verbatim>\<open>heap_init\<close> either panics, exactly when the heap would run past the end of the address
  space, or sets up a well-formed heap of a single free block that covers the 16 MiB, with a
  valid header and nothing allocated. The hypothesis places the heap above address 16.
\<close>

theorem heap_init_well_formed:
  assumes "16 \<le> e"
  shows "if unat e + 2 ^ 24 < 2 ^ 32
         then \<exists>h. heap_init e = Inr h \<and> kernel_heap_start h = e \<and>
           unat (kernel_heap_end h) = unat e + 2 ^ 24 \<and> heap_rep h [(16777192, False)] \<and>
           header_ok (hmem h) e \<and> heap_live h {}
         else heap_init e = Inl (Panic ''Invalid heap size configuration'')"
proof (cases "unat e + 2 ^ 24 < 2 ^ 32")
  case True
  from heap_init_rep [OF assms True] True show ?thesis
    using heap_live_rep by fastforce
next
  case False
  then have "unat (e + KERNEL_HEAP_SIZE) = unat e + 2 ^ 24 - 2 ^ 32"
    using unsigned_less [of e, where 'a = nat] by (simp add: unat_word_ariths mod_if)
  then have "e + KERNEL_HEAP_SIZE \<le> e" by (simp add: word_le_nat_alt)
  with False show ?thesis by (simp add: heap_init_def)
qed

theorem heap_init_well_formed_witness:
  "(\<exists>h. heap_init 0x200000 = Inr h \<and> heap_rep h [(16777192, False)] \<and> heap_live h {}) \<and>
   heap_init 0xFFFFF000 = Inl (Panic ''Invalid heap size configuration'')"
  using heap_init_well_formed [of "0x200000"] heap_init_well_formed [of "0xFFFFF000"] by auto

text \<open>
  C1. \<^verbatim>\<open>kmalloc\<close> refines best-fit allocation on the list of blocks, on every branch. On a
  well-formed heap the search loop ends and follows no wild pointer. If no free block is as large
  as the rounded request, the result is \<^verbatim>\<open>NULL\<close> and only the fragmentation counter moves.
  Otherwise the smallest sufficient free block, the first one among equals, is chosen: if its
  header fails the integrity check the kernel panics, and if not, the payload address of that
  block is returned and the heap is well formed again, with that block marked used and split
  when the rest is large enough for another block.
\<close>

theorem kmalloc_refines_best_fit:
  assumes "heap_rep h bs" and "r \<noteq> 0" and "req = unat (round_size r)"
  shows "if \<forall>b\<in>set bs. snd b \<or> fst b < req
         then kmalloc r h = Some (Inr (0, h\<lparr>stats := (stats h)\<lparr>fragmentation_count := fragmentation_count (stats h) + 1\<rparr>\<rparr>))
         else \<exists>i c. best_fit req bs i \<and> hmem h (of_nat (blk_addr (heap_lo h) bs i)) = Some c \<and>
           (if verify_block_integrity c
            then \<exists>h'. kmalloc r h = Some (Inr (of_nat (blk_addr (heap_lo h) bs i + 24), h')) \<and>
              heap_rep h' (abs_alloc req i bs) \<and> kernel_heap_start h' = kernel_heap_start h \<and>
              kernel_heap_end h' = kernel_heap_end h \<and> stats h' = note_alloc (round_size r) (stats h)
            else kmalloc r h = Some (Inl (Panic ''Heap corruption detected in kmalloc'')))"
  using kmalloc_result [OF assms] .

theorem kmalloc_refines_best_fit_witness:
  "\<exists>h h'. heap_init 0x200000 = Inr h \<and> kmalloc 100 h = Some (Inr (0x200018, h')) \<and>
     heap_rep h' [(100, True), (16777068, False)]"
proof -
  obtain h where h: "heap_init 0x200000 = Inr h" "kernel_heap_start h = 0x200000"
    "heap_rep h [(16777192, False)]" "header_ok (hmem h) 0x200000" by (rule boot_heap)
  have req: "100 = unat (round_size 100)" by (simp add: round_size_def Let_def)
  have fit: "best_fit 100 [(16777192, False)] i \<longleftrightarrow> i = 0" for i by (auto simp: best_fit_def)
  from h(4) obtain c where c: "hmem h 0x200000 = Some c" "verify_block_integrity c"
    by (auto simp: header_ok_def split: option.splits)
  from kmalloc_refines_best_fit [OF h(3) _ req] h(1,2) c show ?thesis
    by (simp add: fit blk_addr_def abs_alloc_def) blast
qed

text \<open>
  C3. Memory safety of allocation sequences: on a heap with live regions \<open>L\<close>, any sequence of
  \<^verbatim>\<open>kmalloc\<close> calls that runs through yields pointers whose regions are at least as long as requested,
  lie in the address space, and are live at the end together with those of \<open>L\<close>; all live regions
  are pairwise disjoint, and the non-null pointers differ from each other and from those of \<open>L\<close>.
  The hypothesis on the requests excludes those within three bytes of the largest size.
\<close>

theorem kmalloc_regions_disjoint:
  assumes "heap_live h L" and "malloc_seq kmalloc rs h = Some (Inr (ps, h'))" and "\<forall>r\<in>set rs. r \<le> 0xFFFFFFFC"
  shows "\<exists>M. heap_live h' M \<and> L \<subseteq> M \<and> disjoint_family_on region_of M \<and>
           (\<forall>x\<in>M. fst x + snd x < 2 ^ 32) \<and> distinct (filter (\<lambda>p. p \<noteq> 0) ps) \<and>
           list_all2 (\<lambda>r p. p \<noteq> 0 \<longrightarrow> unat p \<notin> fst ` L \<and> (\<exists>n\<ge>unat r. (unat p, n) \<in> M)) rs ps"
  using kheap.malloc_seq_live [OF assms] kheap.live_disjoint kheap.live_bound by meson

theorem kmalloc_regions_disjoint_witness:
  "\<exists>h h' M n. heap_init 0x200000 = Inr h \<and> malloc_seq kmalloc [100] h = Some (Inr ([0x200018], h')) \<and>
     heap_live h' M \<and> disjoint_family_on region_of M \<and> 100 \<le> n \<and> (0x200018, n) \<in> M"
proof -
  obtain h h' where h: "heap_init 0x200000 = Inr h" "heap_rep h [(16777192, False)]"
    "kmalloc 100 h = Some (Inr (0x200018, h'))" by (rule boot_heap_alloc)
  have "malloc_seq kmalloc [100] h = Some (Inr ([0x200018], h'))" using h(3) by simp
  from kmalloc_regions_disjoint [OF heap_live_rep [OF h(2)] this] this h(1) show ?thesis by auto
qed

text \<open>
  C2. \<^verbatim>\<open>kfree\<close> refines freeing on the list of blocks. For the payload address of a used block of a
  well-formed heap it panics when the header fails its check; otherwise it returns, the heap is
  well formed again with that block free and merged with its free neighbours whose own headers
  pass the check, exactly that region is no longer live, and the statistics are updated.
\<close>

theorem kfree_refines_free:
  assumes "heap_rep h bs" and "i < length bs" and "snd (bs ! i)"
  shows "\<exists>c. hmem h (of_nat (blk_addr (heap_lo h) bs i)) = Some c \<and>
    (if verify_block_integrity c
     then \<exists>h' bs'. kfree (of_nat (blk_addr (heap_lo h) bs i + 24)) h = Inr h' \<and> heap_rep h' bs' \<and>
       bs' = abs_free (header_ok (hmem h) (of_nat (blk_addr (heap_lo h) bs (Suc i))))
               (header_ok (hmem h) (last_ptr 0 (heap_lo h) (take i bs))) i bs \<and>
       live_at (heap_lo h) bs' = live_at (heap_lo h) bs - {(blk_addr (heap_lo h) bs i + 24, fst (bs ! i))} \<and>
       stats h' = note_free (of_nat (fst (bs ! i))) (stats h)
     else kfree (of_nat (blk_addr (heap_lo h) bs i + 24)) h = Inl (Panic ''Heap corruption detected in kfree''))"
proof -
  let ?a = "blk_addr (heap_lo h) bs i"
  obtain c where c: "hmem h (of_nat ?a) = Some c" using heap_rep_nth [OF assms(1,2)] by blast
  have "(of_nat (?a + 24) :: u32) \<noteq> 0"
    using unat_blk_payload [OF assms(1,2)] by (metis add_is_0 unsigned_0 zero_neq_numeral)
  then have "kfree (of_nat (?a + 24)) h = Inl (Panic ''Heap corruption detected in kfree'')"
    if "\<not> verify_block_integrity c"
    using that c by (simp add: kfree_def Let_def load_def of_nat_add)
  with c kfree_rep [OF assms refl c] live_at_abs_free [OF assms(2,3)] show ?thesis by auto
qed

theorem kfree_refines_free_witness:
  "\<exists>h h' h''. heap_init 0x200000 = Inr h \<and> kmalloc 100 h = Some (Inr (0x200018, h')) \<and>
     kfree 0x200018 h' = Inr h'' \<and> total_frees (stats h'') = total_frees (stats h') + 1"
proof -
  obtain h h' where h: "heap_init 0x200000 = Inr h" "kmalloc 100 h = Some (Inr (0x200018, h'))"
    "heap_rep h' [(100, True), (16777068, False)]" "kernel_heap_start h' = 0x200000"
    "header_ok (hmem h') 0x200000" by (rule boot_heap_alloc)
  from kfree_refines_free [OF h(3), of 0] h(1,2,4,5) show ?thesis
    by (auto simp: blk_addr_def header_ok_def note_free_def)
qed

text \<open>
  Freeing a block that is already free is always caught: for the payload address of a free
  block of a well-formed heap \<^verbatim>\<open>kfree\<close> panics, with the message for a double free when the
  header is intact, and freeing \<^verbatim>\<open>NULL\<close> does nothing.
\<close>

theorem kfree_double_free_caught:
  assumes "heap_rep h bs" and "i < length bs" and "\<not> snd (bs ! i)"
  shows "kfree (of_nat (blk_addr (heap_lo h) bs i + 24)) h =
      Inl (Panic (if header_ok (hmem h) (of_nat (blk_addr (heap_lo h) bs i))
                  then ''Double free detected'' else ''Heap corruption detected in kfree'')) \<and>
    kfree 0 h = Inr h"
proof -
  let ?a = "blk_addr (heap_lo h) bs i"
  obtain c where c: "hmem h (of_nat ?a) = Some c" "used c = 0"
    using heap_rep_nth [OF assms(1,2)] assms(3) by metis
  have "(of_nat (?a + 24) :: u32) \<noteq> 0"
    using unat_blk_payload [OF assms(1,2)] by (metis add_is_0 unsigned_0 zero_neq_numeral)
  with c show ?thesis by (simp add: kfree_def Let_def load_def of_nat_add header_ok_def)
qed

theorem kfree_double_free_caught_witness:
  "\<exists>h. heap_init 0x200000 = Inr h \<and> kfree 0x200018 h = Inl (Panic ''Double free detected'')"
proof -
  obtain h where h: "heap_init 0x200000 = Inr h" "kernel_heap_start h = 0x200000"
    "heap_rep h [(16777192, False)]" "header_ok (hmem h) 0x200000" by (rule boot_heap)
  from kfree_double_free_caught [OF h(3), of 0] h show ?thesis by (auto simp: blk_addr_def)
qed

text \<open>No two neighbouring blocks are both free.\<close>

definition coalesced :: "blk list \<Rightarrow> bool" where
  "coalesced bs \<longleftrightarrow> (\<forall>i. Suc i < length bs \<longrightarrow> snd (bs ! i) \<or> snd (bs ! Suc i))"

lemma coalesced_around:
  assumes "coalesced (xs @ (n, False) # ys)"
  shows "xs \<noteq> [] \<Longrightarrow> snd (last xs)" and "ys \<noteq> [] \<Longrightarrow> snd (hd ys)"
proof -
  show "snd (last xs)" if "xs \<noteq> []"
    using assms [unfolded coalesced_def, rule_format, of "length xs - 1"] that
    by (simp add: nth_append last_conv_nth)
  show "snd (hd ys)" if "ys \<noteq> []"
    using assms that unfolding coalesced_def
    by (auto simp: nth_append hd_conv_nth dest!: spec [of _ "length xs"])
qed

lemma abs_free_cut:
  assumes "coalesced (xs @ (n, False) # ys)" and "req \<le> n" and "split_room req n \<Longrightarrow> okn"
  shows "abs_free okn okp (length xs) (xs @ cut req n @ ys) = xs @ (n, False) # ys"
proof -
  have prev: "merge_prev okp xs k = (xs, k)" for k
    using coalesced_around(1) [OF assms(1)] by (auto simp: merge_prev_def)
  have "merge_next okn n ys = (n, ys)"
    using coalesced_around(2) [OF assms(1)] by (auto simp: merge_next_def)
  moreover have "merge_next okn req ((n - req - 24, False) # ys) = (n, ys)" if "split_room req n"
    using assms(3) that by (simp add: merge_next_def split_room_def)
  ultimately show ?thesis using prev by (auto simp: abs_free_def cut_def nth_append)
qed

lemma kmalloc_take:
  assumes rep: "heap_rep h bs" and run: "kmalloc r h = Some (Inr (p, h'))" and "p \<noteq> 0"
  obtains xs n ys a where "bs = xs @ (n, False) # ys" "unat (round_size r) \<le> n" "a = heap_lo h + ext xs"
    "p = of_nat (a + 24)" "heap_rep h' (xs @ cut (unat (round_size r)) n @ ys)"
    "kernel_heap_start h' = kernel_heap_start h" "header_ok (hmem h') (of_nat a)"
    "split_room (unat (round_size r)) n \<longrightarrow> header_ok (hmem h') (of_nat (a + (unat (round_size r) + 24)))"
proof -
  let ?req = "unat (round_size r)"
  have r: "r \<noteq> 0" using run assms(3) by (auto simp: kmalloc_zero)
  have nf: "\<not> (\<forall>b\<in>set bs. snd b \<or> fst b < ?req)" using kmalloc_full [OF rep r] run assms(3) by auto
  obtain i where i: "best_fit ?req bs i"
    "kmalloc r h = Some (take_block (of_nat (blk_addr (heap_lo h) bs i)) (of_nat ?req) h)"
    using kmalloc_cases [OF rep r refl] unfolding if_not_P [OF nf] by blast
  let ?xs = "take i bs" and ?n = "fst (bs ! i)" and ?ys = "drop (Suc i) bs"
  have len: "i < length bs" "\<not> snd (bs ! i)" "?req \<le> ?n" using i(1) by (auto simp: best_fit_def)
  have bs: "bs = ?xs @ (?n, False) # ?ys" using blk_decomp [OF len(1)] len(2) by simp
  then have rep': "heap_rep h (?xs @ (?n, False) # ?ys)" using rep by metis
  obtain c where c: "hmem h (of_nat (heap_lo h + ext ?xs)) = Some c"
    using heap_rep_nth [OF rep len(1)] by (auto simp: blk_addr_def)
  have tb: "take_block (of_nat (heap_lo h + ext ?xs)) (of_nat ?req) h = Inr (p, h')"
    using i(2) run by (simp add: blk_addr_def)
  then have "verify_block_integrity c" using c by (auto simp: take_block_def load_def split: if_splits)
  from take_block_rep [OF rep' refl c len(3) round_size_props this] tb
  show ?thesis using that [OF bs len(3) refl] by auto
qed

lemma kfree_restores_blocks:
  assumes "heap_rep h bs" and "coalesced bs" and "kmalloc r h = Some (Inr (p, h'))" and "p \<noteq> 0"
  shows "\<exists>h''. kfree p h' = Inr h'' \<and> heap_rep h'' bs"
proof -
  let ?req = "unat (round_size r)"
  obtain xs n ys a where k: "bs = xs @ (n, False) # ys" "?req \<le> n" "a = heap_lo h + ext xs"
    "p = of_nat (a + 24)" "heap_rep h' (xs @ cut ?req n @ ys)"
    "kernel_heap_start h' = kernel_heap_start h" "header_ok (hmem h') (of_nat a)"
    "split_room ?req n \<longrightarrow> header_ok (hmem h') (of_nat (a + (?req + 24)))"
    using kmalloc_take [OF assms(1,3,4)] by metis
  let ?bs = "xs @ cut ?req n @ ys"
  have i: "length xs < length ?bs" "snd (?bs ! length xs)" by (auto simp: cut_def nth_append)
  have addr: "blk_addr (heap_lo h') ?bs (length xs) = a" using k(3,6) by (simp add: blk_addr_def)
  have next_addr: "blk_addr (heap_lo h') ?bs (Suc (length xs)) = a + (?req + 24)" if "split_room ?req n"
    using k(3,6) that by (simp add: blk_addr_def cut_def add_ac)
  obtain c where "hmem h' (of_nat a) = Some c" "verify_block_integrity c"
    using k(7) by (auto simp: header_ok_def split: option.splits)
  from kfree_rep [OF k(5) i addr [symmetric] this] k(4) obtain h'' okp where
    "kfree p h' = Inr h''"
    "heap_rep h'' (abs_free (header_ok (hmem h') (of_nat (blk_addr (heap_lo h') ?bs (Suc (length xs))))) okp (length xs) ?bs)"
    by blast
  moreover have "abs_free (header_ok (hmem h') (of_nat (blk_addr (heap_lo h') ?bs (Suc (length xs))))) okp (length xs) ?bs = bs"
    using abs_free_cut [of xs n ys ?req] assms(2) k next_addr by simp
  ultimately show ?thesis by auto
qed

text \<open>
  C4. \<^verbatim>\<open>kfree\<close> undoes \<^verbatim>\<open>kmalloc\<close>: on a well-formed heap without neighbouring free blocks, freeing
  what \<^verbatim>\<open>kmalloc\<close> just returned succeeds and gives back the very same list of blocks, whether the
  chosen block had been split or not.
\<close>

theorem kfree_undoes_kmalloc:
  assumes "heap_rep h bs" and "coalesced bs" and "kmalloc r h = Some (Inr (p, h'))" and "p \<noteq> 0"
  shows "\<exists>h''. kfree p h' = Inr h'' \<and> heap_rep h'' bs"
  by (rule kfree_restores_blocks [OF assms])

theorem kfree_undoes_kmalloc_witness:
  "\<exists>h h' h''. heap_init 0x200000 = Inr h \<and> kmalloc 100 h = Some (Inr (0x200018, h')) \<and>
     kfree 0x200018 h' = Inr h'' \<and> heap_rep h'' [(16777192, False)]"
proof -
  obtain h h' where h: "heap_init 0x200000 = Inr h" "heap_rep h [(16777192, False)]"
    "kmalloc 100 h = Some (Inr (0x200018, h'))" by (rule boot_heap_alloc)
  from kfree_undoes_kmalloc [OF h(2) _ h(3)] h(1,3) show ?thesis by (auto simp: coalesced_def)
qed

section \<open>Header checksums over time\<close>

text \<open>
  While nothing has been freed, only the last block is free and every header is intact; this is
  the shape of the heap during start-up.
\<close>

definition boot_shape :: "heap \<Rightarrow> blk list \<Rightarrow> bool" where
  "boot_shape h bs \<longleftrightarrow> heap_rep h bs \<and> (\<forall>b\<in>set (butlast bs). snd b) \<and>
     (\<forall>i<length bs. header_ok (hmem h) (of_nat (blk_addr (heap_lo h) bs i)))"

lemma blk_addr_prefix: "i \<le> length xs \<Longrightarrow> blk_addr lo (xs @ ys) i = blk_addr lo xs i"
  by (simp add: blk_addr_def)

lemma blk_addr_lt:
  assumes "i < length xs" shows "blk_addr lo xs i + 24 \<le> lo + ext xs"
proof -
  have "xs = take i xs @ (xs ! i) # drop (Suc i) xs" by (rule id_take_nth_drop [OF assms])
  then have "ext xs = ext (take i xs) + (fst (xs ! i) + 24 + ext (drop (Suc i) xs))"
    by (metis ext_simps(2,3))
  then show ?thesis by (simp add: blk_addr_def)
qed

lemma boot_shape_take:
  assumes shape: "boot_shape h (xs @ [(n, False)])" and req: "16 \<le> req" "4 dvd req" "req \<le> n"
  shows "\<exists>p h'. take_block (of_nat (heap_lo h + ext xs)) (of_nat req) h = Inr (p, h') \<and>
    boot_shape h' (xs @ cut req n)"
proof -
  let ?a = "heap_lo h + ext xs" and ?new = "heap_lo h + ext xs + (req + 24)"
  have rep: "heap_rep h (xs @ (n, False) # [])" using shape by (simp add: boot_shape_def)
  note at = heap_rep_at [OF rep refl refl]
  have "header_ok (hmem h) (of_nat ?a)"
    using shape by (auto simp: boot_shape_def blk_addr_def dest!: spec [of _ "length xs"])
  then obtain c where c: "hmem h (of_nat ?a) = Some c" "verify_block_integrity c"
    by (auto simp: header_ok_def split: option.splits)
  from take_block_rep [OF rep refl c(1) req(3,1,2) c(2)] obtain h' where
    run: "take_block (of_nat ?a) (of_nat req) h = Inr (of_nat (?a + 24), h')"
    and rep': "heap_rep h' (xs @ cut req n)" and st: "kernel_heap_start h' = kernel_heap_start h"
    and ok: "header_ok (hmem h') (of_nat ?a)" "split_room req n \<longrightarrow> header_ok (hmem h') (of_nat ?new)"
    and keep: "\<forall>x. x \<noteq> of_nat ?a \<and> x \<noteq> of_nat ?new \<and> x \<noteq> link (heap_hi h) (?a + (n + 24)) \<longrightarrow> hmem h' x = hmem h x"
    by auto
  have low: "header_ok (hmem h') (of_nat (blk_addr (heap_lo h) xs i))" if i: "i < length xs" for i
  proof -
    let ?x = "blk_addr (heap_lo h) xs i"
    have x: "16 \<le> ?x" "?x < ?a" using blk_addr_lt [OF i, of "heap_lo h"] heap_rep_lo [OF rep]
      by (auto simp: blk_addr_def)
    have "(of_nat ?x :: u32) \<noteq> of_nat ?a" "(of_nat ?x :: u32) \<noteq> of_nat ?new"
      "(of_nat ?x :: u32) \<noteq> link (heap_hi h) (?a + (n + 24))"
      using x at(2) req(3) heap_hi_lt [of h] link_below [of "?a + (n + 24)" "heap_hi h" ?x]
      by (auto simp: of_nat_u32_eq)
    then have "hmem h' (of_nat ?x) = hmem h (of_nat ?x)" using keep by blast
    moreover have "header_ok (hmem h) (of_nat ?x)"
      using shape i by (auto simp: boot_shape_def blk_addr_prefix dest!: spec [of _ i])
    ultimately show ?thesis by (simp add: header_ok_def)
  qed
  have "header_ok (hmem h') (of_nat (blk_addr (heap_lo h') (xs @ cut req n) j))"
    if j: "j < length (xs @ cut req n)" for j
  proof -
    consider "j < length xs" | "j = length xs" | "split_room req n" "j = Suc (length xs)"
      using j by (auto simp: cut_def less_Suc_eq split: if_splits)
    then show ?thesis
    proof cases
      case 1 then show ?thesis using low st by (simp add: blk_addr_prefix)
    next
      case 2 then show ?thesis using ok st by (simp add: blk_addr_def)
    next
      case 3 then show ?thesis using ok st by (simp add: blk_addr_def cut_def add_ac)
    qed
  qed
  moreover have "\<forall>b\<in>set (butlast (xs @ cut req n)). snd b"
    using shape by (auto simp: boot_shape_def cut_def butlast_append)
  ultimately show ?thesis using run rep' by (auto simp: boot_shape_def)
qed

text \<open>A request that leaves room for a rest is served from the last block.\<close>

lemma boot_shape_kmalloc_fits:
  assumes shape: "boot_shape h (xs @ [(n, False)])" and xs: "\<forall>b\<in>set xs. snd b"
    and "r \<noteq> 0" and room: "unat (round_size r) + 40 < n"
  shows "\<exists>h'. kmalloc r h = Some (Inr (of_nat (heap_lo h + ext xs + 24), h')) \<and>
    boot_shape h' (xs @ [(unat (round_size r), True), (n - unat (round_size r) - 24, False)]) \<and>
    (of_nat (heap_lo h + ext xs + 24) :: u32) \<noteq> 0"
proof -
  let ?bs = "xs @ [(n, False)]" and ?req = "unat (round_size r)"
  have rep: "heap_rep h ?bs" using shape by (simp add: boot_shape_def)
  have nf: "\<not> (\<forall>b\<in>set ?bs. snd b \<or> fst b < ?req)" using room by auto
  obtain i where i: "best_fit ?req ?bs i"
    "kmalloc r h = Some (take_block (of_nat (blk_addr (heap_lo h) ?bs i)) (of_nat ?req) h)"
    using kmalloc_cases [OF rep assms(3) refl] unfolding if_not_P [OF nf] by blast
  have "i = length xs"
    using i(1) xs by (auto simp: best_fit_def nth_append less_Suc_eq split: if_splits)
  then have run: "kmalloc r h = Some (take_block (of_nat (heap_lo h + ext xs)) (of_nat ?req) h)"
    using i(2) by (simp add: blk_addr_def)
  have le: "?req \<le> n" using room by simp
  obtain p h' where t: "take_block (of_nat (heap_lo h + ext xs)) (of_nat ?req) h = Inr (p, h')"
    "boot_shape h' (xs @ cut ?req n)"
    using boot_shape_take [OF shape round_size_props le] by blast
  have p: "p = of_nat (heap_lo h + ext xs + 24)"
    using t(1) by (auto simp: take_block_def bind_res_Inr_iff of_nat_add split: if_splits)
  have "(of_nat (heap_lo h + ext xs + 24) :: u32) \<noteq> 0"
    using unat_blk_payload [OF rep, of "length xs"] by (auto simp: blk_addr_def)
  then show ?thesis using run t p room by (simp add: cut_def split_room_def)
qed

lemma boot_shape_kmalloc:
  assumes "boot_shape h bs"
  shows "\<exists>p h' bs'. kmalloc r h = Some (Inr (p, h')) \<and> boot_shape h' bs'"
proof (cases "r = 0 \<or> (\<forall>b\<in>set bs. snd b \<or> fst b < unat (round_size r))")
  case True
  have rep: "heap_rep h bs" using assms by (simp add: boot_shape_def)
  then show ?thesis using True kmalloc_full [OF rep, of r] assms
    by (cases "r = 0") (auto simp: kmalloc_zero boot_shape_def)
next
  case False
  then have r: "r \<noteq> 0" and nf: "\<not> (\<forall>b\<in>set bs. snd b \<or> fst b < unat (round_size r))" by blast+
  have rep: "heap_rep h bs" using assms by (simp add: boot_shape_def)
  obtain i where i: "best_fit (unat (round_size r)) bs i"
    "kmalloc r h = Some (take_block (of_nat (blk_addr (heap_lo h) bs i)) (of_nat (unat (round_size r))) h)"
    using kmalloc_cases [OF rep r refl] unfolding if_not_P [OF nf] by blast
  have fit: "i < length bs" "\<not> snd (bs ! i)" "unat (round_size r) \<le> fst (bs ! i)"
    using i(1) by (auto simp: best_fit_def)
  have "i = length (butlast bs)"
  proof (rule ccontr)
    assume "i \<noteq> length (butlast bs)"
    then have "i < length (butlast bs)" using fit(1) by simp
    then have "bs ! i \<in> set (butlast bs)" by (metis nth_butlast nth_mem)
    then show False using assms fit(2) by (auto simp: boot_shape_def)
  qed
  then have tk: "take i bs = butlast bs" and "drop (Suc i) bs = []"
    using fit(1) by (simp_all add: butlast_conv_take)
  then have bs: "bs = butlast bs @ [(fst (bs ! i), False)]"
    using blk_decomp [OF fit(1), of False] fit(2) by simp
  then have "boot_shape h (butlast bs @ [(fst (bs ! i), False)])" using assms by simp
  from boot_shape_take [OF this round_size_props fit(3)] i(2) tk show ?thesis
    by (auto simp: blk_addr_def)
qed

lemma boot_shape_seq:
  "boot_shape h bs \<Longrightarrow> \<exists>ps h' bs'. malloc_seq kmalloc rs h = Some (Inr (ps, h')) \<and> boot_shape h' bs'"
proof (induction rs arbitrary: h bs)
  case (Cons r rs)
  obtain p h1 bs1 where "kmalloc r h = Some (Inr (p, h1))" "boot_shape h1 bs1"
    using boot_shape_kmalloc [OF Cons.prems] by blast
  with Cons.IH [of h1 bs1] show ?case by auto
qed auto

text \<open>
  While nothing is freed, allocation never reports corruption: after \<^verbatim>\<open>heap_init\<close> every
  sequence of \<^verbatim>\<open>kmalloc\<close> calls runs to its end, whatever the requests, and leaves a well-formed
  heap all of whose headers pass the integrity check.
\<close>

theorem boot_allocations_never_panic:
  assumes "16 \<le> e" and "unat e + 2 ^ 24 < 2 ^ 32"
  shows "\<exists>h ps h' bs. heap_init e = Inr h \<and> malloc_seq kmalloc rs h = Some (Inr (ps, h')) \<and> heap_rep h' bs \<and>
    (\<forall>i<length bs. header_ok (hmem h') (of_nat (blk_addr (heap_lo h') bs i)))"
proof -
  from heap_init_rep [OF assms] obtain h where h: "heap_init e = Inr h" "kernel_heap_start h = e"
    "heap_rep h [(16777192, False)]" "header_ok (hmem h) e" by auto
  then have "boot_shape h [(16777192, False)]" by (simp add: boot_shape_def blk_addr_def)
  from boot_shape_seq [OF this, of rs] h(1) show ?thesis by (auto simp: boot_shape_def)
qed

theorem boot_allocations_never_panic_witness:
  "\<exists>h ps h' bs. heap_init 0x200000 = Inr h \<and> malloc_seq kmalloc [64, 4096, 0, 0xFFFFFFFF] h = Some (Inr (ps, h')) \<and>
     heap_rep h' bs"
  using boot_allocations_never_panic [of "0x200000" "[64, 4096, 0, 0xFFFFFFFF]"] by auto

text \<open>Sequences of calls: \<open>Free k\<close> frees the pointer returned by the \<open>k\<close>-th allocation.\<close>

datatype heap_call = Malloc u32 | Free nat

fun heap_run :: "heap_call list \<Rightarrow> u32 list \<Rightarrow> heap \<Rightarrow> (fault + u32 list \<times> heap) option" where
  "heap_run [] ps h = Some (Inr (ps, h))"
| "heap_run (Malloc r # cs) ps h =
     (case kmalloc r h of
        None \<Rightarrow> None
      | Some (Inl e) \<Rightarrow> Some (Inl e)
      | Some (Inr (p, h')) \<Rightarrow> heap_run cs (ps @ [p]) h')"
| "heap_run (Free k # cs) ps h =
     (case kfree (if k < length ps then ps ! k else 0) h of
        Inl e \<Rightarrow> Some (Inl e)
      | Inr h' \<Rightarrow> heap_run cs ps h')"

text \<open>
  Once blocks are freed, a correct program can be stopped by the integrity check: splitting a
  block rewrites the \<^verbatim>\<open>prev\<close> pointer of the block behind it but not its checksum, so with the heap
  at \<^verbatim>\<open>0x200000\<close> two allocations, freeing the first, a smaller allocation and then freeing the second,
  still live, block end in a panic. The same calls without the small allocation succeed.
\<close>

theorem split_leaves_stale_checksum:
  "(case heap_init 0x200000 of Inl e \<Rightarrow> False | Inr h \<Rightarrow>
      heap_run [Malloc 64, Malloc 64, Free 0, Malloc 16, Free 1] [] h =
        Some (Inl (Panic ''Heap corruption detected in kfree'')) \<and>
      (case heap_run [Malloc 64, Malloc 64, Free 0, Free 1] [] h of
         Some (Inr (ps, h')) \<Rightarrow> ps = [0x200018, 0x200070] | _ \<Rightarrow> False))"
  by code_simp

text \<open>
  A request within three bytes of the largest size wraps around to zero when it is rounded, so
  it is granted 16 bytes.
\<close>

theorem kmalloc_huge_request_wraps:
  "(case heap_init 0x200000 of Inl e \<Rightarrow> False | Inr h \<Rightarrow>
      (case kmalloc 0xFFFFFFFD h of
         Some (Inr (p, h')) \<Rightarrow> p = 0x200018 \<and> map_option size (hmem h' 0x200000) = Some 16
       | _ \<Rightarrow> False))"
  by code_simp

lemma verify_heap_from_returns:
  assumes "unat frames < 2 ^ 32 - 1"
  shows "\<exists>r. verify_heap_from m frames block count = Some r"
proof (induction "Suc (unat frames) - unat count" arbitrary: block count)
  case 0
  then have "count > frames" by (simp add: word_less_nat_alt)
  then show ?case by (subst verify_heap_from.simps) (auto split: option.split)
next
  case (Suc k)
  have "unat (count + 1) = unat count + 1" using Suc(2) assms by (simp add: unat_word_ariths)
  then have "\<exists>r. verify_heap_from m frames b (count + 1) = Some r" for b
    using Suc(1) [of "count + 1"] Suc(2) by simp
  then show ?case by (subst verify_heap_from.simps) (auto split: option.split)
qed

text \<open>
  \<^verbatim>\<open>verify_heap_integrity\<close> returns on every heap, well formed or not, even when the list is
  cyclic: the bound on the block count ends the walk as soon as the number of frames is below the
  largest 32-bit value.
\<close>

theorem verify_heap_integrity_returns:
  assumes "frames < 0xFFFFFFFF"
  shows "\<exists>r. verify_heap_integrity frames h = Some r"
  unfolding verify_heap_integrity_def
  by (rule verify_heap_from_returns) (use assms in \<open>simp add: word_less_nat_alt\<close>)

theorem verify_heap_integrity_returns_witness:
  "\<exists>r. verify_heap_integrity 32768
     \<lparr>kernel_heap_start = 16, kernel_heap_end = 4096, kernel_heap_current = 16, heap_head = 16, heap_tail = 16,
      hmem = [16 \<mapsto> update_block_checksum \<lparr>magic = HEAP_BLOCK_FREE_MAGIC, size = 16, used = 0, nxt = 16, prv = 0, checksum = 0\<rparr>],
      stats = \<lparr>total_allocations = 0, total_frees = 0, peak_usage = 0, current_usage = 0, fragmentation_count = 0\<rparr>\<rparr> = Some r"
  by (rule verify_heap_integrity_returns) simp

end
