(* ===== verification/Solix_Frames.thy ===== *)
theory Solix_Frames
  imports Solix_Base
begin

text \<open>
  The physical frame allocator of \<^verbatim>\<open>kernel/mm.c\<close>: a bitmap with one bit per 4 KiB frame, a
  count of the used frames and the position of the last allocation, from which the next
  search starts (next fit). The three file-scope variables and the bitmap are the record
  \<open>frames\<close>; a pointer is a \<open>u32\<close> with \<open>0\<close> for \<^verbatim>\<open>NULL\<close>.
\<close>

section \<open>State and operations\<close>

abbreviation PAGE_SIZE :: u32 where "PAGE_SIZE \<equiv> 4096"

record frames =
  frame_bitmap :: "u32 list"
  total_frames :: u32
  used_frames :: u32
  last_alloc_frame :: u32

text \<open>The part of \<^verbatim>\<open>paging_init\<close> that sets up the bitmap, once its memory has been obtained.\<close>

definition frames_setup :: "u32 \<Rightarrow> frames" where
  "frames_setup mem_size =
     (let total = mem_size div PAGE_SIZE;
          bitmap_size = (total + 31) div 32 * 4
      in \<lparr>frame_bitmap = replicate (unat (bitmap_size div 4)) 0,
          total_frames = total, used_frames = 0, last_alloc_frame = 0\<rparr>)"

text \<open>The frame examined in round \<open>i\<close> of the search loop of \<^verbatim>\<open>alloc_frame\<close>.\<close>

definition search_frame :: "frames \<Rightarrow> nat \<Rightarrow> u32" where
  "search_frame s i = (last_alloc_frame s + of_nat i) mod total_frames s"

definition take_frame :: "frames \<Rightarrow> u32 \<Rightarrow> frames" where
  "take_frame s fi = s\<lparr>frame_bitmap := bm_set (frame_bitmap s) (unat fi),
                       used_frames := used_frames s + 1, last_alloc_frame := fi\<rparr>"

definition frame_alloc :: "frames \<Rightarrow> (nat \<times> frames) option" where
  "frame_alloc s =
     (case find (\<lambda>i. \<not> bm_test (frame_bitmap s) (unat (search_frame s i)))
             [0..<unat (total_frames s)] of
        None \<Rightarrow> None
      | Some i \<Rightarrow> Some (unat (search_frame s i), take_frame s (search_frame s i)))"

definition alloc_frame :: "frames \<Rightarrow> u32 \<times> frames" where
  "alloc_frame s =
     (case frame_alloc s of
        None \<Rightarrow> (0, s)
      | Some (i, s') \<Rightarrow> (of_nat i * PAGE_SIZE, s'))"

definition free_frame :: "frames \<Rightarrow> u32 \<Rightarrow> fault + frames" where
  "free_frame s frame =
     (let frame_index = frame div PAGE_SIZE
      in if unat (frame_index div 32) < length (frame_bitmap s)
         then Inr (s\<lparr>frame_bitmap := bm_clear (frame_bitmap s) (unat frame_index),
                     used_frames := used_frames s - 1\<rparr>)
         else Inl Out_Of_Bounds)"

section \<open>Invariant\<close>

abbreviation frame_count :: "frames \<Rightarrow> nat" where
  "frame_count s \<equiv> unat (total_frames s)"

definition frames_used :: "frames \<Rightarrow> nat set" where
  "frames_used s = bm_set_of (frame_bitmap s) (frame_count s)"

definition frames_ok :: "frames \<Rightarrow> bool" where
  "frames_ok s \<longleftrightarrow>
     length (frame_bitmap s) = (frame_count s + 31) div 32 \<and>
     0 < frame_count s \<and> frame_count s \<le> 2 ^ 20 \<and>
     last_alloc_frame s < total_frames s \<and>
     unat (used_frames s) = card (frames_used s)"

text \<open>Freeing by frame number: the call \<^verbatim>\<open>free_frame\<close> makes for the address of frame \<open>i\<close>.\<close>

definition frame_release :: "nat \<Rightarrow> frames \<Rightarrow> frames" where
  "frame_release i s = (case free_frame s (of_nat i * PAGE_SIZE) of Inr t \<Rightarrow> t | Inl _ \<Rightarrow> s)"

section \<open>Lemmas\<close>

lemma frames_fit: "frames_ok s \<Longrightarrow> bm_fits (frame_bitmap s) (frame_count s)"
  by (simp add: frames_ok_def bm_fits_def)

lemma unat_search_frame:
  assumes "frames_ok s" and "i < frame_count s"
  shows "unat (search_frame s i) = (unat (last_alloc_frame s) + i) mod frame_count s"
proof -
  have "unat (last_alloc_frame s) < frame_count s" and "frame_count s \<le> 2 ^ 20"
    using assms(1) by (auto simp: frames_ok_def word_less_nat_alt)
  with assms(2) have "unat (last_alloc_frame s + of_nat i) = unat (last_alloc_frame s) + i"
    by (simp add: unat_word_ariths unat_of_nat take_bit_nat_eq_self_iff)
  then show ?thesis by (simp add: search_frame_def unat_mod_distrib)
qed

lemma search_frame_lt:
  "frames_ok s \<Longrightarrow> i < frame_count s \<Longrightarrow> unat (search_frame s i) < frame_count s"
  by (simp add: unat_search_frame frames_ok_def)

text \<open>The cyclic search visits every frame.\<close>

lemma cyclic_cover:
  fixes a n j :: nat
  assumes "a < n" and "j < n"
  shows "\<exists>i<n. (a + i) mod n = j"
proof (cases "a \<le> j")
  case True
  with assms show ?thesis by (intro exI [of _ "j - a"]) auto
next
  case False
  have "(a + (n - a + j)) mod n = j" using assms by (simp add: mod_add_left_eq)
  with False assms show ?thesis by (intro exI [of _ "n - a + j"]) auto
qed

lemma search_covers:
  assumes "frames_ok s" and "j < frame_count s"
  shows "\<exists>i<frame_count s. unat (search_frame s i) = j"
proof -
  have "unat (last_alloc_frame s) < frame_count s"
    using assms(1) by (simp add: frames_ok_def word_less_nat_alt)
  from cyclic_cover [OF this assms(2)] show ?thesis
    using unat_search_frame [OF assms(1)] by metis
qed

lemma frame_alloc_SomeD:
  assumes "frame_alloc s = Some (f, t)"
  obtains i where "i < frame_count s" "f = unat (search_frame s i)"
    "\<not> bm_test (frame_bitmap s) f" "t = take_frame s (search_frame s i)"
    "\<forall>j<i. bm_test (frame_bitmap s) (unat (search_frame s j))"
  using assms by (auto simp: frame_alloc_def find_upt_Some split: option.splits)

lemma frame_alloc_None:
  assumes "frames_ok s"
  shows "frame_alloc s = None \<longleftrightarrow> {..<frame_count s} \<subseteq> frames_used s"
proof -
  let ?P = "\<lambda>i. \<not> bm_test (frame_bitmap s) (unat (search_frame s i))"
  have "frame_alloc s = None \<longleftrightarrow> find ?P [0..<frame_count s] = None"
    by (simp add: frame_alloc_def split: option.split)
  also have "\<dots> \<longleftrightarrow> (\<forall>i<frame_count s. \<not> ?P i)" by (rule find_upt_None)
  also have "\<dots> \<longleftrightarrow> (\<forall>j<frame_count s. bm_test (frame_bitmap s) j)"
    using search_covers [OF assms] search_frame_lt [OF assms] by (auto; metis)
  finally show ?thesis by (simp add: frames_used_def bm_set_of_full)
qed

lemma frames_used_take:
  assumes "frames_ok s" and "unat fi < frame_count s"
  shows "frames_used (take_frame s fi) = insert (unat fi) (frames_used s)"
  using bm_set_of_set [OF frames_fit [OF assms(1)] assms(2)]
  by (simp add: frames_used_def take_frame_def)

lemma frames_used_bound: "frames_used s \<subseteq> {..<frame_count s}"
  by (simp add: frames_used_def bm_set_of_subset)

lemma frames_used_finite [simp]: "finite (frames_used s)"
  by (simp add: frames_used_def)

lemma used_count_room:
  assumes "frames_ok s" and "f < frame_count s" and "f \<notin> frames_used s"
  shows "unat (used_frames s) < 2 ^ 20"
proof -
  have "frames_used s \<subset> {..<frame_count s}" using assms(2,3) frames_used_bound by blast
  then have "card (frames_used s) < frame_count s"
    using psubset_card_mono [of "{..<frame_count s}"] by simp
  with assms(1) show ?thesis by (simp add: frames_ok_def)
qed

lemma frames_ok_take:
  assumes "frames_ok s" and "unat fi < frame_count s" and "\<not> bm_test (frame_bitmap s) (unat fi)"
  shows "frames_ok (take_frame s fi)"
proof -
  have new: "unat fi \<notin> frames_used s" using assms(3) by (simp add: frames_used_def bm_set_of_def)
  have "unat (used_frames s + 1) = Suc (unat (used_frames s))"
    using used_count_room [OF assms(1,2) new] by (simp add: unat_word_ariths)
  with assms(1,2) new frames_used_take [OF assms(1,2)] show ?thesis
    by (simp add: frames_ok_def take_frame_def word_less_nat_alt)
qed

lemma frame_addr:
  assumes "i < 2 ^ 20"
  shows "unat (of_nat i * PAGE_SIZE :: u32) = i * 4096"
  using assms by (simp add: unat_word_ariths unat_of_nat take_bit_nat_eq_self_iff)

lemma frame_addr_index:
  assumes "i < 2 ^ 20"
  shows "unat ((of_nat i * PAGE_SIZE) div PAGE_SIZE) = i"
  using frame_addr [OF assms] by (simp add: unat_div_distrib)

lemma free_frame_addr:
  assumes "frames_ok s" and "i < frame_count s"
  shows "free_frame s (of_nat i * PAGE_SIZE) =
    Inr (s\<lparr>frame_bitmap := bm_clear (frame_bitmap s) i, used_frames := used_frames s - 1\<rparr>)"
proof -
  have i: "i < 2 ^ 20" using assms by (simp add: frames_ok_def)
  have "i div 32 < length (frame_bitmap s)" using bm_fits_index [OF frames_fit [OF assms(1)] assms(2)]
    by simp
  with frame_addr_index [OF i] show ?thesis
    by (simp add: free_frame_def unat_div_distrib)
qed

lemma frame_release_eq:
  assumes "frames_ok s" and "i < frame_count s"
  shows "frame_release i s =
    s\<lparr>frame_bitmap := bm_clear (frame_bitmap s) i, used_frames := used_frames s - 1\<rparr>"
  using free_frame_addr [OF assms] by (simp add: frame_release_def)

lemma frames_used_release:
  assumes "frames_ok s" and "i < frame_count s"
  shows "frames_used (frame_release i s) = frames_used s - {i}"
  using bm_set_of_clear [OF frames_fit [OF assms(1)] assms(2)]
  by (simp add: frame_release_eq [OF assms] frames_used_def)

lemma frames_ok_release:
  assumes "frames_ok s" and "i \<in> frames_used s"
  shows "frames_ok (frame_release i s)"
proof -
  have i: "i < frame_count s" using assms(2) frames_used_bound by auto
  have pos: "0 < card (frames_used s)" using assms(2) by (auto simp: card_gt_0_iff)
  then have "unat (used_frames s - 1) = card (frames_used s) - 1"
    using assms(1) by (subst unat_sub_if') (auto simp: frames_ok_def word_le_nat_alt)
  with assms i frames_used_release [OF assms(1) i] show ?thesis
    by (simp add: frames_ok_def frame_release_eq)
qed

lemma frames_setup_ok:
  assumes "0x400000 \<le> mem_size"
  shows "frames_ok (frames_setup mem_size)" and "frames_used (frames_setup mem_size) = {}"
proof -
  let ?n = "unat (mem_size div PAGE_SIZE)"
  have n: "?n = unat mem_size div 4096" by (simp add: unat_div_distrib)
  have lo: "4194304 \<le> unat mem_size" using assms by (simp add: word_le_nat_alt)
  have hi: "?n < 2 ^ 20" using unsigned_less [of mem_size, where 'a = nat] by (simp add: n less_mult_imp_div_less)
  have add: "unat (mem_size div PAGE_SIZE + 31) = ?n + 31"
    using hi by (simp add: unat_word_ariths)
  have "unat ((mem_size div PAGE_SIZE + 31) div 32 * 4) = (?n + 31) div 32 * 4"
    using hi add by (simp add: unat_word_ariths unat_div_distrib)
  then have len: "unat ((mem_size div PAGE_SIZE + 31) div 32 * 4 div 4) = (?n + 31) div 32"
    by (simp add: unat_div_distrib)
  have clear: "frames_used (frames_setup mem_size) = {}"
  proof -
    have "i div 32 < (?n + 31) div 32" if "i < ?n" for i
      using that by (simp add: div_le_mono less_eq_div_iff_mult_less_eq Suc_le_eq [symmetric])
    then show ?thesis
      using bm_test_replicate_0 [where 'a = 32]
      by (auto simp: frames_used_def bm_set_of_def frames_setup_def Let_def len)
  qed
  then show "frames_used (frames_setup mem_size) = {}" .
  have "0 < ?n" using lo by (simp add: n div_greater_zero_iff)
  then show "frames_ok (frames_setup mem_size)"
    using hi clear by (simp add: frames_ok_def frames_setup_def Let_def len word_less_nat_alt)
qed

section \<open>The frame allocator is a slot allocator\<close>

lemma frame_alloc_step:
  assumes ok: "frames_ok s" and "frame_alloc s = Some (f, t)"
  shows "f < frame_count s" and "f \<notin> frames_used s" and "frames_used t = insert f (frames_used s)"
    and "frame_count t = frame_count s" and "frames_ok t" and "unat (last_alloc_frame t) = f"
proof -
  from assms(2) obtain i where i: "i < frame_count s" "f = unat (search_frame s i)"
    "\<not> bm_test (frame_bitmap s) f" "t = take_frame s (search_frame s i)"
    by (rule frame_alloc_SomeD)
  show lt: "f < frame_count s" using i search_frame_lt [OF ok] by simp
  show "f \<notin> frames_used s" using i by (simp add: frames_used_def bm_set_of_def)
  show "frames_used t = insert f (frames_used s)" using i lt frames_used_take [OF ok] by simp
  show "frame_count t = frame_count s" using i by (simp add: take_frame_def)
  show "frames_ok t" using i lt frames_ok_take [OF ok] by simp
  show "unat (last_alloc_frame t) = f" using i by (simp add: take_frame_def)
qed

interpretation frame: slot_allocator frames_ok frame_count frames_used frame_alloc frame_release
proof (unfold_locales, goal_cases)
  case (1 s) show ?case by (rule frames_used_bound)
next
  case (2 s) then show ?case by (rule frame_alloc_None)
next
  case (3 s i t) then show ?case using frame_alloc_step(1,2) by blast
next
  case (4 s i t) then show ?case by (rule frame_alloc_step(3))
next
  case (5 s i t) then show ?case by (rule frame_alloc_step(4))
next
  case (6 s i t) then show ?case by (rule frame_alloc_step(5))
next
  case (7 s i)
  then have "i < frame_count s" using frames_used_bound [of s] by auto
  with 7 show ?case by (simp add: frames_used_release)
next
  case (8 s i)
  then have "i < frame_count s" using frames_used_bound [of s] by auto
  with 8 show ?case by (simp add: frame_release_eq)
next
  case (9 s i) then show ?case by (rule frames_ok_release)
qed

section \<open>Properties\<close>

lemma frame_count_bound: "frames_ok s \<Longrightarrow> f < frame_count s \<Longrightarrow> f < 2 ^ 20"
  by (simp add: frames_ok_def)

lemma free_frame_release:
  "frames_ok s \<Longrightarrow> i < frame_count s \<Longrightarrow> free_frame s (of_nat i * PAGE_SIZE) = Inr (frame_release i s)"
  by (simp add: free_frame_addr frame_release_eq)

text \<open>
  \<^verbatim>\<open>alloc_frame\<close> on every branch. With every frame in use it returns \<^verbatim>\<open>NULL\<close> and changes
  nothing. Otherwise it returns the page-aligned address of a free frame, namely the first free
  one met when the search goes round from the last allocated frame; exactly that frame becomes
  used, the search position moves there, the counter goes up by one and the invariant holds again.
\<close>

theorem alloc_frame_next_fit:
  assumes "frames_ok s"
  shows "if frames_used s = {..<frame_count s} then alloc_frame s = (0, s)
         else \<exists>i t. i < frame_count s \<and>
           (let f = (unat (last_alloc_frame s) + i) mod frame_count s
            in alloc_frame s = (of_nat (f * 4096), t) \<and> f \<notin> frames_used s \<and>
               (\<forall>j<i. (unat (last_alloc_frame s) + j) mod frame_count s \<in> frames_used s) \<and>
               frames_used t = insert f (frames_used s) \<and> unat (last_alloc_frame t) = f \<and>
               unat (used_frames t) = Suc (unat (used_frames s)) \<and> frames_ok t)"
proof (cases "frame_alloc s")
  case None
  then have "frames_used s = {..<frame_count s}"
    using frame.alloc_None [OF assms] frames_used_bound by blast
  with None show ?thesis by (simp add: alloc_frame_def)
next
  case (Some p)
  then obtain f t where p: "frame_alloc s = Some (f, t)" by (cases p) simp
  then obtain i where i: "i < frame_count s" "f = unat (search_frame s i)"
    "\<forall>j<i. bm_test (frame_bitmap s) (unat (search_frame s j))"
    by (elim frame_alloc_SomeD)
  note st = frame_alloc_step [OF assms p]
  have pos: "\<forall>j\<le>i. unat (search_frame s j) = (unat (last_alloc_frame s) + j) mod frame_count s"
    using unat_search_frame [OF assms] i(1) by simp
  have "\<forall>j<i. (unat (last_alloc_frame s) + j) mod frame_count s \<in> frames_used s"
    using i pos search_frame_lt [OF assms] by (auto simp: frames_used_def bm_set_of_def)
  moreover have "frames_used s \<noteq> {..<frame_count s}" using st by auto
  moreover have "unat (used_frames t) = Suc (unat (used_frames s))"
    using st(2,3,5) assms by (simp add: frames_ok_def)
  ultimately show ?thesis
    using p i pos st by (auto simp: alloc_frame_def Let_def intro!: exI [of _ i] exI [of _ t])
qed

theorem alloc_frame_next_fit_witness:
  "frames_ok (frames_setup 0x400000) \<and>
   (\<exists>i t. i < 1024 \<and> alloc_frame (frames_setup 0x400000) = (of_nat (i * 4096), t) \<and>
      frames_used t = {i} \<and> frames_ok t)"
proof -
  let ?s = "frames_setup 0x400000"
  have ok: "frames_ok ?s" and e: "frames_used ?s = {}" using frames_setup_ok [of "0x400000"] by simp_all
  have c: "frame_count ?s = 1024" "unat (last_alloc_frame ?s) = 0"
    by (simp_all add: frames_setup_def Let_def)
  from alloc_frame_next_fit [OF ok] e c ok show ?thesis by (auto simp: Let_def)
qed

text \<open>
  As long as frames are left, allocation keeps succeeding: \<open>n\<close> calls from a state with at
  least \<open>n\<close> free frames hand out \<open>n\<close> different frames, none of them in use before, and keep the
  invariant; once all the free ones are handed out, every frame is in use and the next call of
  \<^verbatim>\<open>alloc_frame\<close> returns \<^verbatim>\<open>NULL\<close>.
\<close>

theorem alloc_frame_exhaustion:
  assumes "frames_ok s" and "n + card (frames_used s) \<le> frame_count s"
  shows "\<exists>is t. alloc_run frame_alloc n s = Some (is, t) \<and> distinct is \<and> length is = n \<and>
           set is \<inter> frames_used s = {} \<and> frames_used t = frames_used s \<union> set is \<and> frames_ok t \<and>
           (n + card (frames_used s) = frame_count s \<longrightarrow>
              frames_used t = {..<frame_count s} \<and> alloc_frame t = (0, t))"
proof -
  obtain "is" t where r: "alloc_run frame_alloc n s = Some (is, t)"
    using frame.alloc_run_total [OF assms] by blast
  note sound = frame.alloc_run_sound [OF assms(1) r]
  have "frames_used t = {..<frame_count s} \<and> alloc_frame t = (0, t)"
    if full: "n + card (frames_used s) = frame_count s"
  proof -
    have "n = frame_count s - card (frames_used s)" using full by simp
    with frame.alloc_run_exhausts [OF assms(1), of "is" t] r show ?thesis
      by (simp add: alloc_frame_def)
  qed
  with r sound show ?thesis by blast
qed

theorem alloc_frame_exhaustion_witness:
  "frames_ok (frames_setup 0x400000) \<and>
   (\<exists>is t. alloc_run frame_alloc 1024 (frames_setup 0x400000) = Some (is, t) \<and> distinct is \<and>
      length is = 1024 \<and> alloc_frame t = (0, t))"
proof -
  let ?s = "frames_setup 0x400000"
  have ok: "frames_ok ?s" and e: "frames_used ?s = {}" using frames_setup_ok [of "0x400000"] by simp_all
  have "frame_count ?s = 1024" by (simp add: frames_setup_def Let_def)
  with alloc_frame_exhaustion [OF ok, of 1024] e ok show ?thesis by auto
qed

text \<open>
  Freeing what was allocated: after a successful \<^verbatim>\<open>alloc_frame\<close>, \<^verbatim>\<open>free_frame\<close> on the
  returned address stays inside the bitmap and restores the set of used frames and the counter.
  The hypothesis is that some frame is free.
\<close>

theorem free_frame_undoes_alloc:
  assumes "frames_ok s" and "frames_used s \<noteq> {..<frame_count s}"
  shows "\<exists>u. free_frame (snd (alloc_frame s)) (fst (alloc_frame s)) = Inr u \<and> frames_ok u \<and>
           frames_used u = frames_used s \<and> used_frames u = used_frames s"
proof -
  have "frame_alloc s \<noteq> None"
    using assms frame.alloc_None [OF assms(1)] frames_used_bound by blast
  then obtain f t where p: "frame_alloc s = Some (f, t)" by auto
  note st = frame_alloc_step [OF assms(1) p]
  have "free_frame t (of_nat f * PAGE_SIZE) = Inr (frame_release f t)"
    using free_frame_release [OF st(5)] st by simp
  moreover have "frames_used (frame_release f t) = frames_used s"
    by (rule frame.alloc_release [OF assms(1) p])
  moreover have ok: "frames_ok (frame_release f t)" using frame.release_invar st by simp
  ultimately show ?thesis using p assms(1)
    by (auto simp: alloc_frame_def frames_ok_def word_unat_eq_iff)
qed

theorem free_frame_undoes_alloc_witness:
  "frames_ok (frames_setup 0x400000) \<and>
   (\<exists>u. free_frame (snd (alloc_frame (frames_setup 0x400000))) (fst (alloc_frame (frames_setup 0x400000))) = Inr u \<and>
      frames_used u = {} \<and> used_frames u = 0)"
proof -
  let ?s = "frames_setup 0x400000"
  have ok: "frames_ok ?s" and e: "frames_used ?s = {}" using frames_setup_ok [of "0x400000"] by simp_all
  have c: "frame_count ?s = 1024" "used_frames ?s = 0" by (simp_all add: frames_setup_def Let_def)
  with e have "frames_used ?s \<noteq> {..<frame_count ?s}" by auto
  from free_frame_undoes_alloc [OF ok this] ok e c show ?thesis by auto
qed

end
