(* ===== verification/Solix_Paging.thy ===== *)
theory Solix_Paging
  imports Solix_Alloc Solix_Frames
begin

text \<open>
  Aligned allocation and the page tables of \<^verbatim>\<open>kernel/mm.c\<close>. An aligned allocation keeps the
  address of the heap block and the alignment in the two words below the pointer it returns;
  these words are a store of their own. Page directories and page tables are objects in stores,
  so that a missing table is a null pointer and a write through it a fault. The abstract view of a
  page directory is the partial map from virtual pages to frames that its tables record; the
  contract of mapping and unmapping is the locale \<open>page_mapper\<close>.
\<close>

declare of_nat_add [simp del]

section \<open>Aligned allocation\<close>

record aligned_heap =
  kheap :: heap
  words :: "u32 \<rightharpoonup> u32"

definition kmalloc_aligned :: "u32 \<Rightarrow> u32 \<Rightarrow> aligned_heap \<Rightarrow> (fault + u32 \<times> aligned_heap) option" where
  "kmalloc_aligned sz alignment s =
     (if sz = 0 \<or> alignment = 0 then Some (Inr (0, s))
      else if alignment AND (alignment - 1) \<noteq> 0 then Some (Inr (0, s))
      else let total_size = sz + alignment - 1 + 4 + 4
           in bind_run (kmalloc total_size (kheap s)) (\<lambda>(raw_ptr, h).
                if raw_ptr = 0 then Some (Inr (0, s\<lparr>kheap := h\<rparr>))
                else let aligned_addr = (raw_ptr + 4 + 4 + alignment - 1) AND NOT (alignment - 1)
                     in Some (Inr (aligned_addr,
                          s\<lparr>kheap := h,
                            words := (words s)(aligned_addr - 4 \<mapsto> raw_ptr - HDR,
                                               aligned_addr - 4 - 4 \<mapsto> alignment)\<rparr>))))"

definition load_word :: "(u32 \<rightharpoonup> u32) \<Rightarrow> u32 \<Rightarrow> fault + u32" where
  "load_word ws a = (case ws a of None \<Rightarrow> Inl (Wild_Access a) | Some w \<Rightarrow> Inr w)"

definition kfree_aligned :: "u32 \<Rightarrow> aligned_heap \<Rightarrow> fault + aligned_heap" where
  "kfree_aligned ptr s =
     (if ptr = 0 then Inr s
      else bind_res (load_word (words s) (ptr - 4 - 4)) (\<lambda>alignment.
           if alignment = 0 then Inl Divide_Error
           else if ptr mod alignment \<noteq> 0 then Inl (Panic ''Invalid aligned free - address not properly aligned'')
           else bind_res (load_word (words s) (ptr - 4)) (\<lambda>original.
                bind_res (kfree (original + HDR) (kheap s)) (\<lambda>h. Inr (s\<lparr>kheap := h\<rparr>)))))"

section \<open>Page tables\<close>

abbreviation PAGE_ENTRIES :: u32 where "PAGE_ENTRIES \<equiv> 1024"

text \<open>The bits \<^verbatim>\<open>pwt\<close> to \<^verbatim>\<open>avail\<close>, which no operation touches, are the field \<open>attrs\<close>.\<close>

record page_entry =
  present :: bool
  rw :: bool
  user :: bool
  attrs :: "9 word"
  frame :: "20 word"

record page_directory =
  tables :: "u32 list"
  entries :: "page_entry list"
  physical_addr :: u32

text \<open>
  \<open>old_entries p\<close> is what heap memory at \<open>p\<close> reads as when it is taken over as a page table; the
  code clears only the present bits of a new table.
\<close>

record mm =
  aheap :: aligned_heap
  page_tables :: "u32 \<rightharpoonup> page_entry list"
  page_dirs :: "u32 \<rightharpoonup> page_directory"
  current_directory :: u32
  mm_frames :: frames
  old_entries :: "u32 \<Rightarrow> page_entry list"

definition load_obj :: "(u32 \<rightharpoonup> 'a) \<Rightarrow> u32 \<Rightarrow> (fault + 'a) option" where
  "load_obj st p = (case st p of None \<Rightarrow> Some (Inl (Wild_Access p)) | Some x \<Rightarrow> Some (Inr x))"

definition table_index :: "u32 \<Rightarrow> nat" where
  "table_index virt = unat (virt div PAGE_SIZE div PAGE_ENTRIES)"

definition entry_index :: "u32 \<Rightarrow> nat" where
  "entry_index virt = unat (virt div PAGE_SIZE mod PAGE_ENTRIES)"

text \<open>Creating a missing page table, lines 346--359.\<close>

definition new_table :: "u32 \<Rightarrow> u32 \<Rightarrow> mm \<Rightarrow> (fault + mm) option" where
  "new_table dir virt s =
     bind_run (load_obj (page_dirs s) dir) (\<lambda>d.
     bind_run (kmalloc_aligned 4096 PAGE_SIZE (aheap s)) (\<lambda>(t, ah).
       if t = 0 then Some (Inl (Wild_Access 0))
       else let ti = table_index virt;
                d' = d\<lparr>tables := (tables d)[ti := t],
                       entries := (entries d)[ti := (entries d ! ti)
                         \<lparr>frame := ucast (drop_bit 12 t), present := True, rw := True, user := False\<rparr>]\<rparr>
            in Some (Inr (s\<lparr>aheap := ah,
                           page_tables := (page_tables s)(t \<mapsto> map (present_update (\<lambda>_. False)) (old_entries s t)),
                           page_dirs := (page_dirs s)(dir \<mapsto> d')\<rparr>))))"

definition set_entry :: "u32 \<Rightarrow> u32 \<Rightarrow> page_entry \<Rightarrow> page_entry" where
  "set_entry phys flags e =
     e\<lparr>frame := ucast (drop_bit 12 phys), present := flags AND 1 \<noteq> 0,
       rw := flags AND 2 \<noteq> 0, user := flags AND 4 \<noteq> 0\<rparr>"

definition map_page :: "u32 \<Rightarrow> u32 \<Rightarrow> u32 \<Rightarrow> u32 \<Rightarrow> mm \<Rightarrow> (fault + mm) option" where
  "map_page dir virt phys flags s =
     bind_run (load_obj (page_dirs s) dir) (\<lambda>d.
     bind_run (if tables d ! table_index virt = 0 then new_table dir virt s else Some (Inr s)) (\<lambda>s1.
     bind_run (load_obj (page_dirs s1) dir) (\<lambda>d1.
       let t = tables d1 ! table_index virt; ei = entry_index virt
       in bind_run (load_obj (page_tables s1) t) (\<lambda>pages.
            Some (Inr (s1\<lparr>page_tables :=
              (page_tables s1)(t \<mapsto> pages[ei := set_entry phys flags (pages ! ei)])\<rparr>))))))"

definition unmap_page :: "u32 \<Rightarrow> u32 \<Rightarrow> mm \<Rightarrow> (fault + mm) option" where
  "unmap_page dir virt s =
     bind_run (load_obj (page_dirs s) dir) (\<lambda>d.
       let t = tables d ! table_index virt; ei = entry_index virt
       in if t \<noteq> 0
          then bind_run (load_obj (page_tables s) t) (\<lambda>pages.
                 Some (Inr (s\<lparr>page_tables :=
                   (page_tables s)(t \<mapsto> pages[ei := (pages ! ei)\<lparr>present := False\<rparr>])\<rparr>)))
          else Some (Inr s))"

text \<open>The registers \<^verbatim>\<open>paging_init\<close> reads and writes.\<close>

record cpu_regs =
  cr0 :: u32
  cr3 :: u32

fun map_seq :: "(u32 \<Rightarrow> u32 \<Rightarrow> u32 \<Rightarrow> 's \<Rightarrow> (fault + 's) option) \<Rightarrow> (u32 \<times> u32 \<times> u32) list \<Rightarrow> 's \<Rightarrow> (fault + 's) option" where
  "map_seq mp [] s = Some (Inr s)"
| "map_seq mp ((v, p, f) # ms) s = bind_run (mp v p f s) (map_seq mp ms)"

text \<open>The loop of lines 285--287.\<close>

definition identity_pages :: "nat \<Rightarrow> (u32 \<times> u32 \<times> u32) list" where
  "identity_pages n = map (\<lambda>i. (of_nat i * PAGE_SIZE, of_nat i * PAGE_SIZE, 3)) [0..<n]"

definition clear_directory :: "u32 \<Rightarrow> page_entry list \<Rightarrow> page_directory" where
  "clear_directory p old =
     \<lparr>tables = replicate 1024 0,
      entries = map (\<lambda>e. e\<lparr>present := False, rw := False, user := False\<rparr>) old,
      physical_addr = p\<rparr>"

definition paging_init :: "u32 \<Rightarrow> cpu_regs \<Rightarrow> mm \<Rightarrow> (fault + cpu_regs \<times> mm) option" where
  "paging_init mem_size regs s =
     (if mem_size < 4 * 1024 * 1024
      then Some (Inl (Panic ''Insufficient memory for paging (minimum 4MB required)''))
      else let fr = frames_setup mem_size
           in bind_run (kmalloc ((total_frames fr + 31) div 32 * 4) (kheap (aheap s))) (\<lambda>(bm, h).
              if bm = 0 then Some (Inl (Panic ''Failed to allocate frame bitmap''))
              else bind_run (kmalloc_aligned 8196 PAGE_SIZE ((aheap s)\<lparr>kheap := h\<rparr>)) (\<lambda>(dir, ah).
              if dir = 0 then Some (Inl (Panic ''Failed to allocate page directory''))
              else let s1 = s\<lparr>aheap := ah, mm_frames := fr, current_directory := dir,
                             page_dirs := (page_dirs s)(dir \<mapsto> clear_directory dir (old_entries s dir))\<rparr>
                   in bind_run (map_seq (map_page dir) (identity_pages 1024) s1) (\<lambda>s2.
                      bind_run (load_obj (page_dirs s2) dir) (\<lambda>d.
                        let s3 = s2\<lparr>page_dirs := (page_dirs s2)(dir \<mapsto> d\<lparr>physical_addr := cr3 regs\<rparr>)\<rparr>
                        in if cr0 regs AND 0x80000000 \<noteq> 0 then Some (Inl (Panic ''Paging already enabled''))
                           else Some (Inr (regs\<lparr>cr0 := cr0 regs OR 0x80000000\<rparr>, s3)))))))"

definition mm_init :: "u32 \<Rightarrow> cpu_regs \<Rightarrow> mm \<Rightarrow> (fault + cpu_regs \<times> mm) option" where
  "mm_init end_sym regs s =
     bind_run (Some (heap_init end_sym)) (\<lambda>h.
       paging_init (128 * 1024 * 1024) regs (s\<lparr>aheap := (aheap s)\<lparr>kheap := h\<rparr>\<rparr>))"

section \<open>Lemmas on alignment\<close>

text \<open>The test \<^verbatim>\<open>alignment & (alignment - 1)\<close> recognises the powers of two.\<close>

lemma power_of_two_test:
  fixes w :: u32
  assumes "w \<noteq> 0" and "w AND (w - 1) = 0"
  obtains k where "k < 32" "w = 2 ^ k"
proof -
  have pos: "0 < unat w" using assms(1) by (simp add: unat_gt_0)
  obtain k where k: "2 ^ k \<le> unat w" "unat w < 2 ^ Suc k"
    using ex_power_ivl1 [of 2 "unat w"] pos by auto
  have "unat w < 2 ^ 32" using unsigned_less [of w, where 'a = nat] by simp
  then have k32: "k < 32" using k(1) by (metis le_less_trans nat_power_less_imp_less zero_less_numeral)
  have bit: "bit v k" if "2 ^ k \<le> unat v" "unat v < 2 ^ Suc k" for v :: u32
  proof -
    have "unat v div 2 ^ k = 1" using that by (intro div_nat_eqI) auto
    then have "bit (unat v) k" by (simp add: bit_iff_odd)
    then show ?thesis by (simp add: bit_unsigned_iff)
  qed
  have "unat w = 2 ^ k"
  proof (rule ccontr)
    assume "unat w \<noteq> 2 ^ k"
    then have "2 ^ k \<le> unat w - 1" "unat w - 1 < 2 ^ Suc k" using k by auto
    moreover have "unat (w - 1) = unat w - 1" using assms(1) by (simp add: unat_minus_one)
    ultimately have "bit w k" "bit (w - 1) k" using bit k by simp_all
    then have "bit (w AND (w - 1)) k" by (simp add: bit_and_iff)
    with assms(2) show False by simp
  qed
  then have "of_nat (unat w) = (2 ^ k :: u32)" by simp
  then have "w = 2 ^ k" by simp
  with k32 show ?thesis by (rule that)
qed

lemma unat_and_not_mask: "unat ((w :: u32) AND NOT (2 ^ k - 1)) = unat w - unat w mod 2 ^ k"
proof -
  have "unat (w AND NOT (mask k)) = unat (push_bit k (drop_bit k w))" by (simp add: and_not_mask)
  also have "\<dots> = take_bit 32 (push_bit k (drop_bit k (unat w)))"
    by (simp add: unsigned_push_bit_eq unat_drop_bit_eq)
  also have "\<dots> = take_bit 32 (2 ^ k * (unat w div 2 ^ k))"
    by (simp add: push_bit_eq_mult drop_bit_eq_div mult.commute)
  also have "\<dots> = 2 ^ k * (unat w div 2 ^ k)"
  proof (rule take_bit_nat_eq_self)
    have "2 ^ k * (unat w div 2 ^ k) \<le> unat w" by simp
    also have "unat w < 2 ^ 32" using unsigned_less [of w, where 'a = nat] by simp
    finally show "2 ^ k * (unat w div 2 ^ k) < 2 ^ 32" .
  qed
  finally show ?thesis by (simp add: mask_eq_exp_minus_1 minus_mod_eq_mult_div)
qed

lemma unat_pow2: "k < 32 \<Longrightarrow> unat (2 ^ k :: u32) = 2 ^ k"
  using unat_of_nat_u32 [of "2 ^ k"] power_strict_increasing [of k 32 "2 :: nat"] by simp

lemma align_up:
  fixes raw al :: u32
  assumes "al = 2 ^ k" and "k < 32" and "unat raw + 7 + unat al < 2 ^ 32"
  defines "p \<equiv> (raw + 4 + 4 + al - 1) AND NOT (al - 1)"
  shows "unat p mod unat al = 0" and "unat raw + 8 \<le> unat p" and "unat p \<le> unat raw + 7 + unat al"
proof -
  have al: "unat al = 2 ^ k" using assms(1,2) by (simp add: unat_pow2)
  have "raw + 4 + 4 + al - 1 = of_nat (unat raw + 7 + unat al)" by (simp add: of_nat_add)
  then have top: "unat (raw + 4 + 4 + al - 1) = unat raw + 7 + unat al"
    using assms(3) unat_of_nat_u32 by metis
  have p: "unat p = (unat raw + 7 + 2 ^ k) - (unat raw + 7 + 2 ^ k) mod 2 ^ k"
    unfolding p_def assms(1) using unat_and_not_mask top al assms(1) by metis
  then show "unat p mod unat al = 0" unfolding al
    by (metis minus_mod_eq_mult_div mod_mult_self1_is_0)
  have "(unat raw + 7 + 2 ^ k) mod 2 ^ k < 2 ^ k" by simp
  then show "unat raw + 8 \<le> unat p" using p by linarith
  show "unat p \<le> unat raw + 7 + unat al" using p al by simp
qed

lemma kmalloc_aligned_region:
  assumes live: "heap_live (kheap s) L" and "sz \<noteq> 0" and al: "al \<noteq> 0" "al AND (al - 1) = 0"
    and fits: "unat sz + unat al + 7 \<le> 0xFFFFFFFC"
    and run: "kmalloc_aligned sz al s = Some (Inr (p, s'))" and "p \<noteq> 0"
  obtains raw n where "raw \<noteq> 0" "heap_live (kheap s') (insert (unat raw, n) L)" "unat raw \<notin> fst ` L"
    "\<forall>q\<in>L. region_of (unat raw, n) \<inter> region_of q = {}"
    "unat p mod unat al = 0" "unat raw + 8 \<le> unat p" "unat p + unat sz \<le> unat raw + n"
    "unat raw + n < 2 ^ 32" "words s' (p - 4) = Some (raw - HDR)" "words s' (p - 4 - 4) = Some al"
proof -
  let ?total = "sz + al - 1 + 4 + 4"
  have t: "?total = of_nat (unat sz + unat al + 7)" by (simp add: of_nat_add)
  then have total: "unat ?total = unat sz + unat al + 7"
    using fits unat_of_nat_u32 [of "unat sz + unat al + 7"] by simp
  obtain raw h where k: "kmalloc ?total (kheap s) = Some (Inr (raw, h))" "raw \<noteq> 0"
    "p = (raw + 4 + 4 + al - 1) AND NOT (al - 1)" "s' = s\<lparr>kheap := h,
       words := (words s)(p - 4 \<mapsto> raw - HDR, p - 4 - 4 \<mapsto> al)\<rparr>"
    using run assms(2,7) al by (auto simp: kmalloc_aligned_def Let_def bind_run_Inr_iff split: if_splits)
  have "?total \<le> 0xFFFFFFFC" using total fits by (simp add: word_le_nat_alt)
  from kheap.alloc_fresh_region [OF live k(1,2) this] obtain n where n:
    "unat ?total \<le> n" "unat raw + n < 2 ^ 32" "heap_live h (insert (unat raw, n) L)" "unat raw \<notin> fst ` L"
    "\<forall>q\<in>L. region_of (unat raw, n) \<inter> region_of q = {}" by blast
  obtain b where b: "b < 32" "al = 2 ^ b" using power_of_two_test [OF al] .
  have "unat raw + 7 + unat al < 2 ^ 32" using n(1,2) total by linarith
  note up = align_up [OF b(2,1) this, folded k(3)]
  have "unat p + unat sz \<le> unat raw + n" using up(3) n(1) total by linarith
  moreover have "p - 4 \<noteq> p - 4 - 4" by simp
  ultimately show ?thesis
    using that [OF k(2), of n] n up k(4) by simp
qed

section \<open>The contract of a page mapper\<close>

text \<open>
  \<open>trans s v\<close> is what the virtual address \<open>v\<close> is mapped to: the frame with the write and user
  permission. Mapping a page changes the translation of that page only; unmapping removes it.
\<close>

type_synonym mapping_entry = "20 word \<times> bool \<times> bool"

definition granted :: "u32 \<Rightarrow> u32 \<Rightarrow> mapping_entry option" where
  "granted phys flags =
     (if flags AND 1 \<noteq> 0 then Some (ucast (drop_bit 12 phys), flags AND 2 \<noteq> 0, flags AND 4 \<noteq> 0) else None)"

locale page_mapper =
  fixes ok :: "'s \<Rightarrow> bool"
    and trans :: "'s \<Rightarrow> u32 \<Rightarrow> mapping_entry option"
    and mapp :: "u32 \<Rightarrow> u32 \<Rightarrow> u32 \<Rightarrow> 's \<Rightarrow> (fault + 's) option"
    and unmap :: "u32 \<Rightarrow> 's \<Rightarrow> (fault + 's) option"
  assumes map_ok: "ok s \<Longrightarrow> mapp v p f s = Some (Inr t) \<Longrightarrow> ok t"
    and map_trans: "ok s \<Longrightarrow> mapp v p f s = Some (Inr t) \<Longrightarrow>
      trans t x = (if x div PAGE_SIZE = v div PAGE_SIZE then granted p f else trans s x)"
    and map_returns: "ok s \<Longrightarrow> mapp v p f s \<noteq> None"
    and unmap_total: "ok s \<Longrightarrow> \<exists>t. unmap v s = Some (Inr t) \<and> ok t"
    and unmap_trans: "ok s \<Longrightarrow> unmap v s = Some (Inr t) \<Longrightarrow>
      trans t x = (if x div PAGE_SIZE = v div PAGE_SIZE then None else trans s x)"
begin

lemma unmap_map:
  assumes "ok s" and "mapp v p f s = Some (Inr t)"
  shows "\<exists>u. unmap v t = Some (Inr u) \<and> ok u \<and>
    trans u = (\<lambda>x. if x div PAGE_SIZE = v div PAGE_SIZE then None else trans s x)"
proof -
  have "ok t" using assms by (rule map_ok)
  then obtain u where "unmap v t = Some (Inr u)" "ok u" using unmap_total by blast
  with unmap_trans [OF \<open>ok t\<close>] map_trans [OF assms] show ?thesis by fastforce
qed

text \<open>A sequence of mappings: the last one for a page counts.\<close>

lemma map_seq_trans:
  assumes "ok s" and "map_seq mapp ms s = Some (Inr t)"
  shows "ok t \<and> trans t x =
    (case find (\<lambda>(v, p, f). x div PAGE_SIZE = v div PAGE_SIZE) (rev ms) of
       None \<Rightarrow> trans s x | Some (v, p, f) \<Rightarrow> granted p f)"
  using assms
proof (induction ms arbitrary: s)
  case (Cons m ms)
  obtain v p f where m: "m = (v, p, f)" by (cases m)
  from Cons.prems(2) m obtain s' where s': "mapp v p f s = Some (Inr s')" "map_seq mapp ms s' = Some (Inr t)"
    by (auto simp: bind_run_Inr_iff)
  have "ok s'" using map_ok [OF Cons.prems(1) s'(1)] .
  from Cons.IH [OF this s'(2)] map_trans [OF Cons.prems(1) s'(1), of x] show ?case
    by (auto simp: m find_append split: option.split)
qed simp

lemma map_seq_returns:
  "ok s \<Longrightarrow> map_seq mapp ms s \<noteq> None"
proof (induction ms arbitrary: s)
  case (Cons m ms)
  obtain v p f where m: "m = (v, p, f)" by (cases m)
  obtain r where "mapp v p f s = Some r" using map_returns [OF Cons.prems] by blast
  with Cons m map_ok [of s v p f] show ?case by (cases r) auto
qed simp

end

section \<open>The page tables as a page mapper\<close>

definition lookup :: "u32 \<Rightarrow> mm \<Rightarrow> u32 \<Rightarrow> page_entry option" where
  "lookup dir s virt =
     (case page_dirs s dir of
        None \<Rightarrow> None
      | Some d \<Rightarrow>
          let t = tables d ! table_index virt
          in if t = 0 then None
             else map_option (\<lambda>pages. pages ! entry_index virt) (page_tables s t))"

definition translate :: "u32 \<Rightarrow> mm \<Rightarrow> u32 \<Rightarrow> mapping_entry option" where
  "translate dir s virt =
     (case lookup dir s virt of
        None \<Rightarrow> None
      | Some e \<Rightarrow> if present e then Some (frame e, rw e, user e) else None)"

text \<open>
  The directory exists, its page tables exist and are different objects, and each lies in a live
  region of the heap.
\<close>

definition vm_ok :: "u32 \<Rightarrow> mm \<Rightarrow> bool" where
  "vm_ok dir s \<longleftrightarrow>
     (\<exists>d L. page_dirs s dir = Some d \<and> heap_live (kheap (aheap s)) L \<and>
        length (tables d) = 1024 \<and> length (entries d) = 1024 \<and>
        (\<forall>p. length (old_entries s p) = 1024) \<and>
        (\<forall>i<1024. tables d ! i \<noteq> 0 \<longrightarrow>
           (\<exists>pages. page_tables s (tables d ! i) = Some pages \<and> length pages = 1024) \<and>
           (\<exists>r\<in>L. unat (tables d ! i) \<in> region_of r)) \<and>
        (\<forall>i<1024. \<forall>j<1024. i \<noteq> j \<and> tables d ! i \<noteq> 0 \<longrightarrow> tables d ! i \<noteq> tables d ! j))"

lemma table_index_lt: "table_index virt < 1024"
proof -
  have "unat virt < 2 ^ 32" using unsigned_less [of virt, where 'a = nat] by simp
  then have "unat virt div 4096 div 1024 < 1024" by (simp add: less_mult_imp_div_less)
  then show ?thesis by (simp add: table_index_def unat_div_distrib)
qed

lemma entry_index_lt: "entry_index virt < 1024"
  by (simp add: entry_index_def unat_mod_distrib)

lemma same_page: "v div PAGE_SIZE = w div PAGE_SIZE \<longleftrightarrow> table_index v = table_index w \<and> entry_index v = entry_index w"
proof -
  let ?a = "unat v div 4096" and ?b = "unat w div 4096"
  have "v div PAGE_SIZE = w div PAGE_SIZE \<longleftrightarrow> ?a = ?b"
    by (simp add: word_unat_eq_iff unat_div_distrib)
  also have "\<dots> \<longleftrightarrow> ?a div 1024 = ?b div 1024 \<and> ?a mod 1024 = ?b mod 1024" by (metis div_mult_mod_eq)
  finally show ?thesis by (simp add: table_index_def entry_index_def unat_div_distrib unat_mod_distrib)
qed

text \<open>Writing an entry of an existing table.\<close>

definition put_entry :: "u32 \<Rightarrow> u32 \<Rightarrow> (page_entry \<Rightarrow> page_entry) \<Rightarrow> mm \<Rightarrow> (fault + mm) option" where
  "put_entry dir virt g s =
     bind_run (load_obj (page_dirs s) dir) (\<lambda>d.
       let t = tables d ! table_index virt; ei = entry_index virt
       in bind_run (load_obj (page_tables s) t) (\<lambda>pages.
            Some (Inr (s\<lparr>page_tables := (page_tables s)(t \<mapsto> pages[ei := g (pages ! ei)])\<rparr>))))"

lemma put_entry_ok:
  assumes ok: "vm_ok dir s" and d: "page_dirs s dir = Some d" and t: "tables d ! table_index virt \<noteq> 0"
  shows "\<exists>s'. put_entry dir virt g s = Some (Inr s') \<and> vm_ok dir s' \<and>
    lookup dir s' x = (if x div PAGE_SIZE = virt div PAGE_SIZE then map_option g (lookup dir s x) else lookup dir s x)"
proof -
  let ?ti = "table_index virt" and ?ei = "entry_index virt"
  let ?t = "tables d ! ?ti"
  obtain L where L: "heap_live (kheap (aheap s)) L" "length (tables d) = 1024"
    "length (entries d) = 1024" "\<forall>p. length (old_entries s p) = 1024"
    and tabs: "\<forall>i<1024. tables d ! i \<noteq> 0 \<longrightarrow>
      (\<exists>pages. page_tables s (tables d ! i) = Some pages \<and> length pages = 1024) \<and>
      (\<exists>r\<in>L. unat (tables d ! i) \<in> region_of r)"
    and inj: "\<forall>i<1024. \<forall>j<1024. i \<noteq> j \<and> tables d ! i \<noteq> 0 \<longrightarrow> tables d ! i \<noteq> tables d ! j"
    using ok d unfolding vm_ok_def by auto
  obtain pages where pages: "page_tables s ?t = Some pages" "length pages = 1024"
    using tabs t table_index_lt by blast
  let ?s = "s\<lparr>page_tables := (page_tables s)(?t \<mapsto> pages[?ei := g (pages ! ?ei)])\<rparr>"
  have "put_entry dir virt g s = Some (Inr ?s)"
    using d pages by (simp add: put_entry_def load_obj_def Let_def)
  moreover have "vm_ok dir ?s"
    unfolding vm_ok_def using d L tabs inj pages by (intro exI [of _ d] exI [of _ L]) auto
  moreover have "lookup dir ?s x =
      (if x div PAGE_SIZE = virt div PAGE_SIZE then map_option g (lookup dir s x) else lookup dir s x)"
  proof (cases "table_index x = ?ti")
    case True
    then show ?thesis
      using d t pages entry_index_lt [of virt] by (auto simp: lookup_def Let_def same_page nth_list_update)
  next
    case False
    then have "tables d ! table_index x \<noteq> ?t" using inj t table_index_lt by metis
    with False show ?thesis using d by (simp add: lookup_def Let_def same_page)
  qed
  ultimately show ?thesis by blast
qed

lemma kmalloc_aligned_returns:
  assumes "heap_live (kheap s) L"
  shows "\<exists>r. kmalloc_aligned sz al s = Some r"
proof -
  obtain r where "kmalloc (sz + al - 1 + 4 + 4) (kheap s) = Some r"
    using kheap.alloc_returns [OF assms] by blast
  then show ?thesis by (cases r) (auto simp: kmalloc_aligned_def Let_def bind_run_def split: prod.split)
qed

lemma new_table_ok:
  assumes ok: "vm_ok dir s" and d: "page_dirs s dir = Some d" and t0: "tables d ! table_index virt = 0"
    and run: "new_table dir virt s = Some (Inr s')"
  shows "vm_ok dir s'" and "translate dir s' x = translate dir s x"
    and "\<exists>d'. page_dirs s' dir = Some d' \<and> tables d' ! table_index virt \<noteq> 0"
proof -
  let ?ti = "table_index virt"
  obtain L where L: "heap_live (kheap (aheap s)) L" "length (tables d) = 1024"
    "length (entries d) = 1024" "\<forall>p. length (old_entries s p) = 1024"
    and tabs: "\<forall>i<1024. tables d ! i \<noteq> 0 \<longrightarrow>
      (\<exists>pages. page_tables s (tables d ! i) = Some pages \<and> length pages = 1024) \<and>
      (\<exists>r\<in>L. unat (tables d ! i) \<in> region_of r)"
    and inj: "\<forall>i<1024. \<forall>j<1024. i \<noteq> j \<and> tables d ! i \<noteq> 0 \<longrightarrow> tables d ! i \<noteq> tables d ! j"
    using ok d unfolding vm_ok_def by auto
  obtain t ah where k: "kmalloc_aligned 4096 PAGE_SIZE (aheap s) = Some (Inr (t, ah))" "t \<noteq> 0"
    and s': "s' = s\<lparr>aheap := ah,
       page_tables := (page_tables s)(t \<mapsto> map (present_update (\<lambda>_. False)) (old_entries s t)),
       page_dirs := (page_dirs s)(dir \<mapsto> d\<lparr>tables := (tables d)[?ti := t],
         entries := (entries d)[?ti := (entries d ! ?ti)
           \<lparr>frame := ucast (drop_bit 12 t), present := True, rw := True, user := False\<rparr>]\<rparr>)\<rparr>"
    using run d by (auto simp: new_table_def load_obj_def bind_run_Inr_iff Let_def split: if_splits)
  have pre: "PAGE_SIZE \<noteq> 0" "PAGE_SIZE \<noteq> 0" "PAGE_SIZE AND (PAGE_SIZE - 1) = 0"
    "unat PAGE_SIZE + unat PAGE_SIZE + 7 \<le> 0xFFFFFFFC" by simp_all
  obtain raw :: u32 and n where r: "heap_live (kheap ah) (insert (unat raw, n) L)"
    "\<forall>q\<in>L. region_of (unat raw, n) \<inter> region_of q = {}" "unat raw + 8 \<le> unat t"
    "unat t + unat PAGE_SIZE \<le> unat raw + n"
    by (rule kmalloc_aligned_region [OF L(1) pre k])
  have t: "unat t \<in> region_of (unat raw, n)" using r(3,4) by (auto simp: region_of_def)
  have new: "tables d ! i \<noteq> t" if "i < 1024" for i
    using that tabs t r(2) k(2) by (cases "tables d ! i = 0") (simp, blast)
  have ti: "?ti < 1024" by (rule table_index_lt)
  show "vm_ok dir s'"
    unfolding vm_ok_def
  proof (intro exI conjI)
    show "heap_live (kheap (aheap s')) (insert (unat raw, n) L)" using r(1) s' by simp
    show "page_dirs s' dir = Some (d\<lparr>tables := (tables d)[?ti := t], entries := (entries d)[?ti := (entries d ! ?ti)
           \<lparr>frame := ucast (drop_bit 12 t), present := True, rw := True, user := False\<rparr>]\<rparr>)" using s' by simp
  qed (use L tabs inj t new not_sym [OF new] ti k(2) s' in \<open>auto simp: nth_list_update\<close>)
  show "\<exists>d'. page_dirs s' dir = Some d' \<and> tables d' ! ?ti \<noteq> 0" using s' L(2) ti k(2) by simp
  have el: "entry_index x < 1024" by (rule entry_index_lt)
  show "translate dir s' x = translate dir s x"
  proof (cases "table_index x = ?ti")
    case True
    then show ?thesis using s' d t0 k(2) L(2,4) ti el by (simp add: translate_def lookup_def Let_def)
  next
    case False
    then show ?thesis using s' d new [OF table_index_lt, of x] by (simp add: translate_def lookup_def Let_def)
  qed
qed

lemma map_page_put:
  assumes "page_dirs s dir = Some d"
  shows "map_page dir virt phys flags s =
    bind_run (if tables d ! table_index virt = 0 then new_table dir virt s else Some (Inr s))
      (put_entry dir virt (set_entry phys flags))"
  using assms by (simp add: map_page_def load_obj_def put_entry_def [abs_def])

lemma unmap_page_put:
  assumes "page_dirs s dir = Some d"
  shows "unmap_page dir virt s =
    (if tables d ! table_index virt = 0 then Some (Inr s) else put_entry dir virt (present_update (\<lambda>_. False)) s)"
  using assms by (simp add: unmap_page_def load_obj_def put_entry_def Let_def)

lemma set_entry_granted:
  "(if present (set_entry phys flags e) then Some (frame (set_entry phys flags e), rw (set_entry phys flags e), user (set_entry phys flags e)) else None) =
   granted phys flags"
  by (simp add: set_entry_def granted_def)

lemma lookup_Some:
  assumes "vm_ok dir s" and "page_dirs s dir = Some d" and "tables d ! table_index x \<noteq> 0"
  shows "\<exists>e. lookup dir s x = Some e"
  using assms table_index_lt [of x] unfolding vm_ok_def lookup_def Let_def by fastforce

lemma map_page_ok:
  assumes ok: "vm_ok dir s" and run: "map_page dir virt phys flags s = Some (Inr s')"
  shows "vm_ok dir s' \<and> translate dir s' x =
    (if x div PAGE_SIZE = virt div PAGE_SIZE then granted phys flags else translate dir s x)"
proof -
  obtain d where d: "page_dirs s dir = Some d" using ok by (auto simp: vm_ok_def)
  obtain s1 where s1: "(if tables d ! table_index virt = 0 then new_table dir virt s else Some (Inr s)) = Some (Inr s1)"
    and put: "put_entry dir virt (set_entry phys flags) s1 = Some (Inr s')"
    using run by (auto simp: map_page_put [OF d] bind_run_Inr_iff)
  have "vm_ok dir s1 \<and> translate dir s1 x = translate dir s x \<and>
      (\<exists>d1. page_dirs s1 dir = Some d1 \<and> tables d1 ! table_index virt \<noteq> 0)"
  proof (cases "tables d ! table_index virt = 0")
    case True
    with new_table_ok [OF ok d True] s1 show ?thesis by simp
  next
    case False
    with s1 ok d show ?thesis by auto
  qed
  then obtain d1 where k: "vm_ok dir s1" "translate dir s1 x = translate dir s x"
    "page_dirs s1 dir = Some d1" "tables d1 ! table_index virt \<noteq> 0" by blast
  from put_entry_ok [OF k(1,3,4), of "set_entry phys flags" x] put have p: "vm_ok dir s'"
    "lookup dir s' x = (if x div PAGE_SIZE = virt div PAGE_SIZE then map_option (set_entry phys flags) (lookup dir s1 x)
       else lookup dir s1 x)" by auto
  have "\<exists>e. lookup dir s1 x = Some e" if "x div PAGE_SIZE = virt div PAGE_SIZE"
    using lookup_Some [OF k(1,3), of x] k(4) that by (simp add: same_page)
  with p k(2) show ?thesis by (auto simp: translate_def set_entry_granted)
qed

lemma map_page_returns:
  assumes "vm_ok dir s"
  shows "map_page dir virt phys flags s \<noteq> None"
proof -
  obtain d L where d: "page_dirs s dir = Some d" and L: "heap_live (kheap (aheap s)) L"
    using assms by (auto simp: vm_ok_def)
  obtain r where "kmalloc_aligned 4096 PAGE_SIZE (aheap s) = Some r" using kmalloc_aligned_returns [OF L] by blast
  then have "new_table dir virt s \<noteq> None"
    using d by (cases r) (auto simp: new_table_def load_obj_def Let_def split: prod.split)
  then show ?thesis
    by (auto simp: map_page_put [OF d] bind_run_def put_entry_def load_obj_def Let_def
        split: option.splits sum.splits)
qed

lemma unmap_page_ok:
  assumes ok: "vm_ok dir s"
  shows "\<exists>t. unmap_page dir virt s = Some (Inr t) \<and> vm_ok dir t \<and>
    (\<forall>x. translate dir t x = (if x div PAGE_SIZE = virt div PAGE_SIZE then None else translate dir s x))"
proof -
  obtain d where d: "page_dirs s dir = Some d" using ok by (auto simp: vm_ok_def)
  show ?thesis
  proof (cases "tables d ! table_index virt = 0")
    case True
    then have "translate dir s x = None" if "x div PAGE_SIZE = virt div PAGE_SIZE" for x
      using that d by (simp add: translate_def lookup_def Let_def same_page)
    with True ok d show ?thesis by (simp add: unmap_page_put)
  next
    case False
    let ?g = "present_update (\<lambda>_. False)"
    obtain t where t: "put_entry dir virt ?g s = Some (Inr t)" "vm_ok dir t"
      using put_entry_ok [OF ok d False] by blast
    have "translate dir t x = (if x div PAGE_SIZE = virt div PAGE_SIZE then None else translate dir s x)" for x
      using put_entry_ok [OF ok d False, of ?g x] t(1)
      by (auto simp: translate_def split: option.splits)
    with False t d show ?thesis by (simp add: unmap_page_put)
  qed
qed

interpretation pages: page_mapper "vm_ok dir" "translate dir" "map_page dir" "unmap_page dir" for dir
proof (unfold_locales, goal_cases)
  case (1 s v p f t) then show ?case using map_page_ok by blast
next
  case (2 s v p f t x) then show ?case using map_page_ok by blast
next
  case (3 s v p f) then show ?case by (rule map_page_returns)
next
  case (4 s v) then show ?case using unmap_page_ok by blast
next
  case (5 s v t x) then show ?case using unmap_page_ok [OF 5(1), of v] by auto
qed

section \<open>Start-up of paging\<close>



lemma boot_kmalloc_aligned:
  assumes shape: "boot_shape (kheap s) (xs @ [(n, False)])" and xs: "\<forall>b\<in>set xs. snd b"
    and sz: "sz \<noteq> 0" "al \<noteq> 0" "al AND (al - 1) = 0" and fits: "unat sz + unat al + 7 \<le> 0xFFFFFFFC"
    and room: "unat sz + unat al + 64 < n"
  shows "\<exists>p s' m. kmalloc_aligned sz al s = Some (Inr (p, s')) \<and> p \<noteq> 0 \<and>
    boot_shape (kheap s') (xs @ [(m, True), (n - m - 24, False)]) \<and> m \<le> unat sz + unat al + 24"
proof -
  let ?total = "sz + al - 1 + 4 + 4"
  have "?total = of_nat (unat sz + unat al + 7)" by (simp add: of_nat_add)
  then have total: "unat ?total = unat sz + unat al + 7"
    using fits unat_of_nat_u32 [of "unat sz + unat al + 7"] by simp
  then have "?total \<le> 0xFFFFFFFC" using fits by (simp add: word_le_nat_alt)
  from round_size_exact [OF this] total have m: "unat (round_size ?total) \<le> unat sz + unat al + 23" by simp
  have "?total \<noteq> 0" using total by (metis add_is_0 unsigned_0 zero_neq_numeral)
  from boot_shape_kmalloc_fits [OF shape xs this] m room obtain h' where k:
    "kmalloc ?total (kheap s) = Some (Inr (of_nat (heap_lo (kheap s) + ext xs + 24), h'))"
    "boot_shape h' (xs @ [(unat (round_size ?total), True), (n - unat (round_size ?total) - 24, False)])"
    "(of_nat (heap_lo (kheap s) + ext xs + 24) :: u32) \<noteq> 0" by force
  let ?raw = "of_nat (heap_lo (kheap s) + ext xs + 24) :: u32"
  let ?p = "(?raw + 4 + 4 + al - 1) AND NOT (al - 1)"
  let ?s = "s\<lparr>kheap := h', words := (words s)(?p - 4 \<mapsto> ?raw - HDR, ?p - 4 - 4 \<mapsto> al)\<rparr>"
  have run: "kmalloc_aligned sz al s = Some (Inr (?p, ?s))"
    using k sz by (simp add: kmalloc_aligned_def Let_def)
  have "?p \<noteq> 0"
  proof -
    have rep: "heap_rep (kheap s) (xs @ (n, False) # [])" using shape by (simp add: boot_shape_def)
    have "unat ?raw = heap_lo (kheap s) + ext xs + 24"
      using unat_blk_payload [OF rep, of "length xs"] by (simp add: blk_addr_def)
    then have "unat ?raw + 7 + unat al < 2 ^ 32"
      using heap_rep_at(2) [OF rep refl refl] heap_hi_lt [of "kheap s"] room by linarith
    moreover obtain b where "b < 32" "al = 2 ^ b" using power_of_two_test [OF sz(2,3)] .
    ultimately have "unat ?raw + 8 \<le> unat ?p" using align_up(2) by blast
    then show ?thesis by (metis add_leE not_numeral_le_zero unsigned_0)
  qed
  with run k(2) m show ?thesis by (intro exI [of _ ?p] exI [of _ ?s] exI [of _ "unat (round_size ?total)"]) simp
qed














section \<open>Properties\<close>

text \<open>
  \<^verbatim>\<open>kmalloc_aligned\<close>: a zero size, a zero alignment or one that is not a power of two gives
  \<^verbatim>\<open>NULL\<close> and changes nothing. Otherwise, on a heap with live regions \<open>L\<close> and for sizes that do not
  overflow, a non-null result is a multiple of the alignment, and the requested bytes together
  with the two words below them lie in one new live region disjoint from all of \<open>L\<close>.
\<close>

theorem kmalloc_aligned_correct:
  assumes "heap_live (kheap s) L" and "unat sz + unat al + 7 \<le> 0xFFFFFFFC"
  shows "if sz = 0 \<or> al = 0 \<or> al AND (al - 1) \<noteq> 0 then kmalloc_aligned sz al s = Some (Inr (0, s))
         else \<forall>p s'. kmalloc_aligned sz al s = Some (Inr (p, s')) \<and> p \<noteq> 0 \<longrightarrow>
           unat p mod unat al = 0 \<and>
           (\<exists>r n. heap_live (kheap s') (insert (r, n) L) \<and> (\<forall>q\<in>L. region_of (r, n) \<inter> region_of q = {}) \<and>
              {unat p - 8 ..< unat p + unat sz} \<subseteq> region_of (r, n))"
proof (cases "sz = 0 \<or> al = 0 \<or> al AND (al - 1) \<noteq> 0")
  case True
  then show ?thesis by (auto simp: kmalloc_aligned_def)
next
  case False
  then have pre: "sz \<noteq> 0" "al \<noteq> 0" "al AND (al - 1) = 0" by auto
  {
    fix p s' assume "kmalloc_aligned sz al s = Some (Inr (p, s'))" "p \<noteq> 0"
    from kmalloc_aligned_region [OF assms(1) pre assms(2) this] obtain raw :: u32 and n where
      r: "heap_live (kheap s') (insert (unat raw, n) L)" "\<forall>q\<in>L. region_of (unat raw, n) \<inter> region_of q = {}"
        "unat p mod unat al = 0" "unat raw + 8 \<le> unat p" "unat p + unat sz \<le> unat raw + n" .
    have "{unat p - 8 ..< unat p + unat sz} \<subseteq> region_of (unat raw, n)"
      using r(4,5) by (auto simp: region_of_def)
    with r(1-3) have "unat p mod unat al = 0 \<and> (\<exists>r n. heap_live (kheap s') (insert (r, n) L) \<and>
        (\<forall>q\<in>L. region_of (r, n) \<inter> region_of q = {}) \<and> {unat p - 8 ..< unat p + unat sz} \<subseteq> region_of (r, n))"
      by blast
  }
  with False show ?thesis by simp
qed

definition boot_aligned :: "heap \<Rightarrow> aligned_heap" where
  "boot_aligned h = \<lparr>kheap = h, words = Map.empty\<rparr>"

lemma boot_heap_shape:
  obtains h where "heap_init 0x200000 = Inr h" "boot_shape h ([] @ [(16777192, False)])" "heap_live h {}"
proof -
  obtain h where h: "heap_init 0x200000 = Inr h" "kernel_heap_start h = 0x200000"
    "heap_rep h [(16777192, False)]" "header_ok (hmem h) 0x200000" by (rule boot_heap)
  then have "boot_shape h [(16777192, False)]" by (simp add: boot_shape_def blk_addr_def)
  with that [OF h(1)] heap_live_rep [OF h(3)] show ?thesis by simp
qed

theorem kmalloc_aligned_correct_witness:
  "\<exists>h p s'. heap_init 0x200000 = Inr h \<and> kmalloc_aligned 8196 4096 (boot_aligned h) = Some (Inr (p, s')) \<and>
     p \<noteq> 0 \<and> unat p mod 4096 = 0"
proof -
  obtain h where h: "heap_init 0x200000 = Inr h" "boot_shape h ([] @ [(16777192, False)])" "heap_live h {}"
    by (rule boot_heap_shape)
  obtain p s' where "kmalloc_aligned 8196 4096 (boot_aligned h) = Some (Inr (p, s'))" "p \<noteq> 0"
    using boot_kmalloc_aligned [of "boot_aligned h" "[]" 16777192 8196 4096] h(2) by (auto simp: boot_aligned_def)
  with kmalloc_aligned_correct [of "boot_aligned h" "{}" 8196 4096] h show ?thesis
    by (auto simp: boot_aligned_def)
qed

text \<open>
  \<^verbatim>\<open>kfree_aligned\<close> finds its way back from an aligned pointer: on a well-formed heap without
  neighbouring free blocks, freeing what \<^verbatim>\<open>kmalloc_aligned\<close> returned passes the alignment check
  and restores the list of heap blocks.
\<close>

theorem kfree_aligned_roundtrip:
  assumes "heap_rep (kheap s) bs" and "coalesced bs" and "unat sz + unat al + 7 \<le> 0xFFFFFFFC"
    and "kmalloc_aligned sz al s = Some (Inr (p, s'))" and "p \<noteq> 0"
  shows "\<exists>s''. kfree_aligned p s' = Inr s'' \<and> heap_rep (kheap s'') bs"
proof -
  have pre: "sz \<noteq> 0" "al \<noteq> 0" "al AND (al - 1) = 0"
    using assms(4,5) by (auto simp: kmalloc_aligned_def split: if_splits)
  let ?total = "sz + al - 1 + 4 + 4"
  obtain raw h where k: "kmalloc ?total (kheap s) = Some (Inr (raw, h))" "raw \<noteq> 0"
    "s' = s\<lparr>kheap := h, words := (words s)(p - 4 \<mapsto> raw - HDR, p - 4 - 4 \<mapsto> al)\<rparr>"
    using assms(4,5) pre by (auto simp: kmalloc_aligned_def Let_def bind_run_Inr_iff split: if_splits)
  have "unat p mod unat al = 0"
    using kmalloc_aligned_region [OF heap_live_rep [OF assms(1)] pre assms(3,4,5)] by blast
  then have "p mod al = 0" by (simp add: word_unat_eq_iff unat_mod_distrib)
  moreover obtain h'' where "kfree raw h = Inr h''" "heap_rep h'' bs"
    using kfree_restores_blocks [OF assms(1,2) k(1,2)] by blast
  moreover have "p - 4 \<noteq> p - 4 - 4" by simp
  ultimately show ?thesis
    using k(3) pre(2) assms(5) by (simp add: kfree_aligned_def load_word_def)
qed

theorem kfree_aligned_roundtrip_witness:
  "\<exists>h p s' s''. heap_init 0x200000 = Inr h \<and> kmalloc_aligned 100 64 (boot_aligned h) = Some (Inr (p, s')) \<and>
     p \<noteq> 0 \<and> kfree_aligned p s' = Inr s'' \<and> heap_rep (kheap s'') [(16777192, False)]"
proof -
  obtain h where h: "heap_init 0x200000 = Inr h" "boot_shape h ([] @ [(16777192, False)])" "heap_live h {}"
    by (rule boot_heap_shape)
  obtain p s' where p: "kmalloc_aligned 100 64 (boot_aligned h) = Some (Inr (p, s'))" "p \<noteq> 0"
    using boot_kmalloc_aligned [of "boot_aligned h" "[]" 16777192 100 64] h(2) by (auto simp: boot_aligned_def)
  have "heap_rep (kheap (boot_aligned h)) [(16777192, False)]" using h(2) by (simp add: boot_shape_def boot_aligned_def)
  from kfree_aligned_roundtrip [OF this _ _ p] p h(1) show ?thesis by (auto simp: coalesced_def)
qed






end
