(* ===== verification/Solix_Netutil.thy ===== *)
theory Solix_Netutil
  imports Solix_Base
begin

text \<open>
  The utility functions of \<^verbatim>\<open>net/net.c\<close>: byte order, the Internet checksum, and the conversion
  between addresses and dotted decimals. The processor is little endian, so a 16 or 32 bit field
  of a packet is read from and written to its bytes in that order.
\<close>

section \<open>Fields of packets\<close>

definition le16 :: "u16 \<Rightarrow> u8 list" where
  "le16 w = [ucast w, ucast (drop_bit 8 w)]"

definition le32 :: "u32 \<Rightarrow> u8 list" where
  "le32 w = [ucast w, ucast (drop_bit 8 w), ucast (drop_bit 16 w), ucast (drop_bit 24 w)]"

definition get16 :: "u8 list \<Rightarrow> nat \<Rightarrow> u16" where
  "get16 bs i = ucast (bs ! i) OR push_bit 8 (ucast (bs ! (i + 1)))"

definition get32 :: "u8 list \<Rightarrow> nat \<Rightarrow> u32" where
  "get32 bs i = ucast (bs ! i) OR push_bit 8 (ucast (bs ! (i + 1)))
     OR push_bit 16 (ucast (bs ! (i + 2))) OR push_bit 24 (ucast (bs ! (i + 3)))"

section \<open>Byte order\<close>

definition htons :: "u16 \<Rightarrow> u16" where
  "htons hostshort = push_bit 8 (hostshort AND 0xFF) OR (drop_bit 8 hostshort AND 0xFF)"

definition ntohs :: "u16 \<Rightarrow> u16" where
  "ntohs netshort = htons netshort"

definition htonl :: "u32 \<Rightarrow> u32" where
  "htonl hostlong = push_bit 24 (hostlong AND 0xFF) OR push_bit 8 (hostlong AND 0xFF00)
     OR (drop_bit 8 hostlong AND 0xFF00) OR (drop_bit 24 hostlong AND 0xFF)"

definition ntohl :: "u32 \<Rightarrow> u32" where
  "ntohl netlong = htonl netlong"

section \<open>The checksum\<close>

fun sum16 :: "u8 list \<Rightarrow> u32" where
  "sum16 [] = 0"
| "sum16 [b] = ucast b"
| "sum16 (a # b # bs) = ucast (get16 [a, b] 0) + sum16 bs"

lemma unat_fold_step:
  "unat ((s AND 0xFFFF) + drop_bit 16 (s :: u32)) = unat s mod 65536 + unat s div 65536"
proof -
  have m: "s AND 0xFFFF = take_bit 16 s" by (simp add: take_bit_eq_mask mask_eq_exp_minus_1)
  let ?lo = "unat s mod 65536" and ?hi = "unat s div 65536"
  have lo: "unat (s AND 0xFFFF) = ?lo" by (simp add: m take_bit_eq_mod unat_mod_distrib)
  have hi: "unat (drop_bit 16 s) = ?hi" by (simp add: drop_bit_eq_div unat_div_distrib)
  have "unat s < 2 ^ 32" using unsigned_less [of s, where 'a = nat] by simp
  then have "?hi < 65536" by (simp add: less_mult_imp_div_less)
  moreover have "?lo < 65536" by simp
  ultimately have "?lo + ?hi < 2 ^ 32" by simp
  then show ?thesis using lo hi by (simp add: unat_word_ariths)
qed

lemma fold16_decreases:
  assumes "drop_bit 16 (s :: u32) \<noteq> 0"
  shows "unat ((s AND 0xFFFF) + drop_bit 16 s) < unat s"
proof -
  have "unat (drop_bit 16 s) = unat s div 65536" by (simp add: drop_bit_eq_div unat_div_distrib)
  then have "0 < unat s div 65536" using assms by (metis gr0I unat_eq_0)
  then have "unat s mod 65536 + unat s div 65536 < unat s"
    using div_mult_mod_eq [of "unat s" 65536] by linarith
  then show ?thesis by (simp add: unat_fold_step)
qed

function fold16 :: "u32 \<Rightarrow> u32" where
  "fold16 s = (if drop_bit 16 s \<noteq> 0 then fold16 ((s AND 0xFFFF) + drop_bit 16 s) else s)"
  by auto

termination
  by (relation "measure unat") (simp_all add: fold16_decreases)

declare fold16.simps [simp del]

definition net_checksum :: "u8 list \<Rightarrow> u16" where
  "net_checksum bs = ucast (NOT (fold16 (sum16 bs)))"

section \<open>Addresses\<close>

text \<open>The loop of \<^verbatim>\<open>ip_aton\<close> with its two variables; other characters are skipped.\<close>

fun aton_loop :: "string \<Rightarrow> u32 \<Rightarrow> u32 \<Rightarrow> u32" where
  "aton_loop [] ip oct = (push_bit 8 ip OR oct)"
| "aton_loop (c # cs) ip oct =
     (if c = CHR ''.'' then aton_loop cs (push_bit 8 ip OR oct) 0
      else if of_char c \<ge> (48 :: nat) \<and> of_char c \<le> (57 :: nat)
           then aton_loop cs ip (oct * 10 + of_nat (of_char c - 48))
      else aton_loop cs ip oct)"

definition ip_aton :: "string \<Rightarrow> u32" where
  "ip_aton s = aton_loop s 0 0"

text \<open>The decimal form that \<^verbatim>\<open>sprintf\<close> gives an unsigned number.\<close>

fun dec :: "nat \<Rightarrow> string" where
  "dec n = (if n < 10 then [char_of (48 + n)] else dec (n div 10) @ [char_of (48 + n mod 10)])"

declare dec.simps [simp del]

definition ip_ntoa :: "u32 \<Rightarrow> string" where
  "ip_ntoa ip =
     dec (unat (drop_bit 24 ip AND 0xFF)) @ ''.'' @ dec (unat (drop_bit 16 ip AND 0xFF)) @ ''.'' @
     dec (unat (drop_bit 8 ip AND 0xFF)) @ ''.'' @ dec (unat (ip AND 0xFF))"

section \<open>Lemmas\<close>

lemma le_lengths [simp]: "length (le16 w) = 2" "length (le32 v) = 4"
  by (simp_all add: le16_def le32_def)

lemma byte_masks:
  "(0xFF :: 'a::len word) = mask 8" "(0xFF00 :: u32) = push_bit 8 (mask 8)"
  by (simp_all add: mask_eq_exp_minus_1)

lemma byte_cases:
  fixes n :: nat
  assumes "n < 32"
  obtains "n < 8" | "8 \<le> n" "n < 16" | "16 \<le> n" "n < 24" | "24 \<le> n" "n < 32"
  using assms by linarith

lemma get16_le16 [simp]: "get16 (le16 w) 0 = w"
proof (rule bit_word_eqI)
  fix n assume "n < LENGTH(16)"
  then have "n < 32" by simp
  then show "bit (get16 (le16 w) 0) n \<longleftrightarrow> bit w n"
    using \<open>n < LENGTH(16)\<close> by (cases rule: byte_cases) (auto simp: get16_def le16_def bit_simps)
qed

lemma get32_le32 [simp]: "get32 (le32 w) 0 = w"
proof (rule bit_word_eqI)
  fix n assume "n < LENGTH(32)"
  then have "n < 32" by simp
  then show "bit (get32 (le32 w) 0) n \<longleftrightarrow> bit w n"
    by (cases rule: byte_cases) (auto simp: get32_def le32_def bit_simps)
qed

lemma get16_append [simp]:
  "length xs \<le> i \<Longrightarrow> get16 (xs @ ys) i = get16 ys (i - length xs)"
  by (simp add: get16_def nth_append Suc_diff_le)

lemma get32_append [simp]:
  "length xs \<le> i \<Longrightarrow> get32 (xs @ ys) i = get32 ys (i - length xs)"
  by (simp add: get32_def nth_append Suc_diff_le)

lemma get16_Cons [simp]: "0 < i \<Longrightarrow> get16 (b # ys) i = get16 ys (i - 1)"
  by (cases i) (simp_all add: get16_def)

lemma get32_Cons [simp]: "0 < i \<Longrightarrow> get32 (b # ys) i = get32 ys (i - 1)"
  by (cases i) (simp_all add: get32_def add.commute)

lemma get16_le16_append [simp]: "get16 (le16 w @ ys) 0 = w"
  using get16_le16 [of w] by (simp add: get16_def le16_def)

lemma get32_le32_append [simp]: "get32 (le32 w @ ys) 0 = w"
  using get32_le32 [of w] by (simp add: get32_def le32_def)

lemma htons_htons [simp]: "htons (htons w) = w"
proof (rule bit_word_eqI)
  fix n assume "n < LENGTH(16)"
  then have "n < 32" by simp
  then show "bit (htons (htons w)) n \<longleftrightarrow> bit w n"
    using \<open>n < LENGTH(16)\<close> unfolding htons_def byte_masks
    by (cases rule: byte_cases) (auto simp: bit_simps)
qed

lemma htonl_htonl [simp]: "htonl (htonl w) = w"
proof (rule bit_word_eqI)
  fix n assume "n < LENGTH(32)"
  then have "n < 32" by simp
  then show "bit (htonl (htonl w)) n \<longleftrightarrow> bit w n"
    unfolding htonl_def byte_masks
    by (cases rule: byte_cases) (auto simp: bit_simps)
qed

section \<open>One's complement sums\<close>

text \<open>The plain sum of the 16 bit words of a packet.\<close>

fun nsum :: "u8 list \<Rightarrow> nat" where
  "nsum [] = 0"
| "nsum [b] = unat b"
| "nsum (a # b # bs) = unat (get16 [a, b] 0) + nsum bs"

lemma sum16_nsum: "sum16 bs = of_nat (nsum bs)"
  by (induction bs rule: nsum.induct) simp_all

lemma nsum_bound: "nsum bs \<le> 65535 * ((length bs + 1) div 2)"
proof (induction bs rule: nsum.induct)
  case (2 b)
  have "unat b < 256" using unsigned_less [of b, where 'a = nat] by simp
  then show ?case by simp
next
  case (3 a b bs)
  have "unat (get16 [a, b] 0) < 65536" using unsigned_less [of "get16 [a, b] 0", where 'a = nat] by simp
  with 3 show ?case by simp
qed simp

lemma nsum_append: "even (length xs) \<Longrightarrow> nsum (xs @ ys) = nsum xs + nsum ys"
  by (induction xs rule: nsum.induct) auto

lemma fold16_props:
  "unat (fold16 s) < 65536 \<and> unat (fold16 s) mod 65535 = unat s mod 65535 \<and> (fold16 s = 0 \<longleftrightarrow> s = 0)"
proof (induction s rule: fold16.induct)
  case (1 s)
  have hi: "unat (drop_bit 16 s) = unat s div 65536" by (simp add: drop_bit_eq_div unat_div_distrib)
  show ?case
  proof (cases "drop_bit 16 s = 0")
    case True
    then have "unat s < 65536" using hi by (simp add: div_eq_0_iff)
    with True show ?thesis by (subst (1 2 3) fold16.simps) simp
  next
    case False
    let ?t = "(s AND 0xFFFF) + drop_bit 16 s"
    have "unat s = unat ?t + 65535 * (unat s div 65536)"
      unfolding unat_fold_step using div_mult_mod_eq [of "unat s" 65536] by linarith
    then have "unat ?t mod 65535 = unat s mod 65535" by (metis mod_mult_self2)
    moreover have "?t \<noteq> 0"
      using unat_fold_step [of s] False hi by (metis add_is_0 unat_eq_0)
    moreover have "s \<noteq> 0" using False by auto
    moreover have "fold16 s = fold16 ?t" using False by (subst fold16.simps) simp
    ultimately show ?thesis using 1 [OF False] by simp
  qed
qed

lemma unat_checksum: "unat (net_checksum bs) = 65535 - unat (fold16 (sum16 bs))"
proof -
  have lt: "unat (fold16 (sum16 bs)) < 65536" using fold16_props by blast
  have "NOT (fold16 (sum16 bs)) = of_nat (2 ^ 32 - 1 - unat (fold16 (sum16 bs)))"
    using lt by (simp add: not_eq_complement of_nat_diff)
  then have "unat (net_checksum bs) = (2 ^ 32 - 1 - unat (fold16 (sum16 bs))) mod 65536"
    by (simp add: net_checksum_def unsigned_ucast_eq take_bit_eq_mod unat_of_nat mod_mod_cancel)
  also have "2 ^ 32 - 1 - unat (fold16 (sum16 bs)) = (65535 - unat (fold16 (sum16 bs))) + 65536 * 65535"
    using lt by simp
  finally show ?thesis by (simp only: mod_mult_self2) simp
qed

text \<open>
  The heart of the checksum: with the checksum field included the sum is a positive multiple of
  65535, so folding it gives 65535 and its complement is zero.
\<close>

lemma checksum_inserted:
  assumes "even (length xs)" and len: "length (xs @ [0, 0] @ ys) \<le> 131072"
  shows "net_checksum (xs @ le16 (net_checksum (xs @ [0, 0] @ ys)) @ ys) = 0"
proof -
  let ?bs = "xs @ [0, 0] @ ys" and ?S = "nsum xs + nsum ys"
  let ?c = "net_checksum ?bs"
  let ?ds = "xs @ le16 ?c @ ys"
  have S: "nsum ?bs = ?S" using nsum_append [OF assms(1)] by (simp add: get16_def)
  have c2: "nsum (le16 ?c) = unat ?c" using get16_le16 [of ?c] by (simp add: le16_def)
  have D: "nsum ?ds = ?S + unat ?c"
    using nsum_append [OF assms(1)] nsum_append [of "le16 ?c" ys] c2 by simp
  have bound: "nsum b \<le> 65535 * 65536" if "length b \<le> 131072" for b
  proof -
    have "(length b + 1) div 2 \<le> 65536" using that by linarith
    with nsum_bound [of b] show ?thesis by linarith
  qed
  have un: "unat (sum16 b) = nsum b" if "length b \<le> 131072" for b
    using bound [OF that] by (simp add: sum16_nsum unat_of_nat take_bit_nat_eq_self)
  let ?f = "unat (fold16 (sum16 ?bs))"
  have f: "?f < 65536" "?f mod 65535 = ?S mod 65535" "?f = 0 \<longleftrightarrow> ?S = 0"
    using fold16_props [of "sum16 ?bs"] un [OF len] S by (auto simp: unat_eq_0 [symmetric])
  have c: "unat ?c = 65535 - ?f" by (rule unat_checksum)
  have "(?S + unat ?c) mod 65535 = (?f + (65535 - ?f)) mod 65535"
    unfolding c using f(2) by (metis mod_add_left_eq)
  then have "nsum ?ds mod 65535 = 0" using f(1) D by simp
  moreover have "nsum ?ds \<noteq> 0" using D c f by auto
  moreover have lds: "length ?ds \<le> 131072" using len by simp
  ultimately have g: "unat (fold16 (sum16 ?ds)) mod 65535 = 0" "unat (fold16 (sum16 ?ds)) \<noteq> 0"
    "unat (fold16 (sum16 ?ds)) < 65536"
    using fold16_props [of "sum16 ?ds"] un [OF lds] by (auto simp: unat_eq_0 [symmetric])
  then have "unat (fold16 (sum16 ?ds)) = 65535"
    by (cases "unat (fold16 (sum16 ?ds)) < 65535") auto
  then have "unat (net_checksum ?ds) = 0" by (simp add: unat_checksum)
  then show ?thesis by (simp add: unat_eq_0)
qed

section \<open>Decimals and addresses\<close>

text \<open>Reading back a decimal adds its value behind the digits read so far.\<close>

fun pow10 :: "nat \<Rightarrow> nat" where
  "pow10 n = (if n < 10 then 10 else 10 * pow10 (n div 10))"

declare pow10.simps [simp del]

lemma aton_digit:
  assumes "d < 10"
  shows "aton_loop (char_of (48 + d) # cs) ip oct = aton_loop cs ip (oct * 10 + of_nat d)"
proof -
  have "char_of (48 + d) \<noteq> CHR ''.''"
  proof
    assume "char_of (48 + d) = CHR ''.''"
    then have "of_char (char_of (48 + d) :: char) = (46 :: nat)" by simp
    with assms show False by (simp add: of_char_of)
  qed
  moreover have "of_char (char_of (48 + d) :: char) = 48 + d" using assms by (simp add: of_char_of)
  ultimately show ?thesis using assms by simp
qed

lemma aton_dot: "aton_loop (CHR ''.'' # cs) ip oct = aton_loop cs (push_bit 8 ip OR oct) 0"
  by simp

lemma aton_end: "aton_loop [] ip oct = push_bit 8 ip OR oct"
  by simp

declare aton_loop.simps [simp del]

lemma aton_dec:
  "aton_loop (dec n @ cs) ip oct = aton_loop cs ip (oct * of_nat (pow10 n) + of_nat n)"
proof (induction n arbitrary: cs oct rule: dec.induct)
  case (1 n)
  show ?case
  proof (cases "n < 10")
    case True
    then show ?thesis by (simp add: dec.simps [of n] pow10.simps [of n] aton_digit)
  next
    case False
    have "n = n div 10 * 10 + n mod 10" by simp
    then have n: "(of_nat n :: u32) = of_nat (n div 10) * 10 + of_nat (n mod 10)"
      by (metis of_nat_add of_nat_mult of_nat_numeral)
    have "aton_loop (dec n @ cs) ip oct =
        aton_loop cs ip ((oct * of_nat (pow10 (n div 10)) + of_nat (n div 10)) * 10 + of_nat (n mod 10))"
      using False 1 [OF False] by (simp add: dec.simps [of n] aton_digit)
    also have "(oct * of_nat (pow10 (n div 10)) + of_nat (n div 10)) * 10 + of_nat (n mod 10) =
        oct * of_nat (pow10 n) + of_nat n"
      using False by (simp add: pow10.simps [of n] algebra_simps n)
    finally show ?thesis .
  qed
qed

lemma aton_dec_end:
  "aton_loop (dec n) ip oct = push_bit 8 ip OR (oct * of_nat (pow10 n) + of_nat n)"
  using aton_dec [of n "[]"] by (simp add: aton_end)

lemma octets_join:
  fixes ip :: u32
  shows "push_bit 8 (push_bit 8 (push_bit 8 (drop_bit 24 ip AND 0xFF) OR (drop_bit 16 ip AND 0xFF))
    OR (drop_bit 8 ip AND 0xFF)) OR (ip AND 0xFF) = ip"
proof (rule bit_word_eqI)
  fix n assume "n < LENGTH(32)"
  then have "n < 32" by simp
  then show "bit (push_bit 8 (push_bit 8 (push_bit 8 (drop_bit 24 ip AND 0xFF) OR (drop_bit 16 ip AND 0xFF))
    OR (drop_bit 8 ip AND 0xFF)) OR (ip AND 0xFF)) n \<longleftrightarrow> bit ip n"
    unfolding byte_masks by (cases rule: byte_cases) (auto simp: bit_simps)
qed

section \<open>Properties\<close>

text \<open>
  C12. The Internet checksum verifies: for a packet with an even number of bytes before its zeroed
  checksum field, writing \<^verbatim>\<open>net_checksum\<close> of the packet into the field makes \<^verbatim>\<open>net_checksum\<close> of the
  whole packet zero, the test \<^verbatim>\<open>ip_receive\<close> makes. The length bound keeps the 32 bit sum from
  overflowing; it holds for every packet the kernel builds.
\<close>

theorem net_checksum_verifies:
  assumes "even (length xs)" and "length (xs @ [0, 0] @ ys) \<le> 131072"
  shows "net_checksum (xs @ le16 (net_checksum (xs @ [0, 0] @ ys)) @ ys) = 0"
  by (rule checksum_inserted [OF assms])

theorem net_checksum_verifies_witness:
  "net_checksum ([0x45, 0, 0, 84] @ le16 (net_checksum ([0x45, 0, 0, 84] @ [0, 0] @ [192, 168, 1])) @ [192, 168, 1]) = 0"
  by (rule net_checksum_verifies) simp_all

text \<open>
  C13. Reading back a printed address: \<^verbatim>\<open>ip_aton\<close> of what \<^verbatim>\<open>ip_ntoa\<close> prints is the address, for all
  32 bit addresses; and converting to network byte order and back is the identity on 16 and 32
  bit values.
\<close>

theorem ip_aton_ntoa:
  "ip_aton (ip_ntoa ip) = ip \<and> ntohs (htons p) = p \<and> ntohl (htonl ip) = ip"
proof -
  have 0: "(0 :: u32) * of_nat k + of_nat (unat w) = w" for k and w :: u32 by simp
  have "ip_aton (ip_ntoa ip) = ip"
    unfolding ip_aton_def ip_ntoa_def
    by (simp only: append_assoc append_Cons append_Nil aton_dec aton_dec_end aton_dot 0 push_bit_of_0
        or.left_neutral octets_join)
  then show ?thesis by (simp add: ntohs_def ntohl_def)
qed

end
