(* ===== verification/Solix_Tables.thy ===== *)
theory Solix_Tables
  imports Solix_Base "HOL-Library.Multiset"
begin

text \<open>
  Tables of fixed size. The network stack and the WiFi layer keep their devices in arrays of
  pointers with a count, and remove a device by moving the last one into its place; the ARP cache
  is an array of keyed entries. The first part is the array of pointers with its operations, the
  second the contracts: a registry of devices, and a map of bounded capacity.
\<close>

section \<open>Arrays of pointers\<close>

record ptab =
  slots :: "u32 list"
  count :: nat

definition tab_register :: "nat \<Rightarrow> u32 \<Rightarrow> ptab \<Rightarrow> int \<times> ptab" where
  "tab_register cap d t =
     (if count t \<ge> cap then (-1, t)
      else (0, t\<lparr>slots := (slots t)[count t := d], count := count t + 1\<rparr>))"

definition tab_unregister :: "u32 \<Rightarrow> ptab \<Rightarrow> int \<times> ptab" where
  "tab_unregister d t =
     (case find (\<lambda>i. slots t ! i = d) [0..<count t] of
        None \<Rightarrow> (-1, t)
      | Some i \<Rightarrow> (0, t\<lparr>count := count t - 1, slots := (slots t)[i := slots t ! (count t - 1)]\<rparr>))"

text \<open>The pointers in use, and the well-formedness of a table with \<open>cap\<close> slots.\<close>

definition registered :: "ptab \<Rightarrow> u32 list" where
  "registered t = take (count t) (slots t)"

definition tab_ok :: "nat \<Rightarrow> ptab \<Rightarrow> bool" where
  "tab_ok cap t \<longleftrightarrow> length (slots t) = cap \<and> count t \<le> cap"

section \<open>The contract of a device registry\<close>

locale device_registry =
  fixes invar :: "'s \<Rightarrow> bool"
    and regd :: "'s \<Rightarrow> u32 list"
    and cap :: nat
    and reg :: "u32 \<Rightarrow> 's \<Rightarrow> int \<times> 's"
    and unreg :: "u32 \<Rightarrow> 's \<Rightarrow> int \<times> 's"
  assumes reg_bound: "invar s \<Longrightarrow> length (regd s) \<le> cap"
    and reg_full: "invar s \<Longrightarrow> length (regd s) = cap \<Longrightarrow> reg d s = (-1, s)"
    and reg_new: "invar s \<Longrightarrow> length (regd s) < cap \<Longrightarrow>
      \<exists>t. reg d s = (0, t) \<and> invar t \<and> regd t = regd s @ [d]"
    and unreg_absent: "invar s \<Longrightarrow> d \<notin> set (regd s) \<Longrightarrow> unreg d s = (-1, s)"
    and unreg_present: "invar s \<Longrightarrow> d \<in> set (regd s) \<Longrightarrow>
      \<exists>t. unreg d s = (0, t) \<and> invar t \<and> mset (regd t) = mset (regd s) - {#d#}"
begin

lemma unreg_reg:
  assumes "invar s" and "length (regd s) < cap"
  shows "\<exists>t. unreg d (snd (reg d s)) = (0, t) \<and> invar t \<and> mset (regd t) = mset (regd s)"
proof -
  obtain u where u: "reg d s = (0, u)" "invar u" "regd u = regd s @ [d]" using reg_new [OF assms] by blast
  then obtain t where "unreg d u = (0, t)" "invar t" "mset (regd t) = mset (regd u) - {#d#}"
    using unreg_present [of u d] by auto
  with u show ?thesis by auto
qed

lemma unreg_removes_distinct:
  assumes "invar s" and "distinct (regd s)" and "d \<in> set (regd s)"
  shows "\<exists>t. unreg d s = (0, t) \<and> invar t \<and> distinct (regd t) \<and> set (regd t) = set (regd s) - {d}"
proof -
  obtain t where t: "unreg d s = (0, t)" "invar t" "mset (regd t) = mset (regd s) - {#d#}"
    using unreg_present [OF assms(1,3)] by blast
  then have eq: "mset (regd t) = mset (remove1 d (regd s))" by simp
  have "distinct (regd t)" using mset_eq_imp_distinct_iff [OF eq] assms(2) by simp
  moreover have "set (regd t) = set (regd s) - {d}"
    using mset_eq_setD [OF eq] assms(2) by simp
  ultimately show ?thesis using t by blast
qed

lemma reg_count:
  assumes "invar s"
  shows "fst (reg d s) = (if length (regd s) < cap then 0 else -1) \<and> invar (snd (reg d s)) \<and>
    length (regd (snd (reg d s))) = (if length (regd s) < cap then Suc (length (regd s)) else cap)"
proof (cases "length (regd s) < cap")
  case True
  then show ?thesis using reg_new [OF assms True, of d] by auto
next
  case False
  then have "length (regd s) = cap" using reg_bound [OF assms] by simp
  then show ?thesis using reg_full [OF assms, of d] assms by simp
qed

end

section \<open>The contract of a bounded map\<close>

locale bounded_map =
  fixes invar :: "'s \<Rightarrow> bool"
    and look :: "'s \<Rightarrow> 'k \<Rightarrow> 'v option"
    and cap :: nat
    and put :: "'k \<Rightarrow> 'v \<Rightarrow> 's \<Rightarrow> 's"
  assumes dom_finite: "invar s \<Longrightarrow> finite (dom (look s))"
    and dom_bound: "invar s \<Longrightarrow> card (dom (look s)) \<le> cap"
    and put_invar: "invar s \<Longrightarrow> invar (put k v s)"
    and put_room: "invar s \<Longrightarrow> k \<in> dom (look s) \<or> card (dom (look s)) < cap \<Longrightarrow>
      look (put k v s) = (look s)(k \<mapsto> v)"
    and put_full: "invar s \<Longrightarrow> k \<notin> dom (look s) \<Longrightarrow> card (dom (look s)) = cap \<Longrightarrow>
      look (put k v s) = look s"
begin

lemma put_other: "invar s \<Longrightarrow> k' \<noteq> k \<Longrightarrow> look (put k v s) k' = look s k'"
  using put_room [of s k v] put_full [of s k v] dom_bound [of s]
  by (cases "k \<in> dom (look s) \<or> card (dom (look s)) < cap") (simp_all add: order.order_iff_strict)

lemma put_keeps: "invar s \<Longrightarrow> dom (look s) \<subseteq> dom (look (put k v s))"
  using put_room [of s k v] put_full [of s k v] dom_bound [of s]
  by (cases "k \<in> dom (look s) \<or> card (dom (look s)) < cap") (auto simp: order.order_iff_strict)

text \<open>A sequence of updates that fits behaves as on an unbounded map: the last one for a key counts.\<close>

lemma put_sequence:
  assumes "invar s" and "card (dom (look s) \<union> fst ` set kvs) \<le> cap"
  shows "invar (fold (\<lambda>(k, v). put k v) kvs s) \<and> look (fold (\<lambda>(k, v). put k v) kvs s) = look s ++ map_of (rev kvs)"
  using assms
proof (induction kvs arbitrary: s)
  case (Cons kv kvs)
  obtain k v where kv: "kv = (k, v)" by (cases kv)
  have fin: "finite (dom (look s) \<union> fst ` set (kv # kvs))" using dom_finite [OF Cons.prems(1)] by simp
  have "k \<in> dom (look s) \<or> card (dom (look s)) < cap"
  proof (rule ccontr)
    assume no: "\<not> ?thesis"
    have "card (insert k (dom (look s))) \<le> card (dom (look s) \<union> fst ` set (kv # kvs))"
      using fin by (intro card_mono) (auto simp: kv)
    with no Cons.prems dom_finite [OF Cons.prems(1)] show False by simp
  qed
  then have look: "look (put k v s) = (look s)(k \<mapsto> v)" by (rule put_room [OF Cons.prems(1)])
  moreover have "dom ((look s)(k \<mapsto> v)) \<union> fst ` set kvs = dom (look s) \<union> fst ` set (kv # kvs)"
    by (auto simp: kv)
  ultimately have "card (dom (look (put k v s)) \<union> fst ` set kvs) \<le> cap" using Cons.prems(2) by simp
  from Cons.IH [OF put_invar [OF Cons.prems(1)] this] look show ?case
    by (simp add: kv map_add_upd_left map_add_def fun_eq_iff split: option.split)
qed simp

end

section \<open>Arrays of pointers are registries\<close>

lemma registered_register:
  "tab_ok cap t \<Longrightarrow> count t < cap \<Longrightarrow> registered (snd (tab_register cap d t)) = registered t @ [d]"
  by (simp add: tab_ok_def registered_def tab_register_def take_Suc_conv_app_nth)

lemma mset_swap_last:
  assumes "i < n" and "n \<le> length xs" and "xs ! i = d"
  shows "mset (take (n - 1) (xs[i := xs ! (n - 1)])) = mset (take n xs) - {#d#}"
proof -
  obtain m where n: "n = Suc m" using assms(1) by (cases n) auto
  have m: "m < length xs" using assms(2) n by simp
  have "mset (take n xs) = mset (take m xs) + {#xs ! m#}"
    using m n by (simp add: take_Suc_conv_app_nth)
  moreover have "take m (xs[i := xs ! m]) = (take m xs)[i := xs ! m]" by (simp add: take_update_swap)
  moreover have "mset ((take m xs)[i := xs ! m]) = mset (take m xs) - {#d#} + {#xs ! m#}" if "i < m"
    using that m assms(3) by (simp add: mset_update)
  moreover have "(take m xs)[i := xs ! m] = take m xs" if "i = m" using that by (simp add: list_update_beyond)
  moreover have "d \<in># mset (take m xs)" if "i < m"
    using that m assms(3) by (metis in_set_conv_nth length_take min.absorb4 nth_take set_mset_mset)
  ultimately show ?thesis using assms(1,3) n
    by (cases "i < m") (auto simp: less_Suc_eq)
qed

lemma registered_unregister:
  assumes ok: "tab_ok cap t" and d: "d \<in> set (registered t)"
  shows "\<exists>u. tab_unregister d t = (0, u) \<and> tab_ok cap u \<and> mset (registered u) = mset (registered t) - {#d#}"
proof -
  have "\<exists>i<count t. slots t ! i = d" using assms by (auto simp: registered_def in_set_conv_nth tab_ok_def)
  then obtain i where i: "find (\<lambda>i. slots t ! i = d) [0..<count t] = Some i" "i < count t" "slots t ! i = d"
    by (cases "find (\<lambda>i. slots t ! i = d) [0..<count t]") (auto simp: find_upt_None find_upt_Some)
  then show ?thesis using ok mset_swap_last [OF i(2) _ i(3)]
    by (auto simp: tab_unregister_def registered_def tab_ok_def)
qed

lemma unregister_absent:
  assumes "tab_ok cap t" and "d \<notin> set (registered t)"
  shows "tab_unregister d t = (-1, t)"
proof -
  have "\<forall>i<count t. slots t ! i \<noteq> d" using assms by (auto simp: registered_def in_set_conv_nth tab_ok_def)
  then show ?thesis by (simp add: tab_unregister_def find_upt_None [THEN iffD2])
qed

lemma tab_registry: "device_registry (tab_ok cap) registered cap (tab_register cap) tab_unregister"
proof (unfold_locales, goal_cases)
  case (1 s) then show ?case by (simp add: registered_def tab_ok_def)
next
  case (2 s d) then show ?case by (simp add: registered_def tab_ok_def tab_register_def)
next
  case (3 s d) then show ?case using registered_register [of cap s d]
    by (auto simp: tab_register_def tab_ok_def registered_def)
next
  case (4 s d) then show ?case by (rule unregister_absent)
next
  case (5 s d) then show ?case by (rule registered_unregister)
qed

end
