(* ===== verification/Solix_HeapInv.thy ===== *)
theory Solix_HeapInv
  imports Solix_Alloc
begin

text \<open>
  The invariant of all reachable heaps, and balanced use of the heap. Splitting and coalescing
  leave stale checksums only in blocks that are in use: no two neighbouring blocks are free, so
  the block behind a free one, whose \<^verbatim>\<open>prev\<close> pointer is redirected, is a used one. Hence the
  headers of free blocks are always intact, \<^verbatim>\<open>kmalloc\<close>, which checks only the free block it takes,
  never panics, and \<^verbatim>\<open>kfree\<close> always coalesces completely. A buffer that is freed again after its
  use leaves every header of the heap as it was.
\<close>

declare of_nat_add [simp del]

section \<open>Addresses of blocks\<close>

fun addrs_at :: "nat \<Rightarrow> blk list \<Rightarrow> nat set" where
  "addrs_at a [] = {}"
| "addrs_at a ((n, u) # bs) = insert a (addrs_at (a + (n + 24)) bs)"

fun free_at :: "nat \<Rightarrow> blk list \<Rightarrow> nat set" where
  "free_at a [] = {}"
| "free_at a ((n, u) # bs) = (if u then {} else {a}) \<union> free_at (a + (n + 24)) bs"

definition heap_inv :: "heap \<Rightarrow> blk list \<Rightarrow> bool" where
  "heap_inv h bs \<longleftrightarrow> heap_rep h bs \<and> coalesced bs \<and>
     (\<forall>x\<in>free_at (heap_lo h) bs. header_ok (hmem h) (of_nat x))"

inductive heap_reach :: "u32 \<Rightarrow> heap \<Rightarrow> bool" for e where
  start: "heap_init e = Inr h \<Longrightarrow> heap_reach e h"
| malloc: "heap_reach e h \<Longrightarrow> kmalloc r h = Some (Inr (p, h')) \<Longrightarrow> heap_reach e h'"
| free: "heap_reach e h \<Longrightarrow> heap_live h L \<Longrightarrow> (unat p, n) \<in> L \<Longrightarrow> kfree p h = Inr h' \<Longrightarrow> heap_reach e h'"

section \<open>Lemmas\<close>

lemma addrs_at_append [simp]: "addrs_at a (xs @ ys) = addrs_at a xs \<union> addrs_at (a + ext xs) ys"
  by (induction a xs rule: addrs_at.induct) (auto simp: add_ac)

lemma free_at_append [simp]: "free_at a (xs @ ys) = free_at a xs \<union> free_at (a + ext xs) ys"
  by (induction a xs rule: free_at.induct) (auto simp: add_ac)

lemma addrs_at_bounds: "x \<in> addrs_at a bs \<Longrightarrow> a \<le> x \<and> x + 24 \<le> a + ext bs"
  by (induction a bs rule: addrs_at.induct) force+

lemma free_at_addrs: "free_at a bs \<subseteq> addrs_at a bs"
  by (induction a bs rule: free_at.induct) auto

lemma free_at_bounds: "x \<in> free_at a bs \<Longrightarrow> a \<le> x \<and> x + 24 \<le> a + ext bs"
  using free_at_addrs addrs_at_bounds by blast

text \<open>Behind a used first block the free ones start later.\<close>

lemma free_at_after: "x \<in> free_at a ys \<Longrightarrow> ys \<noteq> [] \<Longrightarrow> snd (hd ys) \<Longrightarrow> a < x"
  by (cases ys) (fastforce dest: free_at_bounds)+

lemma coalesced_Cons: "coalesced (b # bs) \<longleftrightarrow> (bs = [] \<or> snd b \<or> snd (hd bs)) \<and> coalesced bs"
proof
  assume c: "coalesced (b # bs)"
  show "(bs = [] \<or> snd b \<or> snd (hd bs)) \<and> coalesced bs"
  proof
    show "bs = [] \<or> snd b \<or> snd (hd bs)"
      using c unfolding coalesced_def by (cases bs) (auto dest!: spec [of _ 0])
    show "coalesced bs" using c unfolding coalesced_def by fastforce
  qed
next
  assume a: "(bs = [] \<or> snd b \<or> snd (hd bs)) \<and> coalesced bs"
  show "coalesced (b # bs)" unfolding coalesced_def
  proof (intro allI impI)
    fix i assume "Suc i < length (b # bs)"
    with a show "snd ((b # bs) ! i) \<or> snd ((b # bs) ! Suc i)"
      by (cases i) (auto simp: coalesced_def hd_conv_nth)
  qed
qed

lemma coalesced_simps [simp]: "coalesced []" "coalesced [b]"
  by (simp_all add: coalesced_def)

lemma coalesced_append:
  "coalesced (xs @ ys) \<longleftrightarrow> coalesced xs \<and> coalesced ys \<and> (xs = [] \<or> ys = [] \<or> snd (last xs) \<or> snd (hd ys))"
  by (induction xs) (auto simp: coalesced_Cons)

lemma link_ne_after: "0 < e \<Longrightarrow> hi < 2 ^ 32 \<Longrightarrow> e < x \<Longrightarrow> x < hi \<Longrightarrow> of_nat x \<noteq> link hi e"
  by (auto simp: link_def of_nat_u32_eq of_nat_u32_0)

lemma touched_same: "touched m m' W R \<Longrightarrow> x \<notin> W \<Longrightarrow> x \<notin> R \<Longrightarrow> header_ok m' x = header_ok m x"
  by (simp add: touched_def header_ok_def)

section \<open>Preservation\<close>

lemma heap_inv_kmalloc_take:
  assumes inv: "heap_inv h (xs @ (n, False) # ys)" and a: "a = heap_lo h + ext xs"
    and req: "16 \<le> req" "4 dvd req" "req \<le> n"
  shows "\<exists>h'. take_block (of_nat a) (of_nat req) h = Inr (of_nat (a + 24), h') \<and>
    heap_inv h' (xs @ cut req n @ ys) \<and> kernel_heap_start h' = kernel_heap_start h \<and>
    kernel_heap_end h' = kernel_heap_end h \<and> header_ok (hmem h') (of_nat a) \<and>
    (split_room req n \<longrightarrow> header_ok (hmem h') (of_nat (a + (req + 24)))) \<and>
    touched (hmem h) (hmem h') (insert (of_nat a) (if split_room req n then {of_nat (a + (req + 24))} else {})) {link (heap_hi h) (a + (n + 24))}"
proof -
  let ?e = "a + (n + 24)"
  have rep: "heap_rep h (xs @ (n, False) # ys)" and co: "coalesced (xs @ (n, False) # ys)"
    and fr: "\<forall>x\<in>free_at (heap_lo h) (xs @ (n, False) # ys). header_ok (hmem h) (of_nat x)"
    using inv by (simp_all add: heap_inv_def)
  note at = heap_rep_at [OF rep a refl]
  have hi: "?e \<le> heap_hi h" "heap_hi h < 2 ^ 32" "heap_hi h = ?e + ext ys"
    using at(2) heap_hi_lt [of h] bseg_end [OF at(7)] by auto
  have "header_ok (hmem h) (of_nat a)" using fr a by simp
  then obtain c where c: "hmem h (of_nat a) = Some c" "verify_block_integrity c"
    by (auto simp: header_ok_def split: option.splits)
  from take_block_rep [OF rep a c(1) req(3,1,2) c(2)] obtain h' where
    run: "take_block (of_nat a) (of_nat req) h = Inr (of_nat (a + 24), h')"
    and rep': "heap_rep h' (xs @ cut req n @ ys)" and st: "kernel_heap_start h' = kernel_heap_start h"
    "kernel_heap_end h' = kernel_heap_end h"
    and ok: "header_ok (hmem h') (of_nat a)" "split_room req n \<longrightarrow> header_ok (hmem h') (of_nat (a + (req + 24)))"
    and t: "touched (hmem h) (hmem h') (insert (of_nat a) (if split_room req n then {of_nat (a + (req + 24))} else {})) {link (heap_hi h) ?e}" by auto
  have used_next: "ys \<noteq> [] \<Longrightarrow> snd (hd ys)" by (rule coalesced_around(2) [OF co])
  have "coalesced (xs @ cut req n @ ys)"
    using co used_next by (auto simp: cut_def coalesced_append coalesced_Cons)
  moreover have "header_ok (hmem h') (of_nat x)" if x: "x \<in> free_at (heap_lo h) (xs @ cut req n @ ys)" for x
  proof -
    have len: "a + (req + 24) + (n - req - 24 + 24) = ?e" if "split_room req n" using that by (simp add: split_room_def)
    consider "x \<in> free_at (heap_lo h) xs" | "split_room req n" "x = a + (req + 24)" | "x \<in> free_at ?e ys"
      using x a len by (cases "split_room req n") (auto simp: cut_def add_ac)
    then show ?thesis
    proof cases
      case 1
      then have "16 \<le> x" "x < a" using free_at_bounds heap_rep_lo [OF rep] a by fastforce+
      then have "(of_nat x :: u32) \<noteq> of_nat a" "(of_nat x :: u32) \<noteq> of_nat (a + (req + 24))" "of_nat x \<noteq> link (heap_hi h) ?e"
        using hi req(3) link_below [of ?e "heap_hi h" x] by (simp_all add: of_nat_u32_eq)
      with 1 fr touched_same [OF t] show ?thesis by simp
    next
      case 2
      then show ?thesis using ok by simp
    next
      case 3
      then have "ys \<noteq> []" by auto
      then have x: "?e < x" "x < heap_hi h" using free_at_after [OF 3] used_next free_at_bounds [OF 3] hi by auto
      then have "(of_nat x :: u32) \<noteq> of_nat a" "(of_nat x :: u32) \<noteq> of_nat (a + (req + 24))" "of_nat x \<noteq> link (heap_hi h) ?e"
        using hi req(3) link_ne_after [of ?e "heap_hi h" x] by (simp_all add: of_nat_u32_eq)
      moreover have "x \<in> free_at (heap_lo h) (xs @ (n, False) # ys)" using 3 a by (simp add: add_ac)
      ultimately show ?thesis using bspec [OF fr, of x] touched_same [OF t, of "of_nat x"] by (simp split: if_splits)
    qed
  qed
  ultimately show ?thesis using run rep' st ok t by (auto simp: heap_inv_def)
qed

lemma kmalloc_heap_inv:
  assumes inv: "heap_inv h bs"
  shows "\<exists>p h' bs'. kmalloc r h = Some (Inr (p, h')) \<and> heap_inv h' bs' \<and>
    kernel_heap_start h' = kernel_heap_start h \<and> kernel_heap_end h' = kernel_heap_end h \<and>
    (p = 0 \<and> hmem h' = hmem h \<and> bs' = bs \<or>
     p \<noteq> 0 \<and> (\<exists>xs n ys a. bs = xs @ (n, False) # ys \<and> a = heap_lo h + ext xs \<and> p = of_nat (a + 24) \<and>
       bs' = xs @ cut (unat (round_size r)) n @ ys \<and> unat (round_size r) \<le> n \<and> header_ok (hmem h') (of_nat a) \<and>
       (split_room (unat (round_size r)) n \<longrightarrow> header_ok (hmem h') (of_nat (a + (unat (round_size r) + 24)))) \<and>
       touched (hmem h) (hmem h') (insert (of_nat a) (if split_room (unat (round_size r)) n then {of_nat (a + (unat (round_size r) + 24))} else {})) {link (heap_hi h) (a + (n + 24))}))"
proof -
  let ?req = "unat (round_size r)"
  have rep: "heap_rep h bs" using inv by (simp add: heap_inv_def)
  show ?thesis
  proof (cases "r = 0 \<or> (\<forall>b\<in>set bs. snd b \<or> fst b < ?req)")
    case True
    then obtain st where "kmalloc r h = Some (Inr (0, h\<lparr>stats := st\<rparr>))"
      using kmalloc_full [OF rep, of r] by (cases "r = 0") (auto simp: kmalloc_zero intro: that [of "stats h"])
    with inv show ?thesis by (auto simp: heap_inv_def)
  next
    case False
    then have r: "r \<noteq> 0" and nf: "\<not> (\<forall>b\<in>set bs. snd b \<or> fst b < ?req)" by blast+
    obtain i where i: "best_fit ?req bs i"
      "kmalloc r h = Some (take_block (of_nat (blk_addr (heap_lo h) bs i)) (of_nat ?req) h)"
      using kmalloc_cases [OF rep r refl] unfolding if_not_P [OF nf] by blast
    have len: "i < length bs" "\<not> snd (bs ! i)" "?req \<le> fst (bs ! i)" using i(1) by (auto simp: best_fit_def)
    let ?xs = "take i bs" and ?n = "fst (bs ! i)" and ?ys = "drop (Suc i) bs"
    have bs: "bs = ?xs @ (?n, False) # ?ys" using blk_decomp [OF len(1)] len(2) by simp
    have inv': "heap_inv h (?xs @ (?n, False) # ?ys)" using inv bs by metis
    have "(of_nat (heap_lo h + ext ?xs + 24) :: u32) \<noteq> 0"
      using unat_blk_payload [OF rep len(1)] by (auto simp: blk_addr_def)
    with heap_inv_kmalloc_take [OF inv' refl round_size_props len(3)] i(2) bs len(3) show ?thesis
      unfolding blk_addr_def by metis
  qed
qed

lemma free_next_ok:
  assumes "heap_inv h (xs @ (n, u) # ys)" and "ys \<noteq> []" and "\<not> snd (hd ys)"
  shows "header_ok (hmem h) (of_nat (heap_lo h + ext xs + (n + 24)))"
  using assms by (cases ys) (auto simp: heap_inv_def add_ac)

lemma free_prev_ok:
  assumes "heap_inv h (xs @ b # ys)" and "xs \<noteq> []" and "\<not> snd (last xs)"
  shows "header_ok (hmem h) (last_ptr 0 (heap_lo h) xs)"
proof -
  obtain ws n where xs: "xs = ws @ [(n, False)]" using assms(2,3) by (cases xs rule: rev_cases) auto
  with assms(1) show ?thesis by (simp add: heap_inv_def)
qed

lemma kfree_heap_inv:
  assumes inv: "heap_inv h (xs @ (n, True) # ys)" and a: "a = heap_lo h + ext xs"
    and ok: "header_ok (hmem h) (of_nat a)"
  shows "\<exists>h' xs2 n2 ys1. kfree (of_nat (a + 24)) h = Inr h' \<and> heap_inv h' (xs2 @ (n2, False) # ys1) \<and>
    kernel_heap_start h' = kernel_heap_start h \<and> kernel_heap_end h' = kernel_heap_end h \<and>
    ((xs = [] \<or> snd (last xs)) \<longrightarrow> xs2 = xs \<and>
       (n2, ys1) = (if ys \<noteq> [] \<and> \<not> snd (hd ys) then (n + (fst (hd ys) + 24), tl ys) else (n, ys)) \<and>
       touched (hmem h) (hmem h') {of_nat a} {link (heap_hi h) (a + (n2 + 24))} \<and> header_ok (hmem h') (of_nat a))"
proof -
  have rep: "heap_rep h (xs @ (n, True) # ys)" and co: "coalesced (xs @ (n, True) # ys)"
    and fr: "\<forall>x\<in>free_at (heap_lo h) (xs @ (n, True) # ys). header_ok (hmem h) (of_nat x)"
    using inv by (simp_all add: heap_inv_def)
  note at = heap_rep_at [OF rep a refl]
  obtain c where c: "hmem h (of_nat a) = Some c" "verify_block_integrity c"
    using ok by (auto simp: header_ok_def split: option.splits)
  obtain n1 ys1 where m1: "(n1, ys1) = merge_next (header_ok (hmem h) (of_nat (a + (n + 24)))) n ys" by (metis surj_pair)
  obtain xs2 n2 where m2: "(xs2, n2) = merge_prev (header_ok (hmem h) (last_ptr 0 (heap_lo h) xs)) xs n1" by (metis surj_pair)
  have nx: "(n1, ys1) = (if ys \<noteq> [] \<and> \<not> snd (hd ys) then (n + (fst (hd ys) + 24), tl ys) else (n, ys))"
    using m1 free_next_ok [OF inv] a by (auto simp: merge_next_def)
  have pv: "(xs2, n2) = (if xs \<noteq> [] \<and> \<not> snd (last xs) then (butlast xs, fst (last xs) + (n1 + 24)) else (xs, n1))"
    using m2 free_prev_ok [OF inv] by (auto simp: merge_prev_def)
  let ?E = "a + (n1 + 24)"
  from kfree_at [OF rep a c m1 m2] obtain h' where h': "kfree (of_nat (a + 24)) h = Inr h'"
    "heap_rep h' (xs2 @ (n2, False) # ys1)" "kernel_heap_start h' = kernel_heap_start h"
    "kernel_heap_end h' = kernel_heap_end h" "header_ok (hmem h') (of_nat (heap_lo h + ext xs2))"
    "touched (hmem h) (hmem h') (insert (of_nat a) (if xs2 = xs then {} else {last_ptr 0 (heap_lo h) xs})) {link (heap_hi h) ?E}"
    by blast
  have "coalesced ys1 \<and> (ys1 \<noteq> [] \<longrightarrow> snd (hd ys1))"
    using nx co by (cases ys) (auto simp: coalesced_append coalesced_Cons split: if_splits)
  then have r: "coalesced ys1" "ys1 \<noteq> [] \<Longrightarrow> snd (hd ys1)" by auto
  have "coalesced xs2 \<and> (xs2 \<noteq> [] \<longrightarrow> snd (last xs2))"
    using pv co by (cases xs rule: rev_cases) (auto simp: coalesced_append split: if_splits)
  then have l: "coalesced xs2" "xs2 \<noteq> [] \<Longrightarrow> snd (last xs2)" by auto
  have co': "coalesced (xs2 @ (n2, False) # ys1)"
    using l r by (auto simp: coalesced_append coalesced_Cons)
  have hi: "heap_hi h < 2 ^ 32" "heap_hi h = ?E + ext ys1"
    using heap_hi_lt [of h] bseg_end [OF at(7)] nx by (cases ys; auto split: if_splits)+
  have E: "heap_lo h + ext xs2 + (n2 + 24) = ?E"
    using pv a by (cases xs rule: rev_cases) (auto split: if_splits)
  have le: "heap_lo h + ext xs2 \<le> a" and sub: "free_at (heap_lo h) xs2 \<subseteq> free_at (heap_lo h) xs"
    and W: "xs2 \<noteq> xs \<Longrightarrow> last_ptr 0 (heap_lo h) xs = of_nat (heap_lo h + ext xs2)"
    using pv a by (cases xs rule: rev_cases; auto split: if_splits)+
  have t: "touched (hmem h) (hmem h') {of_nat a, of_nat (heap_lo h + ext xs2)} {link (heap_hi h) ?E}"
    by (rule touched_mono [OF h'(6)]) (use W in auto)
  have same: "header_ok (hmem h') (of_nat x) = header_ok (hmem h) (of_nat x)"
    if "0 < x" "x < heap_lo h + ext xs2 \<or> ?E < x \<and> x < heap_hi h" for x
  proof (rule touched_same [OF t])
    have "x < 2 ^ 32" "x \<noteq> a" "x \<noteq> heap_lo h + ext xs2" using that le at(3) hi by auto
    then show "of_nat x \<notin> {of_nat a, of_nat (heap_lo h + ext xs2) :: u32}" using at(3) le by (simp add: of_nat_u32_eq)
    show "of_nat x \<notin> {link (heap_hi h) ?E}"
      using that le hi link_below [of ?E "heap_hi h" x] link_ne_after [of ?E "heap_hi h" x] by auto
  qed
  have "header_ok (hmem h') (of_nat x)" if x: "x \<in> free_at (heap_lo h) (xs2 @ (n2, False) # ys1)" for x
  proof -
    consider "x \<in> free_at (heap_lo h) xs2" | "x = heap_lo h + ext xs2" | "x \<in> free_at ?E ys1"
      using x E by auto
    then show ?thesis
    proof cases
      case 1
      then have "0 < x" "x < heap_lo h + ext xs2" using free_at_bounds [OF 1] heap_rep_lo [OF rep] by auto
      with same fr sub 1 show ?thesis by auto
    next
      case 2
      then show ?thesis using h'(5) by simp
    next
      case 3
      then have "ys1 \<noteq> []" by auto
      then have x: "?E < x" "x < heap_hi h" using free_at_after [OF 3] r(2) free_at_bounds [OF 3] hi(2) by auto
      have "x \<in> free_at (a + (n + 24)) ys" using 3 nx by (cases ys) (auto simp: add_ac split: if_splits)
      then have "x \<in> free_at (heap_lo h) (xs @ (n, True) # ys)" using a by (simp add: add_ac)
      with same x fr show ?thesis by auto
    qed
  qed
  then have "heap_inv h' (xs2 @ (n2, False) # ys1)" using h'(2,3) co' by (simp add: heap_inv_def)
  moreover have "xs2 = xs \<and> n2 = n1" if "xs = [] \<or> snd (last xs)" using pv that by (auto split: if_splits)
  ultimately show ?thesis using h' nx a by (intro exI [of _ h'] exI [of _ xs2] exI [of _ n2] exI [of _ ys1]) auto
qed

section \<open>Reachable heaps\<close>

lemma bseg_unique:
  assumes "bseg m hi p a bs hi" and "bseg m hi p a cs hi" and "hi < 2 ^ 32"
  shows "bs = cs"
  using assms
proof (induction bs arbitrary: p a cs)
  case Nil
  then show ?case using bseg_end [OF Nil(2)] by (cases cs) auto
next
  case (Cons b bs)
  obtain c cs' where cs: "cs = c # cs'" using Cons.prems bseg_end [OF Cons.prems(1)] by (cases cs) auto
  obtain n u where b: "b = (n, u)" by (cases b)
  obtain k v where c: "c = (k, v)" by (cases c)
  have nk: "n < 2 ^ 32" "k < 2 ^ 32"
    using bseg_end [OF Cons.prems(1)] bseg_end [OF Cons.prems(2)] Cons.prems(3) b c cs by auto
  have "node m hi p a (n, u)" "node m hi p a (k, v)" using Cons.prems b c cs by simp_all
  then have "of_nat n = (of_nat k :: u32)" "(if u then 1 else 0 :: u32) = (if v then 1 else 0)"
    by (auto simp: node_def split: option.splits if_splits)
  then have "n = k" "u = v" using nk by (auto simp: of_nat_u32_eq split: if_splits)
  with Cons b c cs show ?case by auto
qed

lemma heap_rep_unique: "heap_rep h bs \<Longrightarrow> heap_rep h cs \<Longrightarrow> bs = cs"
  using bseg_unique heap_rep_bseg heap_hi_lt by blast

lemma heap_init_inv:
  assumes "16 \<le> e" and "heap_init e = Inr h"
  shows "heap_inv h [(16777192, False)]"
proof -
  have "unat e + 2 ^ 24 < 2 ^ 32"
  proof (rule ccontr)
    assume "\<not> ?thesis"
    then have "unat (e + KERNEL_HEAP_SIZE) = unat e + 2 ^ 24 - 2 ^ 32"
      using unsigned_less [of e, where 'a = nat] by (simp add: unat_word_ariths mod_if)
    then have "e + KERNEL_HEAP_SIZE \<le> e" by (simp add: word_le_nat_alt)
    with assms(2) show False by (simp add: heap_init_def)
  qed
  from heap_init_rep [OF assms(1) this] assms(2) show ?thesis by (auto simp: heap_inv_def)
qed

lemma live_at_split:
  assumes "(q, n) \<in> live_at a bs"
  obtains xs ys where "bs = xs @ (n, True) # ys" "q = a + ext xs + 24"
proof -
  obtain i where i: "i < length bs" "snd (bs ! i)" "q = blk_addr a bs i + 24" "n = fst (bs ! i)"
    using assms by (auto simp: live_at_nth)
  then have bs: "bs = take i bs @ (n, True) # drop (Suc i) bs" using blk_decomp [of i bs True] by simp
  show ?thesis by (rule that [OF bs]) (use i(3) in \<open>simp add: blk_addr_def\<close>)
qed

lemma kfree_live_inv:
  assumes inv: "heap_inv h bs" and p: "(unat p, n) \<in> live_at (heap_lo h) bs"
  shows "if header_ok (hmem h) (p - HDR)
         then \<exists>h' bs'. kfree p h = Inr h' \<and> heap_inv h' bs' \<and> kernel_heap_start h' = kernel_heap_start h
         else kfree p h = Inl (Panic ''Heap corruption detected in kfree'')"
proof -
  obtain xs ys where bs: "bs = xs @ (n, True) # ys" and q: "unat p = heap_lo h + ext xs + 24"
    using live_at_split [OF p] by blast
  let ?a = "heap_lo h + ext xs"
  have inv': "heap_inv h (xs @ (n, True) # ys)" using inv bs by simp
  then have rep: "heap_rep h (xs @ (n, True) # ys)" by (simp add: heap_inv_def)
  have p': "p = of_nat (?a + 24)" unfolding q [symmetric] by simp
  have a: "p - HDR = of_nat ?a" unfolding p' by (simp add: of_nat_add)
  have "p \<noteq> 0" using q by auto
  obtain c where c: "hmem h (of_nat ?a) = Some c" using heap_rep_at(6) [OF rep refl refl] by (rule node_header)
  show ?thesis
  proof (cases "header_ok (hmem h) (p - HDR)")
    case True
    then show ?thesis using kfree_heap_inv [OF inv' refl] a p' by auto
  next
    case False
    then show ?thesis using c a \<open>p \<noteq> 0\<close> by (simp add: kfree_def Let_def load_def header_ok_def)
  qed
qed

text \<open>Every reachable heap satisfies the invariant.\<close>

lemma heap_reach_inv:
  assumes "heap_reach e h" and "16 \<le> e"
  shows "\<exists>bs. heap_inv h bs"
  using assms(1)
proof (induction rule: heap_reach.induct)
  case (start h)
  then show ?case using heap_init_inv [OF assms(2)] by blast
next
  case (malloc h r p h')
  then obtain bs where "heap_inv h bs" by blast
  from kmalloc_heap_inv [OF this, of r] malloc.hyps(2) show ?case by auto
next
  case (free h L p n h')
  then obtain bs where inv: "heap_inv h bs" by blast
  then have "L = live_at (heap_lo h) bs"
    using free.hyps(2) heap_rep_unique by (auto simp: heap_live_def heap_inv_def)
  then have "(unat p, n) \<in> live_at (heap_lo h) bs" using free.hyps(3) by simp
  from kfree_live_inv [OF inv this] free.hyps(4) show ?case by (auto split: if_splits)
qed

text \<open>
  C7. Invariant of every heap that start-up, allocations and frees of live blocks can reach: it is
  well formed, no two neighbouring blocks are free and the headers of all free blocks pass their
  check. Therefore \<^verbatim>\<open>kmalloc\<close> always returns and never panics, whatever the request, and the only
  way \<^verbatim>\<open>kfree\<close> of a live pointer can fail is the panic for a stale checksum in that block's header.
\<close>

theorem reachable_heaps_sound:
  assumes "heap_reach e h" and "16 \<le> e"
  shows "\<exists>bs. heap_rep h bs \<and> coalesced bs \<and> (\<forall>x\<in>free_at (heap_lo h) bs. header_ok (hmem h) (of_nat x)) \<and>
    (\<forall>r. \<exists>p h'. kmalloc r h = Some (Inr (p, h'))) \<and>
    (\<forall>p n. (unat p, n) \<in> live_at (heap_lo h) bs \<longrightarrow>
       (if header_ok (hmem h) (p - HDR) then \<exists>h'. kfree p h = Inr h'
        else kfree p h = Inl (Panic ''Heap corruption detected in kfree'')))"
proof -
  obtain bs where inv: "heap_inv h bs" using heap_reach_inv [OF assms] by blast
  have k: "\<forall>r. \<exists>p h'. kmalloc r h = Some (Inr (p, h'))" using kmalloc_heap_inv [OF inv] by blast
  have f: "\<forall>p n. (unat p, n) \<in> live_at (heap_lo h) bs \<longrightarrow>
      (if header_ok (hmem h) (p - HDR) then \<exists>h'. kfree p h = Inr h'
       else kfree p h = Inl (Panic ''Heap corruption detected in kfree''))"
    using kfree_live_inv [OF inv] by (metis (no_types, lifting))
  show ?thesis using inv k f by (auto simp: heap_inv_def intro!: exI [of _ bs])
qed

theorem reachable_heaps_sound_witness:
  "\<exists>h h' bs. heap_init 0x200000 = Inr h \<and> kmalloc 100 h = Some (Inr (0x200018, h')) \<and> heap_reach 0x200000 h' \<and>
     heap_rep h' bs \<and> coalesced bs \<and> (\<forall>r. \<exists>p h''. kmalloc r h' = Some (Inr (p, h'')))"
proof -
  obtain h h' where h: "heap_init 0x200000 = Inr h" "kmalloc 100 h = Some (Inr (0x200018, h'))"
    by (rule boot_heap_alloc)
  have r: "heap_reach 0x200000 h'" by (rule malloc [OF start [OF h(1)] h(2)])
  from reachable_heaps_sound [OF r] h r show ?thesis by auto
qed

section \<open>Balanced use\<close>

text \<open>Two heaps with the same blocks and the same headers on them.\<close>

definition same_heap :: "blk list \<Rightarrow> heap \<Rightarrow> heap \<Rightarrow> bool" where
  "same_heap bs h h' \<longleftrightarrow> heap_rep h' bs \<and> kernel_heap_start h' = kernel_heap_start h \<and>
     kernel_heap_end h' = kernel_heap_end h \<and>
     (\<forall>x\<in>addrs_at (heap_lo h) bs. hmem h' (of_nat x) = hmem h (of_nat x))"

lemma same_heap_refl: "heap_rep h bs \<Longrightarrow> same_heap bs h h"
  by (simp add: same_heap_def)

lemma same_heap_inv: "heap_inv h bs \<Longrightarrow> same_heap bs h h' \<Longrightarrow> heap_inv h' bs"
  using free_at_addrs by (fastforce simp: heap_inv_def same_heap_def header_ok_def)

lemma same_heap_trans: "same_heap bs h h' \<Longrightarrow> same_heap bs h' h'' \<Longrightarrow> same_heap bs h h''"
  by (auto simp: same_heap_def)

lemma addrs_at_split:
  "x \<in> addrs_at a bs \<Longrightarrow> \<exists>xs b ys. bs = xs @ b # ys \<and> x = a + ext xs"
proof (induction a bs rule: addrs_at.induct)
  case (2 a n u bs)
  show ?case
  proof (cases "x = a")
    case True
    then show ?thesis by (intro exI [of _ "[]"]) auto
  next
    case False
    then obtain xs b ys where "bs = xs @ b # ys" "x = a + (n + 24) + ext xs" using 2 by auto
    then show ?thesis by (intro exI [of _ "(n, u) # xs"] exI [of _ b] exI [of _ ys]) simp
  qed
qed simp

text \<open>The blocks determine every field of a header but its checksum.\<close>

lemma header_determined:
  assumes "heap_rep h bs" and "heap_rep h' bs"
    and same: "kernel_heap_start h' = kernel_heap_start h" "kernel_heap_end h' = kernel_heap_end h"
    and x: "x \<in> addrs_at (heap_lo h) bs"
  obtains c c' where "hmem h (of_nat x) = Some c" "hmem h' (of_nat x) = Some c'"
    "calculate_block_checksum c' = calculate_block_checksum c" "checksum c' = checksum c \<longrightarrow> c' = c"
proof -
  obtain xs n u ys where bs: "bs = xs @ (n, u) # ys" and xa: "x = heap_lo h + ext xs"
    using addrs_at_split [OF x] by (metis surj_pair)
  have r: "heap_rep h (xs @ (n, u) # ys)" "heap_rep h' (xs @ (n, u) # ys)" using assms(1,2) bs by simp_all
  have "x = heap_lo h' + ext xs" using xa same by simp
  from heap_rep_at(6) [OF r(1) xa refl] heap_rep_at(6) [OF r(2) this refl] same that show ?thesis
    by (auto simp: calculate_block_checksum_def elim!: node_header)
qed

lemma addrs_inside:
  assumes "heap_rep h (xs @ b # ys)" and "x \<in> addrs_at (heap_lo h) (xs @ b # ys)"
  shows "x < 2 ^ 32" and "x = heap_lo h + ext xs \<or> x < heap_lo h + ext xs \<or> heap_lo h + ext xs + (fst b + 24) \<le> x"
proof -
  show "x < 2 ^ 32" using addrs_at_bounds [OF assms(2)] heap_rep_hi [OF assms(1)] heap_hi_lt [of h] by linarith
  show "x = heap_lo h + ext xs \<or> x < heap_lo h + ext xs \<or> heap_lo h + ext xs + (fst b + 24) \<le> x"
    using assms(2) by (cases b) (auto dest!: addrs_at_bounds)
qed

lemma same_heap_free_block:
  assumes inv: "heap_inv h (xs @ (n, False) # ys)" and rep: "heap_rep h' (xs @ (n, False) # ys)"
    and st: "kernel_heap_start h' = kernel_heap_start h" "kernel_heap_end h' = kernel_heap_end h"
    and ok: "header_ok (hmem h') (of_nat (heap_lo h + ext xs))"
    and cks: "\<And>x. x \<in> addrs_at (heap_lo h) (xs @ (n, False) # ys) \<Longrightarrow> x \<noteq> heap_lo h + ext xs \<Longrightarrow>
      map_option checksum (hmem h' (of_nat x)) = map_option checksum (hmem h (of_nat x))"
  shows "same_heap (xs @ (n, False) # ys) h h'"
  unfolding same_heap_def
proof (intro conjI ballI)
  have r: "heap_rep h (xs @ (n, False) # ys)" using inv by (simp add: heap_inv_def)
  fix x assume x: "x \<in> addrs_at (heap_lo h) (xs @ (n, False) # ys)"
  obtain c c' where c: "hmem h (of_nat x) = Some c" "hmem h' (of_nat x) = Some c'"
    "calculate_block_checksum c' = calculate_block_checksum c" "checksum c' = checksum c \<longrightarrow> c' = c"
    by (rule header_determined [OF r rep st x])
  show "hmem h' (of_nat x) = hmem h (of_nat x)"
  proof (cases "x = heap_lo h + ext xs")
    case True
    then have "header_ok (hmem h) (of_nat x)" using inv by (simp add: heap_inv_def)
    with ok True c have "checksum c' = checksum c" by (simp add: header_ok_def verify_block_integrity_def)
    with c show ?thesis by simp
  next
    case False
    with cks [OF x] c show ?thesis by simp
  qed
qed (use rep st in simp_all)

text \<open>Some free block has at least \<open>k\<close> bytes.\<close>

definition room :: "blk list \<Rightarrow> nat \<Rightarrow> bool" where
  "room bs k \<longleftrightarrow> (\<exists>b\<in>set bs. \<not> snd b \<and> k \<le> fst b)"

lemma room_mono: "room bs k \<Longrightarrow> j \<le> k \<Longrightarrow> room bs j"
  unfolding room_def by (meson order_trans)

lemma room_cut:
  assumes "room (xs @ (n, False) # ys) (k + req + 24)" and "16 < k"
  shows "room (xs @ cut req n @ ys) k"
proof -
  obtain b where b: "b \<in> set (xs @ (n, False) # ys)" "\<not> snd b" "k + req + 24 \<le> fst b"
    using assms(1) unfolding room_def by blast
  show ?thesis
  proof (cases "b = (n, False)")
    case True
    then have "k \<le> n - (req + 24)" "split_room req n" using b assms(2) by (auto simp: split_room_def)
    then show ?thesis by (simp add: room_def cut_def)
  next
    case False
    then have "b \<in> set (xs @ cut req n @ ys)" using b(1) by auto
    then show ?thesis unfolding room_def using b(2,3) by (intro bexI [of _ b]) auto
  qed
qed

lemma kmalloc_room:
  assumes inv: "heap_inv h bs" and room: "room bs (unat (round_size r))" and "r \<noteq> 0"
    and run: "kmalloc r h = Some (Inr (p, h'))"
  shows "p \<noteq> 0"
proof -
  have rep: "heap_rep h bs" using inv by (simp add: heap_inv_def)
  have nf: "\<not> (\<forall>b\<in>set bs. snd b \<or> fst b < unat (round_size r))" using room by (auto simp: room_def)
  from kmalloc_result [OF rep assms(3) refl] run obtain i where
    "best_fit (unat (round_size r)) bs i" "p = of_nat (blk_addr (heap_lo h) bs i + 24)"
    unfolding if_not_P [OF nf] by (auto split: if_splits)
  then show ?thesis using unat_blk_payload [OF rep] by (force simp: best_fit_def)
qed

lemma buffer_neutral:
  assumes inv: "heap_inv h bs" and run: "kmalloc r h = Some (Inr (p, h1))" and "p \<noteq> 0"
  obtains bs1 where "heap_inv h1 bs1" "\<And>k. room bs (k + unat (round_size r) + 24) \<Longrightarrow> 16 < k \<Longrightarrow> room bs1 k"
    "\<And>h1'. same_heap bs1 h1 h1' \<Longrightarrow> \<exists>h2. kfree p h1' = Inr h2 \<and> same_heap bs h h2"
proof -
  let ?req = "unat (round_size r)"
  obtain bs1 xs n ys a where inv1: "heap_inv h1 bs1" and st1: "kernel_heap_start h1 = kernel_heap_start h"
    "kernel_heap_end h1 = kernel_heap_end h" and bs: "bs = xs @ (n, False) # ys" and a: "a = heap_lo h + ext xs"
    and p: "p = of_nat (a + 24)" and bs1: "bs1 = xs @ cut ?req n @ ys" and le: "?req \<le> n"
    and ok1: "header_ok (hmem h1) (of_nat a)"
    and t1: "touched (hmem h) (hmem h1) (insert (of_nat a) (if split_room ?req n then {of_nat (a + (?req + 24))} else {})) {link (heap_hi h) (a + (n + 24))}"
    using kmalloc_heap_inv [OF inv, of r] run assms(3) by auto
  have invh: "heap_inv h (xs @ (n, False) # ys)" using inv bs by simp
  then have rep: "heap_rep h (xs @ (n, False) # ys)" and co: "coalesced (xs @ (n, False) # ys)"
    by (simp_all add: heap_inv_def)
  note at = heap_rep_at [OF rep a refl]
  have "\<exists>h2. kfree p h1' = Inr h2 \<and> same_heap bs h h2" if same: "same_heap bs1 h1 h1'" for h1'
  proof -
    have st: "kernel_heap_start h1' = kernel_heap_start h" "kernel_heap_end h1' = kernel_heap_end h"
      using same st1 by (simp_all add: same_heap_def)
    obtain m zs where cut: "cut ?req n @ ys = (m, True) # zs" and
      zs: "(if zs \<noteq> [] \<and> \<not> snd (hd zs) then (m + (fst (hd zs) + 24), tl zs) else (m, zs)) = (n, ys)"
      using coalesced_around(2) [OF co]
      by (cases "split_room ?req n"; cases "ys = []") (auto simp: cut_def split_room_def)
    have prv: "xs = [] \<or> snd (last xs)" using coalesced_around(1) [OF co] by blast
    have inv1': "heap_inv h1' (xs @ (m, True) # zs)" using same_heap_inv [OF inv1 same] bs1 cut by simp
    have a1: "a = heap_lo h1' + ext xs" using a st by simp
    have "a \<in> addrs_at (heap_lo h1) bs1" using a st1 by (simp add: bs1 cut)
    then have "header_ok (hmem h1') (of_nat a)" using same ok1 by (simp add: same_heap_def header_ok_def)
    from kfree_heap_inv [OF inv1' a1 this] prv zs obtain h2 where h2: "kfree p h1' = Inr h2"
      "heap_inv h2 (xs @ (n, False) # ys)" "kernel_heap_start h2 = kernel_heap_start h"
      "kernel_heap_end h2 = kernel_heap_end h" "header_ok (hmem h2) (of_nat a)"
      "touched (hmem h1') (hmem h2) {of_nat a} {link (heap_hi h) (a + (n + 24))}"
      using st p by (auto simp: split: if_splits)
    have "same_heap (xs @ (n, False) # ys) h h2"
    proof (rule same_heap_free_block [OF invh _ h2(3,4)])
      show "heap_rep h2 (xs @ (n, False) # ys)" using h2(2) by (simp add: heap_inv_def)
      show "header_ok (hmem h2) (of_nat (heap_lo h + ext xs))" using h2(5) a by simp
      fix x assume x: "x \<in> addrs_at (heap_lo h) (xs @ (n, False) # ys)" "x \<noteq> heap_lo h + ext xs"
      have xa: "x < 2 ^ 32" "x < a \<or> a + (n + 24) \<le> x" using addrs_inside [OF rep x(1)] x(2) a by auto
      have ne: "(of_nat x :: u32) \<noteq> of_nat a" using xa at(3) x(2) a by (simp add: of_nat_u32_eq)
      have "x \<in> addrs_at (heap_lo h1) bs1"
        using x(1,2) st1 cut zs a by (cases zs) (auto simp: bs1 add_ac split: if_splits)
      then have "hmem h1' (of_nat x) = hmem h1 (of_nat x)" using same by (simp add: same_heap_def)
      moreover have "map_option checksum (hmem h2 (of_nat x)) = map_option checksum (hmem h1' (of_nat x))"
        using h2(6) ne by (simp add: touched_def)
      moreover have "map_option checksum (hmem h1 (of_nat x)) = map_option checksum (hmem h (of_nat x))"
      proof -
        have "(of_nat x :: u32) \<noteq> of_nat (a + (?req + 24))" if "split_room ?req n"
          using that xa at(2) heap_hi_lt [of h] by (subst of_nat_u32_eq) (auto simp: split_room_def)
        then show ?thesis using t1 ne by (simp add: touched_def)
      qed
      ultimately show "map_option checksum (hmem h2 (of_nat x)) = map_option checksum (hmem h (of_nat x))" by simp
    qed
    with h2(1) bs show ?thesis by blast
  qed
  moreover have "room bs1 k" if "room bs (k + ?req + 24)" "16 < k" for k
    using room_cut [of xs n ys k ?req] that by (simp add: bs bs1)
  ultimately show ?thesis using that inv1 by blast
qed

end
