(* ===== verification/Solix_Net.thy ===== *)
theory Solix_Net
  imports Solix_Netutil Solix_Tables Solix_HeapInv
begin

text \<open>
  The network stack of \<^verbatim>\<open>net/net.c\<close> and the device table of \<^verbatim>\<open>drivers/wifi.c\<close>: devices, the ARP
  cache, Ethernet, IP, ARP, ICMP, TCP and UDP. Packets are lists of bytes. Buffers come from
  \<^verbatim>\<open>kmalloc\<close> and go back with \<^verbatim>\<open>kfree\<close>, so the state contains the heap of \<open>Solix_Heap\<close>. The
  transmit function of a driver is the parameter \<open>drv\<close>, the value it returns for a device and a
  frame; the frames handed to drivers are recorded in \<open>wire\<close>. Output on the console is left out.
\<close>

declare of_nat_add [simp del]

section \<open>State\<close>

type_synonym mac = "u8 list"

record net_device =
  dev_name :: string
  mac :: mac
  ip_addr :: u32
  netmask :: u32
  gateway :: u32
  up :: bool
  can_transmit :: bool

record arp_entry =
  arp_ip :: u32
  arp_mac :: mac
  arp_timestamp :: u32

record socket =
  sock_type :: int
  protocol :: int
  local_ip :: u32
  local_port :: u16
  remote_ip :: u32
  remote_port :: u16
  sock_state :: u32

record net =
  dev_objs :: "u32 \<rightharpoonup> net_device"
  devices :: ptab
  arp_cache :: "arp_entry list"
  arp_cache_size :: nat
  sockets :: "socket list"
  num_sockets :: nat
  ticks :: u32
  net_heap :: heap
  wire :: "(u32 \<times> u8 list) list"

abbreviation broadcast_mac :: mac where "broadcast_mac \<equiv> [0xFF, 0xFF, 0xFF, 0xFF, 0xFF, 0xFF]"
abbreviation ETH_P_IP :: u16 where "ETH_P_IP \<equiv> 0x0800"
abbreviation ETH_P_ARP :: u16 where "ETH_P_ARP \<equiv> 0x0806"
abbreviation IPPROTO_ICMP :: u8 where "IPPROTO_ICMP \<equiv> 1"
abbreviation IPPROTO_TCP :: u8 where "IPPROTO_TCP \<equiv> 6"
abbreviation IPPROTO_UDP :: u8 where "IPPROTO_UDP \<equiv> 17"
abbreviation ARP_REQUEST :: u16 where "ARP_REQUEST \<equiv> 1"
abbreviation ARP_REPLY :: u16 where "ARP_REPLY \<equiv> 2"
abbreviation TCP_FLAG_SYN :: u8 where "TCP_FLAG_SYN \<equiv> 0x02"
abbreviation TCP_FLAG_ACK :: u8 where "TCP_FLAG_ACK \<equiv> 0x10"

section \<open>Devices\<close>

text \<open>Entries that \<^verbatim>\<open>memset\<close> has cleared.\<close>

definition net_init :: "net \<Rightarrow> net" where
  "net_init s =
     s\<lparr>devices := (devices s)\<lparr>slots := replicate 16 0\<rparr>,
       arp_cache := replicate 64 \<lparr>arp_ip = 0, arp_mac = replicate 6 0, arp_timestamp = 0\<rparr>,
       sockets := replicate 256 \<lparr>sock_type = 0, protocol = 0, local_ip = 0, local_port = 0,
         remote_ip = 0, remote_port = 0, sock_state = 0\<rparr>\<rparr>"

definition net_register_device :: "u32 \<Rightarrow> ptab \<Rightarrow> int \<times> ptab" where
  "net_register_device = tab_register 16"

definition net_unregister_device :: "u32 \<Rightarrow> ptab \<Rightarrow> int \<times> ptab" where
  "net_unregister_device = tab_unregister"

definition wifi_register_device :: "u32 \<Rightarrow> ptab \<Rightarrow> int \<times> ptab" where
  "wifi_register_device = tab_register 8"

definition wifi_unregister_device :: "u32 \<Rightarrow> ptab \<Rightarrow> int \<times> ptab" where
  "wifi_unregister_device = tab_unregister"

fun scan_name :: "(u32 \<rightharpoonup> net_device) \<Rightarrow> string \<Rightarrow> u32 list \<Rightarrow> fault + u32" where
  "scan_name m name [] = Inr 0"
| "scan_name m name (p # ps) =
     (case m p of None \<Rightarrow> Inl (Wild_Access p)
      | Some d \<Rightarrow> if dev_name d = name then Inr p else scan_name m name ps)"

definition net_get_device :: "string \<Rightarrow> net \<Rightarrow> fault + u32" where
  "net_get_device name s = scan_name (dev_objs s) name (registered (devices s))"

text \<open>The loop that looks for a device that is up, shared by the transmit functions.\<close>

fun first_up :: "(u32 \<rightharpoonup> net_device) \<Rightarrow> u32 list \<Rightarrow> fault + u32" where
  "first_up m [] = Inr 0"
| "first_up m (p # ps) =
     (case m p of None \<Rightarrow> Inl (Wild_Access p)
      | Some d \<Rightarrow> if up d then Inr p else first_up m ps)"

definition the_dev :: "u32 \<Rightarrow> net \<Rightarrow> net_device run" where
  "the_dev p s = (case dev_objs s p of None \<Rightarrow> Some (Inl (Wild_Access p)) | Some d \<Rightarrow> Some (Inr d))"

section \<open>The ARP cache\<close>

definition arp_cache_add :: "u32 \<Rightarrow> mac \<Rightarrow> net \<Rightarrow> net" where
  "arp_cache_add ip m s =
     (case find (\<lambda>i. arp_ip (arp_cache s ! i) = ip) [0..<arp_cache_size s] of
        Some i \<Rightarrow> s\<lparr>arp_cache := (arp_cache s)[i := (arp_cache s ! i)\<lparr>arp_mac := m, arp_timestamp := ticks s\<rparr>]\<rparr>
      | None \<Rightarrow>
          if arp_cache_size s < 64
          then s\<lparr>arp_cache := (arp_cache s)[arp_cache_size s := \<lparr>arp_ip = ip, arp_mac = m, arp_timestamp = ticks s\<rparr>],
                 arp_cache_size := arp_cache_size s + 1\<rparr>
          else s)"

definition arp_lookup :: "net \<Rightarrow> u32 \<Rightarrow> mac option" where
  "arp_lookup s ip =
     map_option (\<lambda>i. arp_mac (arp_cache s ! i))
       (find (\<lambda>i. arp_ip (arp_cache s ! i) = ip) [0..<arp_cache_size s])"

section \<open>Packed headers\<close>

text \<open>The bytes of the packed structures of \<^verbatim>\<open>include/net.h\<close>, field by field.\<close>

definition eth_hdr :: "mac \<Rightarrow> mac \<Rightarrow> u16 \<Rightarrow> u8 list" where
  "eth_hdr dest src type = dest @ src @ le16 type"

definition ip_hdr :: "u8 \<Rightarrow> u8 \<Rightarrow> u16 \<Rightarrow> u16 \<Rightarrow> u16 \<Rightarrow> u8 \<Rightarrow> u8 \<Rightarrow> u16 \<Rightarrow> u32 \<Rightarrow> u32 \<Rightarrow> u8 list" where
  "ip_hdr version_ihl tos tot_len ident frag_off ttl proto check saddr daddr =
     [version_ihl, tos] @ le16 tot_len @ le16 ident @ le16 frag_off @ [ttl, proto] @ le16 check @ le32 saddr @ le32 daddr"

definition tcp_hdr :: "u16 \<Rightarrow> u16 \<Rightarrow> u32 \<Rightarrow> u32 \<Rightarrow> u8 \<Rightarrow> u8 \<Rightarrow> u16 \<Rightarrow> u16 \<Rightarrow> u16 \<Rightarrow> u8 list" where
  "tcp_hdr source dest sequence ack_seq data_off flags window check urg_ptr =
     le16 source @ le16 dest @ le32 sequence @ le32 ack_seq @ [data_off, flags] @ le16 window @ le16 check @ le16 urg_ptr"

definition icmp_hdr :: "u8 \<Rightarrow> u8 \<Rightarrow> u16 \<Rightarrow> u32 \<Rightarrow> u8 list" where
  "icmp_hdr type code check unused = [type, code] @ le16 check @ le32 unused"

definition arp_hdr :: "u16 \<Rightarrow> u16 \<Rightarrow> u8 \<Rightarrow> u8 \<Rightarrow> u16 \<Rightarrow> mac \<Rightarrow> u32 \<Rightarrow> mac \<Rightarrow> u32 \<Rightarrow> u8 list" where
  "arp_hdr htype ptype hlen plen oper sha spa tha tpa =
     le16 htype @ le16 ptype @ [hlen, plen] @ le16 oper @ sha @ le32 spa @ tha @ le32 tpa"

lemmas hdr_defs = eth_hdr_def ip_hdr_def tcp_hdr_def icmp_hdr_def arp_hdr_def

section \<open>Sending\<close>

text \<open>A buffer from \<^verbatim>\<open>kmalloc\<close> for the duration of \<open>body\<close>; without memory the result is -1.\<close>

definition with_buffer :: "u32 \<Rightarrow> (net \<Rightarrow> (int \<times> net) run) \<Rightarrow> net \<Rightarrow> (int \<times> net) run" where
  "with_buffer sz body s =
     bind_run (kmalloc sz (net_heap s)) (\<lambda>(p, h).
       if p = 0 then Some (Inr (-1, s\<lparr>net_heap := h\<rparr>))
       else bind_run (body (s\<lparr>net_heap := h\<rparr>)) (\<lambda>(ret, s2).
            bind_run (Some (kfree p (net_heap s2))) (\<lambda>h2. Some (Inr (ret, s2\<lparr>net_heap := h2\<rparr>)))))"

definition eth_frame :: "mac \<Rightarrow> mac \<Rightarrow> u16 \<Rightarrow> u8 list \<Rightarrow> u8 list" where
  "eth_frame dest src type data = eth_hdr dest src (htons type) @ data"

definition eth_transmit :: "(u32 \<Rightarrow> u8 list \<Rightarrow> int) \<Rightarrow> u32 \<Rightarrow> mac \<Rightarrow> u16 \<Rightarrow> u8 list \<Rightarrow> net \<Rightarrow> (int \<times> net) run" where
  "eth_transmit drv dev dest type data s =
     (if dev = 0 then Some (Inr (-1, s))
      else bind_run (the_dev dev s) (\<lambda>d.
           if \<not> can_transmit d \<or> \<not> up d then Some (Inr (-1, s))
           else with_buffer (14 + of_nat (length data)) (\<lambda>s1.
                  let frame = eth_frame dest (mac d) type data
                  in Some (Inr (drv dev frame, s1\<lparr>wire := wire s1 @ [(dev, frame)]\<rparr>))) s))"

definition arp_packet :: "u16 \<Rightarrow> mac \<Rightarrow> u32 \<Rightarrow> mac \<Rightarrow> u32 \<Rightarrow> u8 list" where
  "arp_packet oper sha spa tha tpa =
     arp_hdr (htons 1) (htons ETH_P_IP) 6 4 (htons oper) sha (htonl spa) tha (htonl tpa)"

text \<open>\<^verbatim>\<open>arp_request\<close> and \<^verbatim>\<open>arp_reply\<close> differ in the operation and in the target hardware address.\<close>

definition arp_send :: "(u32 \<Rightarrow> u8 list \<Rightarrow> int) \<Rightarrow> u16 \<Rightarrow> mac \<Rightarrow> mac \<Rightarrow> u32 \<Rightarrow> net \<Rightarrow> (int \<times> net) run" where
  "arp_send drv oper dest tha target_ip s =
     bind_run (Some (first_up (dev_objs s) (registered (devices s)))) (\<lambda>dev.
       if dev = 0 then Some (Inr (-1, s))
       else bind_run (the_dev dev s) (\<lambda>d.
            with_buffer 28
              (eth_transmit drv dev dest ETH_P_ARP (arp_packet oper (mac d) (ip_addr d) tha target_ip)) s))"

definition arp_request :: "(u32 \<Rightarrow> u8 list \<Rightarrow> int) \<Rightarrow> u32 \<Rightarrow> net \<Rightarrow> (int \<times> net) run" where
  "arp_request drv target_ip = arp_send drv ARP_REQUEST broadcast_mac (replicate 6 0) target_ip"

definition arp_reply :: "(u32 \<Rightarrow> u8 list \<Rightarrow> int) \<Rightarrow> u32 \<Rightarrow> mac \<Rightarrow> net \<Rightarrow> (int \<times> net) run" where
  "arp_reply drv target_ip target_mac = arp_send drv ARP_REPLY target_mac target_mac target_ip"

definition ip_header :: "u16 \<Rightarrow> u8 \<Rightarrow> u16 \<Rightarrow> u32 \<Rightarrow> u32 \<Rightarrow> u8 list" where
  "ip_header tot proto check src dest =
     ip_hdr 0x45 0 (htons tot) (htons 1) 0 64 proto check (htonl src) (htonl dest)"

definition ip_packet :: "u32 \<Rightarrow> u32 \<Rightarrow> u8 \<Rightarrow> u8 list \<Rightarrow> u8 list" where
  "ip_packet src dest proto data =
     (let tot = of_nat (20 + length data)
      in ip_header tot proto (net_checksum (ip_header tot proto 0 src dest)) src dest @ data)"

definition ip_transmit :: "(u32 \<Rightarrow> u8 list \<Rightarrow> int) \<Rightarrow> u32 \<Rightarrow> u32 \<Rightarrow> u8 \<Rightarrow> u8 list \<Rightarrow> net \<Rightarrow> (int \<times> net) run" where
  "ip_transmit drv src dest proto data s =
     bind_run (Some (first_up (dev_objs s) (registered (devices s)))) (\<lambda>dev.
       if dev = 0 then Some (Inr (-1, s))
       else case arp_lookup s dest of
              None \<Rightarrow> bind_run (arp_request drv dest s) (\<lambda>(_, s1). Some (Inr (-1, s1)))
            | Some dest_mac \<Rightarrow>
                with_buffer (20 + of_nat (length data))
                  (eth_transmit drv dev dest_mac ETH_P_IP (ip_packet src dest proto data)) s)"

definition icmp_packet :: "u8 \<Rightarrow> u16 \<Rightarrow> u8 list \<Rightarrow> u8 list" where
  "icmp_packet type check data = icmp_hdr type 0 check 0 @ data"

definition icmp_ping :: "(u32 \<Rightarrow> u8 list \<Rightarrow> int) \<Rightarrow> u32 \<Rightarrow> net \<Rightarrow> (int \<times> net) run" where
  "icmp_ping drv target_ip s =
     with_buffer 12 (\<lambda>s1.
       let stamp = le32 (ticks s1);
           pkt = icmp_packet 8 (net_checksum (icmp_packet 8 0 stamp)) stamp
       in bind_run (Some (net_get_device ''eth0'' s1)) (\<lambda>dev.
          bind_run (the_dev dev s1) (\<lambda>d.
            ip_transmit drv (ip_addr d) target_ip IPPROTO_ICMP pkt s1))) s"

section \<open>Receiving\<close>

text \<open>
  The handlers below IP get the whole IP packet, since they read the sender's address from the
  header in front of their own data.
\<close>

definition ip_source :: "u8 list \<Rightarrow> u32" where
  "ip_source pkt = ntohl (get32 pkt 12)"

definition icmp_receive :: "(u32 \<Rightarrow> u8 list \<Rightarrow> int) \<Rightarrow> u32 \<Rightarrow> u8 list \<Rightarrow> net \<Rightarrow> net run" where
  "icmp_receive drv dev pkt s =
     (let data = drop 20 pkt
      in if length data < 8 then Some (Inr s)
         else if data ! 0 = 8 then
           bind_run (with_buffer (of_nat (length data)) (\<lambda>s1.
             let blank = data[0 := 0, 2 := 0, 3 := 0];
                 reply = take 2 blank @ le16 (net_checksum blank) @ drop 4 blank
             in bind_run (the_dev dev s1) (\<lambda>d.
                  ip_transmit drv (ip_addr d) (ip_source pkt) IPPROTO_ICMP reply s1)) s)
             (\<lambda>(_, s2). Some (Inr s2))
         else if data ! 0 = 0 then
           if length data < 12 then Some (Inl Out_Of_Bounds) else Some (Inr s)
         else Some (Inr s))"

definition tcp_synack :: "u16 \<Rightarrow> u16 \<Rightarrow> u32 \<Rightarrow> u8 list" where
  "tcp_synack lport rport seq =
     tcp_hdr (htons lport) (htons rport) 0 (htonl (seq + 1)) 0x50 (TCP_FLAG_SYN OR TCP_FLAG_ACK) (htons 65535) 0 0"

definition find_socket :: "net \<Rightarrow> u16 \<Rightarrow> int \<Rightarrow> nat option" where
  "find_socket s port proto =
     find (\<lambda>i. local_port (sockets s ! i) = port \<and> protocol (sockets s ! i) = proto) [0..<num_sockets s]"

definition set_sock_state :: "nat \<Rightarrow> u32 \<Rightarrow> net \<Rightarrow> net" where
  "set_sock_state i v s = s\<lparr>sockets := (sockets s)[i := (sockets s ! i)\<lparr>sock_state := v\<rparr>]\<rparr>"

definition tcp_receive_packet :: "(u32 \<Rightarrow> u8 list \<Rightarrow> int) \<Rightarrow> u32 \<Rightarrow> u8 list \<Rightarrow> net \<Rightarrow> net run" where
  "tcp_receive_packet drv dev pkt s =
     (let data = drop 20 pkt
      in if length data < 20 then Some (Inr s)
         else let src_port = ntohs (get16 data 0); dest_port = ntohs (get16 data 2); flags = data ! 13
              in case find_socket s dest_port 6 of
                   None \<Rightarrow> Some (Inr s)
                 | Some i \<Rightarrow>
                     if flags AND TCP_FLAG_SYN \<noteq> 0 then
                       bind_run (the_dev dev s) (\<lambda>d.
                       bind_run (ip_transmit drv (ip_addr d) (ip_source pkt) IPPROTO_TCP
                           (tcp_synack (local_port (sockets s ! i)) src_port (ntohl (get32 data 4))) s)
                         (\<lambda>(_, s1). Some (Inr (set_sock_state i 1 s1))))
                     else if flags AND TCP_FLAG_ACK \<noteq> 0 then Some (Inr (set_sock_state i 2 s))
                     else Some (Inr s))"

text \<open>\<^verbatim>\<open>udp_receive_packet\<close> looks for the socket but stores nothing.\<close>

definition udp_receive_packet :: "u8 list \<Rightarrow> net \<Rightarrow> net run" where
  "udp_receive_packet pkt s =
     (let data = drop 20 pkt
      in if length data < 8 then Some (Inr s)
         else case find_socket s (ntohs (get16 data 2)) 17 of None \<Rightarrow> Some (Inr s) | Some i \<Rightarrow> Some (Inr s))"

text \<open>The \<^verbatim>\<open>switch\<close> of \<^verbatim>\<open>ip_receive\<close>.\<close>

definition ip_demux :: "(u32 \<Rightarrow> u8 list \<Rightarrow> int) \<Rightarrow> u32 \<Rightarrow> u8 \<Rightarrow> u8 list \<Rightarrow> net \<Rightarrow> net run" where
  "ip_demux drv dev proto pkt s =
     (if proto = IPPROTO_ICMP then icmp_receive drv dev pkt s
      else if proto = IPPROTO_TCP then tcp_receive_packet drv dev pkt s
      else if proto = IPPROTO_UDP then udp_receive_packet pkt s
      else Some (Inr s))"

definition ip_receive :: "(u32 \<Rightarrow> u8 list \<Rightarrow> int) \<Rightarrow> u32 \<Rightarrow> u8 list \<Rightarrow> net \<Rightarrow> net run" where
  "ip_receive drv dev pkt s =
     (if length pkt < 20 then Some (Inr s)
      else if net_checksum (take 20 pkt) \<noteq> 0 then Some (Inr s)
      else bind_run (the_dev dev s) (\<lambda>d.
           let dest_ip = ntohl (get32 pkt 16); proto = pkt ! 9
           in if dest_ip \<noteq> ip_addr d \<and> dest_ip \<noteq> 0xFFFFFFFF then Some (Inr s)
              else ip_demux drv dev proto pkt s))"

definition arp_receive :: "(u32 \<Rightarrow> u8 list \<Rightarrow> int) \<Rightarrow> u32 \<Rightarrow> u8 list \<Rightarrow> net \<Rightarrow> net run" where
  "arp_receive drv dev data s =
     (if length data < 28 then Some (Inr s)
      else let oper = ntohs (get16 data 6)
           in if ntohs (get16 data 0) \<noteq> 1 \<or> ntohs (get16 data 2) \<noteq> ETH_P_IP then Some (Inr s)
              else let sha = take 6 (drop 8 data); spa = ntohl (get32 data 14); tpa = ntohl (get32 data 24);
                       s1 = arp_cache_add spa sha s
                   in if oper \<noteq> ARP_REQUEST then Some (Inr s1)
                      else bind_run (the_dev dev s1) (\<lambda>d.
                           if tpa = ip_addr d
                           then bind_run (arp_reply drv spa sha s1) (\<lambda>(_, s2). Some (Inr s2))
                           else Some (Inr s1)))"

definition eth_receive :: "(u32 \<Rightarrow> u8 list \<Rightarrow> int) \<Rightarrow> u32 \<Rightarrow> u8 list \<Rightarrow> net \<Rightarrow> net run" where
  "eth_receive drv dev data s =
     (if length data < 14 then Some (Inr s)
      else bind_run (the_dev dev s) (\<lambda>d.
           let type = ntohs (get16 data 12); dest = take 6 data; payload = drop 14 data
           in if dest \<noteq> mac d \<and> dest \<noteq> broadcast_mac then Some (Inr s)
              else if type = ETH_P_IP then ip_receive drv dev payload s
              else if type = ETH_P_ARP then arp_receive drv dev payload s
              else Some (Inr s)))"

section \<open>The device tables are registries\<close>

interpretation net_devs: device_registry "tab_ok 16" registered 16 net_register_device net_unregister_device
  unfolding net_register_device_def net_unregister_device_def by (rule tab_registry)

interpretation wifi_devs: device_registry "tab_ok 8" registered 8 wifi_register_device wifi_unregister_device
  unfolding wifi_register_device_def wifi_unregister_device_def by (rule tab_registry)

section \<open>The ARP cache is a bounded map\<close>

definition arp_keys :: "net \<Rightarrow> u32 list" where
  "arp_keys s = map arp_ip (take (arp_cache_size s) (arp_cache s))"

definition arp_ok :: "net \<Rightarrow> bool" where
  "arp_ok s \<longleftrightarrow> length (arp_cache s) = 64 \<and> arp_cache_size s \<le> 64 \<and> distinct (arp_keys s)"

lemma arp_keys_nth: "arp_ok s \<Longrightarrow> i < arp_cache_size s \<Longrightarrow> arp_keys s ! i = arp_ip (arp_cache s ! i)"
  by (simp add: arp_keys_def arp_ok_def)

lemma arp_keys_length: "arp_ok s \<Longrightarrow> length (arp_keys s) = arp_cache_size s"
  by (simp add: arp_keys_def arp_ok_def)

lemma arp_lookup_iff:
  assumes "arp_ok s"
  shows "arp_lookup s ip = Some m \<longleftrightarrow>
    (\<exists>i<arp_cache_size s. arp_ip (arp_cache s ! i) = ip \<and> arp_mac (arp_cache s ! i) = m)"
proof
  assume "arp_lookup s ip = Some m"
  then show "\<exists>i<arp_cache_size s. arp_ip (arp_cache s ! i) = ip \<and> arp_mac (arp_cache s ! i) = m"
    by (auto simp: arp_lookup_def find_upt_Some)
next
  assume "\<exists>i<arp_cache_size s. arp_ip (arp_cache s ! i) = ip \<and> arp_mac (arp_cache s ! i) = m"
  then obtain i where i: "i < arp_cache_size s" "arp_ip (arp_cache s ! i) = ip" "arp_mac (arp_cache s ! i) = m" by blast
  have "arp_ip (arp_cache s ! j) \<noteq> ip" if "j < i" for j
  proof
    assume "arp_ip (arp_cache s ! j) = ip"
    then have "arp_keys s ! j = arp_keys s ! i" using that i arp_keys_nth [OF assms] by simp
    moreover have "distinct (arp_keys s)" using assms by (simp add: arp_ok_def)
    ultimately show False using that i(1) arp_keys_length [OF assms] by (simp add: nth_eq_iff_index_eq)
  qed
  then have "find (\<lambda>i. arp_ip (arp_cache s ! i) = ip) [0..<arp_cache_size s] = Some i"
    using i by (simp add: find_upt_Some)
  then show "arp_lookup s ip = Some m" using i by (simp add: arp_lookup_def)
qed

lemma arp_lookup_dom: "arp_ok s \<Longrightarrow> dom (arp_lookup s) = set (arp_keys s)"
  using arp_lookup_iff [of s] arp_keys_nth [of s] arp_keys_length [of s]
  by (fastforce simp: dom_def in_set_conv_nth)

lemma arp_dom_card: "arp_ok s \<Longrightarrow> card (dom (arp_lookup s)) = arp_cache_size s"
  using arp_keys_length [of s] by (simp add: arp_lookup_dom distinct_card arp_ok_def)

lemma arp_add_known:
  assumes ok: "arp_ok s" and i: "i < arp_cache_size s" "arp_ip (arp_cache s ! i) = ip"
  shows "arp_ok (arp_cache_add ip m s) \<and> arp_lookup (arp_cache_add ip m s) = (arp_lookup s)(ip \<mapsto> m)"
proof -
  obtain j where j: "find (\<lambda>i. arp_ip (arp_cache s ! i) = ip) [0..<arp_cache_size s] = Some j"
    "j < arp_cache_size s" "arp_ip (arp_cache s ! j) = ip"
    using i by (cases "find (\<lambda>i. arp_ip (arp_cache s ! i) = ip) [0..<arp_cache_size s]")
      (auto simp: find_upt_None find_upt_Some)
  let ?s = "s\<lparr>arp_cache := (arp_cache s)[j := (arp_cache s ! j)\<lparr>arp_mac := m, arp_timestamp := ticks s\<rparr>]\<rparr>"
  have add: "arp_cache_add ip m s = ?s" using j by (simp add: arp_cache_add_def)
  have len: "j < length (arp_cache s)" using j(2) ok by (simp add: arp_ok_def)
  have "arp_keys ?s = arp_keys s"
    using len by (intro nth_equalityI) (auto simp: arp_keys_def nth_list_update)
  then have ok': "arp_ok ?s" using ok by (simp add: arp_ok_def)
  have "arp_lookup ?s k = ((arp_lookup s)(ip \<mapsto> m)) k" for k
  proof (cases "k = ip")
    case True
    have "arp_lookup ?s ip = Some m" unfolding arp_lookup_iff [OF ok'] using j len by (intro exI [of _ j]) simp
    then show ?thesis using True by simp
  next
    case False
    have "arp_lookup ?s k = Some v \<longleftrightarrow> arp_lookup s k = Some v" for v
      unfolding arp_lookup_iff [OF ok'] arp_lookup_iff [OF ok] using False j len by (auto simp: nth_list_update)
    then show ?thesis using False by (metis fun_upd_other option.exhaust)
  qed
  then show ?thesis using ok' add by auto
qed

lemma arp_add_new:
  assumes ok: "arp_ok s" and new: "ip \<notin> dom (arp_lookup s)" and room: "arp_cache_size s < 64"
  shows "arp_ok (arp_cache_add ip m s) \<and> arp_lookup (arp_cache_add ip m s) = (arp_lookup s)(ip \<mapsto> m)"
proof -
  let ?n = "arp_cache_size s"
  let ?s = "s\<lparr>arp_cache := (arp_cache s)[?n := \<lparr>arp_ip = ip, arp_mac = m, arp_timestamp = ticks s\<rparr>], arp_cache_size := ?n + 1\<rparr>"
  have len: "?n < length (arp_cache s)" using ok room by (simp add: arp_ok_def)
  have none: "\<forall>i<?n. arp_ip (arp_cache s ! i) \<noteq> ip"
    using new arp_lookup_dom [OF ok] arp_keys_nth [OF ok] arp_keys_length [OF ok] by (auto simp: in_set_conv_nth)
  then have add: "arp_cache_add ip m s = ?s"
    using room by (simp add: arp_cache_add_def find_upt_None [THEN iffD2])
  have "arp_keys ?s = arp_keys s @ [ip]" using len by (simp add: arp_keys_def take_Suc_conv_app_nth)
  then have ok': "arp_ok ?s" using ok room new by (simp add: arp_ok_def arp_lookup_dom [OF ok])
  have "arp_lookup ?s k = ((arp_lookup s)(ip \<mapsto> m)) k" for k
  proof (cases "k = ip")
    case True
    have "arp_lookup ?s ip = Some m" unfolding arp_lookup_iff [OF ok'] using len by (intro exI [of _ ?n]) simp
    then show ?thesis using True by simp
  next
    case False
    have "arp_lookup ?s k = Some v \<longleftrightarrow> arp_lookup s k = Some v" for v
      unfolding arp_lookup_iff [OF ok'] arp_lookup_iff [OF ok] using False len by (fastforce simp: nth_list_update less_Suc_eq)
    then show ?thesis using False by (metis fun_upd_other option.exhaust)
  qed
  then show ?thesis using ok' add by auto
qed

lemma arp_add_full:
  "arp_ok s \<Longrightarrow> ip \<notin> dom (arp_lookup s) \<Longrightarrow> \<not> arp_cache_size s < 64 \<Longrightarrow> arp_cache_add ip m s = s"
proof -
  assume "ip \<notin> dom (arp_lookup s)" and full: "\<not> arp_cache_size s < 64"
  then have "find (\<lambda>i. arp_ip (arp_cache s ! i) = ip) [0..<arp_cache_size s] = None"
    by (auto simp: arp_lookup_def dom_def)
  then show ?thesis using full by (simp add: arp_cache_add_def)
qed

lemma arp_add_dom:
  assumes "arp_ok s" and "ip \<in> dom (arp_lookup s)"
  shows "arp_ok (arp_cache_add ip m s) \<and> arp_lookup (arp_cache_add ip m s) = (arp_lookup s)(ip \<mapsto> m)"
proof -
  obtain v where "arp_lookup s ip = Some v" using assms(2) by blast
  then show ?thesis using arp_add_known [OF assms(1)] arp_lookup_iff [OF assms(1)] by blast
qed

lemma arp_add_ok: "arp_ok s \<Longrightarrow> arp_ok (arp_cache_add ip m s)"
  by (cases "ip \<in> dom (arp_lookup s)"; cases "arp_cache_size s < 64")
     (simp_all add: arp_add_dom arp_add_new arp_add_full)

interpretation arp: bounded_map arp_ok arp_lookup 64 arp_cache_add
proof (unfold_locales, goal_cases)
  case (1 s) then show ?case by (simp add: arp_lookup_dom)
next
  case (2 s) then show ?case by (simp add: arp_dom_card) (simp add: arp_ok_def)
next
  case (3 s k v) then show ?case by (rule arp_add_ok)
next
  case (4 s k v)
  then show ?case using arp_add_dom [OF 4(1)] arp_add_new [OF 4(1)] arp_dom_card [OF 4(1)]
    by (cases "k \<in> dom (arp_lookup s)") auto
next
  case (5 s k v) then show ?case by (simp add: arp_add_full arp_dom_card)
qed

section \<open>Sending leaves the heap as it was\<close>

text \<open>
  Operation \<open>r\<close>, started in \<open>s\<close> on a heap with blocks \<open>bs\<close>, returns; it changes nothing but the heap,
  which has the same blocks with the same headers afterwards, and the frames it hands to drivers,
  and its result and those frames are one of the pairs in \<open>X\<close>.
\<close>

definition sends :: "blk list \<Rightarrow> net \<Rightarrow> (int \<times> net) run \<Rightarrow> (int \<times> (u32 \<times> u8 list) list) set \<Rightarrow> bool" where
  "sends bs s r X \<longleftrightarrow> (\<exists>(ret, fs)\<in>X. \<exists>h. r = Some (Inr (ret, s\<lparr>net_heap := h, wire := wire s @ fs\<rparr>)) \<and>
     same_heap bs (net_heap s) h)"

text \<open>What failing for lack of memory adds to the results, with \<open>k\<close> bytes needed.\<close>

definition unless_room :: "blk list \<Rightarrow> nat \<Rightarrow> (int \<times> (u32 \<times> u8 list) list) set" where
  "unless_room bs k = (if room bs k then {} else {(-1, [])})"

abbreviation buf :: "u32 \<Rightarrow> nat" where "buf n \<equiv> unat (round_size n)"

lemma sends_mono: "sends bs s r X \<Longrightarrow> X \<subseteq> Y \<Longrightarrow> sends bs s r Y"
  unfolding sends_def by blast

lemma sends_id: "heap_inv (net_heap s) bs \<Longrightarrow> (ret, []) \<in> X \<Longrightarrow> sends bs s (Some (Inr (ret, s))) X"
  unfolding sends_def by (intro bexI [of _ "(ret, [])"]) (auto intro!: exI [of _ "net_heap s"] same_heap_refl simp: heap_inv_def)

lemma with_buffer_sends:
  assumes inv: "heap_inv (net_heap s) bs" and "n \<noteq> 0"
    and body: "\<And>h bs1. heap_inv h bs1 \<Longrightarrow> (\<And>k. room bs (k + buf n + 24) \<Longrightarrow> 16 < k \<Longrightarrow> room bs1 k) \<Longrightarrow>
      sends bs1 (s\<lparr>net_heap := h\<rparr>) (body (s\<lparr>net_heap := h\<rparr>)) X"
  shows "sends bs s (with_buffer n body s) (X \<union> unless_room bs (buf n))"
proof -
  obtain p :: u32 and h1 bs1 where run: "kmalloc n (net_heap s) = Some (Inr (p, h1))" and inv1: "heap_inv h1 bs1"
    and st: "kernel_heap_start h1 = kernel_heap_start (net_heap s)" "kernel_heap_end h1 = kernel_heap_end (net_heap s)"
    and z: "p = 0 \<Longrightarrow> hmem h1 = hmem (net_heap s) \<and> bs1 = bs"
    using kmalloc_heap_inv [OF inv, of n] by metis
  show ?thesis
  proof (cases "p = 0")
    case True
    then have "\<not> room bs (buf n)" using kmalloc_room [OF inv _ assms(2) run] by blast
    moreover have "same_heap bs (net_heap s) h1" using z [OF True] inv1 st by (simp add: same_heap_def heap_inv_def)
    ultimately show ?thesis using run True by (auto simp: sends_def with_buffer_def unless_room_def)
  next
    case False
    from inv run False obtain bs1 where inv1: "heap_inv h1 bs1"
      and room1: "\<And>k. room bs (k + buf n + 24) \<Longrightarrow> 16 < k \<Longrightarrow> room bs1 k"
      and freed: "\<And>h1'. same_heap bs1 h1 h1' \<Longrightarrow> \<exists>h2. kfree p h1' = Inr h2 \<and> same_heap bs (net_heap s) h2"
      by (rule buffer_neutral) (rule that)
    from body [OF inv1 room1] obtain ret :: int and fs h where x: "(ret, fs) \<in> X"
      and r: "body (s\<lparr>net_heap := h1\<rparr>) = Some (Inr (ret, s\<lparr>net_heap := h, wire := wire s @ fs\<rparr>))" "same_heap bs1 h1 h"
      by (auto simp: sends_def)
    from freed [OF r(2)] obtain h2 where "kfree p h = Inr h2" "same_heap bs (net_heap s) h2" by blast
    with r run False have "with_buffer n body s = Some (Inr (ret, s\<lparr>net_heap := h2, wire := wire s @ fs\<rparr>)) \<and>
      same_heap bs (net_heap s) h2" by (simp add: with_buffer_def)
    with x show ?thesis unfolding sends_def by (intro bexI [of _ "(ret, fs)"]) auto
  qed
qed

lemma round_size_nonzero: "0 < buf n"
  using round_size_props [of n] by simp

lemma eth_transmit_sends:
  assumes inv: "heap_inv (net_heap s) bs" and dev: "dev_objs s dev = Some d" "dev \<noteq> 0"
    and len: "length data < 2 ^ 32 - 14" and frame_def: "frame = eth_frame dest (mac d) type data"
  shows "sends bs s (eth_transmit drv dev dest type data s)
    (if can_transmit d \<and> up d
     then {(drv dev frame, [(dev, frame)])} \<union> unless_room bs (buf (14 + of_nat (length data)))
     else {(-1, [])})"
proof (cases "can_transmit d \<and> up d")
  case True
  have "unat (14 + of_nat (length data) :: u32) = 14 + length data"
    using len by (simp add: unat_word_ariths unat_of_nat take_bit_nat_eq_self)
  then have nz: "14 + of_nat (length data) \<noteq> (0 :: u32)" by (metis add_is_0 unat_0 zero_neq_numeral)
  have "sends bs1 (s\<lparr>net_heap := h\<rparr>) (Some (Inr (drv dev frame, s\<lparr>net_heap := h, wire := wire s @ [(dev, frame)]\<rparr>)))
      {(drv dev frame, [(dev, frame)])}" if "heap_inv h bs1" for h bs1
    using that by (auto simp: sends_def heap_inv_def intro!: exI [of _ h] same_heap_refl)
  then show ?thesis using True dev with_buffer_sends [OF inv nz, where X = "{(drv dev frame, [(dev, frame)])}"]
    by (simp add: eth_transmit_def the_dev_def Let_def frame_def)
next
  case False
  then show ?thesis using dev sends_id [OF inv] by (auto simp: eth_transmit_def the_dev_def)
qed

section \<open>The transmit functions\<close>

text \<open>
  Well-formed device tables: every registered pointer designates a device. The device object at
  \<^verbatim>\<open>NULL\<close> does not exist.
\<close>

definition devices_ok :: "net \<Rightarrow> bool" where
  "devices_ok s \<longleftrightarrow> dev_objs s 0 = None \<and> (\<forall>p\<in>set (registered (devices s)). dev_objs s p \<noteq> None)"

text \<open>The device the transmit functions use, with its object.\<close>

definition out_dev :: "net \<Rightarrow> (u32 \<times> net_device) option" where
  "out_dev s = map_option (\<lambda>p. (p, the (dev_objs s p)))
     (find (\<lambda>p. up (the (dev_objs s p))) (registered (devices s)))"

lemma first_up_find:
  "\<forall>p\<in>set ps. m p \<noteq> None \<Longrightarrow>
   first_up m ps = Inr (case find (\<lambda>p. up (the (m p))) ps of None \<Rightarrow> 0 | Some p \<Rightarrow> p)"
  by (induction ps) auto

lemma first_up_out_dev:
  assumes "devices_ok s"
  shows "first_up (dev_objs s) (registered (devices s)) = Inr (case out_dev s of None \<Rightarrow> 0 | Some (p, d) \<Rightarrow> p)"
  using assms by (simp add: first_up_find devices_ok_def out_dev_def split: option.split)

lemma out_dev_Some:
  assumes "devices_ok s" and "out_dev s = Some (p, d)"
  shows "dev_objs s p = Some d" and "p \<noteq> 0" and "up d"
proof -
  have p: "p \<in> set (registered (devices s))" "up (the (dev_objs s p))" "d = the (dev_objs s p)"
    using assms(2) by (auto simp: out_dev_def find_Some_iff in_set_conv_nth)
  then have "dev_objs s p \<noteq> None" "dev_objs s 0 = None" using assms(1) by (auto simp: devices_ok_def)
  with p show "dev_objs s p = Some d" "p \<noteq> 0" "up d" by auto
qed

lemma devices_ok_upd [simp]:
  "devices_ok (s\<lparr>net_heap := h\<rparr>) = devices_ok s" "devices_ok (s\<lparr>wire := w\<rparr>) = devices_ok s"
  by (simp_all add: devices_ok_def)

lemma out_dev_upd [simp]:
  "out_dev (s\<lparr>net_heap := h\<rparr>) = out_dev s" "out_dev (s\<lparr>wire := w\<rparr>) = out_dev s"
  by (simp_all add: out_dev_def)

lemma arp_lookup_upd [simp]:
  "arp_lookup (s\<lparr>net_heap := h\<rparr>) = arp_lookup s" "arp_lookup (s\<lparr>wire := w\<rparr>) = arp_lookup s"
  by (auto simp: arp_lookup_def fun_eq_iff)

text \<open>What is sent in a frame of type \<open>type\<close> with \<open>data\<close> from an own buffer, through a device that may
  lack a transmit function.\<close>

definition framed :: "(u32 \<Rightarrow> u8 list \<Rightarrow> int) \<Rightarrow> u32 \<Rightarrow> net_device \<Rightarrow> u8 list \<Rightarrow> (int \<times> (u32 \<times> u8 list) list) set" where
  "framed drv p d frame = (if can_transmit d then {(drv p frame, [(p, frame)])} else {(-1, [])})"

text \<open>Both buffers of a packet of \<open>n\<close> bytes that is then put into a frame.\<close>

definition pkt_need :: "nat \<Rightarrow> nat" where
  "pkt_need n = buf (of_nat n) + 24 + buf (of_nat (14 + n))"

lemma buf_ge:
  assumes "n < 2 ^ 32 - 4"
  shows "n \<le> buf (of_nat n)"
proof -
  have "unat (of_nat n :: u32) = n" using assms by (simp add: unat_of_nat take_bit_nat_eq_self)
  then show ?thesis using round_size_ge [of "of_nat n"] assms by (simp add: word_le_nat_alt)
qed

lemma of_nat_u32_nonzero: "0 < n \<Longrightarrow> n < 2 ^ 32 \<Longrightarrow> (of_nat n :: u32) \<noteq> 0"
  using of_nat_u32_eq [of n 0] by simp

lemma buffered_frame_sends:
  assumes inv: "heap_inv (net_heap s) bs" and dev: "dev_objs s p = Some d" "p \<noteq> 0" "up d"
    and len: "length data = n" "2 < n" "n < 2 ^ 32 - 18"
  shows "sends bs s (with_buffer (of_nat n) (eth_transmit drv p dest type data) s)
    (framed drv p d (eth_frame dest (mac d) type data) \<union> unless_room bs (pkt_need n))"
proof -
  let ?f = "eth_frame dest (mac d) type data"
  have nz: "(of_nat n :: u32) \<noteq> 0" using len by (intro of_nat_u32_nonzero) auto
  have eq: "buf (of_nat (14 + n)) = buf (14 + of_nat n)" by (simp add: of_nat_add)
  have k: "16 < buf (14 + of_nat n)" using buf_ge [of "14 + n"] len unfolding eq by linarith
  have "sends bs1 (s\<lparr>net_heap := h\<rparr>) (eth_transmit drv p dest type data (s\<lparr>net_heap := h\<rparr>))
    (framed drv p d ?f \<union> unless_room bs (pkt_need n))"
    if h: "heap_inv h bs1" and r: "\<And>k. room bs (k + buf (of_nat n) + 24) \<Longrightarrow> 16 < k \<Longrightarrow> room bs1 k" for h bs1
  proof -
    have "room bs (pkt_need n) \<Longrightarrow> room bs1 (buf (14 + of_nat n))"
      using r [OF _ k] by (simp add: pkt_need_def of_nat_add add_ac)
    then show ?thesis
      using eth_transmit_sends [of "s\<lparr>net_heap := h\<rparr>" bs1 p d data ?f dest type drv] h dev len
      by (auto simp: framed_def unless_room_def elim!: sends_mono split: if_splits)
  qed
  from with_buffer_sends [OF inv nz this] have
    "sends bs s (with_buffer (of_nat n) (eth_transmit drv p dest type data) s)
      (framed drv p d ?f \<union> unless_room bs (pkt_need n) \<union> unless_room bs (buf (of_nat n)))" by blast
  moreover have "unless_room bs (buf (of_nat n)) \<subseteq> unless_room bs (pkt_need n)"
    using room_mono [of bs "pkt_need n" "buf (of_nat n)"] by (auto simp: unless_room_def pkt_need_def)
  ultimately show ?thesis by (auto elim!: sends_mono)
qed

lemma packet_lengths [simp]:
  "length sha = 6 \<Longrightarrow> length tha = 6 \<Longrightarrow> length (arp_packet oper sha spa tha tpa) = 28"
  "length (ip_header tot proto c src dest) = 20"
  "length (ip_packet src dest proto data) = 20 + length data"
  by (simp_all add: arp_packet_def hdr_defs ip_header_def hdr_defs ip_packet_def Let_def)

text \<open>The results of the transmit functions.\<close>

definition arp_results where
  "arp_results drv oper dest tha tpa s bs =
     (case out_dev s of None \<Rightarrow> {(-1, [])}
      | Some (p, d) \<Rightarrow> framed drv p d (eth_frame dest (mac d) ETH_P_ARP (arp_packet oper (mac d) (ip_addr d) tha tpa))
          \<union> unless_room bs (pkt_need 28))"

definition ip_results where
  "ip_results drv src dest proto data s bs =
     (case out_dev s of None \<Rightarrow> {(-1, [])}
      | Some (p, d) \<Rightarrow>
          (case arp_lookup s dest of
             None \<Rightarrow> apfst (\<lambda>_. -1) ` arp_results drv ARP_REQUEST broadcast_mac (replicate 6 0) dest s bs
           | Some m \<Rightarrow> framed drv p d (eth_frame m (mac d) ETH_P_IP (ip_packet src dest proto data))
               \<union> unless_room bs (pkt_need (20 + length data))))"

definition macs_ok :: "net \<Rightarrow> bool" where
  "macs_ok s \<longleftrightarrow> (\<forall>p d. dev_objs s p = Some d \<longrightarrow> length (mac d) = 6)"

lemma arp_send_sends:
  assumes inv: "heap_inv (net_heap s) bs" and ok: "devices_ok s" "macs_ok s" and len: "length tha = 6"
  shows "sends bs s (arp_send drv oper dest tha tpa s) (arp_results drv oper dest tha tpa s bs)"
proof (cases "out_dev s")
  case None
  then show ?thesis using first_up_out_dev [OF ok(1)] sends_id [OF inv]
    by (simp add: arp_send_def arp_results_def)
next
  case (Some pd)
  obtain p d where pd: "pd = (p, d)" by (cases pd)
  note d = out_dev_Some [OF ok(1) Some [unfolded pd]]
  have "length (mac d) = 6" using ok(2) d(1) by (simp add: macs_ok_def)
  with len have l: "length (arp_packet oper (mac d) (ip_addr d) tha tpa) = 28" by simp
  from buffered_frame_sends [OF inv d l] Some pd d first_up_out_dev [OF ok(1)] show ?thesis
    by (simp add: arp_send_def arp_results_def the_dev_def)
qed

lemma ip_transmit_sends:
  assumes inv: "heap_inv (net_heap s) bs" and ok: "devices_ok s" "macs_ok s" and len: "length data < 2 ^ 32 - 38"
  shows "sends bs s (ip_transmit drv src dest proto data s) (ip_results drv src dest proto data s bs)"
proof (cases "out_dev s")
  case None
  then show ?thesis using first_up_out_dev [OF ok(1)] sends_id [OF inv]
    by (simp add: ip_transmit_def ip_results_def)
next
  case (Some pd)
  obtain p d where pd: "pd = (p, d)" by (cases pd)
  note d = out_dev_Some [OF ok(1) Some [unfolded pd]]
  show ?thesis
  proof (cases "arp_lookup s dest")
    case None
    from arp_send_sends [OF inv ok, of "replicate 6 0" drv ARP_REQUEST broadcast_mac dest]
    obtain r fs h where "(r, fs) \<in> arp_results drv ARP_REQUEST broadcast_mac (replicate 6 0) dest s bs"
      "arp_request drv dest s = Some (Inr (r, s\<lparr>net_heap := h, wire := wire s @ fs\<rparr>))" "same_heap bs (net_heap s) h"
      by (auto simp: sends_def arp_request_def)
    then show ?thesis using first_up_out_dev [OF ok(1)] None Some pd d(2) unfolding sends_def
      by (intro bexI [of _ "(-1, fs)"]) (auto simp: ip_transmit_def ip_results_def intro!: rev_image_eqI)
  next
    case m: (Some m)
    have l: "length (ip_packet src dest proto data) = 20 + length data" by simp
    from buffered_frame_sends [OF inv d l, of drv m ETH_P_IP] m Some pd d(2) len first_up_out_dev [OF ok(1)] show ?thesis
      by (simp add: ip_transmit_def ip_results_def of_nat_add)
  qed
qed

section \<open>Receiving never goes wrong\<close>

definition net_ok :: "blk list \<Rightarrow> net \<Rightarrow> bool" where
  "net_ok bs s \<longleftrightarrow> heap_inv (net_heap s) bs \<and> devices_ok s \<and> macs_ok s \<and> arp_ok s \<and>
     length (sockets s) = 256 \<and> num_sockets s \<le> 256"


lemma net_ok_upd:
  "net_ok bs s \<Longrightarrow> same_heap bs (net_heap s) h \<Longrightarrow> net_ok bs (s\<lparr>net_heap := h, wire := w\<rparr>)"
  using same_heap_inv [of "net_heap s" bs h]
  by (simp add: net_ok_def macs_ok_def arp_ok_def arp_keys_def)



lemma net_ok_heap: "net_ok bs s \<Longrightarrow> heap_inv h bs1 \<Longrightarrow> net_ok bs1 (s\<lparr>net_heap := h\<rparr>)"
  by (simp add: net_ok_def macs_ok_def arp_ok_def arp_keys_def)

lemma net_okD: "net_ok bs s \<Longrightarrow> heap_inv (net_heap s) bs" "net_ok bs s \<Longrightarrow> devices_ok s" "net_ok bs s \<Longrightarrow> macs_ok s"
  by (simp_all add: net_ok_def)

text \<open>The reply to an echo request.\<close>

definition echo_reply :: "u8 list \<Rightarrow> u8 list" where
  "echo_reply data = (let blank = data[0 := 0, 2 := 0, 3 := 0]
     in take 2 blank @ le16 (net_checksum blank) @ drop 4 blank)"

lemma echo_reply_length [simp]: "4 \<le> length data \<Longrightarrow> length (echo_reply data) = length data"
  by (simp add: echo_reply_def Let_def)

definition echo_need :: "nat \<Rightarrow> nat" where
  "echo_need n = buf (of_nat n) + 24 + pkt_need (20 + n)"

lemma echo_sends:
  assumes ok: "net_ok bs s" and dev: "dev_objs s dev = Some d"
    and n: "8 \<le> length data" "length data < 2 ^ 32 - 38" and data: "data = drop 20 pkt" "data ! 0 = 8"
  shows "\<exists>r. icmp_receive drv dev pkt s = bind_run r (\<lambda>(_, s2). Some (Inr s2)) \<and> sends bs s r UNIV \<and>
    (out_dev s = Some (p, e) \<longrightarrow> can_transmit e \<longrightarrow> arp_lookup s (ip_source pkt) = Some m \<longrightarrow> room bs (echo_need (length data)) \<longrightarrow>
     sends bs s r {let f = eth_frame m (mac e) ETH_P_IP (ip_packet (ip_addr d) (ip_source pkt) IPPROTO_ICMP (echo_reply data)) in (drv p f, [(p, f)])})"
proof -
  let ?r = "with_buffer (of_nat (length data)) (\<lambda>s1. bind_run (the_dev dev s1) (\<lambda>d.
      ip_transmit drv (ip_addr d) (ip_source pkt) IPPROTO_ICMP (echo_reply data) s1)) s"
  let ?X = "{let f = eth_frame m (mac e) ETH_P_IP (ip_packet (ip_addr d) (ip_source pkt) IPPROTO_ICMP (echo_reply data)) in (drv p f, [(p, f)])}"
  have nz: "(of_nat (length data) :: u32) \<noteq> 0" using n by (intro of_nat_u32_nonzero) auto
  have icmp: "icmp_receive drv dev pkt s = bind_run ?r (\<lambda>(_, s2). Some (Inr s2))"
    using n data by (simp add: icmp_receive_def echo_reply_def Let_def)
  have tr: "sends bs1 (s\<lparr>net_heap := h\<rparr>) (ip_transmit drv (ip_addr d) (ip_source pkt) IPPROTO_ICMP (echo_reply data) (s\<lparr>net_heap := h\<rparr>))
      (ip_results drv (ip_addr d) (ip_source pkt) IPPROTO_ICMP (echo_reply data) (s\<lparr>net_heap := h\<rparr>) bs1)"
    if "heap_inv h bs1" for h bs1
    using ip_transmit_sends [of "s\<lparr>net_heap := h\<rparr>" bs1 "echo_reply data"] net_okD [OF net_ok_heap [OF ok that]] n by simp
  have "sends bs s ?r (UNIV \<union> unless_room bs (buf (of_nat (length data))))"
    by (rule with_buffer_sends [OF net_okD(1) [OF ok] nz]) (use tr dev sends_mono in \<open>force simp: the_dev_def\<close>)
  moreover have "sends bs s ?r (?X \<union> unless_room bs (buf (of_nat (length data))))"
    if o: "out_dev s = Some (p, e)" "can_transmit e" "arp_lookup s (ip_source pkt) = Some m" "room bs (echo_need (length data))"
  proof (rule with_buffer_sends [OF net_okD(1) [OF ok] nz])
    fix h bs1
    assume h: "heap_inv h bs1" and r: "\<And>k. room bs (k + buf (of_nat (length data)) + 24) \<Longrightarrow> 16 < k \<Longrightarrow> room bs1 k"
    have "16 < pkt_need (20 + length data)" by (simp add: pkt_need_def)
    with r o(4) have "room bs1 (pkt_need (20 + length data))" by (simp add: echo_need_def add_ac)
    with tr [OF h] o n show "sends bs1 (s\<lparr>net_heap := h\<rparr>) (bind_run (the_dev dev (s\<lparr>net_heap := h\<rparr>)) (\<lambda>d.
        ip_transmit drv (ip_addr d) (ip_source pkt) IPPROTO_ICMP (echo_reply data) (s\<lparr>net_heap := h\<rparr>))) ?X"
      using dev by (simp add: ip_results_def framed_def unless_room_def the_dev_def Let_def)
  qed
  moreover have "unless_room bs (buf (of_nat (length data))) = {}" if "room bs (echo_need (length data))"
    using room_mono [OF that, of "buf (of_nat (length data))"] by (simp add: unless_room_def echo_need_def)
  ultimately show ?thesis using icmp by auto
qed



lemma find_socket_bound: "net_ok bs s \<Longrightarrow> find_socket s port proto = Some i \<Longrightarrow> i < length (sockets s)"
  by (auto simp: find_socket_def net_ok_def find_upt_Some)





lemma net_ok_arp_add: "net_ok bs s \<Longrightarrow> net_ok bs (arp_cache_add ip m s)"
  using arp_add_ok [of s ip m]
  by (simp add: net_ok_def) (auto simp: arp_cache_add_def devices_ok_def macs_ok_def split: option.split)

lemma arp_add_frame [simp]:
  "dev_objs (arp_cache_add ip m s) = dev_objs s" "devices (arp_cache_add ip m s) = devices s"
  "net_heap (arp_cache_add ip m s) = net_heap s" "wire (arp_cache_add ip m s) = wire s"
  "out_dev (arp_cache_add ip m s) = out_dev s"
  by (auto simp: arp_cache_add_def out_dev_def split: option.split)



section \<open>Delivery\<close>

lemma ip_packet_fields:
  assumes "length data \<le> 65515"
  shows "net_checksum (take 20 (ip_packet src dest proto data)) = 0"
    and "ip_source (ip_packet src dest proto data) = src"
    and "ntohl (get32 (ip_packet src dest proto data) 16) = dest"
    and "ip_packet src dest proto data ! 9 = proto"
    and "drop 20 (ip_packet src dest proto data) = data"
proof -
  let ?tot = "of_nat (20 + length data) :: u16"
  let ?xs = "[0x45, 0] @ le16 (htons ?tot) @ le16 (htons 1) @ le16 0 @ [64, proto]" and ?ys = "le32 (htonl src) @ le32 (htonl dest)"
  have hdr: "ip_header ?tot proto c src dest = ?xs @ le16 c @ ?ys" for c by (simp add: ip_header_def hdr_defs)
  have z: "le16 0 = [0, 0]" by (simp add: le16_def)
  have "net_checksum (ip_header ?tot proto (net_checksum (ip_header ?tot proto 0 src dest)) src dest) = 0"
    unfolding hdr z using checksum_inserted [of ?xs ?ys] by (simp add: z)
  then show "net_checksum (take 20 (ip_packet src dest proto data)) = 0" by (simp add: ip_packet_def Let_def)
  obtain c where c: "ip_packet src dest proto data = (?xs @ le16 c) @ ?ys @ data"
    by (simp add: ip_packet_def hdr Let_def)
  show "ip_packet src dest proto data ! 9 = proto" unfolding c by (simp add: le16_def)
  obtain zs where zs: "ip_packet src dest proto data = zs @ ?ys @ data" "length zs = 12"
    using c that [of "?xs @ le16 c"] by simp
  show "ip_source (ip_packet src dest proto data) = src" "ntohl (get32 (ip_packet src dest proto data) 16) = dest"
    "drop 20 (ip_packet src dest proto data) = data"
    unfolding ip_source_def zs(1) using zs(2) by (simp_all add: ntohl_def)
qed

lemma eth_frame_fields:
  assumes "length dest = 6" and "length src = 6"
  shows "take 6 (eth_frame dest src type data) = dest" "ntohs (get16 (eth_frame dest src type data) 12) = type"
    "drop 14 (eth_frame dest src type data) = data" "length (eth_frame dest src type data) = 14 + length data"
  using assms by (simp_all add: eth_frame_def hdr_defs ntohs_def)

lemma ip_delivered:
  assumes "dev_objs s dev = Some d" and "length (mac d) = 6" and "length sm = 6" and "length data \<le> 65515"
  shows "eth_receive drv dev (eth_frame (mac d) sm ETH_P_IP (ip_packet src (ip_addr d) proto data)) s =
    ip_demux drv dev proto (ip_packet src (ip_addr d) proto data) s"
  using assms(1) eth_frame_fields [OF assms(2,3)] ip_packet_fields [OF assms(4)]
  by (simp add: eth_receive_def ip_receive_def the_dev_def)

text \<open>A transmission with enough memory, through a device that can transmit, to a known address.\<close>

lemma ip_transmit_known:
  assumes "net_ok bs s" and "out_dev s = Some (p, d)" and "can_transmit d" and "arp_lookup s dest = Some m"
    and "length data \<le> 65515" and "room bs (pkt_need (20 + length data))"
  shows "\<exists>h. ip_transmit drv src dest proto data s =
      (let f = eth_frame m (mac d) ETH_P_IP (ip_packet src dest proto data)
       in Some (Inr (drv p f, s\<lparr>net_heap := h, wire := wire s @ [(p, f)]\<rparr>))) \<and>
    same_heap bs (net_heap s) h"
  using ip_transmit_sends [OF net_okD [OF assms(1)], of data drv src dest proto] assms(2-)
  by (simp add: sends_def ip_results_def framed_def unless_room_def Let_def)

lemma arp_packet_fields:
  assumes "length sha = 6" and "length tha = 6"
  shows "ntohs (get16 (arp_packet oper sha spa tha tpa) 0) = 1" "ntohs (get16 (arp_packet oper sha spa tha tpa) 2) = ETH_P_IP"
    "ntohs (get16 (arp_packet oper sha spa tha tpa) 6) = oper" "take 6 (drop 8 (arp_packet oper sha spa tha tpa)) = sha"
    "ntohl (get32 (arp_packet oper sha spa tha tpa) 14) = spa" "ntohl (get32 (arp_packet oper sha spa tha tpa) 24) = tpa"
  using assms by (simp_all add: arp_packet_def hdr_defs ntohs_def ntohl_def)

lemma arp_send_room:
  assumes ok: "net_ok bs s" and "out_dev s = Some (p, d)" and "can_transmit d" and "length tha = 6" and "room bs (pkt_need 28)"
    and f: "f = eth_frame dest (mac d) ETH_P_ARP (arp_packet oper (mac d) (ip_addr d) tha tpa)"
  shows "\<exists>h. arp_send drv oper dest tha tpa s = Some (Inr (drv p f, s\<lparr>net_heap := h, wire := wire s @ [(p, f)]\<rparr>)) \<and>
    same_heap bs (net_heap s) h"
  using arp_send_sends [OF net_okD [OF ok] assms(4), of drv oper dest tpa] assms(2-)
  by (simp add: sends_def arp_results_def framed_def unless_room_def)

lemma out_dev_mac: "net_ok bs s \<Longrightarrow> out_dev s = Some (p, d) \<Longrightarrow> dev_objs s p = Some d \<and> length (mac d) = 6"
  using out_dev_Some(1) [OF net_okD(2)] net_okD(3) by (fastforce simp: macs_ok_def)

lemma arp_request_answered:
  assumes ok: "net_ok bs s" and o: "out_dev s = Some (q, b)" "can_transmit b" and r: "room bs (pkt_need 28)" and sm: "length sm = 6"
    and f: "f = eth_frame sm (mac b) ETH_P_ARP (arp_packet ARP_REPLY (mac b) (ip_addr b) sm sip)"
  shows "\<exists>h. eth_receive drv q (eth_frame broadcast_mac sm ETH_P_ARP (arp_packet ARP_REQUEST sm sip (replicate 6 0) (ip_addr b))) s =
      Some (Inr ((arp_cache_add sip sm s)\<lparr>net_heap := h, wire := wire s @ [(q, f)]\<rparr>)) \<and> same_heap bs (net_heap s) h"
proof -
  have b: "dev_objs s q = Some b" "length (mac b) = 6" using out_dev_mac [OF ok o(1)] by auto
  have ok': "net_ok bs (arp_cache_add sip sm s)" by (rule net_ok_arp_add [OF ok])
  from arp_send_room [OF ok', of q b sm f sm ARP_REPLY sip drv] o r sm f
  obtain h where "arp_reply drv sip sm (arp_cache_add sip sm s) =
      Some (Inr (drv q f, (arp_cache_add sip sm s)\<lparr>net_heap := h, wire := wire s @ [(q, f)]\<rparr>))" "same_heap bs (net_heap s) h"
    by (auto simp: arp_reply_def)
  then show ?thesis using b sm eth_frame_fields [of broadcast_mac sm ETH_P_ARP]
      arp_packet_fields [of sm "replicate 6 0" ARP_REQUEST sip "ip_addr b"]
    by (intro exI [of _ h]) (simp add: eth_receive_def arp_receive_def the_dev_def)
qed

lemma arp_reply_learned:
  assumes "dev_objs s p = Some a" and "length (mac a) = 6" and "length sm = 6"
  shows "eth_receive drv p (eth_frame (mac a) sm ETH_P_ARP (arp_packet ARP_REPLY sm sip (mac a) tpa)) s = Some (Inr (arp_cache_add sip sm s))"
  using assms eth_frame_fields [OF assms(2,3)] arp_packet_fields [OF assms(3,2)]
  by (simp add: eth_receive_def arp_receive_def the_dev_def)

text \<open>The reply has type 0 and a valid checksum, and agrees with the request elsewhere.\<close>

lemma echo_reply_props:
  assumes "4 \<le> length data" and "length data \<le> 65515"
  shows "net_checksum (echo_reply data) = 0" and "echo_reply data ! 0 = 0" and "echo_reply data ! 1 = data ! 1"
    and "drop 4 (echo_reply data) = drop 4 data"
proof -
  obtain a b c d ys where data: "data = a # b # c # d # ys"
    using assms(1) that by (auto simp: Suc_le_length_iff numeral_eq_Suc)
  have eq: "echo_reply data = [0, b] @ le16 (net_checksum ([0, b] @ [0, 0] @ ys)) @ ys"
    by (simp add: data echo_reply_def Let_def numeral_eq_Suc)
  have "net_checksum ([0, b] @ le16 (net_checksum ([0, b] @ [0, 0] @ ys)) @ ys) = 0"
    by (rule checksum_inserted) (use assms(2) data in simp_all)
  then show "net_checksum (echo_reply data) = 0" by (simp add: eq)
  show "echo_reply data ! 0 = 0" "echo_reply data ! 1 = data ! 1" "drop 4 (echo_reply data) = drop 4 data"
    by (simp_all add: eq) (simp_all add: data le16_def)
qed

section \<open>A host with one device\<close>

definition host_dev :: "u32 \<Rightarrow> u8 \<Rightarrow> net_device" where
  "host_dev ip k = \<lparr>dev_name = ''eth0'', mac = replicate 6 k, ip_addr = ip, netmask = 0xFFFFFF00, gateway = 0, up = True, can_transmit = True\<rparr>"

definition host :: "heap \<Rightarrow> u32 \<Rightarrow> u8 \<Rightarrow> net" where
  "host h ip k = \<lparr>dev_objs = [1 \<mapsto> host_dev ip k], devices = \<lparr>slots = 1 # replicate 15 0, count = 1\<rparr>,
     arp_cache = replicate 64 \<lparr>arp_ip = 0, arp_mac = replicate 6 0, arp_timestamp = 0\<rparr>, arp_cache_size = 0,
     sockets = replicate 256 \<lparr>sock_type = 0, protocol = 0, local_ip = 0, local_port = 0, remote_ip = 0, remote_port = 0, sock_state = 0\<rparr>,
     num_sockets = 0, ticks = 0, net_heap = h, wire = []\<rparr>"

lemma host_sel [simp]:
  "dev_objs (host h ip k) 1 = Some (host_dev ip k)" "net_heap (host h ip k) = h" "wire (host h ip k) = []"
  "mac (host_dev ip k) = replicate 6 k" "ip_addr (host_dev ip k) = ip" "can_transmit (host_dev ip k)"
  "arp_cache_size (host h ip k) = 0" "arp_lookup (host h ip k) = Map.empty"
  by (auto simp: host_def host_dev_def arp_lookup_def)

lemma host_out [simp]: "out_dev (host h ip k) = Some (1, host_dev ip k)"
  by (simp add: out_dev_def host_def host_dev_def registered_def)

lemma host_ok: "heap_inv h bs \<Longrightarrow> net_ok bs (host h ip k)"
  by (simp add: net_ok_def host_def devices_ok_def macs_ok_def arp_ok_def arp_keys_def host_dev_def registered_def)

lemma boot_host:
  obtains h where "heap_init 0x200000 = Inr h" "heap_inv h [(16777192, False)]"
proof -
  obtain h where h: "heap_init 0x200000 = Inr h" by (rule boot_heap)
  have "heap_inv h [(16777192, False)]" by (rule heap_init_inv [OF _ h]) simp
  with h that show ?thesis by blast
qed

text \<open>A host that has learned one address.\<close>

lemma host_learned:
  assumes "heap_inv h bs"
  shows "net_ok bs (arp_cache_add ip' m (host h ip k))" "arp_lookup (arp_cache_add ip' m (host h ip k)) = [ip' \<mapsto> m]"
proof -
  have ok: "net_ok bs (host h ip k)" by (rule host_ok [OF assms])
  then show "net_ok bs (arp_cache_add ip' m (host h ip k))" by (rule net_ok_arp_add)
  have "arp_ok (host h ip k)" using ok by (simp add: net_ok_def)
  from arp_add_new [OF this, of ip' m] show "arp_lookup (arp_cache_add ip' m (host h ip k)) = [ip' \<mapsto> m]" by simp
qed

lemma pkt_need_bounds: "pkt_need 28 = 96" "pkt_need 32 = 104" "echo_need 12 = 144"
  by (simp_all add: pkt_need_def echo_need_def round_size_def Let_def)

section \<open>Properties\<close>



text \<open>
  C10. Address resolution works between two hosts. If \<open>A\<close> sends an IP packet to the address of \<open>B\<close>'s
  device without knowing its MAC, it broadcasts one ARP request and reports failure; \<open>B\<close>, receiving
  that frame, answers with one reply; \<open>A\<close>, receiving the reply, knows the MAC of \<open>B\<close>'s device from then
  on, and \<open>B\<close> has been offered the one of \<open>A\<close>. Both heaps end with the blocks they had.
\<close>

theorem arp_resolution:
  assumes A: "net_ok bsA A" "out_dev A = Some (p, a)" "can_transmit a" "room bsA (pkt_need 28)"
    "arp_lookup A (ip_addr b) = None" "arp_cache_size A < 64" "length data \<le> 65515"
    and B: "net_ok bsB B" "out_dev B = Some (q, b)" "can_transmit b" "room bsB (pkt_need 28)"
  shows "\<exists>A1 req B1 rep A2. ip_transmit drvA src (ip_addr b) proto data A = Some (Inr (-1, A1)) \<and> wire A1 = wire A @ [(p, req)] \<and>
    eth_receive drvB q req B = Some (Inr B1) \<and> wire B1 = wire B @ [(q, rep)] \<and>
    eth_receive drvA p rep A1 = Some (Inr A2) \<and> arp_lookup A2 = (arp_lookup A)(ip_addr b \<mapsto> mac b) \<and>
    arp_lookup B1 = arp_lookup (arp_cache_add (ip_addr a) (mac a) B) \<and> net_ok bsA A2 \<and> net_ok bsB B1"
proof -
  let ?req = "eth_frame broadcast_mac (mac a) ETH_P_ARP (arp_packet ARP_REQUEST (mac a) (ip_addr a) (replicate 6 0) (ip_addr b))"
  let ?rep = "eth_frame (mac a) (mac b) ETH_P_ARP (arp_packet ARP_REPLY (mac b) (ip_addr b) (mac a) (ip_addr a))"
  have a: "dev_objs A p = Some a" "length (mac a) = 6" "p \<noteq> 0"
    using out_dev_mac [OF A(1,2)] out_dev_Some(2) [OF net_okD(2) [OF A(1)] A(2)] by auto
  have b: "length (mac b) = 6" using out_dev_mac [OF B(1,2)] by simp
  obtain h where h: "arp_request drvA (ip_addr b) A = Some (Inr (drvA p ?req, A\<lparr>net_heap := h, wire := wire A @ [(p, ?req)]\<rparr>))"
    "same_heap bsA (net_heap A) h"
    using arp_send_room [OF A(1-3) _ A(4) refl, of "replicate 6 0" drvA ARP_REQUEST broadcast_mac "ip_addr b"]
    unfolding arp_request_def by auto
  let ?A1 = "A\<lparr>net_heap := h, wire := wire A @ [(p, ?req)]\<rparr>"
  have ip: "ip_transmit drvA src (ip_addr b) proto data A = Some (Inr (-1, ?A1))"
    using A(2,5) a(3) h(1) first_up_out_dev [OF net_okD(2) [OF A(1)]] by (simp add: ip_transmit_def)
  obtain k where k: "eth_receive drvB q ?req B = Some (Inr ((arp_cache_add (ip_addr a) (mac a) B)\<lparr>net_heap := k, wire := wire B @ [(q, ?rep)]\<rparr>))"
    "same_heap bsB (net_heap B) k" using arp_request_answered [OF B(1-4) a(2) refl, of drvB "ip_addr a"] by blast
  have okA1: "net_ok bsA ?A1" by (rule net_ok_upd [OF A(1) h(2)])
  then have arpA1: "arp_ok ?A1" by (simp add: net_ok_def)
  have rep: "eth_receive drvA p ?rep ?A1 = Some (Inr (arp_cache_add (ip_addr b) (mac b) ?A1))"
    by (rule arp_reply_learned) (use a b in simp_all)
  have "arp_lookup (arp_cache_add (ip_addr b) (mac b) ?A1) = (arp_lookup A)(ip_addr b \<mapsto> mac b)"
    using arp_add_new [OF arpA1, of "ip_addr b" "mac b"] A(5,6) by (auto simp: dom_def)
  moreover have "net_ok bsB ((arp_cache_add (ip_addr a) (mac a) B)\<lparr>net_heap := k, wire := wire B @ [(q, ?rep)]\<rparr>)"
    by (rule net_ok_upd [OF net_ok_arp_add [OF B(1)]]) (use k(2) in simp)
  ultimately show ?thesis using ip k(1) rep net_ok_arp_add [OF okA1]
    by (intro exI [of _ ?A1] exI [of _ ?req] exI [of _ ?rep] exI conjI) auto
qed

theorem arp_resolution_witness:
  "\<exists>h A2 A1 B1 req rep. heap_init 0x200000 = Inr h \<and>
     ip_transmit (\<lambda>_ _. 0) 0x0A000001 0x0A000002 17 [1, 2, 3] (host h 0x0A000001 1) = Some (Inr (-1, A1)) \<and>
     wire A1 = [(1, req)] \<and> eth_receive (\<lambda>_ _. 0) 1 req (host h 0x0A000002 2) = Some (Inr B1) \<and> wire B1 = [(1, rep)] \<and>
     eth_receive (\<lambda>_ _. 0) 1 rep A1 = Some (Inr A2) \<and> arp_lookup A2 0x0A000002 = Some [2, 2, 2, 2, 2, 2]"
proof -
  obtain h where h: "heap_init 0x200000 = Inr h" "heap_inv h [(16777192, False)]" by (rule boot_host)
  note A = host_ok [OF h(2), of "0x0A000001" 1] and B = host_ok [OF h(2), of "0x0A000002" 2]
  have room: "room [(16777192, False)] (pkt_need 28)" by (simp add: pkt_need_bounds room_def)
  have six: "replicate 6 (2 :: u8) = [2, 2, 2, 2, 2, 2]" by (simp add: numeral_eq_Suc)
  from arp_resolution [OF A host_out host_sel(6) room _ _ _ B host_out host_sel(6) room,
      where data = "[1, 2, 3]" and src = "0x0A000001"
      and proto = 17 and drvA = "\<lambda>_ _. 0" and drvB = "\<lambda>_ _. 0"] h(1) show ?thesis
    by (simp add: six) (metis fun_upd_same)
qed

text \<open>
  C9. IP packets are delivered end to end. If \<open>A\<close> knows the MAC of the device \<open>e\<close> of \<open>B\<close> under the
  destination address and has memory for the two buffers, \<^verbatim>\<open>ip_transmit\<close> hands exactly one frame to
  the driver, returns what the driver returns, and leaves the heap as it was; \<open>B\<close> accepts that frame
  on \<open>e\<close> (MAC, type, header checksum, destination address) and passes it to the handler of the
  protocol, with the source address and the payload that \<open>A\<close> sent.
\<close>

theorem ip_end_to_end:
  assumes A: "net_ok bs A" "out_dev A = Some (p, d)" "can_transmit d" "arp_lookup A (ip_addr e) = Some (mac e)"
    "length data \<le> 65515" "room bs (pkt_need (20 + length data))"
    and B: "dev_objs B q = Some e" "length (mac e) = 6"
  shows "\<exists>A' frame pkt. ip_transmit drv src (ip_addr e) proto data A = Some (Inr (drv p frame, A')) \<and>
    wire A' = wire A @ [(p, frame)] \<and> same_heap bs (net_heap A) (net_heap A') \<and>
    eth_receive drv' q frame B = ip_demux drv' q proto pkt B \<and> ip_source pkt = src \<and> drop 20 pkt = data"
proof -
  let ?pkt = "ip_packet src (ip_addr e) proto data"
  let ?f = "eth_frame (mac e) (mac d) ETH_P_IP ?pkt"
  obtain h where h: "ip_transmit drv src (ip_addr e) proto data A = Some (Inr (drv p ?f, A\<lparr>net_heap := h, wire := wire A @ [(p, ?f)]\<rparr>))"
    "same_heap bs (net_heap A) h" using ip_transmit_known [OF A, of drv src proto] by (auto simp: Let_def)
  have "length (mac d) = 6" using out_dev_mac [OF A(1,2)] by simp
  from ip_delivered [OF B this A(5)] have "eth_receive drv' q ?f B = ip_demux drv' q proto ?pkt B" .
  with h ip_packet_fields [OF A(5)] show ?thesis
    by (intro exI [of _ "A\<lparr>net_heap := h, wire := wire A @ [(p, ?f)]\<rparr>"] exI [of _ ?f] exI [of _ ?pkt]) simp
qed

theorem ip_end_to_end_witness:
  "\<exists>h A' frame. heap_init 0x200000 = Inr h \<and>
     ip_transmit (\<lambda>_ f. int (length f)) 0x0A000001 0x0A000002 17 (replicate 12 0) (arp_cache_add 0x0A000002 (replicate 6 2) (host h 0x0A000001 1)) =
       Some (Inr (int (length frame), A')) \<and> wire A' = [(1, frame)] \<and>
     eth_receive (\<lambda>_ _. 0) 1 frame (host h 0x0A000002 2) = Some (Inr (host h 0x0A000002 2))"
proof -
  obtain h where h: "heap_init 0x200000 = Inr h" "heap_inv h [(16777192, False)]" by (rule boot_host)
  let ?A = "arp_cache_add 0x0A000002 (replicate 6 2) (host h 0x0A000001 1)"
  note A = host_learned [OF h(2), of "0x0A000002" "replicate 6 2" "0x0A000001" 1]
  have room: "room [(16777192, False)] (pkt_need (20 + length (replicate 12 (0 :: u8))))" by (simp add: pkt_need_bounds room_def)
  obtain A' frame pkt where
    "ip_transmit (\<lambda>_ f. int (length f)) 0x0A000001 0x0A000002 17 (replicate 12 0) ?A = Some (Inr (int (length frame), A'))"
    "wire A' = [(1, frame)]" "eth_receive (\<lambda>_ _. 0) 1 frame (host h 0x0A000002 2) = ip_demux (\<lambda>_ _. 0) 1 17 pkt (host h 0x0A000002 2)"
    using ip_end_to_end [OF A(1) _ _ _ _ room host_sel(1), of 1 "host_dev 0x0A000001 1" "0x0A000002" 2 "\<lambda>_ f. int (length f)" "0x0A000001" 17 "\<lambda>_ _. 0" h]
      A(2) by auto
  with h(1) show ?thesis by (auto simp: ip_demux_def udp_receive_packet_def Let_def split: option.split)
qed

text \<open>
  C11. Pings are answered. A frame with an ICMP echo request from \<open>src\<close> makes the host send exactly one
  frame, to the MAC it has cached for \<open>src\<close>; that frame carries an ICMP packet from the host's own
  address to \<open>src\<close> of type echo reply, with a valid ICMP checksum and all other bytes of the request,
  and everything but the wire and the heap's statistics is as before.
\<close>

theorem ping_answered:
  assumes "net_ok bs s" and "out_dev s = Some (p, d)" and "can_transmit d" and "arp_lookup s src = Some m"
    and "data ! 0 = 8" and "8 \<le> length data" and "length data \<le> 65515" and "room bs (echo_need (length data))"
    and "length sm = 6"
  shows "\<exists>h reply. eth_receive drv p (eth_frame (mac d) sm ETH_P_IP (ip_packet src (ip_addr d) IPPROTO_ICMP data)) s =
      Some (Inr (s\<lparr>net_heap := h, wire := wire s @
        [(p, eth_frame m (mac d) ETH_P_IP (ip_packet (ip_addr d) src IPPROTO_ICMP reply))]\<rparr>)) \<and>
    same_heap bs (net_heap s) h \<and> net_checksum reply = 0 \<and> reply ! 0 = 0 \<and> reply ! 1 = data ! 1 \<and> drop 4 reply = drop 4 data"
proof -
  let ?pkt = "ip_packet src (ip_addr d) IPPROTO_ICMP data"
  have d: "dev_objs s p = Some d" "length (mac d) = 6" using out_dev_mac [OF assms(1,2)] by auto
  note f = ip_packet_fields [OF assms(7), of src "ip_addr d" IPPROTO_ICMP]
  have "eth_receive drv p (eth_frame (mac d) sm ETH_P_IP ?pkt) s = icmp_receive drv p ?pkt s"
    using ip_delivered [OF d assms(9,7), of drv src IPPROTO_ICMP] by (simp add: ip_demux_def)
  moreover have "\<exists>r. icmp_receive drv p ?pkt s = bind_run r (\<lambda>(_, s2). Some (Inr s2)) \<and>
      sends bs s r {let f = eth_frame m (mac d) ETH_P_IP (ip_packet (ip_addr d) src IPPROTO_ICMP (echo_reply data)) in (drv p f, [(p, f)])}"
    using echo_sends [OF assms(1) d(1) assms(6) _ f(5) [symmetric] assms(5), of drv p d m] assms(2-4,7,8) f(2) by auto
  ultimately show ?thesis using echo_reply_props [of data] assms(6,7) by (fastforce simp: sends_def Let_def)
qed

theorem ping_answered_witness:
  "\<exists>h s' reply. heap_init 0x200000 = Inr h \<and>
     eth_receive (\<lambda>_ _. 0) 1 (eth_frame (replicate 6 1) (replicate 6 2) ETH_P_IP
        (ip_packet 0x0A000002 0x0A000001 IPPROTO_ICMP (8 # replicate 11 7))) (arp_cache_add 0x0A000002 (replicate 6 2) (host h 0x0A000001 1)) = Some (Inr s') \<and>
     wire s' = [(1, eth_frame (replicate 6 2) (replicate 6 1) ETH_P_IP (ip_packet 0x0A000001 0x0A000002 IPPROTO_ICMP reply))] \<and>
     net_checksum reply = 0 \<and> reply ! 0 = 0 \<and> drop 4 reply = replicate 8 7"
proof -
  obtain h where h: "heap_init 0x200000 = Inr h" "heap_inv h [(16777192, False)]" by (rule boot_host)
  let ?A = "arp_cache_add 0x0A000002 (replicate 6 2) (host h 0x0A000001 1)"
  note A = host_learned [OF h(2), of "0x0A000002" "replicate 6 2" "0x0A000001" 1]
  have room: "room [(16777192, False)] (echo_need (length (8 # replicate 11 (7 :: u8))))" by (simp add: pkt_need_bounds room_def)
  have "drop 4 (8 # replicate 11 (7 :: u8)) = replicate 8 7" by (simp add: numeral_eq_Suc)
  with ping_answered [OF A(1) _ _ _ _ _ _ room, of 1 "host_dev 0x0A000001 1" "0x0A000002" "replicate 6 2" "replicate 6 2" "\<lambda>_ _. 0"]
    A(2) h(1) show ?thesis by fastforce
qed

text \<open>
  The ARP cache is a map of at most 64 addresses. After any sequence of \<^verbatim>\<open>arp_cache_add\<close> calls for
  at most 64 addresses altogether, a lookup gives the MAC of the last call for the address, or what
  the cache had before; and no call ever changes the entry of another address or forgets one.
\<close>

theorem arp_cache_bounded_map:
  assumes "arp_ok s"
  shows "(card (dom (arp_lookup s) \<union> fst ` set kvs) \<le> 64 \<longrightarrow>
      arp_lookup (fold (\<lambda>(ip, m). arp_cache_add ip m) kvs s) = arp_lookup s ++ map_of (rev kvs)) \<and>
    arp_ok (arp_cache_add ip m s) \<and> dom (arp_lookup s) \<subseteq> dom (arp_lookup (arp_cache_add ip m s)) \<and>
    (ip' \<noteq> ip \<longrightarrow> arp_lookup (arp_cache_add ip m s) ip' = arp_lookup s ip')"
  using arp.put_sequence [OF assms] arp.put_invar [OF assms] arp.put_keeps [OF assms] arp.put_other [OF assms] by blast

theorem arp_cache_bounded_map_witness:
  "\<exists>h s. s = host h 0x0A000001 1 \<and> arp_lookup (arp_cache_add 5 [5] (arp_cache_add 7 [7] (arp_cache_add 5 [1] s))) 5 = Some [5] \<and>
     arp_lookup (arp_cache_add 5 [5] s) 7 = None"
proof -
  obtain h where h: "heap_init 0x200000 = Inr h" "heap_inv h [(16777192, False)]" by (rule boot_host)
  have ok: "arp_ok (host h 0x0A000001 1)" using host_ok [OF h(2)] by (simp add: net_ok_def)
  from arp_cache_bounded_map [OF ok, of "[(5, [1]), (7, [7]), (5, [5])]" 5 "[5]" 7]
  have "arp_lookup (arp_cache_add 5 [5] (arp_cache_add 7 [7] (arp_cache_add 5 [1] (host h 0x0A000001 1)))) 5 = Some [5]"
    "arp_lookup (arp_cache_add 5 [5] (host h 0x0A000001 1)) 7 = None" by (simp_all add: card_insert_if)
  then show ?thesis by blast
qed

text \<open>
  Device registration: a table of network devices, and likewise the one of WiFi devices, accepts
  devices until its 16 (8) slots are taken and then refuses without a change; unregistering a device
  takes one occurrence of it out and keeps all others, and undoes a registration.
\<close>

theorem device_tables:
  assumes "tab_ok 16 t" and "tab_ok 8 w"
  shows "fst (net_register_device dev t) = (if length (registered t) < 16 then 0 else -1) \<and>
    (length (registered t) < 16 \<longrightarrow> (\<exists>u. net_unregister_device dev (snd (net_register_device dev t)) = (0, u) \<and> tab_ok 16 u \<and> mset (registered u) = mset (registered t))) \<and>
    (dev \<in> set (registered t) \<longrightarrow> (\<exists>u. net_unregister_device dev t = (0, u) \<and> tab_ok 16 u \<and> mset (registered u) = mset (registered t) - {#dev#})) \<and>
    (dev \<notin> set (registered t) \<longrightarrow> net_unregister_device dev t = (-1, t)) \<and>
    fst (wifi_register_device dev w) = (if length (registered w) < 8 then 0 else -1) \<and>
    (length (registered w) < 8 \<longrightarrow> (\<exists>u. wifi_unregister_device dev (snd (wifi_register_device dev w)) = (0, u) \<and> tab_ok 8 u \<and> mset (registered u) = mset (registered w))) \<and>
    (dev \<in> set (registered w) \<longrightarrow> (\<exists>u. wifi_unregister_device dev w = (0, u) \<and> tab_ok 8 u \<and> mset (registered u) = mset (registered w) - {#dev#}))"
  using net_devs.reg_count [OF assms(1)] net_devs.unreg_reg [OF assms(1)] net_devs.unreg_present [OF assms(1)] net_devs.unreg_absent [OF assms(1)]
    wifi_devs.reg_count [OF assms(2)] wifi_devs.unreg_reg [OF assms(2)] wifi_devs.unreg_present [OF assms(2)] by blast

theorem device_tables_witness:
  "\<exists>u. net_unregister_device 7 (snd (net_register_device 7 \<lparr>slots = replicate 16 0, count = 0\<rparr>)) = (0, u) \<and> registered u = []"
  using device_tables [of "\<lparr>slots = replicate 16 0, count = 0\<rparr>" "\<lparr>slots = replicate 8 0, count = 0\<rparr>" 7]
  by (auto simp: tab_ok_def registered_def)

text \<open>
  The handler of echo replies copies in the wrong direction: it stores a time stamp behind the
  ICMP header of the received packet instead of loading it, so a reply of 8 to 11 bytes, which passes
  every check, makes it write outside the packet.
\<close>

theorem short_echo_reply_overruns:
  assumes "dev_objs s dev = Some d" and "length (mac d) = 6" and "length sm = 6"
    and "data ! 0 = 0" and "8 \<le> length data" and "length data < 12"
  shows "eth_receive drv dev (eth_frame (mac d) sm ETH_P_IP (ip_packet src (ip_addr d) IPPROTO_ICMP data)) s = Some (Inl Out_Of_Bounds)"
proof -
  have len: "length data \<le> 65515" using assms(6) by simp
  show ?thesis unfolding ip_delivered [OF assms(1-3) len] using assms(4-) ip_packet_fields(5) [OF len]
    by (simp add: ip_demux_def icmp_receive_def Let_def)
qed

theorem short_echo_reply_overruns_witness:
  "\<exists>h. heap_init 0x200000 = Inr h \<and>
     eth_receive (\<lambda>_ _. 0) 1 (eth_frame (replicate 6 1) (replicate 6 2) ETH_P_IP (ip_packet 5 0x0A000001 IPPROTO_ICMP (replicate 8 0))) (host h 0x0A000001 1) =
       Some (Inl Out_Of_Bounds)"
proof -
  obtain h where "heap_init 0x200000 = Inr h" by (rule boot_heap)
  with short_echo_reply_overruns [OF host_sel(1), of "0x0A000001" 1 "replicate 6 2" "replicate 8 0" "\<lambda>_ _. 0" 5 h] show ?thesis by simp
qed

end
