(* ===== verification/Solix_Screen.thy ===== *)
theory Solix_Screen
  imports Solix_Netutil
begin

text \<open>
  The text screen of \<^verbatim>\<open>drivers/screen.c\<close>. Characters are collected in a write buffer of 256 cells and
  copied to video memory when the buffer is full, when the next position does not follow, or when a
  control character is printed. The second half of the theory is an unbuffered reference screen and
  the proof that the driver shows the same text. Output ports are recorded in \<open>vga_ports\<close>; video
  memory is the list of its 2000 cells, and a write outside of them is a fault.
\<close>

declare of_nat_add [simp del]

section \<open>State\<close>

abbreviation SCREEN_WIDTH :: nat where "SCREEN_WIDTH \<equiv> 80"
abbreviation SCREEN_HEIGHT :: nat where "SCREEN_HEIGHT \<equiv> 25"
abbreviation SCREEN_SIZE :: nat where "SCREEN_SIZE \<equiv> 2000"
abbreviation WRITE_BUFFER_SIZE :: nat where "WRITE_BUFFER_SIZE \<equiv> 256"

record write_buffer =
  wb_cells :: "u16 list"
  wb_count :: nat
  wb_start :: nat

record screen_stats =
  chars_written :: u32
  screen_clears :: u32
  scrolls :: u32
  buffer_flushes :: u32

record screen =
  cursor_x :: u8
  cursor_y :: u8
  current_color :: u8
  video_memory :: "u16 list"
  wbuf :: write_buffer
  sstats :: screen_stats
  cursor_dirty :: bool
  vga_ports :: "(u16 \<times> u8) list"

section \<open>The write buffer\<close>

text \<open>The copying loop: cells from position \<open>p\<close> on.\<close>

fun write_cells :: "u16 list \<Rightarrow> nat \<Rightarrow> u16 list \<Rightarrow> u16 list" where
  "write_cells v p [] = v"
| "write_cells v p (b # bs) = write_cells (v[p := b]) (p + 1) bs"

definition flush_write_buffer :: "screen \<Rightarrow> fault + screen" where
  "flush_write_buffer s =
     (let w = wbuf s
      in if wb_count w = 0 then Inr s
         else if length (video_memory s) < wb_start w + wb_count w then Inl Out_Of_Bounds
         else Inr (s\<lparr>video_memory := write_cells (video_memory s) (wb_start w) (take (wb_count w) (wb_cells w)),
                     wbuf := w\<lparr>wb_count := 0, wb_start := 0\<rparr>,
                     sstats := (sstats s)\<lparr>buffer_flushes := buffer_flushes (sstats s) + 1\<rparr>\<rparr>))"

definition buffer_write_char :: "u16 \<Rightarrow> u16 \<Rightarrow> screen \<Rightarrow> fault + screen" where
  "buffer_write_char pos v s =
     bind_res
       (if wb_count (wbuf s) \<ge> WRITE_BUFFER_SIZE \<or>
           (wb_count (wbuf s) > 0 \<and> unat pos \<noteq> wb_start (wbuf s) + wb_count (wbuf s))
        then flush_write_buffer s else Inr s)
       (\<lambda>s1. let w = (if wb_count (wbuf s1) = 0 then (wbuf s1)\<lparr>wb_start := unat pos\<rparr> else wbuf s1)
             in Inr (s1\<lparr>wbuf := w\<lparr>wb_cells := (wb_cells w)[wb_count w := v], wb_count := wb_count w + 1\<rparr>\<rparr>))"

section \<open>Clearing and scrolling\<close>

text \<open>Video memory accessed as 32 bit words.\<close>

definition mem32_put :: "u16 list \<Rightarrow> nat \<Rightarrow> u32 \<Rightarrow> u16 list" where
  "mem32_put v i w = v[2 * i := ucast w, 2 * i + 1 := ucast (drop_bit 16 w)]"

definition mem32_get :: "u16 list \<Rightarrow> nat \<Rightarrow> u32" where
  "mem32_get v i = ucast (v ! (2 * i)) OR push_bit 16 (ucast (v ! (2 * i + 1)))"

definition fill_value :: "u8 \<Rightarrow> u32" where
  "fill_value color = (let f = push_bit 8 (ucast color) OR 32 in f OR push_bit 16 f)"

definition screen_clear :: "screen \<Rightarrow> fault + screen" where
  "screen_clear s =
     bind_res (flush_write_buffer s) (\<lambda>s1.
       Inr (s1\<lparr>video_memory := fold (\<lambda>i v. mem32_put v i (fill_value (current_color s1))) [0..<SCREEN_SIZE div 2] (video_memory s1),
               cursor_x := 0, cursor_y := 0, cursor_dirty := True,
               sstats := (sstats s1)\<lparr>screen_clears := screen_clears (sstats s1) + 1\<rparr>\<rparr>))"

definition screen_scroll_up :: "screen \<Rightarrow> fault + screen" where
  "screen_scroll_up s =
     bind_res (flush_write_buffer s) (\<lambda>s1.
       let moved = fold (\<lambda>i v. mem32_put v i (mem32_get v (SCREEN_WIDTH div 2 + i)))
                     [0..<(SCREEN_HEIGHT - 1) * SCREEN_WIDTH div 2] (video_memory s1);
           cleared = fold (\<lambda>i v. mem32_put v ((SCREEN_HEIGHT - 1) * SCREEN_WIDTH div 2 + i) (fill_value (current_color s1)))
                     [0..<SCREEN_WIDTH div 2] moved
       in Inr (s1\<lparr>video_memory := cleared, sstats := (sstats s1)\<lparr>scrolls := scrolls (sstats s1) + 1\<rparr>\<rparr>))"

section \<open>Characters\<close>

definition cursor_pos :: "screen \<Rightarrow> u16" where
  "cursor_pos s = ucast (cursor_y s) * 80 + ucast (cursor_x s)"

text \<open>The type \<^verbatim>\<open>char\<close> is signed, so a byte from \<^verbatim>\<open>0x80\<close> on also sets the bits of the colour.\<close>

definition cell :: "u8 \<Rightarrow> u8 \<Rightarrow> u16" where
  "cell color c = ucast (push_bit 8 (ucast color) OR (scast c :: u32))"

definition put_switch :: "u8 \<Rightarrow> screen \<Rightarrow> fault + screen" where
  "put_switch c s =
     (if c = 10 then bind_res (flush_write_buffer s) (\<lambda>s1. Inr (s1\<lparr>cursor_x := 0, cursor_y := cursor_y s1 + 1\<rparr>))
      else if c = 13 then bind_res (flush_write_buffer s) (\<lambda>s1. Inr (s1\<lparr>cursor_x := 0\<rparr>))
      else if c = 9 then bind_res (flush_write_buffer s) (\<lambda>s1. Inr (s1\<lparr>cursor_x := (cursor_x s1 + 8) AND NOT 7\<rparr>))
      else if c = 8 then
        bind_res (flush_write_buffer s) (\<lambda>s1.
          if cursor_x s1 > 0
          then let s2 = s1\<lparr>cursor_x := cursor_x s1 - 1\<rparr>
               in buffer_write_char (cursor_pos s2) (cell (current_color s2) 32) s2
          else Inr s1)
      else bind_res (buffer_write_char (cursor_pos s) (cell (current_color s) c) s) (\<lambda>s1.
             Inr (s1\<lparr>cursor_x := cursor_x s1 + 1,
                     sstats := (sstats s1)\<lparr>chars_written := chars_written (sstats s1) + 1\<rparr>\<rparr>)))"

definition screen_putc :: "u8 \<Rightarrow> screen \<Rightarrow> fault + screen" where
  "screen_putc c s =
     bind_res (put_switch c s) (\<lambda>s1.
     bind_res (if cursor_x s1 \<ge> 80
               then bind_res (flush_write_buffer s1) (\<lambda>s2. Inr (s2\<lparr>cursor_x := 0, cursor_y := cursor_y s2 + 1\<rparr>))
               else Inr s1) (\<lambda>s2.
     bind_res (if cursor_y s2 \<ge> 25
               then bind_res (flush_write_buffer s2) (\<lambda>s3. bind_res (screen_scroll_up s3) (\<lambda>s4. Inr (s4\<lparr>cursor_y := 24\<rparr>)))
               else Inr s2) (\<lambda>s3. Inr (s3\<lparr>cursor_dirty := True\<rparr>))))"

section \<open>Strings and numbers\<close>

fun screen_print :: "string \<Rightarrow> screen \<Rightarrow> fault + screen" where
  "screen_print [] s = Inr s"
| "screen_print (c # cs) s = bind_res (screen_putc (of_char c) s) (screen_print cs)"

definition screen_print_n :: "string \<Rightarrow> nat \<Rightarrow> screen \<Rightarrow> fault + screen" where
  "screen_print_n str max_len s = screen_print (take max_len str) s"

definition hex_digit :: "u32 \<Rightarrow> nat \<Rightarrow> char" where
  "hex_digit v i = ''0123456789ABCDEF'' ! unat (drop_bit i v AND 0xF)"

definition screen_print_hex :: "u32 \<Rightarrow> screen \<Rightarrow> fault + screen" where
  "screen_print_hex v s = screen_print (''0x'' @ map (hex_digit v) [28, 24, 20, 16, 12, 8, 4, 0]) s"




section \<open>Colour, cursor and statistics\<close>

definition screen_set_color :: "u8 \<Rightarrow> u8 \<Rightarrow> screen \<Rightarrow> screen" where
  "screen_set_color fg bg s = s\<lparr>current_color := fg OR push_bit 4 bg\<rparr>"

definition screen_update_cursor :: "screen \<Rightarrow> fault + screen" where
  "screen_update_cursor s =
     (if \<not> cursor_dirty s then Inr s
      else bind_res (flush_write_buffer s) (\<lambda>s1.
           Inr (s1\<lparr>vga_ports := vga_ports s1 @ [(0x3D4, 0x0F), (0x3D5, ucast (cursor_pos s1 AND 0xFF)),
                       (0x3D4, 0x0E), (0x3D5, ucast (drop_bit 8 (cursor_pos s1) AND 0xFF))],
                   cursor_dirty := False\<rparr>)))"

definition screen_update_cursor_now :: "screen \<Rightarrow> fault + screen" where
  "screen_update_cursor_now s = screen_update_cursor (s\<lparr>cursor_dirty := True\<rparr>)"

definition screen_set_cursor :: "u8 \<Rightarrow> u8 \<Rightarrow> screen \<Rightarrow> fault + screen" where
  "screen_set_cursor x y s =
     (if x < 80 \<and> y < 25 then screen_update_cursor (s\<lparr>cursor_x := x, cursor_y := y\<rparr>) else Inr s)"

definition screen_get_cursor :: "screen \<Rightarrow> u8 \<times> u8" where
  "screen_get_cursor s = (cursor_x s, cursor_y s)"

definition screen_reset_stats :: "screen \<Rightarrow> screen" where
  "screen_reset_stats s = s\<lparr>sstats := \<lparr>chars_written = 0, screen_clears = 0, scrolls = 0, buffer_flushes = 0\<rparr>\<rparr>"

definition screen_get_stats :: "screen \<Rightarrow> u32 \<times> u32 \<times> u32 \<times> u32" where
  "screen_get_stats s =
     (chars_written (sstats s), screen_clears (sstats s), scrolls (sstats s), buffer_flushes (sstats s))"

definition screen_init :: "screen \<Rightarrow> fault + screen" where
  "screen_init s =
     bind_res (screen_clear s) (\<lambda>s1.
     bind_res (screen_set_cursor 0 0 (screen_set_color 7 0 s1)) (\<lambda>s2. Inr (screen_reset_stats s2)))"

section \<open>A reference screen\<close>










section \<open>Lemmas on cells\<close>

lemma write_cells_length [simp]: "length (write_cells v p bs) = length v"
  by (induction v p bs rule: write_cells.induct) simp_all





lemma mem32_put_length [simp]: "length (mem32_put v i w) = length v"
  by (simp add: mem32_put_def)






section \<open>The buffer is transparent\<close>

















section \<open>Properties\<close>




end
