(* ===== verification/Solix_Process.thy ===== *)
theory Solix_Process
  imports Solix_HeapInv
begin

text \<open>
  Processes, after \<^verbatim>\<open>kernel/kernel.c\<close> and the enhanced creation in \<^verbatim>\<open>kernel/debug.c\<close>: a table of 256
  slots, a bitmap of the slots in use, and a round-robin scheduler over the slots. A pointer into
  the table is the index of its slot, \<^verbatim>\<open>NULL\<close> is \<open>None\<close>. Kernel stacks come from the heap of
  \<open>Solix_Heap\<close>. The system call dispatcher of \<^verbatim>\<open>kernel/interrupts.c\<close> stands at the end of the model.
\<close>

declare of_nat_add [simp del]

section \<open>State\<close>

abbreviation MAX_PROCESSES :: nat where "MAX_PROCESSES \<equiv> 256"
abbreviation MAX_OPEN_FILES :: nat where "MAX_OPEN_FILES \<equiv> 32"
abbreviation KERNEL_STACK_SIZE :: u32 where "KERNEL_STACK_SIZE \<equiv> 16384"
abbreviation PROCESS_RUNNING :: u32 where "PROCESS_RUNNING \<equiv> 0"
abbreviation PROCESS_READY :: u32 where "PROCESS_READY \<equiv> 1"
abbreviation PROCESS_BLOCKED :: u32 where "PROCESS_BLOCKED \<equiv> 2"
abbreviation PROCESS_TERMINATED :: u32 where "PROCESS_TERMINATED \<equiv> 3"

record pcb =
  pid :: u32
  ppid :: u32
  pstate :: u32
  esp :: u32
  ebp :: u32
  eip :: u32
  cr3 :: u32
  kernel_stack :: u32
  user_stack :: u32
  exit_code :: u32
  creation_time :: u32
  cpu_time :: u32

record fd =
  fd_inode :: u32
  fd_offset :: u32
  fd_flags :: u32
  fd_private :: u32
  fd_ref_count :: u32

record process =
  pcb_of :: pcb
  fd_table :: "fd list"
  cwd_inode :: u32
  proc_name :: string
  priority :: u32

text \<open>
  The console is what \<^verbatim>\<open>debug_print\<close> has written; other output is left out.
  \<open>current_index\<close> is the static variable of \<^verbatim>\<open>process_schedule\<close>, \<open>last_search\<close> the one of
  \<^verbatim>\<open>find_free_pid\<close> in \<^verbatim>\<open>debug.c\<close>, \<open>timestamp\<close> the one of \<^verbatim>\<open>kernel_get_timestamp\<close>.
\<close>

record debug_info =
  debug_level :: u32
  log_buffer :: "u32 list"
  log_index :: u32
  panic_count :: u32
  last_panic_time :: u32

record kernel =
  process_table :: "process list"
  process_bitmap :: "u32 list"
  current_process :: "nat option"
  next_pid :: u32
  current_index :: u32
  last_search :: u32
  timestamp :: u32
  proc_heap :: heap
  debug_state :: debug_info
  console :: string

section \<open>Operations\<close>

definition upd_pcb :: "nat \<Rightarrow> (pcb \<Rightarrow> pcb) \<Rightarrow> kernel \<Rightarrow> kernel" where
  "upd_pcb i f s = s\<lparr>process_table := (process_table s)[i := pcb_of_update f (process_table s ! i)]\<rparr>"

abbreviation pcb_at :: "kernel \<Rightarrow> nat \<Rightarrow> pcb" where
  "pcb_at s i \<equiv> pcb_of (process_table s ! i)"

abbreviation state_at :: "kernel \<Rightarrow> nat \<Rightarrow> u32" where
  "state_at s i \<equiv> pstate (pcb_at s i)"

definition process_init :: "kernel \<Rightarrow> kernel run" where
  "process_init s =
     (let s1 = s\<lparr>process_table := map (pcb_of_update (pstate_update (\<lambda>_. PROCESS_TERMINATED))) (process_table s),
                 process_bitmap := replicate 8 0, current_process := Some 0\<rparr>
      in bind_run (kmalloc KERNEL_STACK_SIZE (proc_heap s1)) (\<lambda>(p, h).
         Some (Inr ((upd_pcb 0 (\<lambda>b. b\<lparr>pid := next_pid s1, ppid := 0, pstate := PROCESS_RUNNING,
                      kernel_stack := p, user_stack := 0x7FFFF000\<rparr>) s1)
               \<lparr>next_pid := next_pid s1 + 1, process_bitmap := bm_set (process_bitmap s1) 0, proc_heap := h\<rparr>))))"

text \<open>The search of \<^verbatim>\<open>find_free_pid\<close>, with failure apart from slot 0, which the code reports alike.\<close>

definition pid_alloc :: "kernel \<Rightarrow> (nat \<times> kernel) option" where
  "pid_alloc s =
     (case find (\<lambda>i. \<not> bm_test (process_bitmap s) i) [0..<MAX_PROCESSES] of
        None \<Rightarrow> None
      | Some i \<Rightarrow> Some (i, s\<lparr>process_bitmap := bm_set (process_bitmap s) i\<rparr>))"

definition find_free_pid :: "kernel \<Rightarrow> nat \<times> kernel" where
  "find_free_pid s = (case pid_alloc s of None \<Rightarrow> (0, s) | Some r \<Rightarrow> r)"

definition process_create :: "kernel \<Rightarrow> (u32 \<times> kernel) run" where
  "process_create s =
     (case find_free_pid s of (index, s1) \<Rightarrow>
      if index = 0 then Some (Inr (0, s1))
      else let new = next_pid s1;
               s2 = (upd_pcb index (pid_update (\<lambda>_. new)) s1)\<lparr>next_pid := new + 1\<rparr>
           in case current_process s2 of
                None \<Rightarrow> Some (Inl (Wild_Access 0))
              | Some c \<Rightarrow>
                  bind_run (kmalloc KERNEL_STACK_SIZE (proc_heap s2)) (\<lambda>(p, h).
                    let s3 = upd_pcb index (\<lambda>b. b\<lparr>ppid := pid (pcb_at s2 c), pstate := PROCESS_READY,
                               kernel_stack := p, user_stack := 0x7FFFF000, exit_code := 0\<rparr>) (s2\<lparr>proc_heap := h\<rparr>);
                        proc = process_table s3 ! index;
                        proc' = proc\<lparr>fd_table := map (fd_inode_update (\<lambda>_. 0)) (fd_table proc), cwd_inode := 1\<rparr>
                    in Some (Inr (pid (pcb_of proc'), s3\<lparr>process_table := (process_table s3)[index := proc']\<rparr>))))"

text \<open>The loop of \<^verbatim>\<open>process_schedule\<close>, with the number of rounds left.\<close>

definition switch_to :: "nat \<Rightarrow> kernel \<Rightarrow> kernel" where
  "switch_to i s =
     (let s1 = (case current_process s of
                  Some c \<Rightarrow> if state_at s c = PROCESS_RUNNING then upd_pcb c (pstate_update (\<lambda>_. PROCESS_READY)) s else s
                | None \<Rightarrow> s)
      in (upd_pcb i (pstate_update (\<lambda>_. PROCESS_RUNNING)) s1)\<lparr>current_process := Some i\<rparr>)"

fun sched_loop :: "nat \<Rightarrow> kernel \<Rightarrow> fault + kernel" where
  "sched_loop 0 s = Inl (Panic ''No runnable processes'')"
| "sched_loop (Suc n) s =
     (let ci = (current_index s + 1) mod of_nat MAX_PROCESSES; s1 = s\<lparr>current_index := ci\<rparr>
      in if state_at s1 (unat ci) = PROCESS_READY then Inr (switch_to (unat ci) s1) else sched_loop n s1)"

definition process_schedule :: "kernel \<Rightarrow> fault + kernel" where
  "process_schedule s = sched_loop MAX_PROCESSES s"

definition process_exit :: "u32 \<Rightarrow> kernel \<Rightarrow> fault + kernel" where
  "process_exit code s =
     (case current_process s of
        None \<Rightarrow> Inr s
      | Some c \<Rightarrow>
          let s1 = upd_pcb c (\<lambda>b. b\<lparr>exit_code := code, pstate := PROCESS_TERMINATED\<rparr>) s
          in bind_res (kfree (kernel_stack (pcb_at s1 c)) (proc_heap s1)) (\<lambda>h.
             process_schedule (s1\<lparr>proc_heap := h, process_bitmap := bm_clear (process_bitmap s1) c\<rparr>)))"

section \<open>Debugging and enhanced creation\<close>

definition kernel_get_timestamp :: "kernel \<Rightarrow> u32 \<times> kernel" where
  "kernel_get_timestamp s = (timestamp s, s\<lparr>timestamp := timestamp s + 1\<rparr>)"

text \<open>The text \<^verbatim>\<open>debug_print\<close> writes for a format: arguments are not available to it.\<close>

fun debug_text :: "string \<Rightarrow> string" where
  "debug_text [] = []"
| "debug_text [c] = [c]"
| "debug_text (c # d # cs) =
     (if c = CHR ''%'' then
        (if d = CHR ''s'' then ''(string)'' else if d = CHR ''d'' then ''(number)'' else ''%'' @ [d]) @ debug_text cs
      else c # debug_text (d # cs))"

definition debug_print :: "u32 \<Rightarrow> string \<Rightarrow> kernel \<Rightarrow> kernel" where
  "debug_print level fmt s =
     (if level > debug_level (debug_state s) then s
      else let index = log_index (debug_state s) mod 1024;
               (t, s1) = kernel_get_timestamp s;
               ds = debug_state s1
           in s1\<lparr>debug_state := ds\<lparr>log_buffer := (log_buffer ds)[unat index := t], log_index := log_index ds + 1\<rparr>,
                 console := console s1 @ debug_text fmt\<rparr>)"

definition debug_init :: "kernel \<Rightarrow> kernel" where
  "debug_init s =
     debug_print 3 ''Debug system initialized''
       (s\<lparr>debug_state := (debug_state s)\<lparr>debug_level := 3, log_index := 0, panic_count := 0, last_panic_time := 0,
            log_buffer := replicate 1024 0\<rparr>\<rparr>)"

definition debug_assert :: "bool \<Rightarrow> string \<Rightarrow> kernel \<Rightarrow> fault + kernel" where
  "debug_assert condition msg s = (if \<not> condition then Inl (Panic msg) else Inr s)"

definition pid_alloc_next :: "kernel \<Rightarrow> (nat \<times> kernel) option" where
  "pid_alloc_next s =
     (let slot = (\<lambda>i. unat ((last_search s + of_nat i) mod of_nat MAX_PROCESSES))
      in case find (\<lambda>i. \<not> bm_test (process_bitmap s) (slot i)) [0..<MAX_PROCESSES] of
           None \<Rightarrow> None
         | Some i \<Rightarrow> Some (slot i, s\<lparr>process_bitmap := bm_set (process_bitmap s) (slot i), last_search := of_nat (slot i)\<rparr>))"

definition process_create_enhanced :: "string option \<Rightarrow> kernel \<Rightarrow> (u32 \<times> kernel) run" where
  "process_create_enhanced name s =
     (case (case pid_alloc_next s of None \<Rightarrow> (0, s) | Some r \<Rightarrow> r) of (index, s1) \<Rightarrow>
      if index = 0 then Some (Inr (0, debug_print 2 ''No free process slots available'' s1))
      else let new = next_pid s1;
               s2 = (upd_pcb index (pid_update (\<lambda>_. new)) s1)\<lparr>next_pid := new + 1\<rparr>;
               parent = (case current_process s2 of None \<Rightarrow> 0 | Some c \<Rightarrow> pid (pcb_at s2 c))
           in bind_run (kmalloc KERNEL_STACK_SIZE (proc_heap s2)) (\<lambda>(p, h).
              case kernel_get_timestamp (s2\<lparr>proc_heap := h\<rparr>) of (t, s2') \<Rightarrow>
              let s3 = upd_pcb index (\<lambda>b. b\<lparr>ppid := parent, pstate := PROCESS_READY, kernel_stack := p,
                         user_stack := 0x7FFFF000, exit_code := 0, creation_time := t, cpu_time := 0\<rparr>) s2';
                  proc = process_table s3 ! index;
                  proc' = proc\<lparr>fd_table := map (\<lambda>f. f\<lparr>fd_inode := 0, fd_ref_count := 0\<rparr>) (fd_table proc), cwd_inode := 1,
                    proc_name := (case name of None \<Rightarrow> [] | Some n \<Rightarrow> take 31 n), priority := 5\<rparr>
              in Some (Inr (pid (pcb_of proc'),
                   debug_print 3 ''Created process PID %d: %s'' (s3\<lparr>process_table := (process_table s3)[index := proc']\<rparr>)))))"

section \<open>System calls\<close>

text \<open>
  The dispatcher changes its own copy of \<^verbatim>\<open>eax\<close>, so the identifier of a new process reaches nobody;
  reading and writing are not implemented, other numbers are reported on the console.
\<close>

definition syscall_handler :: "u32 \<Rightarrow> u32 \<Rightarrow> kernel \<Rightarrow> kernel run" where
  "syscall_handler eax ebx s =
     (if eax = 1 then Some (process_exit ebx s)
      else if eax = 2 then bind_run (process_create s) (\<lambda>(_, s1). Some (Inr s1))
      else Some (Inr s))"

section \<open>Slots\<close>

definition pid_release :: "nat \<Rightarrow> kernel \<Rightarrow> kernel" where
  "pid_release i s = s\<lparr>process_bitmap := bm_clear (process_bitmap s) i\<rparr>"

definition slots_ok :: "kernel \<Rightarrow> bool" where
  "slots_ok s \<longleftrightarrow> length (process_bitmap s) = 8"

definition slots_used :: "kernel \<Rightarrow> nat set" where
  "slots_used s = bm_set_of (process_bitmap s) MAX_PROCESSES"

lemma slots_fits: "slots_ok s \<Longrightarrow> bm_fits (process_bitmap s) MAX_PROCESSES"
  by (simp add: slots_ok_def bm_fits_def)

lemma slots_used_iff: "i < MAX_PROCESSES \<Longrightarrow> i \<in> slots_used s \<longleftrightarrow> bm_test (process_bitmap s) i"
  by (simp add: slots_used_def bm_set_of_def)

lemma pid_alloc_Some:
  "pid_alloc s = Some (i, t) \<longleftrightarrow> i < MAX_PROCESSES \<and> \<not> bm_test (process_bitmap s) i \<and>
     (\<forall>j<i. bm_test (process_bitmap s) j) \<and> t = s\<lparr>process_bitmap := bm_set (process_bitmap s) i\<rparr>"
proof -
  have "pid_alloc s = Some (i, t) \<longleftrightarrow> find (\<lambda>i. \<not> bm_test (process_bitmap s) i) [0..<MAX_PROCESSES] = Some i \<and>
      t = s\<lparr>process_bitmap := bm_set (process_bitmap s) i\<rparr>"
    by (auto simp: pid_alloc_def split: option.splits)
  then show ?thesis by (auto simp: find_upt_Some)
qed

lemma pid_alloc_None: "pid_alloc s = None \<longleftrightarrow> (\<forall>i<MAX_PROCESSES. bm_test (process_bitmap s) i)"
  using find_upt_None [of "\<lambda>i. \<not> bm_test (process_bitmap s) i" MAX_PROCESSES]
  by (auto simp: pid_alloc_def split: option.split)

interpretation pids: slot_allocator slots_ok "\<lambda>_. MAX_PROCESSES" slots_used pid_alloc pid_release
proof (unfold_locales, goal_cases)
  case (1 s) then show ?case by (simp add: slots_used_def bm_set_of_subset)
next
  case (2 s) then show ?case by (simp only: pid_alloc_None slots_used_def bm_set_of_full)
next
  case (3 s i t) then show ?case by (simp add: pid_alloc_Some slots_used_iff)
next
  case (4 s i t) then show ?case by (auto simp: pid_alloc_Some slots_used_def bm_set_of_set slots_fits)
next
  case (6 s i t) then show ?case by (auto simp: pid_alloc_Some slots_ok_def)
next
  case (7 s i)
  then have "i < MAX_PROCESSES" by (simp add: slots_used_def bm_set_of_def)
  with 7 show ?case by (simp add: pid_release_def slots_used_def bm_set_of_clear slots_fits)
next
  case (9 s i) then show ?case by (simp add: pid_release_def slots_ok_def)
qed simp_all

lemma unat_mod_256: "unat ((w + of_nat i :: u32) mod 256) = (unat w + i) mod 256"
proof -
  have "unat ((w + of_nat i) mod 256) = unat (w + of_nat i) mod 256" by (simp add: unat_mod_distrib)
  also have "\<dots> = (unat w + i) mod 256"
    by (simp add: unat_word_ariths unat_of_nat take_bit_eq_mod mod_mod_cancel mod_add_right_eq)
  finally show ?thesis .
qed

lemma pid_alloc_next_Some:
  "pid_alloc_next s = Some (i, t) \<longleftrightarrow> (\<exists>k<MAX_PROCESSES. i = (unat (last_search s) + k) mod MAX_PROCESSES \<and>
     \<not> bm_test (process_bitmap s) i \<and> (\<forall>l<k. bm_test (process_bitmap s) ((unat (last_search s) + l) mod MAX_PROCESSES)) \<and>
     t = s\<lparr>process_bitmap := bm_set (process_bitmap s) i, last_search := of_nat i\<rparr>)"
proof -
  let ?P = "\<lambda>k. \<not> bm_test (process_bitmap s) ((unat (last_search s) + k) mod MAX_PROCESSES)"
  have "pid_alloc_next s = Some (i, t) \<longleftrightarrow> (\<exists>k. find ?P [0..<MAX_PROCESSES] = Some k \<and> i = (unat (last_search s) + k) mod MAX_PROCESSES \<and>
      t = s\<lparr>process_bitmap := bm_set (process_bitmap s) i, last_search := of_nat i\<rparr>)"
    by (auto simp: pid_alloc_next_def Let_def unat_mod_256 split: option.splits)
  then show ?thesis unfolding find_upt_Some by auto
qed

text \<open>The cyclic search visits every slot.\<close>

lemma cyclic_surj: "j < 256 \<Longrightarrow> \<exists>k<256. (a + k) mod 256 = (j :: nat)"
proof -
  assume j: "j < 256"
  let ?k = "(j + (256 - a mod 256)) mod 256"
  have "(a + ?k) mod 256 = (a + (j + (256 - a mod 256))) mod 256" by (rule mod_add_right_eq)
  also have "a + (j + (256 - a mod 256)) = j + 256 * (a div 256 + 1)"
    using mult_div_mod_eq [of 256 a] mod_less_divisor [OF zero_less_numeral, of a]
    by (simp only: distrib_left mult_1_right)
  finally have "(a + ?k) mod 256 = j" using j by (simp only: mod_mult_self2 mod_less)
  then show ?thesis by (intro exI [of _ ?k]) simp
qed

lemma pid_alloc_next_None: "pid_alloc_next s = None \<longleftrightarrow> (\<forall>i<MAX_PROCESSES. bm_test (process_bitmap s) i)"
proof -
  let ?P = "\<lambda>k. \<not> bm_test (process_bitmap s) ((unat (last_search s) + k) mod MAX_PROCESSES)"
  have "pid_alloc_next s = None \<longleftrightarrow> find ?P [0..<MAX_PROCESSES] = None"
    by (auto simp: pid_alloc_next_def Let_def unat_mod_256 split: option.splits)
  also have "\<dots> \<longleftrightarrow> (\<forall>i<MAX_PROCESSES. bm_test (process_bitmap s) i)"
    unfolding find_upt_None using cyclic_surj [of _ "unat (last_search s)"] by (metis mod_less_divisor zero_less_numeral)
  finally show ?thesis .
qed

interpretation pids_next: slot_allocator slots_ok "\<lambda>_. MAX_PROCESSES" slots_used pid_alloc_next pid_release
proof (unfold_locales, goal_cases)
  case (2 s) then show ?case by (simp only: pid_alloc_next_None slots_used_def bm_set_of_full)
next
  case (3 s i t) then show ?case by (auto simp: pid_alloc_next_Some slots_used_iff)
next
  case (4 s i t) then show ?case by (auto simp: pid_alloc_next_Some slots_used_def bm_set_of_set slots_fits)
next
  case (6 s i t) then show ?case by (auto simp: pid_alloc_next_Some slots_ok_def)
qed (rule pids.used_cap pids.release_used pids.release_invar; assumption | simp)+

section \<open>The scheduler\<close>

lemma upd_pcb_sel [simp]:
  "length (process_table (upd_pcb i f s)) = length (process_table s)"
  "process_bitmap (upd_pcb i f s) = process_bitmap s" "current_process (upd_pcb i f s) = current_process s"
  "next_pid (upd_pcb i f s) = next_pid s" "current_index (upd_pcb i f s) = current_index s" "proc_heap (upd_pcb i f s) = proc_heap s"
  by (simp_all add: upd_pcb_def)

lemma pcb_upd [simp]:
  "i < length (process_table s) \<Longrightarrow> pcb_at (upd_pcb i f s) j = (if j = i then f (pcb_at s i) else pcb_at s j)"
  by (simp add: upd_pcb_def nth_list_update)

text \<open>The slot the scheduler switches to: the first ready one after \<open>current_index\<close>, going round.\<close>

definition next_ready :: "kernel \<Rightarrow> nat option" where
  "next_ready s = map_option (\<lambda>k. (unat (current_index s) + 1 + k) mod MAX_PROCESSES)
     (find (\<lambda>k. state_at s ((unat (current_index s) + 1 + k) mod MAX_PROCESSES) = PROCESS_READY) [0..<MAX_PROCESSES])"

lemma unat_next_index: "unat ((w + 1 :: u32) mod 256) = (unat w + 1) mod 256"
  using unat_mod_256 [of w 1] by simp

lemma sched_loop_find:
  "sched_loop n s =
     (case find (\<lambda>k. state_at s ((unat (current_index s) + 1 + k) mod 256) = PROCESS_READY) [0..<n] of
        None \<Rightarrow> Inl (Panic ''No runnable processes'')
      | Some k \<Rightarrow> let i = (unat (current_index s) + 1 + k) mod 256 in Inr (switch_to i (s\<lparr>current_index := of_nat i\<rparr>)))"
proof (induction n arbitrary: s)
  case (Suc n)
  let ?ci = "(current_index s + 1) mod 256"
  have u: "unat ?ci = (unat (current_index s) + 1) mod 256" by (rule unat_next_index)
  have u': "Suc (unat (current_index s)) mod 256 = unat ?ci" using u by simp
  have shift: "(unat ?ci + 1 + k) mod 256 = (unat (current_index s) + 1 + Suc k) mod 256" for k
    unfolding u by (metis (no_types) add.assoc add_Suc_right plus_1_eq_Suc mod_add_left_eq)
  show ?case
  proof (cases "state_at s (unat ?ci) = PROCESS_READY")
    case True
    then show ?thesis by (simp add: find_upt_Suc u' Let_def del: upt_Suc)
  next
    case False
    then have "sched_loop (Suc n) s = sched_loop n (s\<lparr>current_index := ?ci\<rparr>)" by (simp add: Let_def)
    also have "\<dots> = (case find (\<lambda>k. state_at s ((unat (current_index s) + 1 + Suc k) mod 256) = PROCESS_READY) [0..<n] of
        None \<Rightarrow> Inl (Panic ''No runnable processes'')
      | Some k \<Rightarrow> let i = (unat (current_index s) + 1 + Suc k) mod 256 in Inr (switch_to i (s\<lparr>current_index := of_nat i\<rparr>)))"
      unfolding Suc.IH using shift by (simp add: Let_def cong: option.case_cong)
    finally show ?thesis using False by (simp add: find_upt_Suc u' option.case_eq_if option.map_sel del: upt_Suc)
  qed
qed simp

lemma process_schedule_eq:
  "process_schedule s = (case next_ready s of None \<Rightarrow> Inl (Panic ''No runnable processes'')
     | Some i \<Rightarrow> Inr (switch_to i (s\<lparr>current_index := of_nat i\<rparr>)))"
  by (simp add: process_schedule_def sched_loop_find next_ready_def Let_def option.case_eq_if option.map_sel)

lemma next_ready_None: "next_ready s = None \<longleftrightarrow> (\<forall>i<256. state_at s i \<noteq> PROCESS_READY)"
  unfolding next_ready_def map_option_is_None find_upt_None
  using cyclic_surj [of _ "unat (current_index s) + 1"] by (metis mod_less_divisor zero_less_numeral)

lemma next_ready_Some: "next_ready s = Some i \<Longrightarrow> i < 256 \<and> state_at s i = PROCESS_READY"
  by (auto simp: next_ready_def find_upt_Some)

lemma switch_to_sel [simp]:
  "length (process_table (switch_to i s)) = length (process_table s)" "process_bitmap (switch_to i s) = process_bitmap s"
  "current_process (switch_to i s) = Some i" "next_pid (switch_to i s) = next_pid s"
  "current_index (switch_to i s) = current_index s" "proc_heap (switch_to i s) = proc_heap s"
  by (simp_all add: switch_to_def Let_def split: option.split)

lemma switch_to_state:
  assumes "i < length (process_table s)" and "\<And>c. current_process s = Some c \<Longrightarrow> c < length (process_table s)"
  shows "state_at (switch_to i s) j =
      (if j = i then PROCESS_RUNNING else if current_process s = Some j \<and> state_at s j = PROCESS_RUNNING then PROCESS_READY else state_at s j)"
    and "pid (pcb_at (switch_to i s) j) = pid (pcb_at s j)" 
  using assms by (auto simp: switch_to_def Let_def split: option.splits)

text \<open>\<open>n\<close> calls of the scheduler in a row.\<close>

fun schedules :: "nat \<Rightarrow> kernel \<Rightarrow> fault + kernel" where
  "schedules 0 s = Inr s"
| "schedules (Suc n) s = bind_res (process_schedule s) (schedules n)"

definition table_ok :: "kernel \<Rightarrow> bool" where
  "table_ok s \<longleftrightarrow> length (process_table s) = MAX_PROCESSES \<and> length (process_bitmap s) = 8 \<and>
     (\<forall>c. current_process s = Some c \<longrightarrow> c < MAX_PROCESSES)"

lemma table_ok_switch: "table_ok s \<Longrightarrow> i < 256 \<Longrightarrow> table_ok (switch_to i (s\<lparr>current_index := w\<rparr>))"
  by (simp add: table_ok_def)

text \<open>A ready slot at distance \<open>d\<close> is reached after at most \<open>d + 1\<close> calls.\<close>

lemma schedules_reach:
  assumes "table_ok s" and "state_at s j = PROCESS_READY" and "(unat (current_index s) + 1 + d) mod 256 = j" and "d < 256"
  shows "\<exists>k t. k \<le> d + 1 \<and> schedules k s = Inr t \<and> current_process t = Some j \<and> state_at t j = PROCESS_RUNNING"
  using assms
proof (induction d arbitrary: s rule: less_induct)
  case (less d)
  let ?at = "\<lambda>k. (unat (current_index s) + 1 + k) mod 256"
  have j: "j < 256" using less.prems(3) by (metis mod_less_divisor zero_less_numeral)
  have "find (\<lambda>k. state_at s (?at k) = PROCESS_READY) [0..<256] \<noteq> None"
    using less.prems by (auto simp: find_upt_None)
  then obtain k where f: "find (\<lambda>k. state_at s (?at k) = PROCESS_READY) [0..<256] = Some k" by blast
  have k: "next_ready s = Some (?at k)" unfolding next_ready_def f by simp
  have kp: "k < 256" "state_at s (?at k) = PROCESS_READY" "\<forall>l<k. state_at s (?at l) \<noteq> PROCESS_READY"
    using f [unfolded find_upt_Some] by blast+
  have kd: "k \<le> d" using kp less.prems(2,3) by (metis not_less)
  let ?i = "?at k"
  let ?t = "switch_to ?i (s\<lparr>current_index := of_nat ?i\<rparr>)"
  have i: "?i < 256" by simp
  have run: "process_schedule s = Inr ?t" using k by (simp add: process_schedule_eq)
  have st: "state_at ?t l = (if l = ?i then PROCESS_RUNNING else if current_process s = Some l \<and> state_at s l = PROCESS_RUNNING then PROCESS_READY else state_at s l)" for l
    using switch_to_state(1) [of ?i "s\<lparr>current_index := of_nat ?i\<rparr>" l] less.prems(1) i by (simp add: table_ok_def)
  show ?case
  proof (cases "?i = j")
    case True
    then show ?thesis using run st [of j] by (intro exI [of _ 1] exI [of _ ?t]) simp
  next
    case False
    then have "k < d" using kd less.prems(3) by (metis le_neq_implies_less)
    let ?d = "d - k - 1"
    have ci: "unat (current_index ?t) = ?i" using i by (simp add: unat_of_nat take_bit_nat_eq_self)
    have "(?i + 1 + ?d) mod 256 = (unat (current_index s) + 1 + k + (1 + ?d)) mod 256"
      unfolding add.assoc [of ?i] by (rule mod_add_left_eq)
    also have "\<dots> = j" using \<open>k < d\<close> less.prems(3) by (simp add: add_ac)
    finally have at: "(unat (current_index ?t) + 1 + ?d) mod 256 = j" unfolding ci .
    have rd: "state_at ?t j = PROCESS_READY" using st [of j] False less.prems(2) by simp
    have dl: "?d < d" "?d < 256" using \<open>k < d\<close> less.prems(4) by linarith+
    from less.IH [OF dl(1) table_ok_switch [OF less.prems(1) i] rd at dl(2)]
    obtain m t where "m \<le> ?d + 1" "schedules m ?t = Inr t" "current_process t = Some j" "state_at t j = PROCESS_RUNNING" by blast
    then show ?thesis using run \<open>k < d\<close> by (intro exI [of _ "Suc m"] exI [of _ t]) simp
  qed
qed

section \<open>The invariant\<close>

abbreviation live :: "kernel \<Rightarrow> nat \<Rightarrow> bool" where
  "live s i \<equiv> state_at s i \<noteq> PROCESS_TERMINATED"

text \<open>
  Exactly the current process runs; a live process has its bit set, and apart from slot 0 the
  converse holds; live processes have different identifiers, all of them handed out before.
\<close>

definition proc_ok :: "kernel \<Rightarrow> bool" where
  "proc_ok s \<longleftrightarrow> table_ok s \<and> current_process s \<noteq> None \<and>
     (\<forall>i<256. state_at s i = PROCESS_RUNNING \<longleftrightarrow> current_process s = Some i) \<and>
     (\<forall>i<256. live s i \<longrightarrow> bm_test (process_bitmap s) i) \<and>
     (\<forall>i<256. 0 < i \<longrightarrow> bm_test (process_bitmap s) i \<longrightarrow> live s i) \<and>
     (\<forall>i<256. live s i \<longrightarrow> 0 < pid (pcb_at s i) \<and> pid (pcb_at s i) < next_pid s) \<and>
     (\<forall>i<256. \<forall>j<256. live s i \<longrightarrow> live s j \<longrightarrow> pid (pcb_at s i) = pid (pcb_at s j) \<longrightarrow> i = j)"

lemma proc_okD: "proc_ok s \<Longrightarrow> table_ok s" "proc_ok s \<Longrightarrow> length (process_bitmap s) = 8" "proc_ok s \<Longrightarrow> current_process s \<noteq> None"
  by (simp_all add: proc_ok_def table_ok_def)

text \<open>What a creation did: nothing visible, or a new ready process in a free slot.\<close>

definition created :: "kernel \<Rightarrow> u32 \<Rightarrow> kernel \<Rightarrow> bool" where
  "created s p t \<longleftrightarrow> length (process_table t) = length (process_table s) \<and> current_process t = current_process s \<and>
     current_index t = current_index s \<and>
     (p = 0 \<and> process_table t = process_table s \<and> next_pid t = next_pid s \<and>
        (process_bitmap t = process_bitmap s \<or> process_bitmap t = bm_set (process_bitmap s) 0) \<or>
      (\<exists>i. 0 < i \<and> i < 256 \<and> \<not> bm_test (process_bitmap s) i \<and> process_bitmap t = bm_set (process_bitmap s) i \<and>
        p = next_pid s \<and> next_pid t = next_pid s + 1 \<and> pid (pcb_at t i) = next_pid s \<and> state_at t i = PROCESS_READY \<and>
        (\<forall>j. j \<noteq> i \<longrightarrow> process_table t ! j = process_table s ! j)))"

lemma process_create_created:
  assumes "table_ok s" and "process_create s = Some (Inr (p, t))"
  shows "created s p t"
proof (cases "pid_alloc s")
  case None
  then show ?thesis using assms by (simp add: process_create_def find_free_pid_def created_def)
next
  case (Some r)
  obtain i u where r: "r = (i, u)" by (cases r)
  then have a: "i < 256" "\<not> bm_test (process_bitmap s) i" "u = s\<lparr>process_bitmap := bm_set (process_bitmap s) i\<rparr>"
    using Some by (auto simp: pid_alloc_Some)
  show ?thesis
  proof (cases "i = 0")
    case True
    then show ?thesis using assms Some r a by (auto simp: process_create_def find_free_pid_def created_def)
  next
    case False
    with assms Some r a show ?thesis
      by (auto simp: process_create_def find_free_pid_def created_def bind_run_Inr_iff Let_def table_ok_def upd_pcb_def split: option.splits)
  qed
qed

lemma debug_print_sel [simp]:
  "process_table (debug_print l f s) = process_table s" "process_bitmap (debug_print l f s) = process_bitmap s"
  "current_process (debug_print l f s) = current_process s" "next_pid (debug_print l f s) = next_pid s"
  "current_index (debug_print l f s) = current_index s" "proc_heap (debug_print l f s) = proc_heap s"
  by (simp_all add: debug_print_def kernel_get_timestamp_def Let_def)

lemma process_create_enhanced_created:
  assumes "table_ok s" and "process_create_enhanced name s = Some (Inr (p, t))"
  shows "created s p t"
proof (cases "pid_alloc_next s")
  case None
  then show ?thesis using assms by (auto simp: process_create_enhanced_def created_def)
next
  case (Some r)
  obtain i u where r: "r = (i, u)" by (cases r)
  then have a: "i < 256" "\<not> bm_test (process_bitmap s) i" "u = s\<lparr>process_bitmap := bm_set (process_bitmap s) i, last_search := of_nat i\<rparr>"
    using Some by (auto simp: pid_alloc_next_Some)
  show ?thesis
  proof (cases "i = 0")
    case True
    then show ?thesis using assms Some r a by (auto simp: process_create_enhanced_def created_def)
  next
    case False
    with assms Some r a show ?thesis
      by (auto simp: process_create_enhanced_def created_def bind_run_Inr_iff Let_def table_ok_def upd_pcb_def kernel_get_timestamp_def)
  qed
qed

lemma created_ok:
  assumes ok: "proc_ok s" and c: "created s p t" and n: "next_pid s \<noteq> 0xFFFFFFFF" and b: "length (process_bitmap t) = 8"
  shows "proc_ok t"
proof -
  have tok: "table_ok s" and fits: "bm_fits (process_bitmap s) 256"
    using ok by (auto simp: proc_ok_def table_ok_def bm_fits_def)
  note ix = bm_fits_index [OF fits]
  show ?thesis
  proof (cases "process_table t = process_table s \<and> next_pid t = next_pid s")
    case True
    then have "process_bitmap t = process_bitmap s \<or> process_bitmap t = bm_set (process_bitmap s) 0"
      using c by (auto simp: created_def)
    then have "bm_test (process_bitmap t) j \<longleftrightarrow> bm_test (process_bitmap s) j" if "0 < j" for j
      using that bm_test_set [OF ix [of 0]] by auto
    moreover have "bm_test (process_bitmap s) j \<Longrightarrow> bm_test (process_bitmap t) j" for j
      using \<open>_ \<or> _\<close> bm_test_set [OF ix [of 0]] by auto
    ultimately show ?thesis using ok True c b unfolding proc_ok_def table_ok_def created_def by auto
  next
    case False
    then obtain i where i: "0 < i" "i < 256" "\<not> bm_test (process_bitmap s) i" "process_bitmap t = bm_set (process_bitmap s) i"
      "next_pid t = next_pid s + 1" "pid (pcb_at t i) = next_pid s" "state_at t i = PROCESS_READY"
      "\<forall>j. j \<noteq> i \<longrightarrow> process_table t ! j = process_table s ! j"
      using c by (auto simp: created_def)
    have cur: "current_process t = current_process s" "length (process_table t) = length (process_table s)"
      using c by (auto simp: created_def)
    have dead: "\<not> live s i" using ok i(2,3) by (auto simp: proc_ok_def)
    have "unat (next_pid s) \<noteq> 0xFFFFFFFF" using n by (simp add: word_unat_eq_iff)
    then have up: "next_pid s < next_pid s + 1"
      using unsigned_less [of "next_pid s", where 'a = nat] by (simp add: word_less_nat_alt unat_word_ariths)
    have old: "0 < pid (pcb_at s j) \<and> pid (pcb_at s j) < next_pid s" if "j < 256" "live s j" for j
      using ok that by (simp add: proc_ok_def)
    have run: "\<exists>c. c < 256 \<and> current_process s = Some c \<and> live s c" 
      using ok by (force simp: proc_ok_def table_ok_def)
    then have pos: "0 < next_pid s" using old by (metis word_gt_0 word_not_simps(1))
    have bits: "bm_test (process_bitmap t) j \<longleftrightarrow> j = i \<or> bm_test (process_bitmap s) j" for j
      using i(2,4) bm_test_set [OF ix] by simp
    have same: "j \<noteq> i \<Longrightarrow> pcb_at t j = pcb_at s j" for j using i(8) by simp
    have ic: "current_process s \<noteq> Some i" using run dead ok i(2) by auto
    have pids: "0 < pid (pcb_at t j) \<and> pid (pcb_at t j) < next_pid t" if "j < 256" "live t j" for j
      using that old [of j] same [of j] i(5,6) up pos by (cases "j = i") auto
    have ne: "pid (pcb_at t j) \<noteq> pid (pcb_at t i)" if "j < 256" "live t j" "j \<noteq> i" for j
      using that old [of j] same [of j] i(6) by auto
    have oinj: "j = k" if "j < 256" "k < 256" "live s j" "live s k" "pid (pcb_at s j) = pid (pcb_at s k)" for j k
      using ok that unfolding proc_ok_def by blast
    have inj: "j = k" if "j < 256" "k < 256" "live t j" "live t k" "pid (pcb_at t j) = pid (pcb_at t k)" for j k
    proof (cases "j = i \<or> k = i")
      case True
      then show ?thesis using ne that by metis
    next
      case False
      then show ?thesis using oinj [of j k] same [of j] same [of k] that by simp
    qed
    have okj: "state_at s j = PROCESS_RUNNING \<longleftrightarrow> current_process s = Some j" "live s j \<Longrightarrow> bm_test (process_bitmap s) j"
      "0 < j \<Longrightarrow> bm_test (process_bitmap s) j \<Longrightarrow> live s j" if "j < 256" for j
      using ok that unfolding proc_ok_def by blast+
    have st: "state_at t j = PROCESS_RUNNING \<longleftrightarrow> current_process t = Some j" if "j < 256" for j
      using okj(1) [OF that] i(7) ic same [of j] cur(1) by (cases "j = i") simp_all
    have bt: "(live t j \<longrightarrow> bm_test (process_bitmap t) j) \<and> (0 < j \<longrightarrow> bm_test (process_bitmap t) j \<longrightarrow> live t j)" if "j < 256" for j
    proof (cases "j = i")
      case True
      then show ?thesis using i(7) bits by simp
    next
      case False
      then show ?thesis unfolding bits same [OF False] using okj(2,3) [OF that] by blast
    qed
    have "table_ok t" using tok cur b by (simp add: table_ok_def)
    moreover have "current_process t \<noteq> None" using run unfolding cur(1) by blast
    ultimately show ?thesis unfolding proc_ok_def using st bt pids inj by blast
  qed
qed

text \<open>Switching: the scheduler keeps the invariant even when the previous process has just terminated.\<close>

lemma switch_ok:
  assumes tok: "table_ok s" and i: "i < 256" "state_at s i = PROCESS_READY"
    and run: "\<And>j. j < 256 \<Longrightarrow> state_at s j = PROCESS_RUNNING \<Longrightarrow> current_process s = Some j"
    and bits: "\<And>j. j < 256 \<Longrightarrow> (live s j \<longrightarrow> bm_test (process_bitmap s) j) \<and> (0 < j \<longrightarrow> bm_test (process_bitmap s) j \<longrightarrow> live s j)"
    and pids: "\<And>j. j < 256 \<Longrightarrow> live s j \<Longrightarrow> 0 < pid (pcb_at s j) \<and> pid (pcb_at s j) < next_pid s"
    and inj: "\<And>j k. j < 256 \<Longrightarrow> k < 256 \<Longrightarrow> live s j \<Longrightarrow> live s k \<Longrightarrow> pid (pcb_at s j) = pid (pcb_at s k) \<Longrightarrow> j = k"
  shows "proc_ok (switch_to i (s\<lparr>current_index := w\<rparr>))"
proof -
  let ?t = "switch_to i (s\<lparr>current_index := w\<rparr>)"
  have st: "state_at ?t j = (if j = i then PROCESS_RUNNING else if current_process s = Some j \<and> state_at s j = PROCESS_RUNNING then PROCESS_READY else state_at s j)"
    and pid: "pid (pcb_at ?t j) = pid (pcb_at s j)" for j
    using switch_to_state [of i "s\<lparr>current_index := w\<rparr>" j] tok i(1) by (simp_all add: table_ok_def)
  have lv: "live ?t j \<longleftrightarrow> live s j" for j using st [of j] i(2) by auto
  have "state_at ?t j = PROCESS_RUNNING \<longleftrightarrow> current_process ?t = Some j" if "j < 256" for j
    using st [of j] run [OF that] by auto
  moreover have "table_ok ?t" by (rule table_ok_switch [OF tok i(1)])
  ultimately show ?thesis unfolding proc_ok_def lv pid using bits pids inj by simp
qed

lemma process_schedule_ok:
  assumes ok: "proc_ok s" and "process_schedule s = Inr t"
  shows "proc_ok t"
proof -
  obtain i where "next_ready s = Some i" and t: "t = switch_to i (s\<lparr>current_index := of_nat i\<rparr>)"
    using assms(2) by (auto simp: process_schedule_eq split: option.splits)
  then have i: "i < 256" "state_at s i = PROCESS_READY" using next_ready_Some by auto
  show ?thesis unfolding t
    by (rule switch_ok [OF _ i]) (use ok in \<open>unfold proc_ok_def, blast+\<close>)
qed

lemma process_exit_ok:
  assumes ok: "proc_ok s" and e: "process_exit code s = Inr t"
  shows "proc_ok t"
proof -
  obtain c where c: "current_process s = Some c" using ok by (auto simp: proc_ok_def)
  have tok: "table_ok s" and len: "c < length (process_table s)" and c256: "c < 256"
    using ok c by (auto simp: proc_ok_def table_ok_def)
  let ?s1 = "upd_pcb c (\<lambda>b. b\<lparr>exit_code := code, pstate := PROCESS_TERMINATED\<rparr>) s"
  obtain h where "process_schedule (?s1\<lparr>proc_heap := h, process_bitmap := bm_clear (process_bitmap s) c\<rparr>) = Inr t"
    using e c by (auto simp: process_exit_def Let_def bind_res_Inr_iff)
  then obtain u i where u: "u = ?s1\<lparr>proc_heap := h, process_bitmap := bm_clear (process_bitmap s) c\<rparr>"
    and "next_ready u = Some i" and t: "t = switch_to i (u\<lparr>current_index := of_nat i\<rparr>)"
    by (auto simp: process_schedule_eq split: option.splits)
  then have i: "i < 256" "state_at u i = PROCESS_READY" using next_ready_Some by blast+
  have tu: "table_ok u" using tok by (simp add: u table_ok_def)
  have st: "state_at u j = (if j = c then PROCESS_TERMINATED else state_at s j)" "pid (pcb_at u j) = pid (pcb_at s j)"
    "next_pid u = next_pid s" "current_process u = current_process s" for j
    using len by (simp_all add: u)
  have fits: "bm_fits (process_bitmap s) 256" using tok by (simp add: table_ok_def bm_fits_def)
  have bits: "bm_test (process_bitmap u) j \<longleftrightarrow> j \<noteq> c \<and> bm_test (process_bitmap s) j" for j
    using bm_test_clear [OF bm_fits_index [OF fits c256]] by (simp add: u)
  show ?thesis unfolding t
  proof (rule switch_ok [OF tu i])
    fix j :: nat assume "j < 256"
    then show "state_at u j = PROCESS_RUNNING \<Longrightarrow> current_process u = Some j"
      using ok unfolding st proc_ok_def by (metis c zero_neq_numeral)
    show "(live u j \<longrightarrow> bm_test (process_bitmap u) j) \<and> (0 < j \<longrightarrow> bm_test (process_bitmap u) j \<longrightarrow> live u j)"
      using ok \<open>j < 256\<close> unfolding st bits proc_ok_def by auto
    show "live u j \<Longrightarrow> 0 < pid (pcb_at u j) \<and> pid (pcb_at u j) < next_pid u"
      using ok \<open>j < 256\<close> unfolding st proc_ok_def by presburger
    fix k :: nat assume "k < 256"
    then show "live u j \<Longrightarrow> live u k \<Longrightarrow> pid (pcb_at u j) = pid (pcb_at u k) \<Longrightarrow> j = k"
      using ok \<open>j < 256\<close> unfolding st proc_ok_def by presburger
  qed
qed

lemma process_init_state:
  assumes "length (process_table s0) = 256" and "process_init s0 = Some (Inr s)"
  shows "table_ok s" "current_process s = Some 0" "next_pid s = next_pid s0 + 1" "pid (pcb_at s 0) = next_pid s0"
    "\<And>i. i < 256 \<Longrightarrow> state_at s i = (if i = 0 then PROCESS_RUNNING else PROCESS_TERMINATED)"
    "\<And>i. i < 256 \<Longrightarrow> bm_test (process_bitmap s) i \<longleftrightarrow> i = 0"
proof -
  let ?b = "map (pcb_of_update (pstate_update (\<lambda>_. PROCESS_TERMINATED))) (process_table s0)"
  obtain p h where "kmalloc KERNEL_STACK_SIZE (proc_heap s0) = Some (Inr (p, h))"
    and s: "s = (upd_pcb 0 (\<lambda>b. b\<lparr>pid := next_pid s0, ppid := 0, pstate := PROCESS_RUNNING, kernel_stack := p, user_stack := 0x7FFFF000\<rparr>)
      (s0\<lparr>process_table := ?b, process_bitmap := replicate 8 0, current_process := Some 0\<rparr>))
      \<lparr>next_pid := next_pid s0 + 1, process_bitmap := bm_set (replicate 8 0) 0, proc_heap := h\<rparr>"
    using assms(2) by (auto simp: process_init_def Let_def bind_run_Inr_iff)
  show "table_ok s" "current_process s = Some 0" "next_pid s = next_pid s0 + 1" "pid (pcb_at s 0) = next_pid s0"
    "\<And>i. i < 256 \<Longrightarrow> state_at s i = (if i = 0 then PROCESS_RUNNING else PROCESS_TERMINATED)"
    using assms(1) by (simp_all add: s table_ok_def upd_pcb_def nth_list_update)
  fix i :: nat assume "i < 256"
  then have "\<not> bm_test (replicate 8 (0 :: u32)) i" by (intro bm_test_replicate_0) (simp add: less_mult_imp_div_less)
  then show "bm_test (process_bitmap s) i \<longleftrightarrow> i = 0" by (simp add: s bm_test_set)
qed

lemma process_init_ok:
  assumes "length (process_table s0) = 256" and "process_init s0 = Some (Inr s)" and "next_pid s0 = 1"
  shows "proc_ok s"
proof -
  note i = process_init_state [OF assms(1,2)]
  have lv: "live s j \<longleftrightarrow> j = 0" if "j < 256" for j using i(5) [OF that] by simp
  have run: "state_at s j = PROCESS_RUNNING \<longleftrightarrow> current_process s = Some j" if "j < 256" for j
    using i(2) i(5) [OF that] by auto
  have pid: "0 < pid (pcb_at s 0) \<and> pid (pcb_at s 0) < next_pid s" unfolding i(3,4) assms(3) by simp
  have "current_process s \<noteq> None" using i(2) by simp
  then show ?thesis unfolding proc_ok_def using i(1,6) lv run pid by blast
qed

text \<open>
  The states the process management can reach from its initialisation. Creation is excluded when
  the counter of identifiers is about to wrap around.
\<close>

inductive proc_reach :: "kernel \<Rightarrow> bool" where
  boot: "length (process_table s0) = 256 \<Longrightarrow> next_pid s0 = 1 \<Longrightarrow> process_init s0 = Some (Inr s) \<Longrightarrow> proc_reach s"
| create: "proc_reach s \<Longrightarrow> next_pid s \<noteq> 0xFFFFFFFF \<Longrightarrow> process_create s = Some (Inr (p, t)) \<Longrightarrow> proc_reach t"
| create_enhanced: "proc_reach s \<Longrightarrow> next_pid s \<noteq> 0xFFFFFFFF \<Longrightarrow> process_create_enhanced name s = Some (Inr (p, t)) \<Longrightarrow> proc_reach t"
| exit: "proc_reach s \<Longrightarrow> process_exit code s = Inr t \<Longrightarrow> proc_reach t"
| tick: "proc_reach s \<Longrightarrow> process_schedule s = Inr t \<Longrightarrow> proc_reach t"

lemma created_bitmap: "proc_ok s \<Longrightarrow> created s p t \<Longrightarrow> length (process_bitmap t) = 8"
  unfolding created_def using bm_lengths(1) [of "process_bitmap s"] by (auto simp: proc_okD)

lemma proc_reach_ok: "proc_reach s \<Longrightarrow> proc_ok s"
proof (induction rule: proc_reach.induct)
  case (boot s0 s) then show ?case by (intro process_init_ok)
next
  case (create s p t)
  then have "created s p t" by (intro process_create_created proc_okD)
  then show ?case using create created_ok created_bitmap by blast
next
  case (create_enhanced s name p t)
  then have "created s p t" by (intro process_create_enhanced_created proc_okD)
  then show ?case using create_enhanced created_ok created_bitmap by blast
next
  case (exit s code t) then show ?case using process_exit_ok by blast
next
  case (tick s t) then show ?case using process_schedule_ok by blast
qed

text \<open>On a sound heap, creation always returns.\<close>

lemma process_create_returns:
  assumes ok: "proc_ok s" and inv: "heap_inv (proc_heap s) bs" and z: "bm_test (process_bitmap s) 0"
  shows "if slots_used s = {..<256} then process_create s = Some (Inr (0, s))
    else \<exists>t. process_create s = Some (Inr (next_pid s, t)) \<and> created s (next_pid s) t \<and> next_pid t = next_pid s + 1"
proof -
  have tok: "table_ok s" using ok by (simp add: proc_ok_def)
  have full: "slots_used s = {..<256} \<longleftrightarrow> pid_alloc s = None"
    using bm_set_of_subset [of "process_bitmap s" 256]
    by (auto simp: pid_alloc_None slots_used_def bm_set_of_full [symmetric])
  show ?thesis
  proof (cases "pid_alloc s")
    case None
    then show ?thesis using full by (simp add: process_create_def find_free_pid_def)
  next
    case (Some r)
    obtain i u where r: "r = (i, u)" by (cases r)
    then have i: "\<not> bm_test (process_bitmap s) i" "u = s\<lparr>process_bitmap := bm_set (process_bitmap s) i\<rparr>"
      using Some by (auto simp: pid_alloc_Some)
    then have "i \<noteq> 0" using z by metis
    obtain c where c: "current_process s = Some c" using ok by (auto simp: proc_ok_def)
    obtain p h where "kmalloc KERNEL_STACK_SIZE (proc_heap s) = Some (Inr (p, h))" using kmalloc_heap_inv [OF inv] by blast
    then obtain q t where t: "process_create s = Some (Inr (q, t))" "next_pid t = next_pid s + 1"
      using Some r i(2) \<open>i \<noteq> 0\<close> c by (simp add: process_create_def find_free_pid_def Let_def)
    have cr: "created s q t" by (rule process_create_created [OF tok t(1)])
    have "next_pid t \<noteq> next_pid s" using t(2) by simp
    then have "q = next_pid s" using cr unfolding created_def by blast
    then show ?thesis using full Some t cr by simp
  qed
qed

section \<open>A booted kernel\<close>

definition blank_process :: process where
  "blank_process = \<lparr>pcb_of = \<lparr>pid = 0, ppid = 0, pstate = 0, esp = 0, ebp = 0, eip = 0, cr3 = 0, kernel_stack = 0,
     user_stack = 0, exit_code = 0, creation_time = 0, cpu_time = 0\<rparr>, fd_table = replicate 32 \<lparr>fd_inode = 0, fd_offset = 0,
     fd_flags = 0, fd_private = 0, fd_ref_count = 0\<rparr>, cwd_inode = 0, proc_name = [], priority = 0\<rparr>"

definition blank_kernel :: "heap \<Rightarrow> kernel" where
  "blank_kernel h = \<lparr>process_table = replicate 256 blank_process, process_bitmap = replicate 8 0, current_process = None,
     next_pid = 1, current_index = 0, last_search = 0, timestamp = 0, proc_heap = h,
     debug_state = \<lparr>debug_level = 3, log_buffer = replicate 1024 0, log_index = 0, panic_count = 0, last_panic_time = 0\<rparr>, console = []\<rparr>"

lemma blank_kernel_sel [simp]:
  "length (process_table (blank_kernel h)) = 256" "next_pid (blank_kernel h) = 1" "proc_heap (blank_kernel h) = h"
  by (simp_all add: blank_kernel_def)

lemma kernel_booted:
  obtains h s bs where "heap_init 0x200000 = Inr h" "process_init (blank_kernel h) = Some (Inr s)" "heap_inv (proc_heap s) bs" "proc_reach s"
proof -
  obtain h where h: "heap_init 0x200000 = Inr h" by (rule boot_heap)
  have "heap_inv h [(16777192, False)]" by (rule heap_init_inv [OF _ h]) simp
  from kmalloc_heap_inv [OF this, of KERNEL_STACK_SIZE] obtain p :: u32 and h' bs where
    k: "kmalloc KERNEL_STACK_SIZE h = Some (Inr (p, h'))" "heap_inv h' bs" by blast
  then obtain s where s: "process_init (blank_kernel h) = Some (Inr s)" "proc_heap s = h'"
    by (simp add: process_init_def Let_def blank_kernel_def)
  have "proc_reach s" by (rule boot [OF _ _ s(1)]) simp_all
  with that h s k show ?thesis by simp
qed

section \<open>Properties\<close>



text \<open>
  C15. The scheduler is fair: a ready process runs after at most 256 calls of \<^verbatim>\<open>process_schedule\<close>,
  none of which panics.
\<close>

theorem schedule_fair:
  assumes "table_ok s" and "j < 256" and "state_at s j = PROCESS_READY"
  shows "\<exists>k\<le>256. \<exists>t. schedules k s = Inr t \<and> current_process t = Some j \<and> state_at t j = PROCESS_RUNNING"
proof -
  obtain d where d: "d < 256" "(unat (current_index s) + 1 + d) mod 256 = j"
    using cyclic_surj [OF assms(2), of "unat (current_index s) + 1"] by blast
  from schedules_reach [OF assms(1,3) d(2,1)] obtain k t where "k \<le> d + 1" "schedules k s = Inr t"
    "current_process t = Some j" "state_at t j = PROCESS_RUNNING" by blast
  with d(1) show ?thesis by (intro exI [of _ k]) auto
qed

theorem schedule_fair_witness:
  "\<exists>h s t k. process_init (blank_kernel h) = Some (Inr s) \<and>
     schedules k (upd_pcb 7 (pstate_update (\<lambda>_. PROCESS_READY)) s) = Inr t \<and> current_process t = Some 7"
proof -
  obtain h s bs where h: "process_init (blank_kernel h) = Some (Inr s)" "proc_reach s" by (rule kernel_booted)
  have t: "table_ok s" by (rule process_init_state [OF blank_kernel_sel(1) h(1)])
  let ?s = "upd_pcb 7 (pstate_update (\<lambda>_. PROCESS_READY)) s"
  have "table_ok ?s" "state_at ?s 7 = PROCESS_READY" using t by (simp_all add: table_ok_def)
  from schedule_fair [OF this(1) _ this(2)] h(1) show ?thesis by auto
qed

text \<open>
  \<^verbatim>\<open>process_create\<close> on every branch: with slot 0 in use and a sound heap it never faults; it returns 0
  without a change exactly if all 256 slots are used, and else the next identifier, whose process is
  ready in a slot that was free while all other slots are as before.
\<close>

theorem process_create_result:
  assumes "proc_ok s" and "heap_inv (proc_heap s) bs" and "bm_test (process_bitmap s) 0"
  shows "if slots_used s = {..<256} then process_create s = Some (Inr (0, s))
    else \<exists>t i. process_create s = Some (Inr (next_pid s, t)) \<and> i < 256 \<and> i \<notin> slots_used s \<and>
      pid (pcb_at t i) = next_pid s \<and> state_at t i = PROCESS_READY \<and> slots_used t = insert i (slots_used s) \<and>
      (\<forall>j. j \<noteq> i \<longrightarrow> process_table t ! j = process_table s ! j) \<and> next_pid t = next_pid s + 1"
proof (cases "slots_used s = {..<256}")
  case True
  then show ?thesis using process_create_returns [OF assms] by simp
next
  case False
  then obtain t where t: "process_create s = Some (Inr (next_pid s, t))" "created s (next_pid s) t" "next_pid t = next_pid s + 1"
    using process_create_returns [OF assms] by auto
  then have "next_pid t \<noteq> next_pid s" by simp
  then obtain i where i: "i < 256" "\<not> bm_test (process_bitmap s) i" "process_bitmap t = bm_set (process_bitmap s) i"
    "pid (pcb_at t i) = next_pid s" "state_at t i = PROCESS_READY" "\<forall>j. j \<noteq> i \<longrightarrow> process_table t ! j = process_table s ! j"
    using t(2) unfolding created_def by blast
  have "slots_ok s" using assms(1) by (simp add: proc_ok_def table_ok_def slots_ok_def)
  then have "slots_used t = insert i (slots_used s)" using i(1,3) by (simp add: slots_used_def bm_set_of_set slots_fits)
  then show ?thesis using False t(1,3) i by (auto simp: slots_used_iff)
qed

theorem process_create_result_witness:
  "\<exists>h s t. process_init (blank_kernel h) = Some (Inr s) \<and> process_create s = Some (Inr (2, t)) \<and> next_pid t = 3"
proof -
  obtain h s bs where h: "process_init (blank_kernel h) = Some (Inr s)" "heap_inv (proc_heap s) bs" "proc_reach s" by (rule kernel_booted)
  note i = process_init_state [OF blank_kernel_sel(1) h(1)]
  have bits: "bm_test (process_bitmap s) 0" "\<not> bm_test (process_bitmap s) 1" using i(6) [of 0] i(6) [of 1] by simp_all
  then have "1 \<notin> slots_used s" using slots_used_iff [of 1 s] by simp
  then have "slots_used s \<noteq> {..<256}" by (metis lessThan_iff one_less_numeral_iff semiring_norm(76))
  with process_create_result [OF proc_reach_ok [OF h(3)] h(2) bits(1)] obtain t where
    "process_create s = Some (Inr (next_pid s, t))" "next_pid t = next_pid s + 1" by auto
  with h(1) i(3) show ?thesis by auto
qed

text \<open>
  A system with a single process does not survive its first timer tick: after \<^verbatim>\<open>process_init\<close> the
  scheduler finds no ready process, since the running one is not ready, and panics.
\<close>

theorem first_tick_panics:
  assumes "length (process_table s0) = 256" and "process_init s0 = Some (Inr s)"
  shows "process_schedule s = Inl (Panic ''No runnable processes'')"
proof -
  have "next_ready s = None" unfolding next_ready_None using process_init_state(5) [OF assms] by simp
  then show ?thesis by (simp add: process_schedule_eq)
qed

theorem first_tick_panics_witness:
  "\<exists>h s. heap_init 0x200000 = Inr h \<and> process_init (blank_kernel h) = Some (Inr s) \<and>
     process_schedule s = Inl (Panic ''No runnable processes'')"
proof -
  obtain h s bs where h: "heap_init 0x200000 = Inr h" "process_init (blank_kernel h) = Some (Inr s)" by (rule kernel_booted)
  from first_tick_panics [OF blank_kernel_sel(1) h(2)] h show ?thesis by blast
qed

end
