(* ===== verification/Solix_Keyboard.thy ===== *)
theory Solix_Keyboard
  imports Solix_Base
begin

text \<open>
  The keyboard driver of \<^verbatim>\<open>drivers/keyboard.c\<close>: the interrupt handler translates scan codes with two
  tables and puts characters into a ring of 256 slots, readers take them out. The contract of such a
  ring, a bounded first-in first-out queue, is the locale \<open>bounded_queue\<close>.
\<close>

section \<open>The contract of a bounded queue\<close>

locale bounded_queue =
  fixes invar :: "'s \<Rightarrow> bool"
    and items :: "'s \<Rightarrow> 'a list"
    and cap :: nat
    and put :: "'a \<Rightarrow> 's \<Rightarrow> 's"
    and get :: "'s \<Rightarrow> ('a \<times> 's) option"
  assumes bound: "invar s \<Longrightarrow> length (items s) \<le> cap"
    and put_invar: "invar s \<Longrightarrow> invar (put x s)"
    and put_room: "invar s \<Longrightarrow> length (items s) < cap \<Longrightarrow> items (put x s) = items s @ [x]"
    and put_full: "invar s \<Longrightarrow> length (items s) = cap \<Longrightarrow> items (put x s) = items s"
    and get_empty: "invar s \<Longrightarrow> items s = [] \<Longrightarrow> get s = None"
    and get_first: "invar s \<Longrightarrow> items s = x # xs \<Longrightarrow> \<exists>t. get s = Some (x, t) \<and> invar t \<and> items t = xs"
begin

lemma puts:
  assumes "invar s" and "length (items s) + length xs \<le> cap"
  shows "invar (fold put xs s) \<and> items (fold put xs s) = items s @ xs"
  using assms
proof (induction xs arbitrary: s)
  case (Cons x xs)
  have p: "invar (put x s)" "items (put x s) = items s @ [x]"
    using put_invar put_room Cons.prems by auto
  from Cons.IH [OF p(1)] p(2) Cons.prems(2) show ?case by simp
qed simp

text \<open>Whatever arrives, the oldest items are kept: later ones are dropped when the queue is full.\<close>

lemma puts_prefix:
  assumes "invar s"
  shows "invar (fold put xs s) \<and> items (fold put xs s) = take cap (items s @ xs)"
  using assms
proof (induction xs arbitrary: s)
  case Nil
  then show ?case using bound [of s] by simp
next
  case (Cons x xs)
  have p: "invar (put x s)" by (rule put_invar [OF Cons.prems])
  show ?case
  proof (cases "length (items s) < cap")
    case True
    then show ?thesis using Cons.IH [OF p] put_room [OF Cons.prems] by simp
  next
    case False
    then have "length (items s) = cap" using bound [OF Cons.prems] by simp
    then show ?thesis using Cons.IH [OF p] put_full [OF Cons.prems] by simp
  qed
qed

end

section \<open>State\<close>

record keyboard =
  keyboard_buffer :: "u8 list"
  buffer_head :: nat
  buffer_tail :: nat
  shift_pressed :: bool
  caps_lock :: bool

text \<open>The two tables; the entries behind the listed ones are zero.\<close>

definition layout :: "string \<Rightarrow> string \<Rightarrow> string \<Rightarrow> string \<Rightarrow> u8 list" where
  "layout digits row1 row2 row3 =
     [0, 0] @ map of_char digits @ [8, 9] @ map of_char row1 @ [10, 0] @ map of_char row2 @ [0] @ map of_char row3 @
     [0, 42, 0, 32] @ replicate 23 0 @ [45, 0, 0, 0, 43] @ replicate 42 0"

definition scancode_to_char :: "u8 list" where
  "scancode_to_char = layout ''1234567890-='' ''qwertyuiop[]'' (''asdfghjkl;'' @ [CHR 0x27, CHR 0x60]) (CHR 0x5C # ''zxcvbnm,./'')"

definition scancode_to_char_shift :: "u8 list" where
  "scancode_to_char_shift = layout ''!@#$%^&*()_+'' ''QWERTYUIOP{}'' (''ASDFGHJKL:'' @ [CHR 0x22, CHR 0x7E]) ''|ZXCVBNM<>?''"

section \<open>Operations\<close>

definition keyboard_reset :: "keyboard \<Rightarrow> keyboard" where
  "keyboard_reset k = k\<lparr>buffer_head := 0, buffer_tail := 0, shift_pressed := False, caps_lock := False\<rparr>"

definition buffer_put :: "u8 \<Rightarrow> keyboard \<Rightarrow> keyboard" where
  "buffer_put c k =
     (let next_head = (buffer_head k + 1) mod 256
      in if next_head \<noteq> buffer_tail k
         then k\<lparr>keyboard_buffer := (keyboard_buffer k)[buffer_head k := c], buffer_head := next_head\<rparr>
         else k)"

text \<open>The character a key press stands for, 0 for none.\<close>

definition pressed_char :: "u8 \<Rightarrow> bool \<Rightarrow> bool \<Rightarrow> u8" where
  "pressed_char scancode shift caps =
     (if scancode = 42 \<or> scancode = 54 then 0
      else if scancode = 14 then 8
      else if scancode = 15 then 9
      else if scancode = 28 then 10
      else if scancode = 1 then 27
      else if scancode < 128 then
        (if shift \<noteq> caps then scancode_to_char_shift ! unat scancode
         else scancode_to_char ! unat scancode)
      else 0)"

text \<open>The handler, with the value read from port \<^verbatim>\<open>0x60\<close>.\<close>

definition keyboard_handler :: "u8 \<Rightarrow> keyboard \<Rightarrow> keyboard" where
  "keyboard_handler code k =
     (if code AND 0x80 \<noteq> 0 then
        let scancode = code AND 0x7F
        in if scancode = 42 \<or> scancode = 54 then k\<lparr>shift_pressed := False\<rparr>
           else if scancode = 58 then k\<lparr>caps_lock := \<not> caps_lock k\<rparr>
           else k
      else let k1 = (if code = 42 \<or> code = 54 then k\<lparr>shift_pressed := True\<rparr> else k);
               c = pressed_char code (shift_pressed k1) (caps_lock k1)
           in if c \<noteq> 0 then buffer_put c k1 else k1)"

definition keyboard_available :: "keyboard \<Rightarrow> bool" where
  "keyboard_available k \<longleftrightarrow> buffer_head k \<noteq> buffer_tail k"

definition buffer_get :: "keyboard \<Rightarrow> (u8 \<times> keyboard) option" where
  "buffer_get k =
     (if buffer_head k = buffer_tail k then None
      else Some (keyboard_buffer k ! buffer_tail k, k\<lparr>buffer_tail := (buffer_tail k + 1) mod 256\<rparr>))"

text \<open>
  \<^verbatim>\<open>keyboard_getchar\<close> halts the processor until an interrupt comes. The list holds the scan codes of
  the interrupts to come; the result has those that are still left, and waiting for ever is \<open>None\<close>.
\<close>

fun keyboard_getchar :: "u8 list \<Rightarrow> keyboard \<Rightarrow> (u8 \<times> u8 list \<times> keyboard) option" where
  "keyboard_getchar codes k =
     (case buffer_get k of
        Some (c, k1) \<Rightarrow> Some (c, codes, k1)
      | None \<Rightarrow> (case codes of [] \<Rightarrow> None | code # rest \<Rightarrow> keyboard_getchar rest (keyboard_handler code k)))"

declare keyboard_getchar.simps [simp del]

lemma layouts_length: "length scancode_to_char = 128" "length scancode_to_char_shift = 128"
  by code_simp+

section \<open>The ring is a bounded queue\<close>

definition kbd_ok :: "keyboard \<Rightarrow> bool" where
  "kbd_ok k \<longleftrightarrow> length (keyboard_buffer k) = 256 \<and> buffer_head k < 256 \<and> buffer_tail k < 256"

definition kbd_count :: "keyboard \<Rightarrow> nat" where
  "kbd_count k = (buffer_head k + (256 - buffer_tail k)) mod 256"

definition kbd_items :: "keyboard \<Rightarrow> u8 list" where
  "kbd_items k = map (\<lambda>i. keyboard_buffer k ! ((buffer_tail k + i) mod 256)) [0..<kbd_count k]"

lemma kbd_head: "kbd_ok k \<Longrightarrow> (buffer_tail k + kbd_count k) mod 256 = buffer_head k"
  by (auto simp: kbd_ok_def kbd_count_def mod_if)

lemma kbd_full: "kbd_ok k \<Longrightarrow> (buffer_head k + 1) mod 256 = buffer_tail k \<longleftrightarrow> kbd_count k = 255"
  by (auto simp: kbd_ok_def kbd_count_def mod_if)

lemma kbd_count_lt: "kbd_count k < 256"
  by (simp add: kbd_count_def)

lemma kbd_count_0: "kbd_ok k \<Longrightarrow> kbd_count k = 0 \<longleftrightarrow> buffer_head k = buffer_tail k"
  by (auto simp: kbd_ok_def kbd_count_def mod_if)

lemma ring_other: "i < n \<Longrightarrow> n < 256 \<Longrightarrow> (t + i) mod 256 \<noteq> (t + n) mod (256 :: nat)"
proof
  assume i: "i < n" "n < 256" and eq: "(t + i) mod 256 = (t + n) mod 256"
  have "256 dvd (t + n) - (t + i)" using mod_eq_dvd_iff_nat [of "t + i" "t + n" 256] eq i(1) by simp
  then have "256 dvd n - i" by simp
  with i show False by (auto dest: dvd_imp_le)
qed

lemma buffer_put_items:
  assumes ok: "kbd_ok k" and room: "kbd_count k < 255"
  shows "kbd_ok (buffer_put c k) \<and> kbd_items (buffer_put c k) = kbd_items k @ [c]"
proof -
  have ne: "(buffer_head k + 1) mod 256 \<noteq> buffer_tail k" using kbd_full [OF ok] room by simp
  let ?k = "k\<lparr>keyboard_buffer := (keyboard_buffer k)[buffer_head k := c], buffer_head := (buffer_head k + 1) mod 256\<rparr>"
  have put: "buffer_put c k = ?k" using ne by (simp add: buffer_put_def Let_def)
  have cnt: "kbd_count ?k = kbd_count k + 1"
    using ok room by (auto simp: kbd_ok_def kbd_count_def mod_if split: if_splits)
  have old: "(keyboard_buffer k)[buffer_head k := c] ! ((buffer_tail k + i) mod 256) = keyboard_buffer k ! ((buffer_tail k + i) mod 256)"
    if "i < kbd_count k" for i
    using ring_other [OF that kbd_count_lt, of "buffer_tail k"] kbd_head [OF ok] by (metis nth_list_update_neq)
  have new: "(keyboard_buffer k)[buffer_head k := c] ! ((buffer_tail k + kbd_count k) mod 256) = c"
    using kbd_head [OF ok] ok by (simp add: kbd_ok_def)
  have "kbd_items ?k = kbd_items k @ [c]" unfolding kbd_items_def cnt using old new by simp
  moreover have "kbd_ok ?k" using ok by (simp add: kbd_ok_def)
  ultimately show ?thesis using put by simp
qed

interpretation kbd: bounded_queue kbd_ok kbd_items 255 buffer_put buffer_get
proof (unfold_locales, goal_cases)
  case (1 s) then show ?case using kbd_count_lt [of s] by (simp add: kbd_items_def)
next
  case (2 s x)
  then show ?case using buffer_put_items [OF 2, of x] kbd_full [OF 2] kbd_count_lt [of s]
    by (cases "kbd_count s < 255") (simp_all add: buffer_put_def Let_def)
next
  case (3 s x) then show ?case using buffer_put_items [of s x] by (simp add: kbd_items_def)
next
  case (4 s x)
  then have "kbd_count s = 255" by (simp add: kbd_items_def)
  then show ?case using kbd_full [OF 4(1)] by (simp add: buffer_put_def Let_def)
next
  case (5 s) then show ?case using kbd_count_0 [of s] by (simp add: kbd_items_def buffer_get_def)
next
  case (6 s x xs)
  let ?t = "s\<lparr>buffer_tail := (buffer_tail s + 1) mod 256\<rparr>"
  have "length (kbd_items s) \<noteq> 0" using 6(2) by simp
  then have pos: "kbd_count s \<noteq> 0" by (simp add: kbd_items_def)
  then have ne: "buffer_head s \<noteq> buffer_tail s" using kbd_count_0 [OF 6(1)] by simp
  have cnt: "kbd_count s = Suc (kbd_count ?t)"
    using 6(1) ne by (auto simp: kbd_ok_def kbd_count_def mod_if split: if_splits)
  have "kbd_items s = keyboard_buffer s ! buffer_tail s # kbd_items ?t"
    unfolding kbd_items_def cnt using 6(1)
    by (simp add: upt_conv_Cons map_Suc_upt [symmetric] kbd_ok_def mod_simps del: upt_Suc)
  moreover have "buffer_get s = Some (keyboard_buffer s ! buffer_tail s, ?t)" using ne by (simp add: buffer_get_def)
  moreover have "kbd_ok ?t" using 6(1) by (simp add: kbd_ok_def)
  ultimately show ?case using 6(2) by auto
qed

section \<open>What has been typed\<close>

text \<open>The characters a sequence of scan codes stands for, given the state of the two modifiers.\<close>

fun typed :: "bool \<Rightarrow> bool \<Rightarrow> u8 list \<Rightarrow> u8 list" where
  "typed shift caps [] = []"
| "typed shift caps (code # codes) =
     (if code = 42 \<or> code = 54 then typed True caps codes
      else if code = 170 \<or> code = 182 then typed False caps codes
      else if code = 186 then typed shift (\<not> caps) codes
      else if code < 128 \<and> pressed_char code shift caps \<noteq> 0 then pressed_char code shift caps # typed shift caps codes
      else typed shift caps codes)"

text \<open>The set bit that marks the release of a key.\<close>

lemma release_bit:
  fixes code :: u8
  shows "code AND 0x80 \<noteq> 0 \<longleftrightarrow> 128 \<le> code" and "128 \<le> code \<Longrightarrow> code AND 0x7F = code - 128"
proof -
  have b: "code AND 0x80 \<noteq> 0 \<longleftrightarrow> bit code 7"
    using and_exp_eq_0_iff_not_bit [of code 7] by simp
  have m: "code AND 0x7F = take_bit 7 code" by (simp add: take_bit_eq_mask mask_eq_exp_minus_1)
  have lt: "unat code < 256" using unsigned_less [of code, where 'a = nat] by simp
  have u: "unat (take_bit 7 code) = unat code mod 128" by (simp add: take_bit_eq_mod unat_mod_distrib)
  have "bit code 7 \<longleftrightarrow> bit (unat code) 7" by (simp add: bit_unsigned_iff)
  also have "\<dots> \<longleftrightarrow> odd (unat code div 128)" by (simp add: bit_iff_odd)
  also have "\<dots> \<longleftrightarrow> 128 \<le> unat code" using lt by (cases "unat code < 128") (simp_all add: div_if)
  finally show "code AND 0x80 \<noteq> 0 \<longleftrightarrow> 128 \<le> code" using b by (simp add: word_le_nat_alt)
  assume "128 \<le> code"
  then have "unat (code - 128) = unat code - 128" by (simp add: unat_sub_if_size word_le_nat_alt)
  moreover have "unat code mod 128 = unat code - 128" using lt \<open>128 \<le> code\<close> by (simp add: word_le_nat_alt mod_if)
  ultimately show "code AND 0x7F = code - 128" using m u by (simp add: word_unat_eq_iff)
qed

lemma keyboard_handler_cases:
  "keyboard_handler code k =
     (if code = 42 \<or> code = 54 then k\<lparr>shift_pressed := True\<rparr>
      else if code = 170 \<or> code = 182 then k\<lparr>shift_pressed := False\<rparr>
      else if code = 186 then k\<lparr>caps_lock := \<not> caps_lock k\<rparr>
      else if code < 128 \<and> pressed_char code (shift_pressed k) (caps_lock k) \<noteq> 0
           then buffer_put (pressed_char code (shift_pressed k) (caps_lock k)) k
      else k)"
proof (cases "128 \<le> code")
  case True
  have "code - 128 = n \<longleftrightarrow> code = n + 128" for n by (metis diff_add_cancel add_diff_cancel)
  then show ?thesis using True release_bit(1) [of code] release_bit(2) [OF True]
    by (simp add: keyboard_handler_def not_less [symmetric] Let_def) auto
next
  case False
  then show ?thesis using release_bit(1) [of code] by (auto simp: keyboard_handler_def pressed_char_def Let_def)
qed

lemma buffer_put_modifiers [simp]:
  "shift_pressed (buffer_put c k) = shift_pressed k" "caps_lock (buffer_put c k) = caps_lock k"
  by (simp_all add: buffer_put_def Let_def)

lemma kbd_modifiers [simp]:
  "kbd_items (k\<lparr>shift_pressed := b\<rparr>) = kbd_items k" "kbd_items (k\<lparr>caps_lock := b\<rparr>) = kbd_items k"
  "kbd_ok (k\<lparr>shift_pressed := b\<rparr>) = kbd_ok k" "kbd_ok (k\<lparr>caps_lock := b\<rparr>) = kbd_ok k"
  by (simp_all add: kbd_items_def kbd_count_def kbd_ok_def)

lemma handler_ok: "kbd_ok k \<Longrightarrow> kbd_ok (keyboard_handler code k)"
  by (simp add: keyboard_handler_cases kbd.put_invar)

lemma handler_items:
  assumes "kbd_ok k"
  shows "take 255 (kbd_items (keyboard_handler code k) @ typed (shift_pressed (keyboard_handler code k)) (caps_lock (keyboard_handler code k)) codes) =
    take 255 (kbd_items k @ typed (shift_pressed k) (caps_lock k) (code # codes))"
proof -
  have "take 255 (kbd_items (buffer_put c k) @ xs) = take 255 (kbd_items k @ c # xs)" for c xs
    using kbd.puts_prefix [OF assms, of "[c]"] kbd.bound [OF assms]
    by (cases "length (kbd_items k) < 255") (simp_all add: kbd.put_room [OF assms] kbd.put_full [OF assms])
  then show ?thesis by (simp add: keyboard_handler_cases)
qed

lemma handler_typed:
  "kbd_ok k \<Longrightarrow> kbd_ok (fold keyboard_handler codes k) \<and>
     kbd_items (fold keyboard_handler codes k) = take 255 (kbd_items k @ typed (shift_pressed k) (caps_lock k) codes)"
proof (induction codes arbitrary: k)
  case Nil
  then show ?case using kbd.bound [of k] by simp
next
  case (Cons code codes)
  from Cons.IH [OF handler_ok [OF Cons.prems, of code]] handler_items [OF Cons.prems, of code codes] show ?case by simp
qed

text \<open>\<^verbatim>\<open>keyboard_getchar\<close> returns the first character of a text and leaves the others, or waits for ever.\<close>

definition delivers :: "u8 list \<Rightarrow> keyboard \<Rightarrow> u8 list \<Rightarrow> bool" where
  "delivers codes k str =
     (case str of
        [] \<Rightarrow> keyboard_getchar codes k = None
      | c # cs \<Rightarrow> \<exists>used rest k'. codes = used @ rest \<and> keyboard_getchar codes k = Some (c, rest, k') \<and> kbd_ok k' \<and>
          kbd_items k' @ typed (shift_pressed k') (caps_lock k') rest = cs)"

lemma delivers_step:
  "keyboard_getchar (code # codes) k = keyboard_getchar codes k' \<Longrightarrow> delivers codes k' str \<Longrightarrow> delivers (code # codes) k str"
  unfolding delivers_def by (cases str) (simp_all, metis append_Cons)

lemma delivers_first:
  assumes "kbd_ok k" and "kbd_items k = c # cs"
  shows "delivers codes k (kbd_items k @ typed (shift_pressed k) (caps_lock k) codes)"
proof -
  obtain t where t: "buffer_get k = Some (c, t)" "kbd_ok t" "kbd_items t = cs" using kbd.get_first [OF assms] by blast
  have "shift_pressed t = shift_pressed k" "caps_lock t = caps_lock k" using t(1) by (auto simp: buffer_get_def split: if_splits)
  then show ?thesis using t assms(2) by (simp add: delivers_def keyboard_getchar.simps)
qed

lemma getchar_typed: "kbd_ok k \<Longrightarrow> delivers codes k (kbd_items k @ typed (shift_pressed k) (caps_lock k) codes)"
proof (induction codes arbitrary: k)
  case Nil
  then show ?case using kbd.get_empty [OF Nil] delivers_first [OF Nil]
    by (cases "kbd_items k") (simp add: delivers_def keyboard_getchar.simps, blast)
next
  case (Cons code codes)
  show ?case
  proof (cases "kbd_items k")
    case Nil
    let ?k = "keyboard_handler code k"
    have g: "buffer_get k = None" by (rule kbd.get_empty [OF Cons.prems Nil])
    have "kbd_items ?k @ typed (shift_pressed ?k) (caps_lock ?k) codes = kbd_items k @ typed (shift_pressed k) (caps_lock k) (code # codes)"
      using Nil kbd.put_room [OF Cons.prems] by (simp add: keyboard_handler_cases)
    moreover have "keyboard_getchar (code # codes) k = keyboard_getchar codes ?k"
      using g by (simp add: keyboard_getchar.simps [of "code # codes"])
    ultimately show ?thesis using Cons.IH [OF handler_ok [OF Cons.prems, of code]] delivers_step by metis
  next
    case (Cons c cs)
    then show ?thesis using delivers_first [OF Cons.prems] by blast
  qed
qed

section \<open>Properties\<close>

text \<open>
  C17. Keyboard input is a bounded queue of what was typed. After any sequence of keyboard interrupts
  the buffer holds the characters it had, followed by those the scan codes stand for, cut off at 255;
  \<^verbatim>\<open>keyboard_getchar\<close> returns the first character that is in the buffer or will be typed and leaves the
  following ones, and waits for ever only if there is none.
\<close>

theorem keyboard_delivers_typed_text:
  assumes "kbd_ok k"
  shows "kbd_ok (fold keyboard_handler codes k) \<and>
    kbd_items (fold keyboard_handler codes k) = take 255 (kbd_items k @ typed (shift_pressed k) (caps_lock k) codes) \<and>
    (case kbd_items k @ typed (shift_pressed k) (caps_lock k) codes of
       [] \<Rightarrow> keyboard_getchar codes k = None
     | c # cs \<Rightarrow> \<exists>used rest k'. codes = used @ rest \<and> keyboard_getchar codes k = Some (c, rest, k') \<and> kbd_ok k' \<and>
         kbd_items k' @ typed (shift_pressed k') (caps_lock k') rest = cs)"
  using handler_typed [OF assms] getchar_typed [OF assms, of codes] by (simp only: delivers_def)

theorem keyboard_delivers_typed_text_witness:
  "kbd_items (fold keyboard_handler [42, 35, 170, 23, 151, 28]
     \<lparr>keyboard_buffer = replicate 256 0, buffer_head = 255, buffer_tail = 255, shift_pressed = False, caps_lock = False\<rparr>) = [72, 105, 10]"
proof -
  let ?k = "\<lparr>keyboard_buffer = replicate 256 0, buffer_head = 255, buffer_tail = 255, shift_pressed = False, caps_lock = False\<rparr> :: keyboard"
  have ok: "kbd_ok ?k" by (simp add: kbd_ok_def)
  have e: "kbd_items ?k = []" by (simp add: kbd_items_def kbd_count_def)
  have t: "typed False False [42, 35, 170, 23, 151, 28] = [72, 105, 10]" by code_simp
  from keyboard_delivers_typed_text [OF ok, of "[42, 35, 170, 23, 151, 28]"] show ?thesis
    by (simp add: e t del: fold_simps typed.simps)
qed

end
