(* ===== verification/Solix_Interrupts.thy ===== *)
theory Solix_Interrupts
  imports Solix_Process Solix_Keyboard
begin

text \<open>
  Interrupts, after \<^verbatim>\<open>kernel/interrupts.c\<close> and \<^verbatim>\<open>drivers/timer.c\<close>: the descriptor table, the handlers
  of the sixteen interrupt lines, and the dispatcher, which composes the timer, the keyboard of
  \<open>Solix_Keyboard\<close> and the scheduler of \<open>Solix_Process\<close>. The addresses of the assembler stubs are
  parameters; a handler is the name of the C function it points to. Writes to ports are recorded.
\<close>

declare of_nat_add [simp del]

section \<open>State\<close>

record idt_entry =
  base_low :: u16
  selector :: u16
  zero :: u8
  type_attr :: u8
  base_high :: u16

record idt_ptr =
  limit :: u16
  base :: u32

datatype irq_fn = timer_handler_fn | keyboard_handler_fn

abbreviation IRQ_TIMER :: u8 where "IRQ_TIMER \<equiv> 0"
abbreviation IRQ_KEYBOARD :: u8 where "IRQ_KEYBOARD \<equiv> 1"
abbreviation SYSCALL_INT :: u8 where "SYSCALL_INT \<equiv> 0x80"

record machine =
  idt :: "idt_entry list"
  idt_reg :: idt_ptr
  irq_handlers :: "irq_fn option list"
  timer_ticks :: u32
  kbd_state :: keyboard
  kernel_state :: kernel
  ports :: "(u16 \<times> u8) list"

section \<open>The descriptor table\<close>

definition idt_set_gate :: "u8 \<Rightarrow> u32 \<Rightarrow> u16 \<Rightarrow> u8 \<Rightarrow> idt_entry list \<Rightarrow> idt_entry list" where
  "idt_set_gate num addr sel flags t =
     t[unat num := (t ! unat num)\<lparr>base_low := ucast (addr AND 0xFFFF), base_high := ucast (drop_bit 16 addr AND 0xFFFF),
                                selector := sel, zero := 0, type_attr := flags\<rparr>]"

definition outb :: "u16 \<Rightarrow> u8 \<Rightarrow> machine \<Rightarrow> machine" where
  "outb port v m = m\<lparr>ports := ports m @ [(port, v)]\<rparr>"

text \<open>A run of gates from \<open>first\<close> on, with kernel code segment and the type of an interrupt gate.\<close>

definition set_gates :: "nat \<Rightarrow> (nat \<Rightarrow> u32) \<Rightarrow> nat list \<Rightarrow> idt_entry list \<Rightarrow> idt_entry list" where
  "set_gates first addr is t = fold (\<lambda>i t. idt_set_gate (of_nat (first + i)) (addr i) 0x08 0x8E t) is t"

definition interrupts_init :: "(nat \<Rightarrow> u32) \<Rightarrow> (nat \<Rightarrow> u32) \<Rightarrow> u32 \<Rightarrow> u32 \<Rightarrow> machine \<Rightarrow> machine" where
  "interrupts_init isr irq syscall idt_addr m =
     (let t0 = fold (\<lambda>i t. idt_set_gate (of_nat i) 0 0 0 t) [0..<256] (idt m);
          t1 = set_gates 0 isr [0..<20] t0;
          t2 = set_gates 32 irq [0..<16] t1;
          t3 = idt_set_gate SYSCALL_INT syscall 0x08 0x8E t2;
          m1 = m\<lparr>idt := t3, idt_reg := \<lparr>limit = 256 * 8 - 1, base = idt_addr\<rparr>\<rparr>
      in fold (\<lambda>(p, v). outb p v)
           [(0x20, 0x11), (0xA0, 0x11), (0x20, 0x20), (0xA0, 0x28), (0x20, 0x04), (0xA0, 0x02),
            (0x20, 0x01), (0xA0, 0x01), (0x20, 0x00), (0xA0, 0x00)] m1)"

section \<open>Timer and handlers\<close>

definition irq_register_handler :: "u8 \<Rightarrow> irq_fn \<Rightarrow> machine \<Rightarrow> fault + machine" where
  "irq_register_handler irq f m =
     (if unat irq < length (irq_handlers m) then Inr (m\<lparr>irq_handlers := (irq_handlers m)[unat irq := Some f]\<rparr>)
      else Inl Out_Of_Bounds)"

definition timer_init :: "machine \<Rightarrow> fault + machine" where
  "timer_init m =
     bind_res (irq_register_handler IRQ_TIMER timer_handler_fn m) (\<lambda>m1.
       let divisor = 1193180 div 100 :: u32
       in Inr ((outb 0x40 (ucast (drop_bit 8 divisor AND 0xFF)) (outb 0x40 (ucast (divisor AND 0xFF)) (outb 0x43 0x36 m1)))
               \<lparr>timer_ticks := 0\<rparr>))"

definition timer_handler :: "machine \<Rightarrow> machine" where
  "timer_handler m = m\<lparr>timer_ticks := timer_ticks m + 1\<rparr>"

definition timer_get_ticks :: "machine \<Rightarrow> u32" where
  "timer_get_ticks m = timer_ticks m"

text \<open>\<^verbatim>\<open>timer_wait\<close> with the number of timer interrupts that come while it halts; \<open>None\<close> is waiting for ever.\<close>

fun timer_wait_loop :: "nat \<Rightarrow> u32 \<Rightarrow> u32 \<Rightarrow> machine \<Rightarrow> machine option" where
  "timer_wait_loop n start t m =
     (if timer_ticks m - start < t
      then (case n of 0 \<Rightarrow> None | Suc k \<Rightarrow> timer_wait_loop k start t (timer_handler m))
      else Some m)"

declare timer_wait_loop.simps [simp del]

definition timer_wait :: "nat \<Rightarrow> u32 \<Rightarrow> machine \<Rightarrow> machine option" where
  "timer_wait n t m = timer_wait_loop n (timer_ticks m) t m"

definition keyboard_init :: "machine \<Rightarrow> fault + machine" where
  "keyboard_init m =
     bind_res (irq_register_handler IRQ_KEYBOARD keyboard_handler_fn m) (\<lambda>m1.
       Inr (m1\<lparr>kbd_state := keyboard_reset (kbd_state m1)\<rparr>))"

section \<open>Dispatch\<close>

text \<open>The argument \<open>code\<close> is what the keyboard controller has in its data port.\<close>

definition call_irq_fn :: "irq_fn \<Rightarrow> u8 \<Rightarrow> machine \<Rightarrow> machine" where
  "call_irq_fn f code m =
     (case f of timer_handler_fn \<Rightarrow> timer_handler m
      | keyboard_handler_fn \<Rightarrow> m\<lparr>kbd_state := keyboard_handler code (kbd_state m)\<rparr>)"

definition irq_handler :: "u8 \<Rightarrow> u8 \<Rightarrow> machine \<Rightarrow> fault + machine" where
  "irq_handler irq code m =
     (if unat irq \<ge> length (irq_handlers m) then Inl Out_Of_Bounds
      else let m1 = (case irq_handlers m ! unat irq of None \<Rightarrow> m | Some f \<Rightarrow> call_irq_fn f code m);
               m2 = (if irq \<ge> 8 then outb 0xA0 0x20 m1 else m1);
               m3 = outb 0x20 0x20 m2
           in if irq = IRQ_TIMER
              then bind_res (process_schedule (kernel_state m3)) (\<lambda>k. Inr (m3\<lparr>kernel_state := k\<rparr>))
              else Inr m3)"

text \<open>What an exception prints on the console, and the panic it ends in.\<close>

definition exception_messages :: "string list" where
  "exception_messages =
     [''Division by Zero'', ''Debug'', ''Non-Maskable Interrupt'', ''Breakpoint'', ''Overflow'', ''Bound Range Exceeded'',
      ''Invalid Opcode'', ''Device Not Available'', ''Double Fault'', ''Coprocessor Segment Overrun'', ''Invalid TSS'',
      ''Segment Not Present'', ''Stack-Segment Fault'', ''General Protection Fault'', ''Page Fault'', ''Reserved'',
      ''x87 FPU Error'', ''Alignment Check'', ''Machine Check'', ''SIMD Floating-Point Exception'']"

definition exception_handler :: "u8 \<Rightarrow> string \<times> fault" where
  "exception_handler exc =
     ([CHR ''\<newline>''] @ ''!!! KERNEL EXCEPTION !!!'' @ [CHR ''\<newline>''] @
      (if unat exc < length exception_messages
       then ''Exception: '' @ exception_messages ! unat exc @ [CHR ''\<newline>'']
       else ''Unknown exception'' @ [CHR ''\<newline>'']),
      Panic ''Unrecoverable exception'')"

section \<open>The table after initialisation\<close>

text \<open>The address the processor jumps to for an entry.\<close>

definition gate_addr :: "idt_entry \<Rightarrow> u32" where
  "gate_addr e = ucast (base_low e) OR push_bit 16 (ucast (base_high e))"

lemma set_gate_length [simp]: "length (idt_set_gate n a s f t) = length t"
  by (simp add: idt_set_gate_def)

lemma gate_addr_set: "gate_addr (e\<lparr>base_low := ucast (a AND 0xFFFF), base_high := ucast (drop_bit 16 a AND 0xFFFF), selector := s, zero := z, type_attr := f\<rparr>) = a"
proof -
  have m: "(0xFFFF :: u32) = mask 16" by (simp add: mask_eq_exp_minus_1)
  show ?thesis unfolding gate_addr_def m by (rule bit_word_eqI) (auto simp: bit_simps)
qed

definition is_gate :: "u32 \<Rightarrow> u16 \<Rightarrow> u8 \<Rightarrow> idt_entry \<Rightarrow> bool" where
  "is_gate a s f e \<longleftrightarrow> gate_addr e = a \<and> selector e = s \<and> zero e = 0 \<and> type_attr e = f"

lemma set_gate_nth:
  assumes "length t = 256" and "n < 256"
  shows "idt_set_gate (of_nat n) a s f t ! j = (if j = n then idt_set_gate (of_nat n) a s f t ! n else t ! j)"
    and "is_gate a s f (idt_set_gate (of_nat n) a s f t ! n)"
proof -
  have u: "unat (of_nat n :: u8) = n" using assms(2) by (simp add: unat_of_nat take_bit_nat_eq_self)
  show "idt_set_gate (of_nat n) a s f t ! j = (if j = n then idt_set_gate (of_nat n) a s f t ! n else t ! j)"
    using assms by (simp add: idt_set_gate_def u)
  show "is_gate a s f (idt_set_gate (of_nat n) a s f t ! n)"
    using assms gate_addr_set [where e = "t ! n" and a = a and s = s and z = 0 and f = f] by (simp add: idt_set_gate_def u is_gate_def)
qed

lemma gates_loop:
  assumes "length t = 256" and "first + n \<le> 256"
    and r_def: "r = fold (\<lambda>i t. idt_set_gate (of_nat (first + i)) (addr i) s f t) [0..<n] t"
  shows "length r = 256 \<and> (\<forall>i<n. is_gate (addr i) s f (r ! (first + i))) \<and> (\<forall>j. j < first \<or> first + n \<le> j \<longrightarrow> r ! j = t ! j)"
  using assms(2) unfolding r_def
proof (induction n)
  case 0
  then show ?case using assms(1) by simp
next
  case (Suc n)
  let ?r = "fold (\<lambda>i t. idt_set_gate (of_nat (first + i)) (addr i) s f t) [0..<n] t"
  let ?q = "idt_set_gate (of_nat (first + n)) (addr n) s f ?r"
  have lt: "first + n < 256" using Suc.prems by simp
  then have IH: "length ?r = 256" "\<forall>i<n. is_gate (addr i) s f (?r ! (first + i))" "\<forall>j. j < first \<or> first + n \<le> j \<longrightarrow> ?r ! j = t ! j"
    using Suc.IH by simp_all
  note g = set_gate_nth [OF IH(1) lt, of "addr n" s f]
  have "is_gate (addr i) s f (?q ! (first + i))" if "i < Suc n" for i
  proof (cases "i = n")
    case True
    then show ?thesis using g(2) by simp
  next
    case False
    then show ?thesis using that IH(2) g(1) [of "first + i"] by simp
  qed
  moreover have "?q ! j = t ! j" if "j < first \<or> first + Suc n \<le> j" for j
  proof -
    have "j \<noteq> first + n" "j < first \<or> first + n \<le> j" using that by auto
    then show ?thesis using IH(3) g(1) [of j] by (simp only: if_False)
  qed
  ultimately show ?case using IH(1) by simp
qed

lemma set_gates_props:
  assumes "length t = 256" and "first + n \<le> 256"
  shows "length (set_gates first addr [0..<n] t) = 256"
    "i < n \<Longrightarrow> is_gate (addr i) 0x08 0x8E (set_gates first addr [0..<n] t ! (first + i))"
    "j < first \<or> first + n \<le> j \<Longrightarrow> set_gates first addr [0..<n] t ! j = t ! j"
  using gates_loop [OF assms refl, of addr "0x08" "0x8E"] by (auto simp: set_gates_def)

lemma outb_sel [simp]: "idt (outb p v m) = idt m" "idt_reg (outb p v m) = idt_reg m"
  by (simp_all add: outb_def)

lemma init_gates:
  assumes "length (idt m) = 256" and t_def: "t = idt (interrupts_init isr irq syscall a m)"
  shows "length t = 256" and "\<And>i. i < 20 \<Longrightarrow> is_gate (isr i) 0x08 0x8E (t ! i)" and "\<And>i. i < 16 \<Longrightarrow> is_gate (irq i) 0x08 0x8E (t ! (32 + i))"
    and "is_gate syscall 0x08 0x8E (t ! 128)"
    and "\<And>i. i < 256 \<Longrightarrow> \<not> i < 20 \<Longrightarrow> \<not> (32 \<le> i \<and> i < 48) \<Longrightarrow> i \<noteq> 128 \<Longrightarrow> is_gate 0 0 0 (t ! i)"
proof -
  let ?t0 = "fold (\<lambda>i t. idt_set_gate (of_nat i) 0 0 0 t) [0..<256] (idt m)"
  let ?t1 = "set_gates 0 isr [0..<20] ?t0"
  let ?t2 = "set_gates 32 irq [0..<16] ?t1"
  have t: "t = idt_set_gate (of_nat 128) syscall 0x08 0x8E ?t2" by (simp add: t_def interrupts_init_def Let_def)
  have g0: "length ?t0 = 256" "\<And>i. i < 256 \<Longrightarrow> is_gate 0 0 0 (?t0 ! i)"
    using gates_loop [OF assms(1), of 0 256 _ "\<lambda>_. 0" 0 0] by simp_all
  note g1 = set_gates_props [OF g0(1), where first = 0 and n = 20 and addr = isr]
  have l1: "length ?t1 = 256" using g1(1) by simp
  note g2 = set_gates_props [OF l1, where first = 32 and n = 16 and addr = irq]
  have l2: "length ?t2 = 256" using g2(1) by simp
  note g3 = set_gate_nth [OF l2, of 128 syscall "0x08" "0x8E"]
  show "length t = 256" using l2 t by simp
  show "is_gate (isr i) 0x08 0x8E (t ! i)" if "i < 20" for i
    using that g3(1) [of i] g2(3) [of i] g1(2) [of i] t by simp
  show "is_gate (irq i) 0x08 0x8E (t ! (32 + i))" if "i < 16" for i
    using that g3(1) [of "32 + i"] g2(2) [of i] t by simp
  show "is_gate syscall 0x08 0x8E (t ! 128)" using g3(2) t by simp
  show "is_gate 0 0 0 (t ! i)" if "i < 256" "\<not> i < 20" "\<not> (32 \<le> i \<and> i < 48)" "i \<noteq> 128" for i
    using that g3(1) [of i] g2(3) [of i] g1(3) [of i] g0(2) [of i] t by auto
qed

section \<open>Waiting\<close>

lemma timer_wait_loop_ends:
  assumes "unat (timer_ticks m - start) + n = unat t"
  shows "timer_wait_loop n start t m = Some ((m\<lparr>timer_ticks := start + t\<rparr>) :: machine)"
  using assms
proof (induction n arbitrary: m)
  case 0
  then have "timer_ticks m - start = t" by (simp add: word_unat_eq_iff)
  then have "timer_ticks m = start + t" by (metis add.commute diff_add_cancel)
  then show ?case by (simp add: timer_wait_loop.simps)
next
  case (Suc n)
  let ?d = "timer_ticks m - start"
  have lt: "unat ?d < unat t" using Suc.prems by simp
  have "unat ?d + 1 < 2 ^ 32" using lt unsigned_less [of t, where 'a = nat] by simp
  then have u: "unat (?d + 1) = unat ?d + 1" by (simp add: unat_word_ariths)
  have e: "timer_ticks (timer_handler m) - start = ?d + 1" by (simp add: timer_handler_def)
  have "unat (timer_ticks (timer_handler m) - start) + n = unat t" unfolding e u using Suc.prems by simp
  from Suc.IH [OF this] lt show ?case by (simp add: timer_wait_loop.simps [of "Suc n"] word_less_nat_alt timer_handler_def)
qed

definition blank_machine :: "heap \<Rightarrow> machine" where
  "blank_machine h = \<lparr>idt = replicate 256 \<lparr>base_low = 0, selector = 0, zero = 0, type_attr = 0, base_high = 0\<rparr>,
     idt_reg = \<lparr>limit = 0, base = 0\<rparr>, irq_handlers = replicate 16 None, timer_ticks = 0,
     kbd_state = \<lparr>keyboard_buffer = replicate 256 0, buffer_head = 0, buffer_tail = 0, shift_pressed = False, caps_lock = False\<rparr>,
     kernel_state = blank_kernel h, ports = []\<rparr>"

section \<open>Properties\<close>

text \<open>
  The interrupt descriptor table after \<^verbatim>\<open>interrupts_init\<close>: the processor finds the stub of exception
  \<open>i\<close> at entry \<open>i\<close>, the stub of interrupt line \<open>i\<close> at entry \<open>32 + i\<close>, the system call handler at
  \<^verbatim>\<open>0x80\<close>, each as an interrupt gate of the kernel code segment with the full address; all other
  entries are empty, and the table register covers the 256 entries.
\<close>

theorem idt_complete:
  assumes "length (idt m) = 256"
  shows "let m' = interrupts_init isr irq syscall a m; t = idt m'
    in length t = 256 \<and> idt_reg m' = \<lparr>limit = 2047, base = a\<rparr> \<and> (\<forall>i<20. is_gate (isr i) 0x08 0x8E (t ! i)) \<and>
       (\<forall>i<16. is_gate (irq i) 0x08 0x8E (t ! (32 + i))) \<and> is_gate syscall 0x08 0x8E (t ! 128) \<and>
       (\<forall>i<256. \<not> i < 20 \<longrightarrow> \<not> (32 \<le> i \<and> i < 48) \<longrightarrow> i \<noteq> 128 \<longrightarrow> is_gate 0 0 0 (t ! i))"
proof -
  have "idt_reg (interrupts_init isr irq syscall a m) = \<lparr>limit = 2047, base = a\<rparr>" by (simp add: interrupts_init_def Let_def)
  then show ?thesis unfolding Let_def using init_gates [OF assms refl, where isr = isr and irq = irq and syscall = syscall and a = a] by blast
qed

theorem idt_complete_witness:
  "\<exists>h. is_gate 0x12345678 0x08 0x8E (idt (interrupts_init (\<lambda>_. 0x12345678) (\<lambda>_. 0) 0 0 (blank_machine h)) ! 14)"
proof -
  obtain h where "heap_init 0x200000 = Inr h" by (rule boot_heap)
  have "length (idt (blank_machine h)) = 256" by (simp add: blank_machine_def)
  have "14 < (20 :: nat)" by simp
  with idt_complete [OF \<open>length _ = 256\<close>, of "\<lambda>_. 0x12345678" "\<lambda>_. 0" 0 0] show ?thesis unfolding Let_def by blast
qed

text \<open>
  Interrupt dispatch composes the drivers. With the handlers installed by \<^verbatim>\<open>timer_init\<close> and
  \<^verbatim>\<open>keyboard_init\<close>, the timer line counts a tick, acknowledges the master controller and schedules, and
  fails only with the scheduler; the keyboard line hands the scan code to the keyboard; every other
  line changes nothing but the acknowledgements, which include the slave from line 8 on; a number
  from 16 on reads past the array of handlers.
\<close>

theorem irq_dispatch:
  assumes "length hs = 16" and m: "irq_handlers m = hs[0 := Some timer_handler_fn, 1 := Some keyboard_handler_fn]" and "\<forall>i\<ge>2. i < 16 \<longrightarrow> hs ! i = None"
  shows "irq_handler 0 code m = (case process_schedule (kernel_state m) of Inl e \<Rightarrow> Inl e
      | Inr k \<Rightarrow> Inr (m\<lparr>timer_ticks := timer_ticks m + 1, kernel_state := k, ports := ports m @ [(0x20, 0x20)]\<rparr>)) \<and>
    irq_handler 1 code m = Inr (m\<lparr>kbd_state := keyboard_handler code (kbd_state m), ports := ports m @ [(0x20, 0x20)]\<rparr>) \<and>
    (\<forall>i. 2 \<le> i \<and> i < 16 \<longrightarrow> irq_handler i code m =
       Inr (m\<lparr>ports := ports m @ (if 8 \<le> i then [(0xA0, 0x20), (0x20, 0x20)] else [(0x20, 0x20)])\<rparr>)) \<and>
    (\<forall>i\<ge>16. irq_handler i code m = Inl Out_Of_Bounds)"
proof (intro conjI allI impI)
  show "irq_handler 0 code m = (case process_schedule (kernel_state m) of Inl e \<Rightarrow> Inl e
      | Inr k \<Rightarrow> Inr (m\<lparr>timer_ticks := timer_ticks m + 1, kernel_state := k, ports := ports m @ [(0x20, 0x20)]\<rparr>))"
    using assms by (simp add: irq_handler_def call_irq_fn_def timer_handler_def outb_def Let_def bind_res_def split: sum.split)
  show "irq_handler 1 code m = Inr (m\<lparr>kbd_state := keyboard_handler code (kbd_state m), ports := ports m @ [(0x20, 0x20)]\<rparr>)"
    using assms by (simp add: irq_handler_def call_irq_fn_def outb_def Let_def word_le_nat_alt)
next
  fix i :: u8 assume "2 \<le> i \<and> i < 16"
  then have u: "2 \<le> unat i" "unat i < 16" by (simp_all add: word_le_nat_alt word_less_nat_alt)
  then have "irq_handlers m ! unat i = None" "i \<noteq> 0" using assms by auto
  then show "irq_handler i code m = Inr (m\<lparr>ports := ports m @ (if 8 \<le> i then [(0xA0, 0x20), (0x20, 0x20)] else [(0x20, 0x20)])\<rparr>)"
    using u assms(1) m by (simp add: irq_handler_def outb_def Let_def)
next
  fix i :: u8 assume "16 \<le> i"
  then show "irq_handler i code m = Inl Out_Of_Bounds" using assms(1) m by (simp add: irq_handler_def word_le_nat_alt)
qed

theorem irq_dispatch_witness:
  "\<exists>h m m'. bind_res (timer_init (blank_machine h)) keyboard_init = Inr m \<and> irq_handler 1 30 m = Inr m' \<and>
     kbd_items (kbd_state m') = [97] \<and> irq_handler 16 0 m = Inl Out_Of_Bounds"
proof -
  obtain h where "heap_init 0x200000 = Inr h" by (rule boot_heap)
  obtain m where m: "bind_res (timer_init (blank_machine h)) keyboard_init = Inr m"
    "irq_handlers m = (replicate 16 None)[0 := Some timer_handler_fn, 1 := Some keyboard_handler_fn]"
    "kbd_state m = keyboard_reset (kbd_state (blank_machine h))"
    by (simp add: timer_init_def keyboard_init_def irq_register_handler_def blank_machine_def outb_def Let_def)
  have "kbd_items (keyboard_handler 30 (kbd_state m)) = [97]"
    unfolding m(3) by (simp add: blank_machine_def keyboard_reset_def) code_simp
  moreover have "irq_handler 1 30 m = Inr (m\<lparr>kbd_state := keyboard_handler 30 (kbd_state m), ports := ports m @ [(0x20, 0x20)]\<rparr>)"
    using irq_dispatch [of "replicate 16 None" m 30] m(2) by simp
  moreover have "irq_handler 16 0 m = Inl Out_Of_Bounds" using irq_dispatch [of "replicate 16 None" m 0] m(2) by simp
  ultimately show ?thesis using m(1) by fastforce
qed

text \<open>
  \<^verbatim>\<open>timer_wait\<close> returns after exactly the requested number of timer interrupts, also when the tick
  counter wraps around meanwhile, and with fewer interrupts it goes on waiting.
\<close>

theorem timer_wait_exact:
  "timer_wait (unat t) t m = Some (m\<lparr>timer_ticks := timer_ticks m + t\<rparr>) \<and> (\<forall>n<unat t. timer_wait n t m = None)"
proof
  show "timer_wait (unat t) t m = Some (m\<lparr>timer_ticks := timer_ticks m + t\<rparr>)"
    unfolding timer_wait_def by (rule timer_wait_loop_ends) simp
  have "timer_wait_loop n start t k = None" if "unat (timer_ticks k - start) + n < unat t" for n start and k :: machine
    using that
  proof (induction n arbitrary: k)
    case 0
    then show ?case by (simp add: timer_wait_loop.simps word_less_nat_alt)
  next
    case (Suc n)
    have lt: "unat (timer_ticks k - start) + 1 < 2 ^ 32" using Suc.prems unsigned_less [of t, where 'a = nat] by simp
    then have u: "unat (timer_ticks k - start + 1) = unat (timer_ticks k - start) + 1" by (simp add: unat_word_ariths)
    have e: "timer_ticks (timer_handler k) - start = timer_ticks k - start + 1" by (simp add: timer_handler_def)
    have "unat (timer_ticks (timer_handler k) - start) + n < unat t" unfolding e u using Suc.prems by simp
    from Suc.IH [OF this] Suc.prems show ?case by (simp add: timer_wait_loop.simps [of "Suc n"] word_less_nat_alt)
  qed
  then show "\<forall>n<unat t. timer_wait n t m = None" by (simp add: timer_wait_def)
qed

theorem timer_wait_exact_witness:
  "\<exists>h. timer_wait 2 2 ((blank_machine h)\<lparr>timer_ticks := 0xFFFFFFFF\<rparr>) = Some ((blank_machine h)\<lparr>timer_ticks := 1\<rparr>) \<and>
     timer_wait 1 2 ((blank_machine h)\<lparr>timer_ticks := 0xFFFFFFFF\<rparr>) = None"
proof -
  obtain h where "heap_init 0x200000 = Inr h" by (rule boot_heap)
  from timer_wait_exact [of 2 "(blank_machine h)\<lparr>timer_ticks := 0xFFFFFFFF\<rparr>"] show ?thesis by (intro exI [of _ h]) simp
qed

end
