(* ===== verification/Solix_Printk.thy ===== *)
theory Solix_Printk
  imports Solix_Netutil "HOL-Library.Signed_Division"
begin

text \<open>
  Kernel messages, after \<^verbatim>\<open>kernel/printk.c\<close>: conversion of numbers, the formatter behind the printf
  family, the ring of the kernel log, log levels and console drivers. A C string is the list of its
  characters before the terminator. Variable arguments are a list of values, and fetching one that
  is not there or of another kind is a fault. Consoles are objects in a store, linked by their
  \<^verbatim>\<open>next\<close> pointers; what drivers and screen are given to write is recorded.
\<close>

declare of_nat_add [simp del]

section \<open>Numbers\<close>

text \<open>The digits a \<^verbatim>\<open>do\<close>--\<^verbatim>\<open>while\<close> loop produces, last one first, for C's division towards zero.\<close>

definition digit_char :: "int \<Rightarrow> char" where
  "digit_char d = (if d < 10 then char_of (48 + d) else char_of (65 + d - 10))"

function itoa_loop :: "int \<Rightarrow> int \<Rightarrow> string" where
  "itoa_loop b v = digit_char (v smod b) # (if v sdiv b = 0 \<or> b < 2 then [] else itoa_loop b (v sdiv b))"
  by auto

lemma sdiv_shrinks: "2 \<le> b \<Longrightarrow> v sdiv b \<noteq> 0 \<Longrightarrow> nat \<bar>v sdiv b\<bar> < nat \<bar>v\<bar>" for b v :: int
proof -
  assume b: "2 \<le> b" and nz: "v sdiv b \<noteq> 0"
  have "0 \<le> \<bar>v\<bar> div b" using b by (simp add: pos_imp_zdiv_nonneg_iff)
  hence "\<bar>v sdiv b\<bar> = \<bar>v\<bar> div b" using b by (auto simp: signed_divide_int_def abs_mult sgn_if)
  moreover have "v \<noteq> 0" using nz by (auto simp: signed_divide_int_def)
  ultimately show ?thesis using b int_div_less_self [of "\<bar>v\<bar>" b] by simp
qed

termination itoa_loop
  by (relation "measure (\<lambda>(b, v). nat \<bar>v\<bar>)") (simp, simp only: in_measure split_conv, rule sdiv_shrinks, auto)

declare itoa_loop.simps [simp del]

definition neg32 :: "int \<Rightarrow> int" where
  "neg32 v = sint (- (word_of_int v :: u32))"

definition itoa :: "int \<Rightarrow> int \<Rightarrow> string" where
  "itoa v b =
     (if b < 2 \<or> b > 36 then []
      else if v < 0 \<and> b = 10 then CHR ''-'' # rev (itoa_loop b (neg32 v))
      else rev (itoa_loop b v))"

definition utoa :: "u32 \<Rightarrow> int \<Rightarrow> string" where
  "utoa v b = (if b < 2 \<or> b > 36 then [] else rev (itoa_loop b (uint v)))"

fun itohex :: "u32 \<Rightarrow> nat \<Rightarrow> string" where
  "itohex v 0 = []"
| "itohex v (Suc w) = itohex (drop_bit 4 v) w @ [''0123456789ABCDEF'' ! unat (v AND 0xF)]"

text \<open>What the numbers are to look like: decimal with a sign, and eight digits of hexadecimal.\<close>

definition signed_dec :: "u32 \<Rightarrow> string" where
  "signed_dec w = (if sint w < 0 then CHR ''-'' # dec (nat (- sint w)) else dec (nat (sint w)))"

definition hex8 :: "u32 \<Rightarrow> string" where
  "hex8 w = map (\<lambda>i. ''0123456789ABCDEF'' ! unat (drop_bit (28 - 4 * i) w AND 0xF)) [0..<8]"

section \<open>The formatter\<close>

datatype va = Va_Int u32 | Va_Str "string option"

definition va_int :: "va list \<Rightarrow> fault + u32 \<times> va list" where
  "va_int args = (case args of Va_Int w # rest \<Rightarrow> Inr (w, rest) | _ \<Rightarrow> Inl Out_Of_Bounds)"

definition va_str :: "va list \<Rightarrow> fault + string option \<times> va list" where
  "va_str args = (case args of Va_Str s # rest \<Rightarrow> Inr (s, rest) | _ \<Rightarrow> Inl Out_Of_Bounds)"

text \<open>The copying loops: as long as fewer than \<open>lim\<close> characters are written.\<close>

fun emit :: "nat \<Rightarrow> string \<Rightarrow> string \<Rightarrow> string" where
  "emit lim out [] = out"
| "emit lim out (c # cs) = (if length out < lim then emit lim (out @ [c]) cs else out)"

text \<open>The main loop, with \<open>lim\<close> for \<^verbatim>\<open>size - 1\<close>. A format that ends in a percent sign makes it run past the terminator.\<close>

fun vsn_loop :: "nat \<Rightarrow> string \<Rightarrow> va list \<Rightarrow> string \<Rightarrow> fault + string" where
  "vsn_loop lim [] args out = Inr out"
| "vsn_loop lim (c # cs) args out =
     (if \<not> length out < lim then Inr out
      else if c \<noteq> CHR ''%'' then vsn_loop lim cs args (out @ [c])
      else case cs of
        [] \<Rightarrow> Inl Out_Of_Bounds
      | f # fmt \<Rightarrow>
          if f = CHR ''d'' \<or> f = CHR ''i'' then
            bind_res (va_int args) (\<lambda>(w, rest). vsn_loop lim fmt rest (emit lim out (itoa (sint w) 10)))
          else if f = CHR ''u'' then
            bind_res (va_int args) (\<lambda>(w, rest). vsn_loop lim fmt rest (emit lim out (utoa w 10)))
          else if f = CHR ''x'' \<or> f = CHR ''X'' then
            bind_res (va_int args) (\<lambda>(w, rest). vsn_loop lim fmt rest (emit lim out (itohex w 8)))
          else if f = CHR ''c'' then
            bind_res (va_int args) (\<lambda>(w, rest). vsn_loop lim fmt rest (emit lim out [char_of (unat w)]))
          else if f = CHR ''s'' then
            bind_res (va_str args) (\<lambda>(s, rest). vsn_loop lim fmt rest (emit lim out (case s of None \<Rightarrow> ''(null)'' | Some t \<Rightarrow> t)))
          else if f = CHR ''p'' then
            bind_res (va_int args) (\<lambda>(w, rest). vsn_loop lim fmt rest (emit lim (emit lim (out @ ''0'') ''x'') (itohex w 8)))
          else vsn_loop lim fmt args (emit lim out [f]))"

text \<open>
  The characters left in the buffer, before the terminator; a buffer of size zero is overrun by the
  terminator, and a size that is negative as an \<^verbatim>\<open>int\<close> leaves no room. The returned count is the
  number of characters.
\<close>

definition vsnprintf :: "nat \<Rightarrow> string \<Rightarrow> va list \<Rightarrow> fault + string" where
  "vsnprintf sz fmt args =
     (if sz = 0 then Inl Out_Of_Bounds else vsn_loop (if sz < 2 ^ 31 then sz - 1 else 0) fmt args [])"

definition sprintf :: "string \<Rightarrow> va list \<Rightarrow> fault + string" where
  "sprintf fmt args = vsnprintf 2147483647 fmt args"

section \<open>The kernel log\<close>

abbreviation LOG_BUF_LEN :: nat where "LOG_BUF_LEN \<equiv> 131072"

record log_buf =
  lbuf :: string
  lhead :: nat
  ltail :: nat
  llen :: nat
  lsequence :: u32

text \<open>One round of the loop of \<^verbatim>\<open>log_buf_add\<close>; the masks are remainders by the power of two.\<close>

definition log_put :: "char \<Rightarrow> log_buf \<Rightarrow> log_buf" where
  "log_put c l =
     (if \<not> llen l < LOG_BUF_LEN then l
      else let l1 = l\<lparr>lbuf := list_update (lbuf l) (lhead l) c, lhead := (lhead l + 1) mod LOG_BUF_LEN, llen := llen l + 1\<rparr>
           in if llen l1 \<ge> LOG_BUF_LEN then l1\<lparr>ltail := (ltail l1 + 1) mod LOG_BUF_LEN, llen := LOG_BUF_LEN\<rparr> else l1)"

definition log_buf_add :: "string \<Rightarrow> log_buf \<Rightarrow> log_buf" where
  "log_buf_add msg l =
     (if msg = [] then l else (fold log_put msg l)\<lparr>lsequence := lsequence l + 1\<rparr>)"

definition log_buf_clear :: "log_buf \<Rightarrow> log_buf" where
  "log_buf_clear l = l\<lparr>lhead := 0, ltail := 0, llen := 0, lsequence := 0, lbuf := replicate LOG_BUF_LEN (CHR 0x00)\<rparr>"

definition log_buf_copy :: "nat \<Rightarrow> log_buf \<Rightarrow> string" where
  "log_buf_copy n l = map (\<lambda>i. lbuf l ! ((ltail l + i) mod LOG_BUF_LEN)) [0..<min n (llen l)]"

section \<open>Messages\<close>

record con =
  con_name :: string
  con_writes :: bool
  con_next :: u32

record printk_ctrl =
  console_loglevel :: int
  default_message_loglevel :: int
  minimum_console_loglevel :: int
  printk_time :: bool
  console_drivers :: u32

text \<open>
  \<open>stamp\<close> is the counter of \<^verbatim>\<open>kernel_get_timestamp\<close>; \<open>con_out\<close> are the texts given to console drivers,
  \<open>screen_out\<close> the text given to the screen.
\<close>

record printk_state =
  ctrl :: printk_ctrl
  klog :: log_buf
  consoles :: "u32 \<rightharpoonup> con"
  early_console_active :: bool
  stamp :: u32
  con_out :: "(u32 \<times> string) list"
  screen_out :: string

definition parse_log_level :: "printk_ctrl \<Rightarrow> string \<Rightarrow> nat \<times> int" where
  "parse_log_level c fmt =
     (case fmt of
        a # b # d # _ \<Rightarrow>
          if a = CHR ''<'' \<and> of_char b \<ge> (48 :: int) \<and> of_char b \<le> (55 :: int) \<and> d = CHR ''>''
          then (3, of_char b - 48) else (0, default_message_loglevel c)
      | _ \<Rightarrow> (0, default_message_loglevel c))"

definition level_str :: "int \<Rightarrow> string" where
  "level_str l = ''<'' @ [char_of (48 + l)] @ ''>''"

text \<open>The drivers that are asked to write, following the list; a cyclic list is followed for ever.\<close>

partial_function (option) con_walk :: "(u32 \<rightharpoonup> con) \<Rightarrow> u32 list \<Rightarrow> u32 \<Rightarrow> (fault + u32 list) option" where
  "con_walk m acc p =
     (if p = 0 then Some (Inr acc)
      else case m p of
        None \<Rightarrow> Some (Inl (Wild_Access p))
      | Some c \<Rightarrow> con_walk m (if con_writes c then acc @ [p] else acc) (con_next c))"

declare con_walk.simps [code]

definition console_write :: "string \<Rightarrow> printk_state \<Rightarrow> printk_state run" where
  "console_write msg s =
     bind_run (con_walk (consoles s) [] (console_drivers (ctrl s))) (\<lambda>ps.
       let s1 = s\<lparr>con_out := con_out s @ map (\<lambda>p. (p, msg)) ps\<rparr>
       in Some (Inr (if console_drivers (ctrl s) = 0 then s1\<lparr>screen_out := screen_out s1 @ msg\<rparr> else s1)))"

abbreviation PRINTK_MAX_SINGLE_MESSAGE_LEN :: nat where "PRINTK_MAX_SINGLE_MESSAGE_LEN \<equiv> 1024"

text \<open>The final buffer of \<^verbatim>\<open>vprintk\<close>: time stamp, level, message and a newline.\<close>

definition final_text :: "bool \<Rightarrow> u32 \<Rightarrow> int \<Rightarrow> string \<Rightarrow> fault + string" where
  "final_text timed t level msg =
     (let sz = PRINTK_MAX_SINGLE_MESSAGE_LEN + 64
      in bind_res (if timed then vsnprintf sz ''[%lu.%03lu] '' [Va_Int (t div 1000), Va_Int (t mod 1000)] else Inr []) (\<lambda>b0.
         bind_res (if 0 \<le> level \<and> level \<le> 7
                   then bind_res (vsnprintf (sz - length b0) ''%s'' [Va_Str (Some (level_str level))]) (\<lambda>l. Inr (b0 @ l))
                   else Inr b0) (\<lambda>b1.
         let b2 = (if length b1 + length msg < sz then b1 @ msg else b1);
             b3 = (if b2 \<noteq> [] \<and> last b2 \<noteq> CHR ''\<newline>'' \<and> length b2 < sz - 1 then b2 @ [CHR ''\<newline>''] else b2)
         in Inr b3)))"

definition vprintk :: "string \<Rightarrow> va list \<Rightarrow> printk_state \<Rightarrow> (nat \<times> printk_state) run" where
  "vprintk fmt args s =
     (let (skip, level) = parse_log_level (ctrl s) fmt
      in bind_run (Some (vsnprintf PRINTK_MAX_SINGLE_MESSAGE_LEN (drop skip fmt) args)) (\<lambda>msg.
         if msg = [] then Some (Inr (0, s))
         else let t = stamp s;
                  s1 = (if printk_time (ctrl s) then s\<lparr>stamp := t + 1\<rparr> else s)
              in bind_run (Some (final_text (printk_time (ctrl s)) t level msg)) (\<lambda>b.
                 let s2 = s1\<lparr>klog := log_buf_add b (klog s1)\<rparr>
                 in bind_run (if level \<le> console_loglevel (ctrl s2) then console_write b s2 else Some (Inr s2)) (\<lambda>s3.
                    Some (Inr (length b, s3))))))"

definition pr_info :: "string \<Rightarrow> va list \<Rightarrow> printk_state \<Rightarrow> printk_state run" where
  "pr_info fmt args s = bind_run (vprintk (''<6>'' @ fmt) args s) (\<lambda>(_, s1). Some (Inr s1))"

definition early_printk :: "string \<Rightarrow> va list \<Rightarrow> printk_state \<Rightarrow> fault + printk_state" where
  "early_printk fmt args s =
     (if \<not> early_console_active s then Inr s
      else bind_res (vsnprintf 256 fmt args) (\<lambda>t. Inr (s\<lparr>screen_out := screen_out s @ t\<rparr>)))"

section \<open>Levels and consoles\<close>

definition printk_set_timestamps :: "bool \<Rightarrow> printk_state \<Rightarrow> printk_state" where
  "printk_set_timestamps b s = s\<lparr>ctrl := (ctrl s)\<lparr>printk_time := b\<rparr>\<rparr>"

definition console_loglevel_set :: "int \<Rightarrow> printk_state \<Rightarrow> printk_state" where
  "console_loglevel_set level s =
     (if 0 \<le> level \<and> level \<le> 7 then s\<lparr>ctrl := (ctrl s)\<lparr>console_loglevel := level\<rparr>\<rparr> else s)"

definition console_loglevel_get :: "printk_state \<Rightarrow> int" where
  "console_loglevel_get s = console_loglevel (ctrl s)"

definition message_loglevel_set :: "int \<Rightarrow> printk_state \<Rightarrow> printk_state" where
  "message_loglevel_set level s =
     (if 0 \<le> level \<and> level \<le> 7 then s\<lparr>ctrl := (ctrl s)\<lparr>default_message_loglevel := level\<rparr>\<rparr> else s)"

definition message_loglevel_get :: "printk_state \<Rightarrow> int" where
  "message_loglevel_get s = default_message_loglevel (ctrl s)"

definition register_console :: "u32 \<Rightarrow> printk_state \<Rightarrow> printk_state run" where
  "register_console p s =
     (if p = 0 then Some (Inr s)
      else case consoles s p of
        None \<Rightarrow> Some (Inl (Wild_Access p))
      | Some c \<Rightarrow>
          let s1 = s\<lparr>consoles := (consoles s)(p \<mapsto> c\<lparr>con_next := console_drivers (ctrl s)\<rparr>),
                     ctrl := (ctrl s)\<lparr>console_drivers := p\<rparr>\<rparr>
          in pr_info (''Console '' @ [CHR 0x27] @ ''%s'' @ [CHR 0x27] @ '' registered'' @ [CHR ''\<newline>'']) [Va_Str (Some (con_name c))] s1)"

text \<open>
  The loop of \<^verbatim>\<open>unregister_console\<close> finds the pointer that leads to the console: the head of the list
  (\<open>None\<close>) or the \<^verbatim>\<open>next\<close> field of a console. It stops at \<^verbatim>\<open>NULL\<close> or at the console.
\<close>

partial_function (option) find_link :: "(u32 \<rightharpoonup> con) \<Rightarrow> u32 \<Rightarrow> u32 option \<Rightarrow> u32 \<Rightarrow> (fault + u32 option \<times> u32) option" where
  "find_link m p l q =
     (if q = 0 \<or> q = p then Some (Inr (l, q))
      else case m q of
        None \<Rightarrow> Some (Inl (Wild_Access q))
      | Some c \<Rightarrow> find_link m p (Some q) (con_next c))"

declare find_link.simps [code]

definition set_link :: "u32 option \<Rightarrow> u32 \<Rightarrow> printk_state \<Rightarrow> printk_state" where
  "set_link l v s =
     (case l of
        None \<Rightarrow> s\<lparr>ctrl := (ctrl s)\<lparr>console_drivers := v\<rparr>\<rparr>
      | Some q \<Rightarrow> s\<lparr>consoles := (consoles s)(q := map_option (con_next_update (\<lambda>_. v)) (consoles s q))\<rparr>)"

definition unregister_console :: "u32 \<Rightarrow> printk_state \<Rightarrow> printk_state run" where
  "unregister_console p s =
     (if p = 0 then Some (Inr s)
      else bind_run (find_link (consoles s) p None (console_drivers (ctrl s))) (\<lambda>(l, q).
        if q = 0 then Some (Inr s)
        else case consoles s p of
          None \<Rightarrow> Some (Inl (Wild_Access p))
        | Some c \<Rightarrow>
            let nxt = con_next c;
                s1 = set_link l nxt s;
                s2 = s1\<lparr>consoles := (consoles s1)(p := map_option (con_next_update (\<lambda>_. 0)) (consoles s1 p))\<rparr>
            in if nxt \<noteq> 0
               then pr_info (''Console '' @ [CHR 0x27] @ ''%s'' @ [CHR 0x27] @ '' unregistered'' @ [CHR ''\<newline>'']) [Va_Str (Some (con_name c))] s2
               else Some (Inr s2)))"

definition printk_init :: "printk_state \<Rightarrow> printk_state run" where
  "printk_init s =
     (let s1 = s\<lparr>klog := log_buf_clear (klog s), ctrl := (ctrl s)\<lparr>console_loglevel := 6, default_message_loglevel := 5, minimum_console_loglevel := 0, printk_time := True\<rparr>,
                 early_console_active := False\<rparr>
      in bind_run (pr_info (''Linux-inspired printk system initialized'' @ [CHR ''\<newline>'']) [] s1) (\<lambda>s2.
         bind_run (pr_info (''Log buffer size: %d bytes'' @ [CHR ''\<newline>'']) [Va_Int (of_nat LOG_BUF_LEN)] s2) (\<lambda>s3.
         pr_info (''Console log level: %d'' @ [CHR ''\<newline>'']) [Va_Int (word_of_int (console_loglevel (ctrl s3)))] s3)))"

definition early_console_init :: "printk_state \<Rightarrow> fault + printk_state" where
  "early_console_init s = early_printk (''Early printk initialized'' @ [CHR ''\<newline>'']) [] (s\<lparr>early_console_active := True\<rparr>)"

section \<open>Rate limiting\<close>

record ratelimit_state =
  rl_interval :: u32
  rl_burst :: u32
  rl_printed :: u32
  rl_missed :: u32
  rl_last :: u32

text \<open>The macro \<^verbatim>\<open>__ratelimit\<close>, with the current value of \<^verbatim>\<open>jiffies\<close>.\<close>

definition ratelimit :: "u32 \<Rightarrow> ratelimit_state \<Rightarrow> bool \<times> ratelimit_state" where
  "ratelimit now r =
     (if sint (rl_last r + rl_interval r) - sint now < 0 then
        (if rl_printed r < rl_burst r then (True, r\<lparr>rl_last := now, rl_printed := rl_printed r + 1\<rparr>)
         else (False, r\<lparr>rl_last := now, rl_missed := rl_missed r + 1\<rparr>))
      else (False, r))"

section \<open>Formatting is what the format says\<close>

text \<open>
  The reference: the text of a format, with no bound on its length. It has no value when an argument
  is missing or of the wrong kind, when the format ends in a percent sign, and for the decimal form
  of the smallest \<^verbatim>\<open>int\<close>, whose negation is undefined in C.
\<close>

definition spec_item :: "char \<Rightarrow> va list \<Rightarrow> (string \<times> va list) option" where
  "spec_item f args =
     (if f \<in> {CHR ''d'', CHR ''i''} then
        (case args of Va_Int w # r \<Rightarrow> if w = 0x80000000 then None else Some (signed_dec w, r) | _ \<Rightarrow> None)
      else if f = CHR ''u'' then (case args of Va_Int w # r \<Rightarrow> Some (dec (unat w), r) | _ \<Rightarrow> None)
      else if f \<in> {CHR ''x'', CHR ''X''} then (case args of Va_Int w # r \<Rightarrow> Some (hex8 w, r) | _ \<Rightarrow> None)
      else if f = CHR ''p'' then (case args of Va_Int w # r \<Rightarrow> Some (''0x'' @ hex8 w, r) | _ \<Rightarrow> None)
      else if f = CHR ''c'' then (case args of Va_Int w # r \<Rightarrow> Some ([char_of (unat w)], r) | _ \<Rightarrow> None)
      else if f = CHR ''s'' then
        (case args of Va_Str v # r \<Rightarrow> Some (case v of None \<Rightarrow> ''(null)'' | Some t \<Rightarrow> t, r) | _ \<Rightarrow> None)
      else Some ([f], args))"

fun spec_fmt :: "string \<Rightarrow> va list \<Rightarrow> string option" where
  "spec_fmt [] args = Some []"
| "spec_fmt (c # cs) args =
     (if c \<noteq> CHR ''%'' then map_option ((#) c) (spec_fmt cs args)
      else case cs of
        [] \<Rightarrow> None
      | f # fmt \<Rightarrow>
          (case spec_item f args of
             None \<Rightarrow> None
           | Some (t, r) \<Rightarrow> map_option ((@) t) (spec_fmt fmt r)))"

lemma emit_take: "emit lim out t = out @ take (lim - length out) t"
  by (induction t arbitrary: out) (auto simp: take_Cons' Suc_diff_Suc)

lemma digit_char_dec: "n < 10 \<Longrightarrow> digit_char (int n) = char_of (48 + n)"
  using char_of_nat [of "48 + n", where ?'a = int] by (simp add: digit_char_def of_nat_add)

lemma itoa_loop_dec: "rev (itoa_loop 10 (int n)) = dec n"
proof (induction n rule: less_induct)
  case (less n)
  have d: "int n sdiv 10 = int (n div 10)" by (simp add: signed_divide_int_def sgn_if zdiv_int)
  have m: "int n smod 10 = int (n mod 10)" by (simp add: signed_modulo_int_def sgn_if zmod_int)
  show ?case
  proof (cases "n < 10")
    case True
    thus ?thesis by (simp add: itoa_loop.simps [of 10 "int n"] dec.simps [of n] d m digit_char_dec)
  next
    case False
    hence "n div 10 < n" "n div 10 \<noteq> 0" by auto
    thus ?thesis using False less.IH [of "n div 10"]
      by (simp add: itoa_loop.simps [of 10 "int n"] dec.simps [of n] d m digit_char_dec del: of_nat_div)
  qed
qed

lemma utoa_dec: "utoa w 10 = dec (unat w)"
  using itoa_loop_dec [of "unat w"] by (simp add: utoa_def)

lemma itoa_dec:
  assumes "w \<noteq> 0x80000000"
  shows "itoa (sint w) 10 = signed_dec w"
proof (cases "sint w < 0")
  case True
  have "sint w \<noteq> - (2 ^ 31)"
  proof
    assume "sint w = - (2 ^ 31)"
    hence "(word_of_int (sint w) :: u32) = 0x80000000" by simp
    thus False using assms by simp
  qed
  moreover have "- (2 ^ 31) \<le> sint w" "sint w < 2 ^ 31" using sint_ge [of w] sint_lt [of w] by simp_all
  ultimately have "neg32 (sint w) = - sint w" 
    by (simp add: neg32_def sint_word_minus signed_take_bit_int_eq_self_iff)
  hence "neg32 (sint w) = int (nat (- sint w))" using True by simp
  hence "rev (itoa_loop 10 (neg32 (sint w))) = dec (nat (- sint w))" using itoa_loop_dec by metis
  thus ?thesis using True by (simp add: itoa_def signed_dec_def)
next
  case False
  hence "sint w = int (nat (sint w))" by simp
  hence "rev (itoa_loop 10 (sint w)) = dec (nat (sint w))" using itoa_loop_dec by metis
  thus ?thesis using False by (simp add: itoa_def signed_dec_def)
qed

lemma itohex_hex8: "itohex w 8 = hex8 w"
  by (simp add: hex8_def upt_rec eval_nat_numeral drop_bit_drop_bit)

lemma vsn_item:
  assumes "spec_item f args = Some (t, r)" "length out < lim"
  shows "vsn_loop lim (CHR ''%'' # f # fmt) args out = vsn_loop lim fmt r (emit lim out t)"
  using assms
  by (auto simp: spec_item_def va_int_def va_str_def bind_res_def itoa_dec utoa_dec itohex_hex8
      emit_take take_Cons' simp del: emit.simps split: if_splits list.splits va.splits)

lemma vsn_full: "\<not> length out < lim \<Longrightarrow> vsn_loop lim fmt args out = Inr out"
  by (cases fmt) auto

lemma vsn_loop_spec:
  "spec_fmt fmt args = Some t \<Longrightarrow> length out \<le> lim \<Longrightarrow> vsn_loop lim fmt args out = Inr (take lim (out @ t))"
proof (induction fmt args arbitrary: t out rule: spec_fmt.induct)
  case (2 c cs args)
  show ?case
  proof (cases "length out < lim")
    case False
    thus ?thesis using "2.prems" by (simp add: vsn_full)
  next
    case lt: True
    show ?thesis
    proof (cases "c = CHR ''%''")
      case False
      then obtain u where u: "spec_fmt cs args = Some u" "t = c # u" using "2.prems" by auto
      have "vsn_loop lim cs args (out @ [c]) = Inr (take lim ((out @ [c]) @ u))"
        using "2.IH"(1) [OF False u(1), of "out @ [c]"] lt by (simp add: take_Cons')
      thus ?thesis using False lt u by (simp add: take_Cons')
    next
      case True
      then obtain f fmt x r u where f: "cs = f # fmt" "spec_item f args = Some (x, r)"
          "spec_fmt fmt r = Some u" "t = x @ u"
        using "2.prems" by (auto split: list.splits option.splits)
      have "vsn_loop lim fmt r (emit lim out x) = Inr (take lim (emit lim out x @ u))"
        using "2.IH"(2) [of f fmt "(x, r)" x r u] True f lt by (simp add: emit_take)
      moreover have "take lim (emit lim out x @ u) = take lim (out @ t)"
        using lt f(4) by (cases "length x \<le> lim - length out") (simp_all add: emit_take)
      ultimately show ?thesis using True f(1) vsn_item [OF f(2) lt] by simp
    qed
  qed
qed simp

text \<open>
  C18. The formatter behind the printf family (kernel/printk.c, vsnprintf\_internal) writes exactly
  the first \<^verbatim>\<open>size - 1\<close> characters of the text its format stands for, as given by a reference that
  formats without a buffer: decimal with sign, eight hexadecimal digits, characters, strings with
  \<^verbatim>\<open>(null)\<close> for the null pointer, and any other letter for itself.
\<close>

theorem vsnprintf_equals_reference:
  assumes "spec_fmt fmt args = Some t" and "0 < sz" and "sz < 2 ^ 31"
  shows "vsnprintf sz fmt args = Inr (take (sz - 1) t)"
  using assms vsn_loop_spec [of fmt args t "[]" "sz - 1"] by (simp add: vsnprintf_def)

theorem vsnprintf_equals_reference_witness:
  "spec_fmt ''pid %d: %s'' [Va_Int (- 12), Va_Str None] = Some ''pid -12: (null)'' \<and>
   vsnprintf 10 ''pid %d: %s'' [Va_Int (- 12), Va_Str None] = Inr ''pid -12: ''"
proof -
  have "spec_fmt ''pid %d: %s'' [Va_Int (- 12), Va_Str None] = Some ''pid -12: (null)''" by code_simp
  thus ?thesis using vsnprintf_equals_reference [of "''pid %d: %s''" "[Va_Int (- 12), Va_Str None]" "''pid -12: (null)''" 10] by simp
qed

section \<open>The log keeps what it is given\<close>

text \<open>A log that was cleared and then given the text \<open>t\<close>, before it is full.\<close>

definition log_holds :: "log_buf \<Rightarrow> string \<Rightarrow> bool" where
  "log_holds l t \<longleftrightarrow> length (lbuf l) = LOG_BUF_LEN \<and> length t < LOG_BUF_LEN \<and> ltail l = 0 \<and>
     lhead l = length t \<and> llen l = length t \<and> take (length t) (lbuf l) = t"

text \<open>The log after the character that fills it.\<close>

definition log_full :: "log_buf \<Rightarrow> string \<Rightarrow> bool" where
  "log_full l t \<longleftrightarrow> lbuf l = t \<and> length t = LOG_BUF_LEN \<and> ltail l = 1 \<and> llen l = LOG_BUF_LEN"

lemma log_put_holds: "log_holds l t \<Longrightarrow> Suc (length t) < LOG_BUF_LEN \<Longrightarrow> log_holds (log_put c l) (t @ [c])"
  by (simp add: log_holds_def log_put_def take_Suc_conv_app_nth take_update_cancel)

lemma log_put_fills: "log_holds l t \<Longrightarrow> Suc (length t) = LOG_BUF_LEN \<Longrightarrow> log_full (log_put c l) (t @ [c])"
  using take_Suc_conv_app_nth [of "length t" "(lbuf l)[length t := c]"]
  by (simp add: log_holds_def log_full_def log_put_def take_update_cancel)

lemma log_put_full: "log_full l t \<Longrightarrow> log_put c l = l"
  by (simp add: log_full_def log_put_def)

lemma fold_log_full: "log_full l t \<Longrightarrow> fold log_put cs l = l"
  by (induction cs) (simp_all add: log_put_full)

lemma fold_log_holds:
  "log_holds l t \<Longrightarrow>
   (if length t + length cs < LOG_BUF_LEN then log_holds (fold log_put cs l) (t @ cs)
    else log_full (fold log_put cs l) (take LOG_BUF_LEN (t @ cs)))"
proof (induction cs arbitrary: l t)
  case (Cons c cs)
  show ?case
  proof (cases "Suc (length t) < LOG_BUF_LEN")
    case True
    have e: "(t @ [c]) @ cs = t @ c # cs" "length (t @ [c]) + length cs = length t + length (c # cs)" by simp_all
    show ?thesis using Cons.IH [OF log_put_holds [OF Cons.prems True, of c]] by (simp only: e fold_simps)
  next
    case False
    hence e: "Suc (length t) = LOG_BUF_LEN" using Cons.prems by (simp add: log_holds_def)
    have "take LOG_BUF_LEN (t @ c # cs) = t @ [c]"
      using e by (simp add: take_append take_Cons')
    thus ?thesis using e log_put_fills [OF Cons.prems e, of c] fold_log_full [OF log_put_fills [OF Cons.prems e, of c]] by simp
  qed
qed (simp add: log_holds_def)

lemma log_text_only [simp]:
  "log_holds (l\<lparr>lsequence := n\<rparr>) t = log_holds l t" "log_full (l\<lparr>lsequence := n\<rparr>) t = log_full l t"
  by (simp_all add: log_holds_def log_full_def)

lemma log_buf_add_fold: "\<exists>n. log_buf_add m l = (fold log_put m l)\<lparr>lsequence := n\<rparr>"
  by (auto simp: log_buf_add_def intro: exI [of _ "lsequence l"])

lemma log_adds:
  "log_holds l t \<Longrightarrow>
   (if length t + length (concat ms) < LOG_BUF_LEN then log_holds (fold log_buf_add ms l) (t @ concat ms)
    else log_full (fold log_buf_add ms l) (take LOG_BUF_LEN (t @ concat ms)))"
  and log_adds_full: "log_full l u \<Longrightarrow> log_full (fold log_buf_add ms l) u"
proof -
  show full: "log_full (fold log_buf_add ms l) u" if "log_full l u" for l u ms
    using that
  proof (induction ms arbitrary: l)
    case (Cons m ms)
    obtain n where "log_buf_add m l = (fold log_put m l)\<lparr>lsequence := n\<rparr>" using log_buf_add_fold by blast
    thus ?case using Cons by (simp add: fold_log_full)
  qed simp
  show "if length t + length (concat ms) < LOG_BUF_LEN then log_holds (fold log_buf_add ms l) (t @ concat ms)
    else log_full (fold log_buf_add ms l) (take LOG_BUF_LEN (t @ concat ms))" if "log_holds l t"
    using that
  proof (induction ms arbitrary: l t)
    case (Cons m ms)
    obtain n where n: "log_buf_add m l = (fold log_put m l)\<lparr>lsequence := n\<rparr>" using log_buf_add_fold by blast
    show ?case
    proof (cases "length t + length m < LOG_BUF_LEN")
      case True
      hence "log_holds (log_buf_add m l) (t @ m)" using fold_log_holds [OF Cons.prems, of m] n by simp
      note IH = Cons.IH [OF this]
      have e: "(t @ m) @ concat ms = t @ concat (m # ms)" "length (t @ m) + length (concat ms) = length t + length (concat (m # ms))"
        by simp_all
      show ?thesis using IH by (simp only: e fold_simps)
    next
      case False
      hence "log_full (log_buf_add m l) (take LOG_BUF_LEN (t @ m))" using fold_log_holds [OF Cons.prems, of m] n by simp
      from full [OF this] show ?thesis using False by (simp add: take_append)
    qed
  qed (simp add: log_holds_def)
qed

lemma log_copy_holds: "log_holds l t \<Longrightarrow> log_buf_copy n l = take n t"
proof (rule nth_equalityI)
  assume l: "log_holds l t"
  show "length (log_buf_copy n l) = length (take n t)" using l by (simp add: log_holds_def log_buf_copy_def)
  fix i assume "i < length (log_buf_copy n l)"
  hence i: "i < n" "i < length t" using l by (simp_all add: log_holds_def log_buf_copy_def)
  moreover have "lbuf l ! i = t ! i" using l i(2) nth_take [of i "length t" "lbuf l"] by (simp add: log_holds_def)
  ultimately show "log_buf_copy n l ! i = take n t ! i" using l by (simp add: log_holds_def log_buf_copy_def)
qed

lemma log_copy_full: "log_full l t \<Longrightarrow> log_buf_copy n l = take n (rotate1 t)"
  by (rule nth_equalityI) (auto simp: log_full_def log_buf_copy_def nth_rotate1)

lemma log_clear_holds: "log_holds (log_buf_clear l) []"
  by (simp add: log_holds_def log_buf_clear_def)

text \<open>
  C19. What the kernel log gives back (kernel/printk.c, log\_buf\_clear, log\_buf\_add, log\_buf\_copy).
  After the log is cleared, any sequence of messages is read back complete and in order as long as
  together they are shorter than the buffer. When they are not, the log holds the first 131072
  characters, begun at the second one, and every later character is lost: the oldest message is not
  overwritten, as the comment in the loop says.
\<close>

theorem log_round_trip:
  "log_buf_copy n (fold log_buf_add ms (log_buf_clear l)) =
   take n (if length (concat ms) < LOG_BUF_LEN then concat ms else rotate1 (take LOG_BUF_LEN (concat ms)))"
  using log_adds [OF log_clear_holds, of ms l] log_copy_holds log_copy_full by (simp split: if_splits)

section \<open>Messages reach the log and the consoles\<close>

text \<open>The list of console drivers, from its head.\<close>

fun con_list :: "(u32 \<rightharpoonup> con) \<Rightarrow> u32 \<Rightarrow> u32 list \<Rightarrow> bool" where
  "con_list m p [] \<longleftrightarrow> p = 0"
| "con_list m p (q # qs) \<longleftrightarrow> p = q \<and> q \<noteq> 0 \<and> (case m q of None \<Rightarrow> False | Some c \<Rightarrow> con_list m (con_next c) qs)"

definition consoles_ok :: "printk_state \<Rightarrow> u32 list \<Rightarrow> bool" where
  "consoles_ok s ps \<longleftrightarrow> con_list (consoles s) (console_drivers (ctrl s)) ps \<and> distinct ps"

definition writing :: "printk_state \<Rightarrow> u32 \<Rightarrow> bool" where
  "writing s p \<longleftrightarrow> (case consoles s p of None \<Rightarrow> False | Some c \<Rightarrow> con_writes c)"

text \<open>The line a message of level \<open>level\<close> becomes.\<close>

definition log_line :: "bool \<Rightarrow> int \<Rightarrow> string \<Rightarrow> string" where
  "log_line timed level msg =
     (if timed then ''[lu.03lu] '' else []) @ (if 0 \<le> level \<and> level \<le> 7 then level_str level else []) @ msg @
     (if last msg = CHR ''\<newline>'' then [] else [CHR ''\<newline>''])"

definition deliver :: "string \<Rightarrow> u32 list \<Rightarrow> printk_state \<Rightarrow> printk_state" where
  "deliver b ps s =
     s\<lparr>con_out := con_out s @ map (\<lambda>p. (p, b)) (filter (writing s) ps), screen_out := screen_out s @ (if ps = [] then b else [])\<rparr>"

lemma con_walk_list:
  "con_list m p ps \<Longrightarrow> con_walk m acc p = Some (Inr (acc @ filter (\<lambda>q. case m q of None \<Rightarrow> False | Some c \<Rightarrow> con_writes c) ps))"
  by (induction ps arbitrary: acc p) (subst con_walk.simps, force split: option.splits)+

lemma con_list_head: "con_list m p ps \<Longrightarrow> (p = 0) = (ps = [])"
  by (cases ps) auto

lemma console_write_list:
  assumes "consoles_ok s ps"
  shows "console_write b s = Some (Inr (deliver b ps s))"
proof -
  have l: "con_list (consoles s) (console_drivers (ctrl s)) ps" using assms by (simp add: consoles_ok_def)
  have "console_write b s =
      (let s1 = s\<lparr>con_out := con_out s @ map (\<lambda>p. (p, b)) (filter (writing s) ps)\<rparr>
       in Some (Inr (if ps = [] then s1\<lparr>screen_out := screen_out s1 @ b\<rparr> else s1)))"
    unfolding console_write_def con_walk_list [OF l] con_list_head [OF l]
    by (simp add: bind_run_def writing_def [abs_def])
  thus ?thesis by (simp add: deliver_def)
qed

lemma level_str_length [simp]: "length (level_str l) = 3" "level_str l \<noteq> []"
  by (simp_all add: level_str_def)

lemma final_text_line:
  assumes "msg \<noteq> []" "length msg < 1024"
  shows "final_text timed t level msg = Inr (log_line timed level msg)"
proof -
  have v: "vsnprintf 1088 ''[%lu.%03lu] '' args = Inr ''[lu.03lu] ''" for args
    by (simp add: vsnprintf_def)
  have w: "vsnprintf n ''%s'' [Va_Str (Some (level_str l))] = Inr (level_str l)" if "3 < n" "n < 2 ^ 31" for n l
    using that by (simp add: vsnprintf_def va_str_def bind_res_def emit_take)
  show ?thesis using assms
    by (cases timed) (auto simp: final_text_def v w bind_res_def Let_def log_line_def)
qed

lemma vprintk_line:
  assumes ok: "consoles_ok s ps" and l: "parse_log_level (ctrl s) fmt = (skip, level)"
    and t: "spec_fmt (drop skip fmt) args = Some t" and ne: "t \<noteq> []"
    and b: "b = log_line (printk_time (ctrl s)) level (take 1023 t)"
    and s1: "s1 = s\<lparr>stamp := (if printk_time (ctrl s) then stamp s + 1 else stamp s), klog := log_buf_add b (klog s)\<rparr>"
  shows "vprintk fmt args s = Some (Inr (length b, if level \<le> console_loglevel (ctrl s) then deliver b ps s1 else s1))"
proof -
  have v: "vsnprintf 1024 (drop skip fmt) args = Inr (take 1023 t)"
    using t vsn_loop_spec [of "drop skip fmt" args t "[]" 1023] by (simp add: vsnprintf_def)
  have f: "final_text (printk_time (ctrl s)) (stamp s) level (take 1023 t) = Inr b"
    using ne b by (simp add: final_text_line)
  have "consoles_ok s1 ps" using ok s1 by (simp add: consoles_ok_def)
  note c = console_write_list [OF this, of b]
  show ?thesis using ne c s1 f
    by (cases "printk_time (ctrl s)") (simp_all add: vprintk_def l v bind_run_def Let_def)
qed

lemma pr_info_line:
  assumes "consoles_ok s ps" "spec_fmt fmt args = Some t" "t \<noteq> []"
  shows "\<exists>s'. pr_info fmt args s = Some (Inr s') \<and> ctrl s' = ctrl s \<and> consoles s' = consoles s"
proof -
  have "parse_log_level (ctrl s) (''<6>'' @ fmt) = (3, 6)" by (simp add: parse_log_level_def)
  from vprintk_line [OF assms(1) this] assms(2,3) show ?thesis
    by (simp add: pr_info_def bind_run_def deliver_def)
qed

lemma con_list_upd: "q \<notin> set ps \<Longrightarrow> con_list (m(q := x)) p ps = con_list m p ps"
  by (induction ps arbitrary: p) (auto split: option.splits)

lemma register_console_list:
  assumes "consoles_ok s ps" "p \<noteq> 0" "p \<notin> set ps" "consoles s p = Some c"
  shows "\<exists>s'. register_console p s = Some (Inr s') \<and> consoles_ok s' (p # ps)"
proof -
  let ?s1 = "s\<lparr>consoles := (consoles s)(p \<mapsto> c\<lparr>con_next := console_drivers (ctrl s)\<rparr>), ctrl := (ctrl s)\<lparr>console_drivers := p\<rparr>\<rparr>"
  have ok: "consoles_ok ?s1 (p # ps)" using assms by (simp add: consoles_ok_def con_list_upd)
  from pr_info_line [OF this, of "''Console '' @ [CHR 0x27] @ ''%s'' @ [CHR 0x27] @ '' registered'' @ [CHR ''\<newline>'']"
      "[Va_Str (Some (con_name c))]"]
  show ?thesis using assms(2,4) ok by (fastforce simp: register_console_def spec_item_def consoles_ok_def)
qed

text \<open>Where the pointer to a console of the list is found, and what replacing it does.\<close>

fun relink :: "u32 option \<Rightarrow> u32 \<Rightarrow> (u32 \<rightharpoonup> con) \<times> u32 \<Rightarrow> (u32 \<rightharpoonup> con) \<times> u32" where
  "relink None v (m, h) = (m, v)"
| "relink (Some q) v (m, h) = (m(q := map_option (con_next_update (\<lambda>_. v)) (m q)), h)"

lemma find_link_list:
  assumes "con_list m h ps" "distinct ps" "p \<in> set ps" "m p = Some c"
  shows "\<exists>l. find_link m p l0 h = Some (Inr (l, p)) \<and>
     (case l of None \<Rightarrow> l0 = None \<and> h = p | Some q \<Rightarrow> (l = l0 \<and> h = p) \<or> (q \<in> set ps \<and> q \<noteq> p)) \<and>
     (l = l0 \<and> h = p \<longrightarrow> con_list m (con_next c) (remove1 p ps)) \<and>
     (\<not> (l = l0 \<and> h = p) \<longrightarrow> con_list (fst (relink l (con_next c) (m, h))) h (remove1 p ps))"
  using assms
proof (induction ps arbitrary: h l0)
  case (Cons r rs)
  then obtain d where d: "h = r" "r \<noteq> 0" "m r = Some d" "con_list m (con_next d) rs" by (auto split: option.splits)
  show ?case
  proof (cases "r = p")
    case True
    have "find_link m p l0 p = Some (Inr (l0, p))" by (subst find_link.simps) simp
    thus ?thesis using True d Cons.prems by (intro exI [of _ l0]) (auto split: option.splits)
  next
    case False
    hence "p \<in> set rs" "distinct rs" using Cons.prems by auto
    from Cons.IH [OF d(4) this(2,1) Cons.prems(4), of "Some r"] obtain l where
      l: "find_link m p (Some r) (con_next d) = Some (Inr (l, p))"
      "case l of None \<Rightarrow> False | Some q \<Rightarrow> (l = Some r \<and> con_next d = p) \<or> (q \<in> set rs \<and> q \<noteq> p)"
      "l = Some r \<and> con_next d = p \<longrightarrow> con_list m (con_next c) (remove1 p rs)"
      "\<not> (l = Some r \<and> con_next d = p) \<longrightarrow> con_list (fst (relink l (con_next c) (m, con_next d))) (con_next d) (remove1 p rs)"
      by (auto split: option.splits)
    obtain q where q: "l = Some q" using l(2) by (auto split: option.splits)
    have r: "r \<notin> set (remove1 p rs)" using Cons.prems(2) by (auto dest: notin_set_remove1)
    have "con_list (fst (relink l (con_next c) (m, h))) h (r # remove1 p rs)"
    proof (cases "l = Some r \<and> con_next d = p")
      case True
      thus ?thesis using l(3) d r by (simp add: con_list_upd)
    next
      case False
      hence "q \<in> set rs" using l(2) q by auto
      hence "q \<noteq> r" using Cons.prems(2) by auto
      thus ?thesis using False l(4) q d by simp
    qed
    moreover have "find_link m p l0 h = Some (Inr (l, p))"
      using l(1) d False by (subst find_link.simps) simp
    moreover have "q \<in> set (r # rs) \<and> q \<noteq> p" using l(2) q False by auto
    ultimately show ?thesis using False d(1) q by (intro exI [of _ l]) (simp del: con_list.simps relink.simps)
  qed
qed simp

lemma con_list_mem: "con_list m h ps \<Longrightarrow> p \<in> set ps \<Longrightarrow> p \<noteq> 0 \<and> (\<exists>c. m p = Some c)"
  by (induction ps arbitrary: h) (auto split: option.splits)

lemma unregister_console_list:
  assumes ok: "consoles_ok s ps" and p: "p \<in> set ps"
  shows "\<exists>s'. unregister_console p s = Some (Inr s') \<and> consoles_ok s' (remove1 p ps)"
proof -
  have l: "con_list (consoles s) (console_drivers (ctrl s)) ps" and di: "distinct ps"
    using ok by (simp_all add: consoles_ok_def)
  obtain c where c: "p \<noteq> 0" "consoles s p = Some c" using con_list_mem [OF l p] by auto
  obtain k where k: "find_link (consoles s) p None (console_drivers (ctrl s)) = Some (Inr (k, p))"
      "k = None \<longrightarrow> con_list (consoles s) (con_next c) (remove1 p ps)"
      "k \<noteq> None \<longrightarrow> k \<noteq> Some p \<and> con_list (fst (relink k (con_next c) (consoles s, console_drivers (ctrl s)))) (console_drivers (ctrl s)) (remove1 p ps)"
    using find_link_list [OF l di p c(2), of None] by (auto split: option.splits)
  let ?s1 = "set_link k (con_next c) s"
  let ?s2 = "?s1\<lparr>consoles := (consoles ?s1)(p := map_option (con_next_update (\<lambda>_. 0)) (consoles ?s1 p))\<rparr>"
  have "p \<notin> set (remove1 p ps)" using di by simp
  hence s2: "consoles_ok ?s2 (remove1 p ps)"
    using k(2,3) di by (cases k) (simp_all add: consoles_ok_def set_link_def con_list_upd)
  show ?thesis
  proof (cases "con_next c = 0")
    case True
    thus ?thesis using c k(1) s2 by (simp add: unregister_console_def bind_run_def Let_def)
  next
    case False
    from pr_info_line [OF s2, of "''Console '' @ [CHR 0x27] @ ''%s'' @ [CHR 0x27] @ '' unregistered'' @ [CHR ''\<newline>'']"
        "[Va_Str (Some (con_name c))]"]
    show ?thesis using False c k(1) s2
      by (fastforce simp: unregister_console_def bind_run_def Let_def spec_item_def consoles_ok_def)
  qed
qed

text \<open>
  What a kernel message becomes (kernel/printk.c, vprintk). With the console drivers \<open>ps\<close> in the
  list, and a format whose text after the level prefix is \<open>t\<close>, the call returns the length of one
  line: stamp, level, at most 1023 characters of \<open>t\<close>, and a newline unless there is one. The line is
  added to the log; if the level is not above the console's, every driver that can write is given it
  once, in list order, and the screen is given it exactly when no driver is registered. The stamp is
  the text \<^verbatim>\<open>[lu.03lu]\<close>, because the formatter knows no length modifiers.
\<close>

theorem printk_delivers:
  assumes "consoles_ok s ps" and "parse_log_level (ctrl s) fmt = (skip, level)"
    and "spec_fmt (drop skip fmt) args = Some t" and "t \<noteq> []"
    and "b = log_line (printk_time (ctrl s)) level (take 1023 t)"
    and "s1 = s\<lparr>stamp := (if printk_time (ctrl s) then stamp s + 1 else stamp s), klog := log_buf_add b (klog s)\<rparr>"
  shows "vprintk fmt args s = Some (Inr (length b, if level \<le> console_loglevel (ctrl s) then deliver b ps s1 else s1))"
  using assms by (rule vprintk_line)

text \<open>A state with one console that can write and one that cannot, for concrete runs.\<close>

definition two_consoles :: printk_state where
  "two_consoles =
     \<lparr>ctrl = \<lparr>console_loglevel = 6, default_message_loglevel = 5, minimum_console_loglevel = 0, printk_time = True, console_drivers = 16\<rparr>,
      klog = log_buf_clear \<lparr>lbuf = [], lhead = 0, ltail = 0, llen = 0, lsequence = 0\<rparr>,
      consoles = [16 \<mapsto> \<lparr>con_name = ''tty'', con_writes = True, con_next = 32\<rparr>, 32 \<mapsto> \<lparr>con_name = ''null'', con_writes = False, con_next = 0\<rparr>],
      early_console_active = False, stamp = 0, con_out = [], screen_out = []\<rparr>"

lemma two_consoles_ok: "consoles_ok two_consoles [16, 32]"
  by (simp add: two_consoles_def consoles_ok_def)

theorem printk_delivers_witness:
  "\<exists>s'. vprintk ''<4>low on %s'' [Va_Str (Some ''ram'')] two_consoles = Some (Inr (24, s')) \<and>
     con_out s' = [(16, ''[lu.03lu] <4>low on ram'' @ [CHR ''\<newline>''])]"
proof -
  have p: "parse_log_level (ctrl two_consoles) ''<4>low on %s'' = (3, 4)"
    by (simp add: parse_log_level_def)
  have t: "spec_fmt (drop 3 ''<4>low on %s'') [Va_Str (Some ''ram'')] = Some ''low on ram''"
    by (simp add: spec_item_def)
  have b: "log_line True 4 (take 1023 ''low on ram'') = ''[lu.03lu] <4>low on ram'' @ [CHR ''\<newline>'']"
    by code_simp
  show ?thesis
    using printk_delivers [OF two_consoles_ok p t _ refl refl] b
    by (simp add: deliver_def writing_def two_consoles_def)
qed

text \<open>
  The list of consoles (kernel/printk.c, register\_console and unregister\_console): a console that
  is not yet in the list is put at its head, one that is in it is taken out wherever it is, the order
  of the others is kept, and the list stays well formed. Neither call faults or loops.
\<close>

theorem console_registry:
  assumes "consoles_ok s ps" and "consoles s p = Some c" and "p \<noteq> 0"
  shows "(p \<notin> set ps \<longrightarrow> (\<exists>s'. register_console p s = Some (Inr s') \<and> consoles_ok s' (p # ps))) \<and>
     (p \<in> set ps \<longrightarrow> (\<exists>s'. unregister_console p s = Some (Inr s') \<and> consoles_ok s' (remove1 p ps)))"
  using assms register_console_list unregister_console_list by blast

theorem console_registry_witness:
  "\<exists>s'. unregister_console 32 two_consoles = Some (Inr s') \<and> consoles_ok s' [16]"
  using console_registry [OF two_consoles_ok, of 32] by (simp add: two_consoles_def)

end
