(* ===== verification/Solix_Fs.thy ===== *)
theory Solix_Fs
  imports Solix_Heap Solix_Netutil
begin

text \<open>
  The file system SolixFS, after \<^verbatim>\<open>fs/solixfs.c\<close> and the structures of \<^verbatim>\<open>include/vfs.h\<close>: bitmaps of blocks
  and inodes, the inode table in memory, directories as blocks of fixed-size entries, and reading,
  writing and seeking of files over twelve direct blocks. The disk driver is not part of the
  repository: its two operations are an argument \<open>D\<close> of every definition that calls them, on a disk
  of any type. A vnode has the field \<^verbatim>\<open>offset\<close> that the code uses and the structure of \<^verbatim>\<open>vfs.h\<close> lacks.
\<close>

declare of_nat_add [simp del]

section \<open>Data\<close>

abbreviation SOLIXFS_MAGIC :: u32 where "SOLIXFS_MAGIC \<equiv> 0x534F4C58"
abbreviation SOLIXFS_BLOCK_SIZE :: nat where "SOLIXFS_BLOCK_SIZE \<equiv> 4096"
abbreviation SOLIXFS_INODE_SIZE :: nat where "SOLIXFS_INODE_SIZE \<equiv> 92"
abbreviation SOLIXFS_DIR_ENTRY_SIZE :: nat where "SOLIXFS_DIR_ENTRY_SIZE \<equiv> 260"
abbreviation FT_REGULAR :: u32 where "FT_REGULAR \<equiv> 1"
abbreviation FT_DIRECTORY :: u32 where "FT_DIRECTORY \<equiv> 2"

record superblock =
  magic :: u32
  version :: u32
  block_size :: u32
  total_blocks :: u32
  free_blocks :: u32
  inode_count :: u32
  free_inodes :: u32
  sb_inode_table :: u32
  data_blocks :: u32
  bitmap_blocks :: u32

record inode =
  mode :: u32
  uid :: u32
  gid :: u32
  fsize :: u32
  atime :: u32
  mtime :: u32
  ctime :: u32
  links :: u32
  iblocks :: u32
  direct :: "u32 list"
  indirect :: u32
  double_indirect :: u32

datatype file_ops = Dir_Ops | File_Ops

text \<open>A vnode; the pointer to its inode is the index in the inode table.\<close>

record vnode =
  inode_num :: u32
  vinode :: u32
  vparent :: u32
  vchildren :: u32
  vnext :: u32
  vops :: file_ops
  private_data :: u32
  voffset :: u32

record mount =
  device :: string
  mountpoint :: string
  mroot :: u32
  active :: bool

record open_file =
  fvnode :: u32
  foffset :: u32
  fflags :: u32
  ref_count :: u32

text \<open>
  The static variables of \<^verbatim>\<open>fs/solixfs.c\<close> and \<^verbatim>\<open>fs/vfs.c\<close>, the objects their pointers lead to, the
  kernel heap, the disk, and the text printed so far.
\<close>

record 'd fs =
  sb :: superblock
  block_bitmap :: "u8 list"
  inode_bitmap :: "u8 list"
  inode_table :: "inode list"
  disk_buffer :: "u8 list"
  root_vnode :: u32
  vnodes :: "u32 \<rightharpoonup> vnode"
  fs_heap :: heap
  disk :: 'd
  fs_out :: string
  mount_table :: "mount list"
  file_table :: "open_file list"

text \<open>The disk driver: reading \<open>n\<close> bytes from a block on, and writing bytes from a block on.\<close>

record 'd disk_driver =
  disk_read :: "u32 \<Rightarrow> nat \<Rightarrow> 'd \<Rightarrow> u8 list"
  disk_write :: "u32 \<Rightarrow> u8 list \<Rightarrow> 'd \<Rightarrow> 'd"

section \<open>Initialisation\<close>

definition parse_superblock :: "u8 list \<Rightarrow> superblock" where
  "parse_superblock bs =
     \<lparr>magic = get32 bs 0, version = get32 bs 4, block_size = get32 bs 8, total_blocks = get32 bs 12, free_blocks = get32 bs 16,
      inode_count = get32 bs 20, free_inodes = get32 bs 24, sb_inode_table = get32 bs 28, data_blocks = get32 bs 32, bitmap_blocks = get32 bs 36\<rparr>"

definition parse_inode :: "u8 list \<Rightarrow> inode" where
  "parse_inode bs =
     \<lparr>mode = get32 bs 0, uid = get32 bs 4, gid = get32 bs 8, fsize = get32 bs 12, atime = get32 bs 16, mtime = get32 bs 20, ctime = get32 bs 24,
      links = get32 bs 28, iblocks = get32 bs 32, direct = map (\<lambda>k. get32 bs (36 + 4 * k)) [0..<12],
      indirect = get32 bs 84, double_indirect = get32 bs 88\<rparr>"

definition parse_inodes :: "u8 list \<Rightarrow> inode list" where
  "parse_inodes bs = map (\<lambda>k. parse_inode (drop (SOLIXFS_INODE_SIZE * k) bs)) [0..<length bs div SOLIXFS_INODE_SIZE]"

text \<open>
  An allocation whose result is then filled with \<open>n\<close> bytes; the code does not look for \<^verbatim>\<open>NULL\<close>. For the
  disk buffer the fault comes here and not at its first use; its first contents are never read.
\<close>

definition alloc_filled :: "u32 \<Rightarrow> heap \<Rightarrow> (u32 \<times> heap) run" where
  "alloc_filled n h = bind_run (kmalloc n h) (\<lambda>(p, h1). if p = 0 \<and> n \<noteq> 0 then Some (Inl (Wild_Access 0)) else Some (Inr (p, h1)))"

definition empty_file :: open_file where
  "empty_file = \<lparr>fvnode = 0, foffset = 0, fflags = 0, ref_count = 0\<rparr>"

definition solixfs_init :: "'d disk_driver \<Rightarrow> 'd fs \<Rightarrow> 'd fs run" where
  "solixfs_init D s =
     (let b = parse_superblock (disk_read D 0 40 (disk s));
          s1 = s\<lparr>sb := b\<rparr>
      in if magic b \<noteq> SOLIXFS_MAGIC then Some (Inr (s1\<lparr>fs_out := fs_out s1 @ ''Invalid SolixFS filesystem'' @ [CHR ''\<newline>'']\<rparr>))
         else
           let bitmap_size = (total_blocks b + 7) div 8;
               inode_bytes = inode_count b * of_nat SOLIXFS_INODE_SIZE;
               table_end = sb_inode_table b + inode_bytes div of_nat SOLIXFS_BLOCK_SIZE
           in bind_run (alloc_filled bitmap_size (fs_heap s1)) (\<lambda>(_, h1).
              bind_run (alloc_filled ((inode_count b + 7) div 8) h1) (\<lambda>(_, h2).
              bind_run (alloc_filled inode_bytes h2) (\<lambda>(_, h3).
              bind_run (alloc_filled (of_nat SOLIXFS_BLOCK_SIZE) h3) (\<lambda>(_, h4).
              bind_run (alloc_filled 32 h4) (\<lambda>(r, h5).
              Some (Inr (s1\<lparr>
                inode_table := parse_inodes (disk_read D (sb_inode_table b) (unat inode_bytes) (disk s1)),
                block_bitmap := disk_read D table_end (unat bitmap_size) (disk s1),
                inode_bitmap := disk_read D (table_end + bitmap_size div of_nat SOLIXFS_BLOCK_SIZE) (unat ((inode_count b + 7) div 8)) (disk s1),
                disk_buffer := replicate SOLIXFS_BLOCK_SIZE 0,
                root_vnode := r,
                vnodes := (vnodes s1)(r \<mapsto> \<lparr>inode_num = 1, vinode = 0, vparent = 0, vchildren = 0, vnext = 0, vops = Dir_Ops, private_data = 0, voffset = 0\<rparr>),
                file_table := replicate 256 empty_file,
                fs_heap := h5,
                fs_out := fs_out s1 @ ''SolixFS initialized successfully'' @ [CHR ''\<newline>'']\<rparr>))))))))"

section \<open>Blocks and inodes\<close>

definition block_take :: "'d fs \<Rightarrow> (nat \<times> 'd fs) option" where
  "block_take s =
     (case find (\<lambda>i. \<not> bm_test (block_bitmap s) i) [0..<unat (total_blocks (sb s))] of
        None \<Rightarrow> None
      | Some i \<Rightarrow> Some (i, s\<lparr>block_bitmap := bm_set (block_bitmap s) i, sb := (sb s)\<lparr>free_blocks := free_blocks (sb s) - 1\<rparr>\<rparr>))"

text \<open>The result 0 stands both for block 0 and for a full disk.\<close>

definition alloc_block :: "'d fs \<Rightarrow> u32 \<times> 'd fs" where
  "alloc_block s = (case block_take s of None \<Rightarrow> (0, s) | Some (i, s1) \<Rightarrow> (of_nat i, s1))"

definition free_block :: "nat \<Rightarrow> 'd fs \<Rightarrow> 'd fs" where
  "free_block b s =
     (if bm_test (block_bitmap s) b
      then s\<lparr>block_bitmap := bm_clear (block_bitmap s) b, sb := (sb s)\<lparr>free_blocks := free_blocks (sb s) + 1\<rparr>\<rparr>
      else s)"

definition inode_take :: "'d fs \<Rightarrow> (nat \<times> 'd fs) option" where
  "inode_take s =
     (case find (\<lambda>i. \<not> bm_test (inode_bitmap s) i) [0..<unat (inode_count (sb s))] of
        None \<Rightarrow> None
      | Some i \<Rightarrow> Some (i, s\<lparr>inode_bitmap := bm_set (inode_bitmap s) i, sb := (sb s)\<lparr>free_inodes := free_inodes (sb s) - 1\<rparr>\<rparr>))"

definition alloc_inode :: "'d fs \<Rightarrow> u32 \<times> 'd fs" where
  "alloc_inode s = (case inode_take s of None \<Rightarrow> (0, s) | Some (i, s1) \<Rightarrow> (of_nat i + 1, s1))"

definition inode_release :: "nat \<Rightarrow> 'd fs \<Rightarrow> 'd fs" where
  "inode_release i s =
     (if bm_test (inode_bitmap s) i
      then s\<lparr>inode_bitmap := bm_clear (inode_bitmap s) i, sb := (sb s)\<lparr>free_inodes := free_inodes (sb s) + 1\<rparr>\<rparr>
      else s)"

definition free_inode :: "u32 \<Rightarrow> 'd fs \<Rightarrow> 'd fs" where
  "free_inode n s = (if n = 0 then s else inode_release (unat (n - 1)) s)"

definition read_block :: "'d disk_driver \<Rightarrow> u32 \<Rightarrow> 'd fs \<Rightarrow> 'd fs" where
  "read_block D b s = s\<lparr>disk_buffer := disk_read D (data_blocks (sb s) + b) SOLIXFS_BLOCK_SIZE (disk s)\<rparr>"

definition write_block :: "'d disk_driver \<Rightarrow> u32 \<Rightarrow> u8 list \<Rightarrow> 'd fs \<Rightarrow> 'd fs" where
  "write_block D b xs s = s\<lparr>disk := disk_write D (data_blocks (sb s) + b) xs (disk s)\<rparr>"

definition get_inode :: "u32 \<Rightarrow> 'd fs \<Rightarrow> fault + inode" where
  "get_inode i s = (if unat i < length (inode_table s) then Inr (inode_table s ! unat i) else Inl Out_Of_Bounds)"

definition upd_inode :: "u32 \<Rightarrow> (inode \<Rightarrow> inode) \<Rightarrow> 'd fs \<Rightarrow> 'd fs" where
  "upd_inode i f s = s\<lparr>inode_table := list_update (inode_table s) (unat i) (f (inode_table s ! unat i))\<rparr>"

definition upd_vnode :: "u32 \<Rightarrow> (vnode \<Rightarrow> vnode) \<Rightarrow> 'd fs \<Rightarrow> 'd fs" where
  "upd_vnode p f s = s\<lparr>vnodes := (vnodes s)(p := map_option f (vnodes s p))\<rparr>"

definition get_vnode :: "u32 \<Rightarrow> 'd fs \<Rightarrow> fault + vnode" where
  "get_vnode p s = (case vnodes s p of None \<Rightarrow> Inl (Wild_Access p) | Some v \<Rightarrow> Inr v)"

section \<open>Directories\<close>

definition name_bytes :: "string \<Rightarrow> u8 list" where
  "name_bytes n = map (\<lambda>c. of_nat (of_char c)) n"

definition entry_inode :: "u8 list \<Rightarrow> nat \<Rightarrow> u32" where
  "entry_inode buf j = get32 buf (SOLIXFS_DIR_ENTRY_SIZE * j)"

text \<open>\<^verbatim>\<open>strcmp(entries[j].name, name) == 0\<close>: the name and its terminator are there.\<close>

definition entry_named :: "string \<Rightarrow> u8 list \<Rightarrow> nat \<Rightarrow> bool" where
  "entry_named n buf j \<longleftrightarrow> take (length n + 1) (drop (SOLIXFS_DIR_ENTRY_SIZE * j + 4) buf) = name_bytes n @ [0]"

abbreviation ENTRIES :: nat where "ENTRIES \<equiv> 15"

fun find_blocks :: "'d disk_driver \<Rightarrow> string \<Rightarrow> u32 list \<Rightarrow> 'd fs \<Rightarrow> u32 \<times> 'd fs" where
  "find_blocks D n [] s = (0, s)"
| "find_blocks D n (b # bs) s =
     (let s1 = read_block D b s
      in case find (\<lambda>j. entry_inode (disk_buffer s1) j \<noteq> 0 \<and> entry_named n (disk_buffer s1) j) [0..<ENTRIES] of
           Some j \<Rightarrow> (entry_inode (disk_buffer s1) j, s1)
         | None \<Rightarrow> find_blocks D n bs s1)"

definition find_in_dir :: "'d disk_driver \<Rightarrow> u32 \<Rightarrow> string \<Rightarrow> 'd fs \<Rightarrow> fault + u32 \<times> 'd fs" where
  "find_in_dir D dir_inode n s =
     bind_res (get_inode (dir_inode - 1) s) (\<lambda>d.
       if mode d \<noteq> FT_DIRECTORY then Inr (0, s)
       else Inr (find_blocks D n (take (min (unat (iblocks d)) 12) (direct d)) s))"

text \<open>The results of \<^verbatim>\<open>read\<close>: the count or $-1$, and the bytes put in the buffer.\<close>

definition dir_read :: "'d disk_driver \<Rightarrow> u32 \<Rightarrow> u32 \<Rightarrow> 'd fs \<Rightarrow> fault + (int \<times> u8 list) \<times> 'd fs" where
  "dir_read D p count s =
     bind_res (get_vnode p s) (\<lambda>v.
     bind_res (get_inode (vinode v) s) (\<lambda>d.
       if mode d \<noteq> FT_DIRECTORY then Inr ((-1, []), s)
       else let block_offset = unat (voffset v) div SOLIXFS_BLOCK_SIZE;
                entry_offset = (unat (voffset v) mod SOLIXFS_BLOCK_SIZE) div SOLIXFS_DIR_ENTRY_SIZE
            in if block_offset \<ge> unat (iblocks d) \<or> block_offset \<ge> 12 then Inr ((0, []), s)
               else let s1 = read_block D (direct d ! block_offset) s;
                        js = take (unat count div SOLIXFS_DIR_ENTRY_SIZE) (filter (\<lambda>j. entry_inode (disk_buffer s1) j \<noteq> 0) [entry_offset..<ENTRIES]);
                        n = SOLIXFS_DIR_ENTRY_SIZE * length js
                    in Inr ((int n, concat (map (\<lambda>j. take SOLIXFS_DIR_ENTRY_SIZE (drop (SOLIXFS_DIR_ENTRY_SIZE * j) (disk_buffer s1))) js)),
                            upd_vnode p (\<lambda>v. v\<lparr>voffset := voffset v + of_nat n\<rparr>) s1)))"

definition dir_write :: "u32 \<Rightarrow> u8 list \<Rightarrow> 'd fs \<Rightarrow> fault + int \<times> 'd fs" where
  "dir_write p buf s = Inr (-1, s)"

definition dir_seek :: "u32 \<Rightarrow> u32 \<Rightarrow> int \<Rightarrow> 'd fs \<Rightarrow> fault + int \<times> 'd fs" where
  "dir_seek p offset whence s =
     (if whence \<notin> {0, 1, 2} then Inr (-1, s)
      else bind_res (get_vnode p s) (\<lambda>v.
           bind_res (get_inode (vinode v) s) (\<lambda>f.
             let o1 = (if whence = 0 then offset else if whence = 1 then voffset v + offset else fsize f);
                 o2 = (if o1 > fsize f then fsize f else o1)
             in Inr (0, upd_vnode p (\<lambda>v. v\<lparr>voffset := o2\<rparr>) s))))"

section \<open>Files\<close>

lemma chunk_shrinks: "d < N \<Longrightarrow> N - (d + min (4096 - off mod 4096) (N - d)) < N - (d :: nat)" for off :: nat
proof -
  assume "d < N"
  moreover have "off mod 4096 < 4096" by simp
  ultimately have "0 < min (4096 - off mod 4096) (N - d)" by simp
  thus ?thesis using \<open>d < N\<close> by linarith
qed

function read_loop :: "'d disk_driver \<Rightarrow> inode \<Rightarrow> nat \<Rightarrow> nat \<Rightarrow> nat \<Rightarrow> u8 list \<Rightarrow> 'd fs \<Rightarrow> nat \<times> nat \<times> u8 list \<times> 'd fs" where
  "read_loop D f to_read done off buf s =
     (if done < to_read then
        let block_offset = off div SOLIXFS_BLOCK_SIZE;
            offset_in_block = off mod SOLIXFS_BLOCK_SIZE;
            n = min (SOLIXFS_BLOCK_SIZE - offset_in_block) (to_read - done)
        in if block_offset < 12 then
             let s1 = read_block D (direct f ! block_offset) s
             in read_loop D f to_read (done + n) (off + n) (buf @ take n (drop offset_in_block (disk_buffer s1))) s1
           else (done, off, buf, s)
      else (done, off, buf, s))"
  by auto
termination
  by (relation "measure (\<lambda>(D, f, to_read, done, off, buf, s). to_read - done)") (simp, simp only: in_measure split_conv, rule chunk_shrinks)

declare read_loop.simps [simp del]

definition file_read :: "'d disk_driver \<Rightarrow> u32 \<Rightarrow> u32 \<Rightarrow> 'd fs \<Rightarrow> fault + (int \<times> u8 list) \<times> 'd fs" where
  "file_read D p count s =
     bind_res (get_vnode p s) (\<lambda>v.
     bind_res (get_inode (vinode v) s) (\<lambda>f.
       if voffset v \<ge> fsize f then Inr ((0, []), s)
       else let to_read = (if voffset v + count > fsize f then fsize f - voffset v else count)
            in case read_loop D f (unat to_read) 0 (unat (voffset v)) [] s of
                 (done, off, buf, s1) \<Rightarrow> Inr ((int done, buf), upd_vnode p (\<lambda>v. v\<lparr>voffset := of_nat off\<rparr>) s1)))"

definition patch :: "nat \<Rightarrow> 'a list \<Rightarrow> 'a list \<Rightarrow> 'a list" where
  "patch k xs ys = take k ys @ xs @ drop (k + length xs) ys"

text \<open>The block a write goes to, allocated if the file has none there yet.\<close>

definition ensure_block :: "u32 \<Rightarrow> nat \<Rightarrow> 'd fs \<Rightarrow> bool \<times> 'd fs" where
  "ensure_block i k s =
     (if direct (inode_table s ! unat i) ! k = 0 then
        case alloc_block s of (b, s1) \<Rightarrow>
          if b = 0 then (False, s1)
          else (True, upd_inode i (\<lambda>f. f\<lparr>direct := list_update (direct f) k b, iblocks := iblocks f + 1\<rparr>) s1)
      else (True, s))"

text \<open>Writing a chunk \<open>c\<close> that lies in one block, which is read before unless it is replaced as a whole.\<close>

definition put_chunk :: "'d disk_driver \<Rightarrow> u32 \<Rightarrow> nat \<Rightarrow> u8 list \<Rightarrow> 'd fs \<Rightarrow> 'd fs" where
  "put_chunk D i off c s =
     (let b = direct (inode_table s ! unat i) ! (off div SOLIXFS_BLOCK_SIZE);
          s2 = (if off mod SOLIXFS_BLOCK_SIZE > 0 \<or> length c < SOLIXFS_BLOCK_SIZE then read_block D b s else s);
          s3 = s2\<lparr>disk_buffer := patch (off mod SOLIXFS_BLOCK_SIZE) c (disk_buffer s2)\<rparr>;
          s4 = write_block D b (disk_buffer s3) s3
      in if off + length c > unat (fsize (inode_table s4 ! unat i)) then upd_inode i (\<lambda>f. f\<lparr>fsize := of_nat (off + length c)\<rparr>) s4 else s4)"

function write_loop :: "'d disk_driver \<Rightarrow> u32 \<Rightarrow> u8 list \<Rightarrow> nat \<Rightarrow> nat \<Rightarrow> 'd fs \<Rightarrow> nat \<times> nat \<times> 'd fs" where
  "write_loop D i buf done off s =
     (if done < length buf then
        let block_offset = off div SOLIXFS_BLOCK_SIZE;
            offset_in_block = off mod SOLIXFS_BLOCK_SIZE;
            n = min (SOLIXFS_BLOCK_SIZE - offset_in_block) (length buf - done)
        in if block_offset \<ge> 12 then (done, off, s)
           else case ensure_block i block_offset s of
             (False, s1) \<Rightarrow> (done, off, s1)
           | (True, s1) \<Rightarrow>
               write_loop D i buf (done + n) (off + n) (put_chunk D i off (take n (drop done buf)) s1)
      else (done, off, s))"
  by auto
termination
  by (relation "measure (\<lambda>(D, i, buf, done, off, s). length buf - done)") (simp, simp only: in_measure split_conv, rule chunk_shrinks)

declare write_loop.simps [simp del]

definition file_write :: "'d disk_driver \<Rightarrow> u32 \<Rightarrow> u8 list \<Rightarrow> 'd fs \<Rightarrow> fault + int \<times> 'd fs" where
  "file_write D p buf s =
     bind_res (get_vnode p s) (\<lambda>v.
     bind_res (get_inode (vinode v) s) (\<lambda>_.
       case write_loop D (vinode v) buf 0 (unat (voffset v)) s of
         (done, off, s1) \<Rightarrow> Inr (int done, upd_vnode p (\<lambda>v. v\<lparr>voffset := of_nat off\<rparr>) s1)))"

definition file_seek :: "u32 \<Rightarrow> u32 \<Rightarrow> int \<Rightarrow> 'd fs \<Rightarrow> fault + int \<times> 'd fs" where
  "file_seek p offset whence s =
     (if whence \<notin> {0, 1, 2} then Inr (-1, s)
      else bind_res (get_vnode p s) (\<lambda>v.
           bind_res (get_inode (vinode v) s) (\<lambda>f.
             let o1 = (if whence = 0 then offset else if whence = 1 then voffset v + offset else fsize f);
                 o2 = (if o1 > fsize f then fsize f else o1)
             in Inr (0, upd_vnode p (\<lambda>v. v\<lparr>voffset := o2\<rparr>) s))))"

definition dir_close :: "u32 \<Rightarrow> 'd fs \<Rightarrow> int \<times> 'd fs" where
  "dir_close p s = (0, s)"

definition file_close :: "u32 \<Rightarrow> 'd fs \<Rightarrow> int \<times> 'd fs" where
  "file_close p s = (0, s)"

section \<open>Allocation is slot allocation\<close>

definition blocks_ok :: "'d fs \<Rightarrow> bool" where
  "blocks_ok s \<longleftrightarrow> bm_fits (block_bitmap s) (unat (total_blocks (sb s)))"

definition blocks_used :: "'d fs \<Rightarrow> nat set" where
  "blocks_used s = bm_set_of (block_bitmap s) (unat (total_blocks (sb s)))"

definition block_cap :: "'d fs \<Rightarrow> nat" where
  "block_cap s = unat (total_blocks (sb s))"

definition inodes_ok :: "'d fs \<Rightarrow> bool" where
  "inodes_ok s \<longleftrightarrow> bm_fits (inode_bitmap s) (unat (inode_count (sb s)))"

definition inodes_used :: "'d fs \<Rightarrow> nat set" where
  "inodes_used s = bm_set_of (inode_bitmap s) (unat (inode_count (sb s)))"

definition inode_cap :: "'d fs \<Rightarrow> nat" where
  "inode_cap s = unat (inode_count (sb s))"

lemma block_take_Some:
  "block_take s = Some (i, t) \<longleftrightarrow> i < block_cap s \<and> \<not> bm_test (block_bitmap s) i \<and> (\<forall>j<i. bm_test (block_bitmap s) j) \<and>
     t = s\<lparr>block_bitmap := bm_set (block_bitmap s) i, sb := (sb s)\<lparr>free_blocks := free_blocks (sb s) - 1\<rparr>\<rparr>"
proof -
  have "block_take s = Some (i, t) \<longleftrightarrow> find (\<lambda>i. \<not> bm_test (block_bitmap s) i) [0..<block_cap s] = Some i \<and>
      t = s\<lparr>block_bitmap := bm_set (block_bitmap s) i, sb := (sb s)\<lparr>free_blocks := free_blocks (sb s) - 1\<rparr>\<rparr>"
    by (auto simp: block_take_def block_cap_def split: option.splits)
  then show ?thesis by (auto simp: find_upt_Some)
qed

lemma block_take_None: "block_take s = None \<longleftrightarrow> (\<forall>i<block_cap s. bm_test (block_bitmap s) i)"
  using find_upt_None [of "\<lambda>i. \<not> bm_test (block_bitmap s) i" "block_cap s"]
  by (auto simp: block_take_def block_cap_def split: option.split)

lemma inode_take_Some:
  "inode_take s = Some (i, t) \<longleftrightarrow> i < inode_cap s \<and> \<not> bm_test (inode_bitmap s) i \<and> (\<forall>j<i. bm_test (inode_bitmap s) j) \<and>
     t = s\<lparr>inode_bitmap := bm_set (inode_bitmap s) i, sb := (sb s)\<lparr>free_inodes := free_inodes (sb s) - 1\<rparr>\<rparr>"
proof -
  have "inode_take s = Some (i, t) \<longleftrightarrow> find (\<lambda>i. \<not> bm_test (inode_bitmap s) i) [0..<inode_cap s] = Some i \<and>
      t = s\<lparr>inode_bitmap := bm_set (inode_bitmap s) i, sb := (sb s)\<lparr>free_inodes := free_inodes (sb s) - 1\<rparr>\<rparr>"
    by (auto simp: inode_take_def inode_cap_def split: option.splits)
  then show ?thesis by (auto simp: find_upt_Some)
qed

lemma inode_take_None: "inode_take s = None \<longleftrightarrow> (\<forall>i<inode_cap s. bm_test (inode_bitmap s) i)"
  using find_upt_None [of "\<lambda>i. \<not> bm_test (inode_bitmap s) i" "inode_cap s"]
  by (auto simp: inode_take_def inode_cap_def split: option.split)

interpretation blocks: slot_allocator blocks_ok block_cap blocks_used block_take free_block
proof (unfold_locales, goal_cases)
  case (1 s) show ?case by (simp add: blocks_used_def block_cap_def bm_set_of_subset)
next
  case (2 s) show ?case by (simp only: block_take_None blocks_used_def block_cap_def bm_set_of_full)
next
  case (7 s i)
  then have "i < block_cap s" "bm_test (block_bitmap s) i" by (auto simp: blocks_used_def bm_set_of_def block_cap_def)
  with 7 show ?case by (simp add: free_block_def blocks_used_def bm_set_of_clear blocks_ok_def block_cap_def)
qed (auto simp: block_take_Some free_block_def blocks_ok_def block_cap_def blocks_used_def bm_set_of_set, auto simp: bm_set_of_def)

interpretation inodes: slot_allocator inodes_ok inode_cap inodes_used inode_take inode_release
proof (unfold_locales, goal_cases)
  case (1 s) show ?case by (simp add: inodes_used_def inode_cap_def bm_set_of_subset)
next
  case (2 s) show ?case by (simp only: inode_take_None inodes_used_def inode_cap_def bm_set_of_full)
next
  case (7 s i)
  then have "i < inode_cap s" "bm_test (inode_bitmap s) i" by (auto simp: inodes_used_def bm_set_of_def inode_cap_def)
  with 7 show ?case by (simp add: inode_release_def inodes_used_def bm_set_of_clear inodes_ok_def inode_cap_def)
qed (auto simp: inode_take_Some inode_release_def inodes_ok_def inode_cap_def inodes_used_def bm_set_of_set, auto simp: bm_set_of_def)

section \<open>Contents of files\<close>

text \<open>What the code relies on of the disk driver: blocks are read back as they were written.\<close>

definition disk_laws :: "'d disk_driver \<Rightarrow> bool" where
  "disk_laws D \<longleftrightarrow>
     (\<forall>b n d. length (disk_read D b n d) = n) \<and>
     (\<forall>b xs d. length xs = SOLIXFS_BLOCK_SIZE \<longrightarrow> disk_read D b SOLIXFS_BLOCK_SIZE (disk_write D b xs d) = xs) \<and>
     (\<forall>b c xs d. length xs = SOLIXFS_BLOCK_SIZE \<longrightarrow> b \<noteq> c \<longrightarrow>
        disk_read D c SOLIXFS_BLOCK_SIZE (disk_write D b xs d) = disk_read D c SOLIXFS_BLOCK_SIZE d)"

definition blk :: "'d disk_driver \<Rightarrow> 'd fs \<Rightarrow> u32 \<Rightarrow> u8 list" where
  "blk D s b = disk_read D (data_blocks (sb s) + b) SOLIXFS_BLOCK_SIZE (disk s)"

definition raw :: "'d disk_driver \<Rightarrow> 'd fs \<Rightarrow> inode \<Rightarrow> u8 list" where
  "raw D s f = concat (map (blk D s) (direct f))"

text \<open>The bytes of the file with inode \<open>i\<close>: the abstract file.\<close>

definition contents :: "'d disk_driver \<Rightarrow> 'd fs \<Rightarrow> nat \<Rightarrow> u8 list" where
  "contents D s i = take (unat (fsize (inode_table s ! i))) (raw D s (inode_table s ! i))"

abbreviation FILE_MAX :: nat where "FILE_MAX \<equiv> 49152"

definition inode_ok :: "'d fs \<Rightarrow> inode \<Rightarrow> bool" where
  "inode_ok s f \<longleftrightarrow> length (direct f) = 12 \<and> unat (fsize f) \<le> FILE_MAX \<and>
     (\<forall>k<12. k * SOLIXFS_BLOCK_SIZE < unat (fsize f) \<longrightarrow> direct f ! k \<noteq> 0) \<and>
     (\<forall>b\<in>set (direct f). b \<noteq> 0 \<longrightarrow> unat b < block_cap s \<and> bm_test (block_bitmap s) (unat b))"

text \<open>No block belongs to two places of the inode table.\<close>

definition unshared :: "inode list \<Rightarrow> bool" where
  "unshared fs \<longleftrightarrow> (\<forall>i<length fs. \<forall>j<length fs. \<forall>k<12. \<forall>l<12.
     direct (fs ! i) ! k = direct (fs ! j) ! l \<longrightarrow> direct (fs ! i) ! k \<noteq> 0 \<longrightarrow> i = j \<and> k = l)"

definition fs_ok :: "'d fs \<Rightarrow> bool" where
  "fs_ok s \<longleftrightarrow> blocks_ok s \<and> length (disk_buffer s) = SOLIXFS_BLOCK_SIZE \<and>
     (\<forall>i<length (inode_table s). inode_ok s (inode_table s ! i)) \<and> unshared (inode_table s)"

lemma concat_nth_uniform:
  "(\<forall>xs\<in>set xss. length xs = n) \<Longrightarrow> 0 < n \<Longrightarrow> i < n * length xss \<Longrightarrow> concat xss ! i = xss ! (i div n) ! (i mod n)"
proof (induction xss arbitrary: i)
  case (Cons xs xss)
  show ?case
  proof (cases "i < n")
    case False
    hence "concat xss ! (i - n) = xss ! ((i - n) div n) ! ((i - n) mod n)" using Cons by simp
    thus ?thesis using False Cons.prems by (simp add: nth_append le_div_geq le_mod_geq)
  qed (use Cons in \<open>simp add: nth_append\<close>)
qed simp

lemma concat_length_uniform: "(\<forall>xs\<in>set xss. length xs = n) \<Longrightarrow> length (concat xss) = n * length xss"
  by (induction xss) auto

lemma blk_length [simp]: "disk_laws D \<Longrightarrow> length (blk D s b) = SOLIXFS_BLOCK_SIZE"
  by (simp add: blk_def disk_laws_def)

lemma raw_length: "disk_laws D \<Longrightarrow> length (direct f) = 12 \<Longrightarrow> length (raw D s f) = FILE_MAX"
  using concat_length_uniform [of "map (blk D s) (direct f)" SOLIXFS_BLOCK_SIZE] by (simp add: raw_def)

lemma raw_nth:
  assumes "disk_laws D" "length (direct f) = 12" "x < FILE_MAX"
  shows "raw D s f ! x = blk D s (direct f ! (x div SOLIXFS_BLOCK_SIZE)) ! (x mod SOLIXFS_BLOCK_SIZE)"
  using assms concat_nth_uniform [of "map (blk D s) (direct f)" SOLIXFS_BLOCK_SIZE x] by (simp add: raw_def)

lemma in_block:
  assumes "off mod m + x < (m :: nat)"
  shows "(off + x) div m = off div m" "(off + x) mod m = off mod m + x"
proof -
  have e: "off + x = (off mod m + x) + m * (off div m)" by simp
  show "(off + x) div m = off div m" using assms by (subst e, subst div_mult_self2) auto
  show "(off + x) mod m = off mod m + x" using assms by (subst e) (simp only: mod_mult_self2 mod_less)
qed

lemma raw_chunk:
  assumes "disk_laws D" "length (direct f) = 12" "off div 4096 < 12" "n \<le> 4096 - off mod 4096"
  shows "take n (drop (off mod 4096) (blk D s (direct f ! (off div 4096)))) = take n (drop off (raw D s f))"
proof (rule nth_equalityI)
  have "off = 4096 * (off div 4096) + off mod 4096" by simp
  hence le: "off + n \<le> FILE_MAX" using assms(3,4) mod_less_divisor [of 4096 off] by linarith
  show "length (take n (drop (off mod 4096) (blk D s (direct f ! (off div 4096))))) = length (take n (drop off (raw D s f)))"
    using assms le by (simp add: raw_length)
  fix x assume "x < length (take n (drop (off mod 4096) (blk D s (direct f ! (off div 4096)))))"
  hence x: "x < n" by simp
  have "off mod 4096 + x < 4096" using x assms(4) by linarith
  note in_block [OF this]
  thus "take n (drop (off mod 4096) (blk D s (direct f ! (off div 4096)))) ! x = take n (drop off (raw D s f)) ! x"
    using x assms le raw_nth [OF assms(1,2), of "off + x" s] by (simp add: raw_length)
qed

lemma raw_buffer [simp]: "raw D (s\<lparr>disk_buffer := x\<rparr>) f = raw D s f" "blk D (s\<lparr>disk_buffer := x\<rparr>) b = blk D s b"
  by (simp_all add: raw_def blk_def [abs_def])

lemma read_block_blk: "read_block D b s = s\<lparr>disk_buffer := blk D s b\<rparr>"
  by (simp add: read_block_def blk_def)

lemma read_loop_spec:
  assumes "disk_laws D" "length (direct f) = 12" "done \<le> to_read" "off + (to_read - done) \<le> FILE_MAX"
    "length (disk_buffer s) = 4096"
  shows "\<exists>x. length x = 4096 \<and>
     read_loop D f to_read done off buf s =
       (to_read, off + (to_read - done), buf @ take (to_read - done) (drop off (raw D s f)), s\<lparr>disk_buffer := x\<rparr>)"
  using assms
proof (induction D f to_read "done" off buf s rule: read_loop.induct)
  case (1 D f to_read d off buf s)
  show ?case
  proof (cases "d < to_read")
    case False
    thus ?thesis using "1.prems" by (intro exI [of _ "disk_buffer s"]) (simp add: read_loop.simps)
  next
    case True
    define n where "n = min (4096 - off mod 4096) (to_read - d)"
    have k: "off div 4096 < 12" using True "1.prems"(4) by simp
    have n: "n \<le> to_read - d" "n \<le> 4096 - off mod 4096" by (simp_all add: n_def)
    let ?s1 = "s\<lparr>disk_buffer := blk D s (direct f ! (off div 4096))\<rparr>"
    let ?c = "take n (drop (off mod 4096) (disk_buffer ?s1))"
    have c: "?c = take n (drop off (raw D s f))" using raw_chunk [OF "1.prems"(1,2) k n(2)] by simp
    have "d + n \<le> to_read" using n(1) True by linarith
    with "1.IH" [OF True refl refl refl k, of ?s1] "1.prems" n True
    obtain x where x: "length x = 4096" "read_loop D f to_read (d + n) (off + n) (buf @ ?c) ?s1 =
        (to_read, (off + n) + (to_read - (d + n)), (buf @ ?c) @ take (to_read - (d + n)) (drop (off + n) (raw D s f)), ?s1\<lparr>disk_buffer := x\<rparr>)"
      by (auto simp: read_block_blk n_def [symmetric])
    have "read_loop D f to_read d off buf s = read_loop D f to_read (d + n) (off + n) (buf @ ?c) ?s1"
      using True k by (subst read_loop.simps) (simp add: Let_def read_block_blk n_def [symmetric])
    moreover have "?c @ take (to_read - (d + n)) (drop (off + n) (raw D s f)) = take (to_read - d) (drop off (raw D s f))"
    proof -
      have "n + (to_read - (d + n)) = to_read - d" using n(1) by simp
      thus ?thesis using take_add [of n "to_read - (d + n)" "drop off (raw D s f)"] by (simp only: c) (simp add: add.commute)
    qed
    ultimately show ?thesis using x n(1) by (intro exI [of _ x]) simp
  qed
qed

end
