(* ===== verification/Solix_Files.thy ===== *)
theory Solix_Files
  imports Solix_Fs
begin

text \<open>
  Files of SolixFS as byte sequences: \<^verbatim>\<open>file_read\<close> returns a slice of the contents, \<^verbatim>\<open>file_write\<close> replaces
  one and leaves every other file alone, \<^verbatim>\<open>file_seek\<close> keeps the position within the file. The
  invariant \<open>fs_ok\<close> says that the blocks of files are marked used and belong to one place each.
\<close>

declare of_nat_add [simp del]

section \<open>Replacing a slice\<close>

lemma patch_length: "k + length xs \<le> length ys \<Longrightarrow> length (patch k xs ys) = length ys"
  by (simp add: patch_def)

lemma patch_nth:
  "k + length xs \<le> length ys \<Longrightarrow> x < length ys \<Longrightarrow>
   patch k xs ys ! x = (if k \<le> x \<and> x < k + length xs then xs ! (x - k) else ys ! x)"
  by (auto simp: patch_def nth_append min_def)

lemma patch_patch:
  "k \<le> length ys \<Longrightarrow> patch (k + length xs) zs (patch k xs ys) = patch k (xs @ zs) ys"
  by (simp add: patch_def ac_simps)

lemma patch_Nil [simp]: "patch k [] ys = ys"
  by (simp add: patch_def)

lemma patch_whole: "length xs = length ys \<Longrightarrow> patch 0 xs ys = xs"
  by (simp add: patch_def)

lemma take_patch:
  "k \<le> m \<Longrightarrow> m \<le> length ys \<Longrightarrow> take (max m (k + length xs)) (patch k xs ys) = patch k xs (take m ys)"
  by (cases "m \<le> k + length xs") (auto simp: patch_def max_def drop_take min_def)

section \<open>One block of a write\<close>

text \<open>What an operation on file \<open>i\<close> keeps: the other files, the vnodes, the extent of disk and tables.\<close>

definition keeps :: "'d disk_driver \<Rightarrow> nat \<Rightarrow> 'd fs \<Rightarrow> 'd fs \<Rightarrow> bool" where
  "keeps D i s t \<longleftrightarrow>
     (\<forall>j<length (inode_table s). j \<noteq> i \<longrightarrow> inode_table t ! j = inode_table s ! j \<and> contents D t j = contents D s j) \<and>
     length (inode_table t) = length (inode_table s) \<and> vnodes t = vnodes s \<and> block_cap t = block_cap s \<and>
     (bm_test (block_bitmap s) 0 \<longrightarrow> bm_test (block_bitmap t) 0) \<and> mode (inode_table t ! i) = mode (inode_table s ! i)"

lemma keeps_refl: "keeps D i s s"
  by (simp add: keeps_def)

lemma keeps_trans: "keeps D i s t \<Longrightarrow> keeps D i t u \<Longrightarrow> keeps D i s u"
  by (simp add: keeps_def)

definition holes :: "inode \<Rightarrow> nat" where
  "holes f = length (filter (\<lambda>b. b = 0) (direct f))"

lemma holes_upd:
  assumes "k < length (direct f)" "direct f ! k = 0" "b \<noteq> 0" "direct g = (direct f)[k := b]"
  shows "holes f = Suc (holes g)"
proof -
  have "direct f = take k (direct f) @ 0 # drop (Suc k) (direct f)" using assms id_take_nth_drop by metis
  moreover have "direct g = take k (direct f) @ b # drop (Suc k) (direct f)" using assms by (simp add: upd_conv_take_nth_drop)
  ultimately have "filter (\<lambda>b. b = 0) (direct f) = filter (\<lambda>b. b = 0) (take k (direct f)) @ 0 # filter (\<lambda>b. b = 0) (drop (Suc k) (direct f))"
    "filter (\<lambda>b. b = 0) (direct g) = filter (\<lambda>b. b = 0) (take k (direct f)) @ filter (\<lambda>b. b = 0) (drop (Suc k) (direct f))"
    using assms(3) by (metis (mono_tags, lifting) filter.simps(2) filter_append)+
  thus ?thesis by (simp add: holes_def)
qed

lemma alloc_block_cases:
  assumes "blocks_ok s"
  shows "(\<exists>i t. block_take s = Some (i, t) \<and> alloc_block s = (of_nat i, t) \<and> i < block_cap s \<and> unat (of_nat i :: u32) = i) \<or>
     block_take s = None \<and> alloc_block s = (0, s)"
proof (cases "block_take s")
  case (Some r)
  obtain i t where r: "r = (i, t)" by (cases r)
  have i: "i < block_cap s" using blocks.alloc_fresh [OF assms] Some r by blast
  hence "i < 2 ^ 32" unfolding block_cap_def using unsigned_less [where 'a = nat and w = "total_blocks (sb s)"] by simp
  hence "unat (of_nat i :: u32) = i" by (simp add: unsigned_of_nat take_bit_nat_eq_self)
  thus ?thesis using Some r i by (simp add: alloc_block_def)
qed (simp add: alloc_block_def)

lemma contents_same_blocks:
  assumes "disk_laws D" "length (direct f) = 12" "length (direct g) = 12" "fsize g = fsize f" "unat (fsize f) \<le> FILE_MAX"
    and "\<And>k. k < 12 \<Longrightarrow> k * 4096 < unat (fsize f) \<Longrightarrow> blk D t (direct g ! k) = blk D s (direct f ! k)"
  shows "take (unat (fsize g)) (raw D t g) = take (unat (fsize f)) (raw D s f)"
proof (rule nth_equalityI)
  show "length (take (unat (fsize g)) (raw D t g)) = length (take (unat (fsize f)) (raw D s f))"
    using assms by (simp add: raw_length)
  fix x assume "x < length (take (unat (fsize g)) (raw D t g))"
  hence x: "x < unat (fsize f)" "x < FILE_MAX" using assms by (simp_all add: raw_length)
  have "x div 4096 * 4096 \<le> x" by (rule div_times_less_eq_dividend)
  hence "x div 4096 * 4096 < unat (fsize f)" using x(1) by linarith
  moreover have "x div 4096 < 12" using x(2) by simp
  ultimately show "take (unat (fsize g)) (raw D t g) ! x = take (unat (fsize f)) (raw D s f) ! x"
    using assms x by (simp add: raw_nth)
qed

lemma inode_ok_mono:
  "inode_ok s f \<Longrightarrow> block_cap t = block_cap s \<Longrightarrow> (\<And>b. bm_test (block_bitmap s) b \<Longrightarrow> b < block_cap s \<Longrightarrow> bm_test (block_bitmap t) b) \<Longrightarrow>
   inode_ok t f"
  by (simp add: inode_ok_def)

lemma unshared_upd:
  assumes "unshared fs" "i < length fs" "length (direct (fs ! i)) = 12" "k < 12"
    and "\<And>j l. j < length fs \<Longrightarrow> l < 12 \<Longrightarrow> direct (fs ! j) ! l \<noteq> b" and "direct g = (direct (fs ! i))[k := b]"
  shows "unshared (fs[i := g])"
  unfolding unshared_def
proof (intro allI impI)
  fix j j' l l'
  assume a: "j < length (fs[i := g])" "j' < length (fs[i := g])" "l < 12" "l' < 12"
    "direct (fs[i := g] ! j) ! l = direct (fs[i := g] ! j') ! l'" "direct (fs[i := g] ! j) ! l \<noteq> 0"
  have d: "direct (fs[i := g] ! j) ! l = (if j = i \<and> l = k then b else direct (fs ! j) ! l)" if "j < length fs" "l < 12" for j l
    using assms(2,3,4,6) that by (auto simp: nth_list_update)
  show "j = j' \<and> l = l'"
  proof (cases "(j = i \<and> l = k) \<or> (j' = i \<and> l' = k)")
    case True
    thus ?thesis using a d [of j l] d [of j' l'] assms(5) by (auto split: if_splits)
  next
    case False
    hence "direct (fs ! j) ! l = direct (fs ! j') ! l'" "direct (fs ! j) ! l \<noteq> 0"
      using a d [of j l] d [of j' l'] by auto
    thus ?thesis using assms(1) a unfolding unshared_def by (metis length_list_update)
  qed
qed

lemma unshared_size: "unshared (fs[i := (fs ! i)\<lparr>fsize := x\<rparr>]) = unshared fs"
proof -
  have "direct (fs[i := (fs ! i)\<lparr>fsize := x\<rparr>] ! j) = direct (fs ! j)" for j
    by (cases "j = i"; cases "i < length fs") (auto simp: list_update_beyond)
  thus ?thesis by (simp add: unshared_def)
qed

text \<open>Marking a block used.\<close>

lemma block_take_keeps:
  assumes "fs_ok s" "block_take s = Some (b, t)"
  shows "fs_ok t \<and> inode_table t = inode_table s \<and> disk t = disk s \<and> data_blocks (sb t) = data_blocks (sb s) \<and> vnodes t = vnodes s \<and>
    block_cap t = block_cap s \<and> (\<forall>c < block_cap s. bm_test (block_bitmap t) c \<longleftrightarrow> c = b \<or> bm_test (block_bitmap s) c) \<and>
    card (blocks_used t) = Suc (card (blocks_used s))"
proof -
  have ok: "blocks_ok s" using assms(1) by (simp add: fs_ok_def)
  note a = assms(2) [unfolded block_take_Some]
  have bm: "\<forall>c < block_cap s. bm_test (block_bitmap t) c \<longleftrightarrow> c = b \<or> bm_test (block_bitmap s) c"
    using a ok bm_fits_index [of "block_bitmap s" "block_cap s" b] by (simp add: bm_test_set blocks_ok_def block_cap_def)
  moreover have cap: "block_cap t = block_cap s" by (rule blocks.alloc_cap [OF ok assms(2)])
  ultimately have "inode_ok s f \<Longrightarrow> inode_ok t f" for f using inode_ok_mono [of s f t] by blast
  hence "fs_ok t" using assms(1) a blocks.alloc_invar [OF ok assms(2)] by (simp add: fs_ok_def)
  thus ?thesis using a bm cap blocks.alloc_card [OF ok assms(2)] by simp
qed

lemma blk_cong: "disk t = disk s \<Longrightarrow> data_blocks (sb t) = data_blocks (sb s) \<Longrightarrow> blk D t = blk D s"
  by (simp add: blk_def [abs_def])

lemma raw_cong: "disk t = disk s \<Longrightarrow> data_blocks (sb t) = data_blocks (sb s) \<Longrightarrow> raw D t = raw D s"
  using blk_cong [of t s D] by (simp add: raw_def [abs_def])

text \<open>Finding or allocating the block changes no contents.\<close>

lemma ensure_block_spec:
  assumes D: "disk_laws D" and ok: "fs_ok s" and i: "unat i < length (inode_table s)" and k: "k < 12"
    and e: "ensure_block i k s = (r, t)"
  shows "fs_ok t \<and> keeps D (unat i) s t \<and> contents D t (unat i) = contents D s (unat i) \<and>
    fsize (inode_table t ! unat i) = fsize (inode_table s ! unat i) \<and>
    (r \<longrightarrow> direct (inode_table t ! unat i) ! k \<noteq> 0) \<and>
    (bm_test (block_bitmap s) 0 \<and> card (blocks_used s) + holes (inode_table s ! unat i) \<le> block_cap s \<longrightarrow>
       r \<and> card (blocks_used t) + holes (inode_table t ! unat i) \<le> block_cap t)"
proof (cases "direct (inode_table s ! unat i) ! k = 0")
  case False
  thus ?thesis using e ok by (simp add: ensure_block_def keeps_refl)
next
  case hole: True
  define f where "f = inode_table s ! unat i"
  have f: "inode_ok s f" using ok i by (simp add: fs_ok_def f_def)
  have len: "length (direct f) = 12" using f by (simp add: inode_ok_def)
  have hole': "direct f ! k = 0" using hole by (simp add: f_def)
  have "0 < holes f" using len k hole' nth_mem [of k "direct f"] by (auto simp: holes_def filter_empty_conv)
  have bok: "blocks_ok s" using ok by (simp add: fs_ok_def)
  from alloc_block_cases [OF bok] show ?thesis
  proof (elim disjE exE conjE)
    assume none: "block_take s = None" "alloc_block s = (0, s)"
    hence "r = False" "t = s" using e hole by (simp_all add: ensure_block_def)
    moreover have "\<not> card (blocks_used s) < block_cap s" using blocks.alloc_progress [OF bok] none(1) by auto
    ultimately show ?thesis using ok \<open>0 < holes f\<close> f_def by (simp add: keeps_refl)
  next
    fix b s1 assume b: "block_take s = Some (b, s1)" "alloc_block s = (of_nat b, s1)" "b < block_cap s" "unat (of_nat b :: u32) = b"
    note s1 = block_take_keeps [OF ok b(1)]
    have c1: "contents D s1 j = contents D s j" for j using s1 raw_cong [of s1 s D] by (simp add: contents_def)
    have k1: "keeps D (unat i) s s1" using s1 c1 b(3) by (auto simp: keeps_def)
    show ?thesis
    proof (cases "b = 0")
      case True
      hence "r = False" "t = s1" using e hole b by (simp_all add: ensure_block_def)
      moreover have "\<not> bm_test (block_bitmap s) 0" using b(1) True by (simp add: block_take_Some)
      ultimately show ?thesis using s1 c1 k1 by simp
    next
      case False
      hence bz: "of_nat b \<noteq> (0 :: u32)" using b(4) by auto
      define g where "g = f\<lparr>direct := list_update (direct f) k (of_nat b), iblocks := iblocks f + 1\<rparr>"
      have r: "r = True" and t: "t = s1\<lparr>inode_table := list_update (inode_table s) (unat i) g\<rparr>"
        using e hole b(2) bz s1 by (simp_all add: ensure_block_def upd_inode_def g_def f_def)
      have fresh: "direct (inode_table s ! j) ! l \<noteq> of_nat b" if "j < length (inode_table s)" "l < 12" for j l
      proof
        assume eq: "direct (inode_table s ! j) ! l = of_nat b"
        have "inode_ok s (inode_table s ! j)" using ok that by (simp add: fs_ok_def)
        hence "bm_test (block_bitmap s) (unat (of_nat b :: u32))"
          using that eq bz nth_mem [of l "direct (inode_table s ! j)"] by (auto simp: inode_ok_def)
        thus False using b(1,4) by (simp add: block_take_Some)
      qed
      have f1: "inode_ok s1 f" using s1 i unfolding fs_ok_def f_def by metis
      have tb: "block_cap t = block_cap s" "block_bitmap t = block_bitmap s1" "blocks_used t = blocks_used s1"
        using t s1 by (simp_all add: block_cap_def blocks_used_def)
      have "inode_ok t g"
        using f1 b(3,4) s1 tb k len bz set_update_subset_insert [of "direct f" k "of_nat b"]
        by (auto simp: inode_ok_def g_def nth_list_update)
      moreover have "inode_ok t h" if "inode_ok s1 h" for h
        using inode_ok_mono [OF that, of t] tb s1 by simp
      ultimately have "\<forall>j<length (inode_table t). inode_ok t (inode_table t ! j)"
        using s1 t i by (auto simp: fs_ok_def nth_list_update)
      moreover have "unshared (inode_table t)"
        using unshared_upd [of "inode_table s" "unat i" k "of_nat b" g] ok i len k fresh t by (simp add: fs_ok_def g_def f_def)
      ultimately have fs: "fs_ok t" using s1 t by (simp add: fs_ok_def blocks_ok_def)
      have bl: "blk D t = blk D s" by (rule blk_cong) (use s1 t in simp_all)
      have ge: "\<not> k * 4096 < unat (fsize f)" using f k hole' by (auto simp: inode_ok_def)
      have "take (unat (fsize g)) (raw D t g) = take (unat (fsize f)) (raw D s f)"
        using f D ge by (intro contents_same_blocks) (auto simp: inode_ok_def g_def bl nth_list_update)
      hence ci: "contents D t (unat i) = contents D s (unat i)" using i t s1 by (simp add: contents_def f_def)
      have cj: "contents D t j = contents D s j" if "j \<noteq> unat i" for j
        using that t s1 raw_cong [of t s D] by (simp add: contents_def)
      have "keeps D (unat i) s t" using cj t s1 tb b(3) i by (auto simp: keeps_def g_def f_def)
      moreover have "holes f = Suc (holes g)" using holes_upd [OF _ hole' bz] k len by (simp add: g_def)
      moreover have "card (blocks_used t) = Suc (card (blocks_used s))" using tb s1 by simp
      moreover have "inode_table t ! unat i = g" using t i by simp
      moreover have "direct g ! k \<noteq> 0" "fsize g = fsize f" using k len bz by (simp_all add: g_def)
      ultimately show ?thesis using r fs ci tb f_def by simp
    qed
  qed
qed

text \<open>Writing a chunk into one block.\<close>

lemma raw_write:
  assumes D: "disk_laws D" and len: "length (direct f) = 12" and k: "off div 4096 < 12" and n: "length c \<le> 4096 - off mod 4096"
    and only: "\<And>l. l < 12 \<Longrightarrow> l \<noteq> off div 4096 \<Longrightarrow> direct f ! l \<noteq> direct f ! (off div 4096)"
    and t: "blk D t (direct f ! (off div 4096)) = patch (off mod 4096) c (blk D s (direct f ! (off div 4096)))"
    and others: "\<And>b. b \<noteq> direct f ! (off div 4096) \<Longrightarrow> blk D t b = blk D s b"
  shows "raw D t f = patch off c (raw D s f)"
proof (rule nth_equalityI)
  have q: "off = 4096 * (off div 4096) + off mod 4096" by simp
  hence le: "off + length c \<le> FILE_MAX" using k n mod_less_divisor [of 4096 off] by linarith
  show "length (raw D t f) = length (patch off c (raw D s f))" using D len le by (simp add: raw_length patch_length)
  fix x assume "x < length (raw D t f)"
  hence x: "x < FILE_MAX" using D len by (simp add: raw_length)
  have rt: "raw D t f ! x = blk D t (direct f ! (x div 4096)) ! (x mod 4096)" using D len x by (rule raw_nth)
  have rs: "raw D s f ! x = blk D s (direct f ! (x div 4096)) ! (x mod 4096)" using D len x by (rule raw_nth)
  have p: "patch off c (raw D s f) ! x = (if off \<le> x \<and> x < off + length c then c ! (x - off) else raw D s f ! x)"
    using x le D len by (simp add: patch_nth raw_length)
  have qx: "x = 4096 * (x div 4096) + x mod 4096" by simp
  show "raw D t f ! x = patch off c (raw D s f) ! x"
  proof (cases "x div 4096 = off div 4096")
    case False
    hence "\<not> (off \<le> x \<and> x < off + length c)"
    proof (rule contrapos_nn)
      assume a: "off \<le> x \<and> x < off + length c"
      hence "off mod 4096 + (x - off) < 4096" using n mod_less_divisor [of 4096 off] by linarith
      from in_block(1) [OF this] show "x div 4096 = off div 4096" using a by simp
    qed
    moreover have "x div 4096 < 12" using x by simp
    ultimately show ?thesis using False p rt rs only [of "x div 4096"] others by auto
  next
    case True
    hence xo: "x - off = x mod 4096 - off mod 4096" "off \<le> x \<longleftrightarrow> off mod 4096 \<le> x mod 4096"
      "x < off + length c \<longleftrightarrow> x mod 4096 < off mod 4096 + length c"
      using q qx by linarith+
    have "raw D t f ! x = patch (off mod 4096) c (blk D s (direct f ! (off div 4096))) ! (x mod 4096)"
      unfolding rt True t ..
    also have "\<dots> = (if off mod 4096 \<le> x mod 4096 \<and> x mod 4096 < off mod 4096 + length c
        then c ! (x mod 4096 - off mod 4096) else blk D s (direct f ! (off div 4096)) ! (x mod 4096))"
      using n D mod_less_divisor [of 4096 off] by (intro patch_nth) simp_all
    finally show ?thesis unfolding p rs True xo .
  qed
qed

lemma blk_write:
  assumes "disk_laws D" "length x = 4096" "disk t = disk_write D (data_blocks (sb s) + b) x (disk s)" "data_blocks (sb t) = data_blocks (sb s)"
  shows "blk D t b = x" "c \<noteq> b \<Longrightarrow> blk D t c = blk D s c"
  using assms by (auto simp: blk_def disk_laws_def)

lemma put_chunk_spec:
  assumes D: "disk_laws D" and ok: "fs_ok s" and i: "unat i < length (inode_table s)" and k: "off div 4096 < 12"
    and n: "length c \<le> 4096 - off mod 4096" and nz: "direct (inode_table s ! unat i) ! (off div 4096) \<noteq> 0"
    and le: "off \<le> unat (fsize (inode_table s ! unat i))"
  shows "fs_ok (put_chunk D i off c s) \<and> keeps D (unat i) s (put_chunk D i off c s) \<and>
     contents D (put_chunk D i off c s) (unat i) = patch off c (contents D s (unat i)) \<and>
     unat (fsize (inode_table (put_chunk D i off c s) ! unat i)) = max (unat (fsize (inode_table s ! unat i))) (off + length c) \<and>
     blocks_used (put_chunk D i off c s) = blocks_used s \<and>
     holes (inode_table (put_chunk D i off c s) ! unat i) = holes (inode_table s ! unat i)"
proof -
  define f where "f = inode_table s ! unat i"
  define b where "b = direct f ! (off div 4096)"
  define x where "x = patch (off mod 4096) c (blk D s b)"
  define m where "m = max (unat (fsize f)) (off + length c)"
  define g where "g = f\<lparr>fsize := of_nat m\<rparr>"
  define t where "t = put_chunk D i off c s"
  have f: "inode_ok s f" using ok i by (simp add: fs_ok_def f_def)
  have len: "length (direct f) = 12" and fm: "unat (fsize f) \<le> FILE_MAX" using f by (simp_all add: inode_ok_def)
  have bnz: "b \<noteq> 0" using nz by (simp add: b_def f_def)
  have q: "off = 4096 * (off div 4096) + off mod 4096" by simp
  hence oc: "off + length c \<le> FILE_MAX" using k n mod_less_divisor [of 4096 off] by linarith
  have xl: "length x = 4096" using n mod_less_divisor [of 4096 off] D by (simp add: x_def patch_length)
  have buf: "length (disk_buffer s) = 4096" using ok by (simp add: fs_ok_def)
  have um: "unat (of_nat m :: u32) = m" using fm oc by (simp add: m_def unsigned_of_nat take_bit_nat_eq_self)
  have full: "patch (off mod 4096) c (disk_buffer s) = x" if "\<not> (off mod 4096 > 0 \<or> length c < 4096)"
    using that buf n D by (simp add: x_def patch_whole)
  let ?s2 = "if off mod 4096 > 0 \<or> length c < 4096 then read_block D b s else s"
  have s3: "?s2\<lparr>disk_buffer := patch (off mod 4096) c (disk_buffer ?s2)\<rparr> = s\<lparr>disk_buffer := x\<rparr>"
    using full by (cases "off mod 4096 > 0 \<or> length c < 4096") (simp_all add: read_block_blk x_def)
  have t: "t = s\<lparr>disk_buffer := x, disk := disk_write D (data_blocks (sb s) + b) x (disk s), inode_table := (inode_table s)[unat i := g]\<rparr>"
  proof (cases "off + length c > unat (fsize f)")
    case True
    hence "m = off + length c" by (simp add: m_def)
    thus ?thesis using True unfolding t_def put_chunk_def Let_def f_def [symmetric] b_def [symmetric] s3
      by (simp add: write_block_def upd_inode_def g_def f_def)
  next
    case False
    hence "g = f" by (simp add: g_def m_def max_def)
    thus ?thesis using False unfolding t_def put_chunk_def Let_def f_def [symmetric] b_def [symmetric] s3
      by (simp add: write_block_def f_def)
  qed
  have bt: "blk D t b = x" and ot: "\<And>d. d \<noteq> b \<Longrightarrow> blk D t d = blk D s d"
    using blk_write [OF D xl, of t s b] t by simp_all
  have un: "j = unat i \<and> l = off div 4096" if "j < length (inode_table s)" "l < 12" "direct (inode_table s ! j) ! l = b" for j l
  proof -
    have "unshared (inode_table s)" using ok by (simp add: fs_ok_def)
    hence "direct (inode_table s ! j) ! l = direct (inode_table s ! unat i) ! (off div 4096) \<longrightarrow> direct (inode_table s ! j) ! l \<noteq> 0 \<longrightarrow>
        j = unat i \<and> l = off div 4096"
      using that(1,2) i k unfolding unshared_def by blast
    thus ?thesis using that(3) bnz by (simp add: b_def f_def)
  qed
  have raw: "raw D t f = patch off c (raw D s f)"
  proof (rule raw_write [OF D len k n])
    show "direct f ! l \<noteq> direct f ! (off div 4096)" if "l < 12" "l \<noteq> off div 4096" for l
      using un [OF i that(1)] that(2) by (auto simp: f_def b_def)
    show "blk D t (direct f ! (off div 4096)) = patch (off mod 4096) c (blk D s (direct f ! (off div 4096)))"
      using bt by (simp only: b_def [symmetric] x_def)
    show "blk D t d = blk D s d" if "d \<noteq> direct f ! (off div 4096)" for d using ot that by (simp only: b_def)
  qed
  have ti: "inode_table t ! unat i = g" "length (inode_table t) = length (inode_table s)" using t i by simp_all
  have tj: "inode_table t ! j = inode_table s ! j" if "j \<noteq> unat i" for j using t that by simp
  have rg: "raw D t g = raw D t f" by (simp add: raw_def g_def)
  have ci: "contents D t (unat i) = patch off c (contents D s (unat i))"
    using take_patch [of off "unat (fsize f)" "raw D s f" c] le [folded f_def] D len fm
    by (simp add: contents_def ti rg raw f_def [symmetric] raw_length) (simp add: g_def um, simp add: m_def)
  have cj: "contents D t j = contents D s j" if "j < length (inode_table s)" "j \<noteq> unat i" for j
  proof -
    have "inode_ok s (inode_table s ! j)" using ok that by (simp add: fs_ok_def)
    moreover have "blk D t (direct (inode_table s ! j) ! l) = blk D s (direct (inode_table s ! j) ! l)" if "l < 12" for l
      using un [of j l] ot \<open>j < _\<close> \<open>j \<noteq> _\<close> that by blast
    ultimately show ?thesis
      using contents_same_blocks [OF D, of "inode_table s ! j" "inode_table s ! j" t s] tj that(2) by (simp add: contents_def inode_ok_def)
  qed
  have same: "block_cap t = block_cap s" "block_bitmap t = block_bitmap s" "blocks_used t = blocks_used s" "vnodes t = vnodes s" "blocks_ok t = blocks_ok s"
    using t by (simp_all add: block_cap_def blocks_used_def blocks_ok_def)
  have "direct f ! l \<noteq> 0" if "l < 12" "l * 4096 < m" for l
  proof (cases "l * 4096 < unat (fsize f)")
    case False
    hence "l * 4096 < off + length c" "off \<le> l * 4096" using that(2) le by (simp_all add: m_def f_def)
    hence "l = off div 4096" using q n mod_less_divisor [of 4096 off] by linarith
    thus ?thesis using bnz by (simp add: b_def)
  qed (use f that in \<open>simp add: inode_ok_def\<close>)
  hence "inode_ok t g" using f same oc fm by (simp add: inode_ok_def g_def um) (simp add: m_def)
  moreover have "inode_ok t h" if "inode_ok s h" for h using that same by (simp add: inode_ok_def)
  ultimately have "\<forall>j<length (inode_table t). inode_ok t (inode_table t ! j)"
    using ok ti tj by (metis fs_ok_def)
  moreover have "unshared (inode_table t)" using unshared_size [of "inode_table s" "unat i" "of_nat m"] ok t by (simp add: fs_ok_def g_def f_def)
  ultimately have "fs_ok t" using ok same t xl by (simp add: fs_ok_def)
  moreover have "keeps D (unat i) s t" using cj tj ti same i by (simp add: keeps_def g_def f_def)
  moreover have "unat (fsize g) = max (unat (fsize f)) (off + length c)" "holes g = holes f" by (simp_all add: g_def um holes_def) (simp add: m_def)
  ultimately show ?thesis using ci ti same unfolding t_def [symmetric] f_def by simp
qed

section \<open>Reading and writing\<close>

lemma write_loop_spec:
  assumes "disk_laws D" "fs_ok s" "unat i < length (inode_table s)" "d \<le> length buf" "off \<le> unat (fsize (inode_table s ! unat i))"
  shows "\<exists>n t. write_loop D i buf d off s = (d + n, off + n, t) \<and> d + n \<le> length buf \<and> fs_ok t \<and> keeps D (unat i) s t \<and>
     contents D t (unat i) = patch off (take n (drop d buf)) (contents D s (unat i)) \<and>
     unat (fsize (inode_table t ! unat i)) = max (unat (fsize (inode_table s ! unat i))) (off + n) \<and>
     (off + (length buf - d) \<le> FILE_MAX \<and> bm_test (block_bitmap s) 0 \<and>
      card (blocks_used s) + holes (inode_table s ! unat i) \<le> block_cap s \<longrightarrow> d + n = length buf)"
  using assms
proof (induction D i buf d off s rule: write_loop.induct)
  case (1 D i buf d off s)
  show ?case
  proof (cases "d < length buf \<and> off div 4096 < 12")
    case False
    hence w: "write_loop D i buf d off s = (d, off, s)" by (subst write_loop.simps) (auto simp: Let_def)
    moreover have "off + (length buf - d) \<le> FILE_MAX \<longrightarrow> d = length buf" using False "1.prems"(4) by auto
    ultimately show ?thesis using "1.prems" by (intro exI [of _ 0] exI [of _ s]) (auto simp: keeps_refl)
  next
    case True
    define n where "n = min (4096 - off mod 4096) (length buf - d)"
    define c where "c = take n (drop d buf)"
    have n: "length c = n" "n \<le> 4096 - off mod 4096" "d + n \<le> length buf" using True by (auto simp: c_def n_def)
    obtain r s1 where e: "ensure_block i (off div 4096) s = (r, s1)" by fastforce
    note s1 = ensure_block_spec [OF "1.prems"(1,2,3) _ e]
    show ?thesis
    proof (cases r)
      case False
      hence w: "write_loop D i buf d off s = (d, off, s1)" using True e by (subst write_loop.simps) (simp add: Let_def)
      thus ?thesis using s1 True False "1.prems" by (intro exI [of _ 0] exI [of _ s1]) (auto simp: max_def)
    next
      case r: True
      define s5 where "s5 = put_chunk D i off c s1"
      have w: "write_loop D i buf d off s = write_loop D i buf (d + n) (off + n) s5"
        using True e r by (subst write_loop.simps) (simp add: Let_def n_def [symmetric] c_def [symmetric] s5_def)
      have k1: "keeps D (unat i) s s1" and f1: "fs_ok s1" and z1: "fsize (inode_table s1 ! unat i) = fsize (inode_table s ! unat i)"
        and nz: "direct (inode_table s1 ! unat i) ! (off div 4096) \<noteq> 0"
        using s1 True r by auto
      have l1: "length (inode_table s1) = length (inode_table s)" using k1 by (simp add: keeps_def)
      have p: "fs_ok s5 \<and> keeps D (unat i) s1 s5 \<and> contents D s5 (unat i) = patch off c (contents D s1 (unat i)) \<and>
          unat (fsize (inode_table s5 ! unat i)) = max (unat (fsize (inode_table s1 ! unat i))) (off + length c) \<and>
          blocks_used s5 = blocks_used s1 \<and> holes (inode_table s5 ! unat i) = holes (inode_table s1 ! unat i)"
        unfolding s5_def using True n "1.prems"(1,3,5) l1 z1 f1 nz by (intro put_chunk_spec) simp_all
      have k5: "keeps D (unat i) s s5" using keeps_trans [OF k1] p by blast
      have l5: "length (inode_table s5) = length (inode_table s)" using k5 by (simp add: keeps_def)
      note IH = "1.IH" [OF conjunct1 [OF True] refl refl refl _ e [symmetric], unfolded n_def [symmetric] c_def [symmetric] s5_def [symmetric]]
      have "\<exists>n' t. write_loop D i buf (d + n) (off + n) s5 = (d + n + n', off + n + n', t) \<and> d + n + n' \<le> length buf \<and> fs_ok t \<and> keeps D (unat i) s5 t \<and>
         contents D t (unat i) = patch (off + n) (take n' (drop (d + n) buf)) (contents D s5 (unat i)) \<and>
         unat (fsize (inode_table t ! unat i)) = max (unat (fsize (inode_table s5 ! unat i))) (off + n + n') \<and>
         (off + n + (length buf - (d + n)) \<le> FILE_MAX \<and> bm_test (block_bitmap s5) 0 \<and>
          card (blocks_used s5) + holes (inode_table s5 ! unat i) \<le> block_cap s5 \<longrightarrow> d + n + n' = length buf)"
        using IH True r "1.prems"(1) p l5 n(3) "1.prems"(3,5) z1 by (simp add: n(1))
      then obtain n' t where t: "write_loop D i buf (d + n) (off + n) s5 = (d + n + n', off + n + n', t)" "d + n + n' \<le> length buf"
          "fs_ok t" "keeps D (unat i) s5 t"
          "contents D t (unat i) = patch (off + n) (take n' (drop (d + n) buf)) (contents D s5 (unat i))"
          "unat (fsize (inode_table t ! unat i)) = max (unat (fsize (inode_table s5 ! unat i))) (off + n + n')"
          "off + n + (length buf - (d + n)) \<le> FILE_MAX \<and> bm_test (block_bitmap s5) 0 \<and>
          card (blocks_used s5) + holes (inode_table s5 ! unat i) \<le> block_cap s5 \<longrightarrow> d + n + n' = length buf"
        by blast
      have ch: "take (n + n') (drop d buf) = c @ take n' (drop (d + n) buf)" 
        using take_add [of n n' "drop d buf"] by (simp only: c_def drop_drop add.commute [of n d])
      have "length (contents D s (unat i)) = unat (fsize (inode_table s ! unat i))"
        using "1.prems"(1-3) by (simp add: contents_def fs_ok_def inode_ok_def raw_length)
      hence "off \<le> length (contents D s (unat i))" using "1.prems"(5) by simp
      hence "contents D t (unat i) = patch off (take (n + n') (drop d buf)) (contents D s (unat i))"
        using t(5) p s1 True n(1) patch_patch [of off "contents D s (unat i)" c "take n' (drop (d + n) buf)"] by (simp add: ch)
      moreover have "unat (fsize (inode_table t ! unat i)) = max (unat (fsize (inode_table s ! unat i))) (off + (n + n'))"
        using t(6) p z1 n(1) by simp
      moreover have "keeps D (unat i) s t" by (rule keeps_trans [OF k5 t(4)])
      moreover have "block_cap s5 = block_cap s1" using p by (simp add: keeps_def)
      hence "off + (length buf - d) \<le> FILE_MAX \<and> bm_test (block_bitmap s) 0 \<and>
          card (blocks_used s) + holes (inode_table s ! unat i) \<le> block_cap s \<longrightarrow> d + (n + n') = length buf"
        using t(7) s1 True p k5 n(3) by (auto simp: keeps_def)
      ultimately show ?thesis using w t(1-3) by (intro exI [of _ "n + n'"] exI [of _ t]) (simp add: add.assoc)
    qed
  qed
qed

text \<open>A vnode that is open on inode \<open>i\<close> at a position within the file.\<close>

definition on_file :: "'d fs \<Rightarrow> u32 \<Rightarrow> nat \<Rightarrow> nat \<Rightarrow> bool" where
  "on_file s p i off \<longleftrightarrow> i < length (inode_table s) \<and> off \<le> unat (fsize (inode_table s ! i)) \<and>
     (case vnodes s p of None \<Rightarrow> False | Some v \<Rightarrow> unat (vinode v) = i \<and> unat (voffset v) = off)"

lemma on_file_vnode:
  assumes "on_file s p i off"
  obtains v where "vnodes s p = Some v" "unat (vinode v) = i" "unat (voffset v) = off"
    "i < length (inode_table s)" "off \<le> unat (fsize (inode_table s ! i))"
  using assms by (auto simp: on_file_def split: option.splits)

text \<open>Files, vnodes and the invariant do not depend on the buffer and the positions of vnodes.\<close>

definition same_files :: "'d fs \<Rightarrow> 'd fs \<Rightarrow> bool" where
  "same_files s t \<longleftrightarrow> inode_table t = inode_table s \<and> disk t = disk s \<and> sb t = sb s \<and> block_bitmap t = block_bitmap s \<and> length (disk_buffer t) = length (disk_buffer s)"

lemma same_files_ok: "same_files s t \<Longrightarrow> fs_ok t = fs_ok s"
  by (simp add: same_files_def fs_ok_def blocks_ok_def inode_ok_def block_cap_def)

lemma same_files_contents: "same_files s t \<Longrightarrow> contents D t i = contents D s i"
  using raw_cong [of t s D] by (simp add: same_files_def contents_def)

lemma contents_length:
  "disk_laws D \<Longrightarrow> fs_ok s \<Longrightarrow> i < length (inode_table s) \<Longrightarrow> length (contents D s i) = unat (fsize (inode_table s ! i))"
  by (simp add: contents_def fs_ok_def inode_ok_def raw_length)

lemma fsize_max: "fs_ok s \<Longrightarrow> i < length (inode_table s) \<Longrightarrow> unat (fsize (inode_table s ! i)) \<le> FILE_MAX"
  by (simp add: fs_ok_def inode_ok_def)

lemma file_read_slice:
  assumes D: "disk_laws D" and ok: "fs_ok s" and p: "on_file s p i off" and n: "off + unat n < 2 ^ 32"
  shows "\<exists>t. file_read D p n s = Inr ((int (length (take (unat n) (drop off (contents D s i)))), take (unat n) (drop off (contents D s i))), t) \<and>
     same_files s t \<and> on_file t p i (off + length (take (unat n) (drop off (contents D s i))))"
proof -
  obtain v where v: "vnodes s p = Some v" "unat (vinode v) = i" "unat (voffset v) = off" and i: "i < length (inode_table s)"
      and le: "off \<le> unat (fsize (inode_table s ! i))" using p by (rule on_file_vnode)
  define f where "f = inode_table s ! i"
  have len: "length (direct f) = 12" "unat (fsize f) \<le> FILE_MAX" "length (disk_buffer s) = 4096"
    using ok i by (simp_all add: fs_ok_def inode_ok_def f_def)
  have cl: "length (contents D s i) = unat (fsize f)" using contents_length [OF D ok i] by (simp add: f_def)
  have g: "get_vnode p s = Inr v" "get_inode (vinode v) s = Inr f" using v i by (simp_all add: get_vnode_def get_inode_def f_def)
  show ?thesis
  proof (cases "voffset v \<ge> fsize f")
    case True
    hence "off = unat (fsize f)" using le v(3) by (simp add: f_def word_le_nat_alt)
    thus ?thesis using True g cl p by (simp add: file_read_def same_files_def)
  next
    case False
    define m where "m = (if voffset v + n > fsize f then fsize f - voffset v else n)"
    have s32: "unat (voffset v + n) = off + unat n" using n v(3) by (simp add: unat_word_ariths(1))
    have lt: "off < unat (fsize f)" using False v(3) by (simp add: word_le_nat_alt)
    have m: "unat m = min (unat n) (unat (fsize f) - off)"
      using s32 v(3) lt by (auto simp: m_def word_less_nat_alt unat_sub_if_size word_le_nat_alt)
    have fm: "off + unat m \<le> FILE_MAX" using m len(2) lt by linarith
    obtain x where x: "length x = 4096" "read_loop D f (unat m) 0 off [] s =
        (unat m, off + unat m, take (unat m) (drop off (raw D s f)), s\<lparr>disk_buffer := x\<rparr>)"
      using read_loop_spec [OF D len(1), of 0 "unat m" off s "[]"] len(3) fm by auto
    have sl: "take (unat m) (drop off (raw D s f)) = take (unat n) (drop off (contents D s i))"
      by (simp add: contents_def f_def [symmetric] m drop_take min.commute)
    have lm: "length (take (unat n) (drop off (contents D s i))) = unat m" using cl m lt by simp
    have om: "unat (of_nat (off + unat m) :: u32) = off + unat m"
      using m len(2) lt by (simp add: unsigned_of_nat take_bit_nat_eq_self)
    define t where "t = upd_vnode p (\<lambda>v. v\<lparr>voffset := of_nat (off + unat m)\<rparr>) (s\<lparr>disk_buffer := x\<rparr>)"
    have "file_read D p n s = Inr ((int (unat m), take (unat n) (drop off (contents D s i))), t)"
      using False g x v(3) unfolding file_read_def by (simp add: m_def [symmetric] sl t_def)
    moreover have "same_files s t" using x(1) len(3) by (simp add: t_def upd_vnode_def same_files_def)
    moreover have "on_file t p i (off + unat m)"
      using v i om m lt by (simp add: t_def upd_vnode_def on_file_def f_def)
    ultimately show ?thesis using lm by auto
  qed
qed

lemma file_write_patch:
  assumes D: "disk_laws D" and ok: "fs_ok s" and p: "on_file s p i off"
  shows "\<exists>n t. file_write D p buf s = Inr (int n, t) \<and> n \<le> length buf \<and> fs_ok t \<and> on_file t p i (off + n) \<and>
     contents D t i = patch off (take n buf) (contents D s i) \<and>
     (\<forall>j<length (inode_table s). j \<noteq> i \<longrightarrow> contents D t j = contents D s j) \<and>
     (off + length buf \<le> FILE_MAX \<and> bm_test (block_bitmap s) 0 \<and> card (blocks_used s) + 12 \<le> block_cap s \<longrightarrow> n = length buf)"
proof -
  obtain v where v: "vnodes s p = Some v" "unat (vinode v) = i" "unat (voffset v) = off" and i: "i < length (inode_table s)"
      and le: "off \<le> unat (fsize (inode_table s ! i))" using p by (rule on_file_vnode)
  have h12: "holes (inode_table s ! i) \<le> 12"
    using ok i length_filter_le [of "\<lambda>b. b = 0" "direct (inode_table s ! i)"] by (simp add: holes_def fs_ok_def inode_ok_def)
  from write_loop_spec [OF D ok, of "vinode v" 0 buf off] v(2) i le obtain n t where
    t: "write_loop D (vinode v) buf 0 off s = (n, off + n, t)" "n \<le> length buf" "fs_ok t" "keeps D i s t"
       "contents D t i = patch off (take n buf) (contents D s i)"
       "unat (fsize (inode_table t ! i)) = max (unat (fsize (inode_table s ! i))) (off + n)"
       "off + length buf \<le> FILE_MAX \<and> bm_test (block_bitmap s) 0 \<and> card (blocks_used s) + holes (inode_table s ! i) \<le> block_cap s \<longrightarrow> n = length buf"
    by auto
  have room: "off + length buf \<le> FILE_MAX \<and> bm_test (block_bitmap s) 0 \<and> card (blocks_used s) + 12 \<le> block_cap s \<longrightarrow> n = length buf"
    using t(7) h12 by linarith
  let ?u = "upd_vnode p (\<lambda>v. v\<lparr>voffset := of_nat (off + n)\<rparr>) t"
  have l: "length (inode_table t) = length (inode_table s)" "vnodes t = vnodes s" using t(4) by (simp_all add: keeps_def)
  have "off + n \<le> FILE_MAX" using fsize_max [OF t(3), of i] i l t(6) by simp
  hence "unat (of_nat (off + n) :: u32) = off + n" by (simp add: unsigned_of_nat take_bit_nat_eq_self)
  hence on: "on_file ?u p i (off + n)" using v l i t(6) by (simp add: upd_vnode_def on_file_def)
  have sf: "same_files t ?u" by (simp add: same_files_def upd_vnode_def)
  have w: "file_write D p buf s = Inr (int n, ?u)"
    using v i t(1) by (simp add: file_write_def get_vnode_def get_inode_def)
  have c: "contents D ?u j = contents D t j" for j by (rule same_files_contents [OF sf])
  have o: "contents D t j = contents D s j" if "j < length (inode_table s)" "j \<noteq> i" for j using t(4) that by (simp add: keeps_def)
  show ?thesis using w on t(2,3,5) room same_files_ok [OF sf] c o by (intro exI [of _ n] exI [of _ ?u]) simp
qed

lemma file_seek_set:
  assumes "on_file s p i off"
  shows "\<exists>t. file_seek p k 0 s = Inr (0, t) \<and> same_files s t \<and> on_file t p i (min (unat k) (unat (fsize (inode_table s ! i))))"
proof -
  obtain v where v: "vnodes s p = Some v" "unat (vinode v) = i" "unat (voffset v) = off" and i: "i < length (inode_table s)"
    using assms by (rule on_file_vnode)
  show ?thesis using v i
    by (auto simp: file_seek_def get_vnode_def get_inode_def Let_def upd_vnode_def same_files_def on_file_def word_less_nat_alt)
qed

text \<open>
  C20. A file of SolixFS is a sequence of bytes (fs/solixfs.c, file\_read and file\_write). On a well-formed
  file system, with a vnode at position \<open>off\<close> of inode \<open>i\<close>, a read returns the bytes of the file from
  there, at most as many as asked for and as there are, and changes no file. A write replaces the
  bytes from there by a prefix of the buffer and extends the file where needed; no other file
  changes, and the file system stays well formed. The prefix is the whole buffer when it ends within
  the twelve direct blocks, twelve blocks are free and block 0 is reserved. Both move the position.
\<close>

theorem files_refine_bytes:
  assumes "disk_laws D" and "fs_ok s" and "on_file s p i off"
  shows "(off + unat k < 2 ^ 32 \<longrightarrow>
      (\<exists>bs t. bs = take (unat k) (drop off (contents D s i)) \<and> file_read D p k s = Inr ((int (length bs), bs), t) \<and>
        (\<forall>j. contents D t j = contents D s j) \<and> fs_ok t \<and> on_file t p i (off + length bs))) \<and>
    (\<exists>n t. file_write D p buf s = Inr (int n, t) \<and> n \<le> length buf \<and> fs_ok t \<and> on_file t p i (off + n) \<and>
        contents D t i = patch off (take n buf) (contents D s i) \<and>
        (\<forall>j<length (inode_table s). j \<noteq> i \<longrightarrow> contents D t j = contents D s j) \<and>
        (off + length buf \<le> FILE_MAX \<and> bm_test (block_bitmap s) 0 \<and> card (blocks_used s) + 12 \<le> block_cap s \<longrightarrow> n = length buf))"
proof (intro conjI impI)
  assume "off + unat k < 2 ^ 32"
  from file_read_slice [OF assms this] obtain t where
    t: "file_read D p k s = Inr ((int (length (take (unat k) (drop off (contents D s i)))), take (unat k) (drop off (contents D s i))), t)"
       "same_files s t" "on_file t p i (off + length (take (unat k) (drop off (contents D s i))))" by blast
  show "\<exists>bs t. bs = take (unat k) (drop off (contents D s i)) \<and> file_read D p k s = Inr ((int (length bs), bs), t) \<and>
        (\<forall>j. contents D t j = contents D s j) \<and> fs_ok t \<and> on_file t p i (off + length bs)"
    using t same_files_contents [OF t(2)] same_files_ok [OF t(2)] assms(2)
    by (intro exI [of _ "take (unat k) (drop off (contents D s i))"] exI [of _ t] conjI refl allI) simp_all
qed (rule file_write_patch [OF assms])

text \<open>A concrete disk and a file system with one empty file, for concrete runs.\<close>

definition ram_disk :: "(u32 \<Rightarrow> u8 list) disk_driver" where
  "ram_disk = \<lparr>disk_read = (\<lambda>b n d. take n (d b @ replicate n 0)), disk_write = (\<lambda>b xs d. d(b := xs))\<rparr>"

definition tiny_fs :: "heap \<Rightarrow> (u32 \<Rightarrow> u8 list) fs" where
  "tiny_fs h =
     \<lparr>sb = \<lparr>magic = SOLIXFS_MAGIC, version = 1, block_size = 4096, total_blocks = 16, free_blocks = 15, inode_count = 1, free_inodes = 0,
            sb_inode_table = 1, data_blocks = 3, bitmap_blocks = 1\<rparr>,
      block_bitmap = [1, 0], inode_bitmap = [1],
      inode_table = [\<lparr>mode = FT_REGULAR, uid = 0, gid = 0, fsize = 0, atime = 0, mtime = 0, ctime = 0, links = 1, iblocks = 0,
                      direct = replicate 12 0, indirect = 0, double_indirect = 0\<rparr>],
      disk_buffer = replicate 4096 0, root_vnode = 0,
      vnodes = [64 \<mapsto> \<lparr>inode_num = 1, vinode = 0, vparent = 0, vchildren = 0, vnext = 0, vops = File_Ops, private_data = 64, voffset = 0\<rparr>],
      fs_heap = h, disk = (\<lambda>_. []), fs_out = [], mount_table = [], file_table = []\<rparr>"

lemma ram_disk_laws: "disk_laws ram_disk"
  by (auto simp: disk_laws_def ram_disk_def min_def)

lemma tiny_fs_ok: "fs_ok (tiny_fs h)" "on_file (tiny_fs h) 64 0 0"
  by (simp_all add: fs_ok_def tiny_fs_def blocks_ok_def bm_fits_def inode_ok_def unshared_def on_file_def)

lemma tiny_fs_room: "bm_test (block_bitmap (tiny_fs h)) 0" "card (blocks_used (tiny_fs h)) + 12 \<le> block_cap (tiny_fs h)"
proof -
  have t: "bm_test [1, 0 :: u8] i \<longleftrightarrow> i = 0" if "i < 16" for i
  proof -
    have "i div 8 = 0 \<or> i div 8 = 1" using that by auto
    thus ?thesis by (auto simp: bm_test_bit bit_1_iff)
  qed
  hence "blocks_used (tiny_fs h) = {0}" by (auto simp: blocks_used_def bm_set_of_def tiny_fs_def)
  thus "card (blocks_used (tiny_fs h)) + 12 \<le> block_cap (tiny_fs h)" by (simp add: block_cap_def tiny_fs_def)
  show "bm_test (block_bitmap (tiny_fs h)) 0" using t by (simp add: tiny_fs_def)
qed

theorem files_refine_bytes_witness:
  "\<forall>h. \<exists>n t. file_write ram_disk 64 [1, 2, 3] (tiny_fs h) = Inr (int n, t) \<and> n \<le> 3 \<and> fs_ok t"
  using files_refine_bytes [OF ram_disk_laws tiny_fs_ok, where k = 0 and buf = "[1, 2, 3]"] by fastforce

text \<open>
  C21. What is written to a file is read back (fs/solixfs.c, file\_write, file\_seek, file\_read): after
  writing a buffer for which there is room, seeking to where the write began and reading as many
  bytes gives the buffer.
\<close>

theorem write_seek_read:
  assumes "disk_laws D" and "fs_ok s" and "on_file s p i off" and "off + length buf \<le> FILE_MAX"
    and "bm_test (block_bitmap s) 0" and "card (blocks_used s) + 12 \<le> block_cap s"
  shows "\<exists>t u w. file_write D p buf s = Inr (int (length buf), t) \<and> file_seek p (of_nat off) 0 t = Inr (0, u) \<and>
    file_read D p (of_nat (length buf)) u = Inr ((int (length buf), buf), w)"
proof -
  obtain t where t: "file_write D p buf s = Inr (int (length buf), t)" "fs_ok t" "on_file t p i (off + length buf)"
      "contents D t i = patch off buf (contents D s i)"
    using file_write_patch [OF assms(1-3), of buf] assms(4-6) by auto
  have i: "i < length (inode_table s)" "off \<le> length (contents D s i)"
    using assms(1-3) by (auto simp: on_file_def contents_length)
  have off: "unat (of_nat off :: u32) = off" "unat (of_nat (length buf) :: u32) = length buf"
    using assms(4) by (simp_all add: unsigned_of_nat take_bit_nat_eq_self)
  have "off + length buf \<le> unat (fsize (inode_table t ! i))" using t(3) by (simp add: on_file_def)
  then obtain u where u: "file_seek p (of_nat off) 0 t = Inr (0, u)" "same_files t u" "on_file u p i off"
    using file_seek_set [OF t(3), of "of_nat off"] off by auto
  have "drop off (contents D t i) = buf @ drop (off + length buf) (contents D s i)" using t(4) i(2) by (simp add: patch_def)
  hence "take (length buf) (drop off (contents D u i)) = buf" using same_files_contents [OF u(2)] by simp
  with file_read_slice [OF assms(1) _ u(3), of "of_nat (length buf)"] same_files_ok [OF u(2)] t(2) off assms(4)
  obtain w where "file_read D p (of_nat (length buf)) u = Inr ((int (length buf), buf), w)" by auto
  thus ?thesis using t(1) u(1) by blast
qed

theorem write_seek_read_witness:
  "\<forall>h. \<exists>t u w. file_write ram_disk 64 [1, 2, 3] (tiny_fs h) = Inr (3, t) \<and> file_seek 64 0 0 t = Inr (0, u) \<and>
    file_read ram_disk 64 3 u = Inr ((3, [1, 2, 3]), w)"
  using write_seek_read [OF ram_disk_laws tiny_fs_ok _ tiny_fs_room, where buf = "[1, 2, 3]"] by simp

end
