(* ===== verification/Solix_Vfs.thy ===== *)
theory Solix_Vfs
  imports Solix_Files
begin

text \<open>
  The virtual file system, after \<^verbatim>\<open>fs/vfs.c\<close>: the mount table, path lookup, the table of open files and
  the operations on it. The static variables of \<^verbatim>\<open>fs/solixfs.c\<close> that this file uses are those of
  \<open>Solix_Fs\<close>. A pathname is a C string without its terminator; a fault is a value, as before.
\<close>

declare of_nat_add [simp del]

section \<open>Mounts and paths\<close>

abbreviation MAX_MOUNTS :: nat where "MAX_MOUNTS \<equiv> 16"

definition vfs_init :: "'d disk_driver \<Rightarrow> 'd fs \<Rightarrow> 'd fs run" where
  "vfs_init D s =
     (let s1 = s\<lparr>mount_table := map (\<lambda>m. m\<lparr>active := False, mroot := 0\<rparr>) (mount_table s), file_table := replicate 256 empty_file\<rparr>
      in bind_run (solixfs_init D s1) (\<lambda>s2.
         Some (Inr (s2\<lparr>mount_table := list_update (mount_table s2) 0 \<lparr>device = ''hda'', mountpoint = ''/'', mroot = root_vnode s2, active = True\<rparr>,
                       fs_out := fs_out s2 @ ''VFS initialized'' @ [CHR ''\<newline>'']\<rparr>))))"

definition match_mount :: "string \<Rightarrow> mount \<Rightarrow> (mount option \<times> nat) \<Rightarrow> (mount option \<times> nat)" where
  "match_mount path m best =
     (if active m \<and> take (length (mountpoint m)) path = mountpoint m \<and> length (mountpoint m) > snd best
      then (Some m, length (mountpoint m)) else best)"

definition find_mount :: "string \<Rightarrow> 'd fs \<Rightarrow> mount option" where
  "find_mount path s = fst (fold (match_mount path) (take MAX_MOUNTS (mount_table s)) (None, 0))"

text \<open>A new vnode for inode \<open>n\<close> below \<open>parent\<close>.\<close>

definition new_child :: "u32 \<Rightarrow> u32 \<Rightarrow> 'd fs \<Rightarrow> (u32 \<times> 'd fs) run" where
  "new_child parent n s =
     bind_run (kmalloc 32 (fs_heap s)) (\<lambda>(p, h).
       if p = 0 then Some (Inl (Wild_Access 0))
       else bind_run (Some (get_inode (n - 1) s)) (\<lambda>f.
         Some (Inr (p, s\<lparr>fs_heap := h,
           vnodes := (vnodes s)(p \<mapsto> \<lparr>inode_num = n, vinode = n - 1, vparent = parent, vchildren = 0, vnext = 0,
             vops = (if mode f = FT_DIRECTORY then Dir_Ops else File_Ops), private_data = p, voffset = 0\<rparr>)\<rparr>))))"

text \<open>The walk over the components of a path, each cut after 255 characters.\<close>

function resolve_loop :: "'d disk_driver \<Rightarrow> u32 \<Rightarrow> string \<Rightarrow> 'd fs \<Rightarrow> (u32 \<times> 'd fs) run" where
  "resolve_loop D vnode p s =
     (if p = [] \<or> vnode = 0 then Some (Inr (vnode, s))
      else let q = dropWhile (\<lambda>c. c = CHR ''/'') p
           in if q = [] then Some (Inr (vnode, s))
              else let component = take 255 (takeWhile (\<lambda>c. c \<noteq> CHR ''/'') q)
                   in bind_run (Some (get_vnode vnode s)) (\<lambda>v.
                      bind_run (Some (find_in_dir D (inode_num v - 1) component s)) (\<lambda>(n, s1).
                      if n = 0 then Some (Inr (0, s1))
                      else bind_run (new_child vnode n s1) (\<lambda>(child, s2).
                        resolve_loop D child (drop (length component) q) s2))))"
  by auto
termination
proof (relation "measure (\<lambda>(D, vnode, p, s). length p)")
  fix D :: "'d disk_driver" and vnode p s q component and v x n s1 y child s2
  assume q: "q = dropWhile (\<lambda>c. c = CHR ''/'') p" "q \<noteq> []" and c: "component = take 255 (takeWhile (\<lambda>c. c \<noteq> CHR ''/'') q)"
  have "hd q \<noteq> CHR ''/''" using q hd_dropWhile [of "\<lambda>c. c = CHR ''/''" p] by simp
  hence "0 < length component" using q(2) c by (cases q) auto
  moreover have "length q \<le> length p" using q(1) by (simp add: length_dropWhile_le)
  moreover have "0 < length q" using q(2) by simp
  ultimately have "length q - length component < length p" by linarith
  thus "((D, child, drop (length component) q, s2), (D, vnode, p, s)) \<in> measure (\<lambda>(D, vnode, p, s). length p)" by simp
qed simp

declare resolve_loop.simps [simp del]

definition resolve_absolute :: "'d disk_driver \<Rightarrow> string \<Rightarrow> 'd fs \<Rightarrow> (u32 \<times> 'd fs) run" where
  "resolve_absolute D path s =
     (case find_mount path s of
        None \<Rightarrow> Some (Inr (0, s))
      | Some m \<Rightarrow> resolve_loop D (mroot m) (drop (length (mountpoint m)) path) s)"

definition resolve_path :: "'d disk_driver \<Rightarrow> string \<Rightarrow> 'd fs \<Rightarrow> (u32 \<times> 'd fs) run" where
  "resolve_path D path s =
     (if path \<noteq> [] \<and> hd path = CHR ''/'' then resolve_absolute D path s
      else if length path + 2 > 512 then Some (Inl Out_Of_Bounds)
      else resolve_absolute D (CHR ''/'' # path) s)"

section \<open>Open files\<close>

abbreviation O_RDONLY :: u32 where "O_RDONLY \<equiv> 0"
abbreviation O_WRONLY :: u32 where "O_WRONLY \<equiv> 1"
abbreviation O_RDWR :: u32 where "O_RDWR \<equiv> 2"
abbreviation O_TRUNC :: u32 where "O_TRUNC \<equiv> 0x200"

definition vfs_open :: "'d disk_driver \<Rightarrow> string \<Rightarrow> u32 \<Rightarrow> 'd fs \<Rightarrow> (int \<times> 'd fs) run" where
  "vfs_open D pathname flags s =
     (case find (\<lambda>i. fvnode (file_table s ! i) = 0) [0..<256] of
        None \<Rightarrow> Some (Inr (-1, s))
      | Some fd \<Rightarrow>
          bind_run (resolve_path D pathname s) (\<lambda>(vnode, s1).
            if vnode = 0 then Some (Inr (-1, s1))
            else let s2 = s1\<lparr>file_table := list_update (file_table s1) fd \<lparr>fvnode = vnode, foffset = 0, fflags = flags, ref_count = 1\<rparr>\<rparr>
                 in if flags AND O_TRUNC \<noteq> 0 then
                      bind_run (Some (get_vnode vnode s2)) (\<lambda>v.
                      bind_run (Some (get_inode (vinode v) s2)) (\<lambda>f.
                        Some (Inr (int fd, if mode f = FT_REGULAR then upd_inode (vinode v) (\<lambda>f. f\<lparr>fsize := 0\<rparr>) s2 else s2))))
                    else Some (Inr (int fd, s2))))"

definition bad_fd :: "int \<Rightarrow> 'd fs \<Rightarrow> bool" where
  "bad_fd fd s \<longleftrightarrow> fd < 0 \<or> fd \<ge> 256 \<or> fvnode (file_table s ! nat fd) = 0"

definition vfs_close :: "int \<Rightarrow> 'd fs \<Rightarrow> int \<times> 'd fs" where
  "vfs_close fd s =
     (if bad_fd fd s then (-1, s)
      else let f = file_table s ! nat fd;
               f1 = f\<lparr>ref_count := ref_count f - 1\<rparr>;
               f2 = (if ref_count f1 = 0 then f1\<lparr>fvnode := 0\<rparr> else f1)
           in (0, s\<lparr>file_table := list_update (file_table s) (nat fd) f2\<rparr>))"

definition vfs_read :: "'d disk_driver \<Rightarrow> int \<Rightarrow> u32 \<Rightarrow> 'd fs \<Rightarrow> fault + (int \<times> u8 list) \<times> 'd fs" where
  "vfs_read D fd count s =
     (if bad_fd fd s then Inr ((-1, []), s)
      else let f = file_table s ! nat fd
           in if fflags f AND O_RDONLY = 0 \<and> fflags f AND O_RDWR = 0 then Inr ((-1, []), s)
              else bind_res (get_vnode (fvnode f) s) (\<lambda>v.
                     case vops v of Dir_Ops \<Rightarrow> dir_read D (private_data v) count s | File_Ops \<Rightarrow> file_read D (private_data v) count s))"

definition vfs_write :: "'d disk_driver \<Rightarrow> int \<Rightarrow> u8 list \<Rightarrow> 'd fs \<Rightarrow> fault + int \<times> 'd fs" where
  "vfs_write D fd buf s =
     (if bad_fd fd s then Inr (-1, s)
      else let f = file_table s ! nat fd
           in if fflags f AND O_WRONLY = 0 \<and> fflags f AND O_RDWR = 0 then Inr (-1, s)
              else bind_res (get_vnode (fvnode f) s) (\<lambda>v.
                     case vops v of Dir_Ops \<Rightarrow> dir_write (private_data v) buf s | File_Ops \<Rightarrow> file_write D (private_data v) buf s))"

definition vfs_seek :: "int \<Rightarrow> u32 \<Rightarrow> int \<Rightarrow> 'd fs \<Rightarrow> fault + int \<times> 'd fs" where
  "vfs_seek fd offset whence s =
     (if bad_fd fd s then Inr (-1, s)
      else bind_res (get_vnode (fvnode (file_table s ! nat fd)) s) (\<lambda>v.
             case vops v of Dir_Ops \<Rightarrow> dir_seek (private_data v) offset whence s | File_Ops \<Rightarrow> file_seek (private_data v) offset whence s))"

text \<open>Neither table of operations has an \<^verbatim>\<open>ioctl\<close>.\<close>

definition vfs_ioctl :: "int \<Rightarrow> u32 \<Rightarrow> u32 \<Rightarrow> 'd fs \<Rightarrow> fault + int \<times> 'd fs" where
  "vfs_ioctl fd request arg s =
     (if bad_fd fd s then Inr (-1, s)
      else bind_res (get_vnode (fvnode (file_table s ! nat fd)) s) (\<lambda>_. Inr (-1, s)))"

section \<open>Directories\<close>

text \<open>The first lines of \<^verbatim>\<open>vfs_mkdir\<close>: parent path and name, each in a buffer of its own.\<close>

definition split_path :: "string \<Rightarrow> (fault + string \<times> string) option" where
  "split_path path =
     (if CHR ''/'' \<notin> set path then None
      else let dir_name = rev (takeWhile (\<lambda>c. c \<noteq> CHR ''/'') (rev path));
               parent_path = take (length path - length dir_name - 1) path
           in if length parent_path > 511 \<or> length dir_name > 255 then Some (Inl Out_Of_Bounds) else Some (Inr (parent_path, dir_name)))"

definition dir_block :: "u32 \<Rightarrow> u32 \<Rightarrow> u8 list \<Rightarrow> u8 list" where
  "dir_block self parent stack =
     patch SOLIXFS_DIR_ENTRY_SIZE (le32 parent @ name_bytes ''..'' @ [0]) (patch 0 (le32 self @ name_bytes ''.'' @ [0]) stack)"

definition add_entry :: "'d disk_driver \<Rightarrow> u32 \<Rightarrow> u32 \<Rightarrow> string \<Rightarrow> 'd fs \<Rightarrow> 'd fs" where
  "add_entry D block n name s =
     (let s1 = read_block D block s
      in case find (\<lambda>i. entry_inode (disk_buffer s1) i = 0) [0..<ENTRIES] of
           None \<Rightarrow> s1
         | Some i \<Rightarrow>
             let s2 = s1\<lparr>disk_buffer := patch (SOLIXFS_DIR_ENTRY_SIZE * i) (le32 n @ name_bytes name @ [0]) (disk_buffer s1)\<rparr>
             in write_block D block (disk_buffer s2) s2)"

text \<open>
  Creating a directory. \<open>ts\<close> are the results of the three calls of \<^verbatim>\<open>timer_get_ticks\<close>; \<open>stack\<close> is what
  lies on the stack from the array \<^verbatim>\<open>entries\<close> on: the array has 520 bytes, and 4096 are written.
\<close>

definition vfs_mkdir :: "'d disk_driver \<Rightarrow> u32 \<times> u32 \<times> u32 \<Rightarrow> u8 list \<Rightarrow> string \<Rightarrow> 'd fs \<Rightarrow> (int \<times> 'd fs) run" where
  "vfs_mkdir D ts stack pathname s =
     (case split_path pathname of
        None \<Rightarrow> Some (Inr (-1, s))
      | Some r \<Rightarrow>
          bind_run (Some r) (\<lambda>(parent_path, dir_name).
          bind_run (resolve_path D parent_path s) (\<lambda>(parent, s1).
          if parent = 0 then Some (Inr (-1, s1))
          else bind_run (Some (get_vnode parent s1)) (\<lambda>pv.
          bind_run (Some (get_inode (vinode pv) s1)) (\<lambda>pf.
          if mode pf \<noteq> FT_DIRECTORY then Some (Inr (-1, s1))
          else case alloc_inode s1 of (new_inode, s2) \<Rightarrow>
            if new_inode = 0 then Some (Inr (-1, s2))
            else bind_run (Some (get_inode (new_inode - 1) s2)) (\<lambda>_.
              let s3 = upd_inode (new_inode - 1) (\<lambda>f. f\<lparr>mode := FT_DIRECTORY OR 0x100 OR 0x200 OR 0x400, uid := 0, gid := 0,
                         fsize := of_nat SOLIXFS_BLOCK_SIZE, atime := fst ts, mtime := fst (snd ts), ctime := snd (snd ts), links := 2, iblocks := 1\<rparr>) s2
              in case alloc_block s3 of (block, s4) \<Rightarrow>
                if block = 0 then Some (Inr (-1, free_inode new_inode s4))
                else let s5 = upd_inode (new_inode - 1) (\<lambda>f. f\<lparr>direct := list_update (direct f) 0 block\<rparr>) s4;
                         s6 = write_block D block (dir_block new_inode (inode_num pv) stack) s5
                     in bind_run (Some (get_inode (vinode pv) s6)) (\<lambda>pf'.
                          Some (Inr (0, add_entry D (direct pf' ! 0) new_inode dir_name s6)))))))))"

definition vfs_readdir :: "'d disk_driver \<Rightarrow> string \<Rightarrow> u32 \<Rightarrow> 'd fs \<Rightarrow> ((int \<times> u8 list) \<times> 'd fs) run" where
  "vfs_readdir D pathname count s =
     bind_run (resolve_path D pathname s) (\<lambda>(vnode, s1).
       if vnode = 0 then Some (Inr ((-1, []), s1))
       else bind_run (Some (get_vnode vnode s1)) (\<lambda>v.
            bind_run (Some (get_inode (vinode v) s1)) (\<lambda>f.
              if mode f \<noteq> FT_DIRECTORY then Some (Inr ((-1, []), s1))
              else bind_run (Some (dir_read D vnode (count * of_nat SOLIXFS_DIR_ENTRY_SIZE) s1)) (\<lambda>((n, bs), s2).
                     Some (Inr ((n div int SOLIXFS_DIR_ENTRY_SIZE, bs), s2))))))"

definition vfs_stat :: "'d disk_driver \<Rightarrow> string \<Rightarrow> 'd fs \<Rightarrow> (inode option \<times> 'd fs) run" where
  "vfs_stat D pathname s =
     bind_run (resolve_path D pathname s) (\<lambda>(vnode, s1).
       if vnode = 0 then Some (Inr (None, s1))
       else bind_run (Some (get_vnode vnode s1)) (\<lambda>v.
            bind_run (Some (get_inode (vinode v) s1)) (\<lambda>f. Some (Inr (Some f, s1)))))"

section \<open>What paths lead to\<close>

text \<open>The state after \<^verbatim>\<open>vfs_init\<close>, as far as lookup depends on it: only the root is mounted.\<close>

definition mounted :: "'d fs \<Rightarrow> bool" where
  "mounted s \<longleftrightarrow>
     (case mount_table s of
        [] \<Rightarrow> False
      | m # ms \<Rightarrow> active m \<and> mountpoint m = ''/'' \<and> mroot m = root_vnode s \<and> (\<forall>n\<in>set ms. \<not> active n)) \<and>
     root_vnode s \<noteq> 0 \<and> vnodes s 0 = None \<and> length (inode_table s) < 2 ^ 32 \<and> length (file_table s) = 256 \<and>
     (case vnodes s (root_vnode s) of
        None \<Rightarrow> False
      | Some v \<Rightarrow> inode_num v = 1 \<and> vinode v = 0 \<and> vops v = Dir_Ops \<and> private_data v = 0)"

lemma alloc_filled_nonnull: "alloc_filled n h = Some (Inr (p, h')) \<Longrightarrow> n \<noteq> 0 \<Longrightarrow> p \<noteq> 0"
  by (auto simp: alloc_filled_def bind_run_Inr_iff split: if_splits)

lemma solixfs_init_root:
  assumes run: "solixfs_init D s = Some (Inr t)" and m: "magic (parse_superblock (disk_read D 0 40 (disk s))) = SOLIXFS_MAGIC"
  shows "root_vnode t \<noteq> 0 \<and> (\<exists>b n. inode_table t = parse_inodes (disk_read D b (unat (n :: u32)) (disk s))) \<and> length (file_table t) = 256 \<and>
    mount_table t = mount_table s \<and>
    vnodes t = (vnodes s)(root_vnode t \<mapsto> \<lparr>inode_num = 1, vinode = 0, vparent = 0, vchildren = 0, vnext = 0, vops = Dir_Ops, private_data = 0, voffset = 0\<rparr>)"
proof -
  from run obtain r h4 h5 where r: "alloc_filled 32 h4 = Some (Inr (r, h5))"
    and t: "root_vnode t = r" "vnodes t = (vnodes s)(r \<mapsto> \<lparr>inode_num = 1, vinode = 0, vparent = 0, vchildren = 0, vnext = 0, vops = Dir_Ops, private_data = 0, voffset = 0\<rparr>)"
      "\<exists>b n. inode_table t = parse_inodes (disk_read D b (unat (n :: u32)) (disk s))" "file_table t = replicate 256 empty_file" "mount_table t = mount_table s"
    unfolding solixfs_init_def Let_def using m by (fastforce simp: bind_run_Inr_iff)
  thus ?thesis using alloc_filled_nonnull [OF r] by simp
qed

lemma vfs_init_mounted:
  assumes D: "disk_laws D" and run: "vfs_init D s = Some (Inr t)" and m: "magic (parse_superblock (disk_read D 0 40 (disk s))) = SOLIXFS_MAGIC"
    and tab: "length (mount_table s) = MAX_MOUNTS" and null: "vnodes s 0 = None"
  shows "mounted t"
proof -
  have len: "length (parse_inodes (disk_read D b (unat (n :: u32)) d)) < 2 ^ 32" for b n d
  proof -
    have "length (disk_read D b (unat n) d) = unat n" using D by (simp add: disk_laws_def)
    moreover have "unat n div 92 \<le> unat n" by (rule div_le_dividend)
    moreover have "unat n < 2 ^ 32" using unsigned_less [where 'a = nat and w = n] by simp
    ultimately show ?thesis by (simp add: parse_inodes_def)
  qed
  obtain m0 ms where ms: "mount_table s = m0 # ms" using tab by (cases "mount_table s") auto
  from run obtain s2 where s2: "solixfs_init D (s\<lparr>mount_table := map (\<lambda>m. m\<lparr>active := False, mroot := 0\<rparr>) (mount_table s), file_table := replicate 256 empty_file\<rparr>) = Some (Inr s2)"
    and t: "t = s2\<lparr>mount_table := list_update (mount_table s2) 0 \<lparr>device = ''hda'', mountpoint = ''/'', mroot = root_vnode s2, active = True\<rparr>,
                    fs_out := fs_out s2 @ ''VFS initialized'' @ [CHR ''\<newline>'']\<rparr>"
    by (auto simp: vfs_init_def bind_run_Inr_iff Let_def)
  note r = solixfs_init_root [OF s2, simplified, OF m]
  have "length (inode_table s2) < 2 ^ 32" using r len by auto
  thus ?thesis using r null ms t by (simp add: mounted_def)
qed

lemma match_inactive: "\<forall>n\<in>set ms. \<not> active n \<Longrightarrow> fold (match_mount path) ms b = b"
  by (induction ms) (simp_all add: match_mount_def)

lemma mounted_find:
  assumes "mounted s"
  shows "\<exists>m. find_mount (CHR ''/'' # path) s = Some m \<and> mountpoint m = ''/'' \<and> mroot m = root_vnode s"
proof -
  obtain m ms where m: "mount_table s = m # ms" "active m" "mountpoint m = ''/''" "mroot m = root_vnode s" "\<forall>n\<in>set ms. \<not> active n"
    using assms by (auto simp: mounted_def split: list.splits)
  have "\<forall>n\<in>set (take 15 ms). \<not> active n" using m(5) by (auto dest: in_set_takeD)
  thus ?thesis using m match_inactive by (auto simp: find_mount_def match_mount_def take_Cons')
qed

lemma mounted_resolve:
  assumes "mounted s" "length path \<le> 510"
  shows "resolve_path D path s = (if set path \<subseteq> {CHR ''/''} then Some (Inr (root_vnode s, s)) else Some (Inl Out_Of_Bounds))"
proof -
  obtain v where v: "vnodes s (root_vnode s) = Some v" "inode_num v = 1" and r: "root_vnode s \<noteq> 0" "length (inode_table s) < 2 ^ 32"
    using assms(1) by (auto simp: mounted_def split: option.splits)
  have oob: "find_in_dir D 0 n s = Inl Out_Of_Bounds" for n
  proof -
    have "unat (- 1 :: u32) = 4294967295" by (simp add: unsigned_minus_1_eq_mask mask_eq_exp_minus_1)
    thus ?thesis using r(2) by (simp add: find_in_dir_def get_inode_def)
  qed
  have loop: "resolve_loop D (root_vnode s) p s = (if set p \<subseteq> {CHR ''/''} then Some (Inr (root_vnode s, s)) else Some (Inl Out_Of_Bounds))" for p
  proof -
    have "dropWhile (\<lambda>c. c = CHR ''/'') p = [] \<longleftrightarrow> set p \<subseteq> {CHR ''/''}" by auto
    thus ?thesis using r(1) v oob by (subst resolve_loop.simps) (auto simp: get_vnode_def Let_def)
  qed
  have abs: "resolve_absolute D (CHR ''/'' # p) s = (if set p \<subseteq> {CHR ''/''} then Some (Inr (root_vnode s, s)) else Some (Inl Out_Of_Bounds))" for p
    using mounted_find [OF assms(1), of p] loop [of p] by (auto simp: resolve_absolute_def simp del: subset_singleton_iff split del: if_split)
  show ?thesis
  proof (cases "path \<noteq> [] \<and> hd path = CHR ''/''")
    case True
    then obtain p where "path = CHR ''/'' # p" by (cases path) auto
    thus ?thesis using abs by (simp add: resolve_path_def)
  next
    case False
    thus ?thesis using abs [of path] assms(2) unfolding resolve_path_def by (auto split del: if_split)
  qed
qed

text \<open>
  C22. Only the root directory can be opened, and nothing can be read through it (fs/vfs.c,
  resolve\_path, vfs\_open, vfs\_read). Once the file system is mounted, any path with a component makes
  the lookup read the inode before the start of the table, because the walk passes the inode number
  minus one to a function that subtracts one itself. A path of slashes gives the lowest free
  descriptor. Reading from it is refused, whatever the count, unless the file was opened for reading
  and writing, since \<^verbatim>\<open>O_RDONLY\<close> is no bit; and then the null pointer in the private data of the
  root vnode is dereferenced.
\<close>

theorem vfs_opens_only_root:
  assumes "mounted s" and "length path \<le> 510" and "find (\<lambda>i. fvnode (file_table s ! i) = 0) [0..<256] = Some fd" and "flags AND O_TRUNC = 0"
  shows "if set path \<subseteq> {CHR ''/''}
    then \<exists>t. vfs_open D path flags s = Some (Inr (int fd, t)) \<and>
      (\<forall>n. vfs_read D (int fd) n t = (if flags AND O_RDWR = 0 then Inr ((-1, []), t) else Inl (Wild_Access 0)))
    else vfs_open D path flags s = Some (Inl Out_Of_Bounds)"
proof -
  have fd: "fd < 256" using assms(3) by (simp add: find_upt_Some)
  obtain v where v: "vnodes s (root_vnode s) = Some v" "vops v = Dir_Ops" "private_data v = 0"
      and r: "root_vnode s \<noteq> 0" "vnodes s 0 = None" "length (file_table s) = 256"
    using assms(1) by (auto simp: mounted_def split: option.splits)
  let ?t = "s\<lparr>file_table := list_update (file_table s) fd \<lparr>fvnode = root_vnode s, foffset = 0, fflags = flags, ref_count = 1\<rparr>\<rparr>"
  have "vfs_read D (int fd) n ?t = (if flags AND O_RDWR = 0 then Inr ((-1, []), ?t) else Inl (Wild_Access 0))" for n
    using fd v r by (simp add: vfs_read_def bad_fd_def Let_def get_vnode_def dir_read_def)
  moreover have "vfs_open D path flags s = (if set path \<subseteq> {CHR ''/''} then Some (Inr (int fd, ?t)) else Some (Inl Out_Of_Bounds))"
    using mounted_resolve [OF assms(1,2)] assms(3,4) r(1) by (simp add: vfs_open_def)
  ultimately show ?thesis by simp
qed

text \<open>A mounted file system with one empty root directory, for concrete runs.\<close>

definition root_fs :: "heap \<Rightarrow> (u32 \<Rightarrow> u8 list) fs" where
  "root_fs h =
     (tiny_fs h)\<lparr>
       sb := (sb (tiny_fs h))\<lparr>inode_count := 2\<rparr>,
       block_bitmap := [3, 0],
       inode_table := [\<lparr>mode = FT_DIRECTORY, uid = 0, gid = 0, fsize = 4096, atime = 0, mtime = 0, ctime = 0, links = 2, iblocks = 1,
                        direct = 1 # replicate 11 0, indirect = 0, double_indirect = 0\<rparr>,
                       \<lparr>mode = 0, uid = 0, gid = 0, fsize = 0, atime = 0, mtime = 0, ctime = 0, links = 0, iblocks = 0,
                        direct = replicate 12 0, indirect = 0, double_indirect = 0\<rparr>],
       root_vnode := 64,
       vnodes := [64 \<mapsto> \<lparr>inode_num = 1, vinode = 0, vparent = 0, vchildren = 0, vnext = 0, vops = Dir_Ops, private_data = 0, voffset = 0\<rparr>],
       mount_table := \<lparr>device = ''hda'', mountpoint = ''/'', mroot = 64, active = True\<rparr> #
         replicate 15 \<lparr>device = [], mountpoint = [], mroot = 0, active = False\<rparr>,
       file_table := replicate 256 empty_file\<rparr>"

lemma root_fs_mounted: "mounted (root_fs h)"
  by (simp add: mounted_def root_fs_def)

theorem vfs_opens_only_root_witness:
  "\<forall>h. vfs_open ram_disk ''/etc/motd'' O_RDWR (root_fs h) = Some (Inl Out_Of_Bounds)"
proof
  fix h
  have "find (\<lambda>i. fvnode (file_table (root_fs h) ! i) = 0) [0..<256] = Some 0"
    by (simp add: find_upt_Some root_fs_def empty_file_def)
  thus "vfs_open ram_disk ''/etc/motd'' O_RDWR (root_fs h) = Some (Inl Out_Of_Bounds)"
    using vfs_opens_only_root [OF root_fs_mounted, of "''/etc/motd''" h 0 O_RDWR ram_disk] by simp
qed

section \<open>A new directory is found\<close>

lemma entry_patched:
  assumes "length buf = SOLIXFS_BLOCK_SIZE" "j < ENTRIES"
  shows "entry_inode (patch (SOLIXFS_DIR_ENTRY_SIZE * j) (le32 n @ name_bytes name @ [0]) buf) j = n"
    and "entry_named name (patch (SOLIXFS_DIR_ENTRY_SIZE * j) (le32 n @ name_bytes name @ [0]) buf) j"
    and "i < j \<Longrightarrow> entry_inode (patch (SOLIXFS_DIR_ENTRY_SIZE * j) xs buf) i = entry_inode buf i"
    and "i < j \<Longrightarrow> length m \<le> 255 \<Longrightarrow> entry_named m (patch (SOLIXFS_DIR_ENTRY_SIZE * j) xs buf) i = entry_named m buf i"
proof -
  have k: "length (take (260 * j) buf) = 260 * j" using assms by simp
  show "entry_inode (patch (SOLIXFS_DIR_ENTRY_SIZE * j) (le32 n @ name_bytes name @ [0]) buf) j = n"
    using k by (simp add: entry_inode_def patch_def)
  show "entry_named name (patch (SOLIXFS_DIR_ENTRY_SIZE * j) (le32 n @ name_bytes name @ [0]) buf) j"
    using k by (simp add: entry_named_def patch_def name_bytes_def)
  assume "i < j"
  hence i: "260 * i + 260 \<le> 260 * j" by simp
  show "entry_inode (patch (SOLIXFS_DIR_ENTRY_SIZE * j) xs buf) i = entry_inode buf i"
    using k i by (simp add: entry_inode_def patch_def get32_def nth_append)
  assume m: "length m \<le> 255"
  have "take (length m + 1) (drop (260 * i + 4) (take (260 * j) buf @ zs)) = take (length m + 1) (drop (260 * i + 4) buf)" for zs
  proof -
    have "Suc (length m) \<le> 260 * j - (260 * i + 4)" using i m by linarith
    thus ?thesis using assms i by (simp add: drop_take min_absorb1)
  qed
  thus "entry_named m (patch (SOLIXFS_DIR_ENTRY_SIZE * j) xs buf) i = entry_named m buf i"
    by (simp only: entry_named_def patch_def)
qed

text \<open>A mounted file system whose root directory has room for an entry called \<open>name\<close>, and space for one more directory.\<close>

definition mkdir_ready :: "'d disk_driver \<Rightarrow> string \<Rightarrow> 'd fs \<Rightarrow> bool" where
  "mkdir_ready D name s \<longleftrightarrow> fs_ok s \<and> mounted s \<and> inodes_ok s \<and> inode_cap s \<le> length (inode_table s) \<and> 0 < length (inode_table s) \<and>
     mode (inode_table s ! 0) = FT_DIRECTORY \<and> 0 < iblocks (inode_table s ! 0) \<and> direct (inode_table s ! 0) ! 0 \<noteq> 0 \<and>
     bm_test (block_bitmap s) 0 \<and> card (blocks_used s) < block_cap s \<and> bm_test (inode_bitmap s) 0 \<and> card (inodes_used s) < inode_cap s \<and>
     (\<exists>j<ENTRIES. entry_inode (blk D s (direct (inode_table s ! 0) ! 0)) j = 0) \<and>
     CHR ''/'' \<notin> set name \<and> length name \<le> 255 \<and> (\<exists>t. find_in_dir D 1 name s = Inr (0, t))"

lemma split_root: "CHR ''/'' \<notin> set name \<Longrightarrow> length name \<le> 255 \<Longrightarrow> split_path (CHR ''/'' # name) = Some (Inr ([], name))"
proof -
  assume a: "CHR ''/'' \<notin> set name" "length name \<le> 255"
  have "takeWhile (\<lambda>c. c \<noteq> CHR ''/'') (rev name @ ''/'') = rev name"
    using a(1) by (subst takeWhile_append2) auto
  thus ?thesis using a(2) by (simp add: split_path_def)
qed

lemma find_in_root:
  assumes "unat (iblocks f) > 0" "length (direct f) = 12" "mode f = FT_DIRECTORY" "get_inode 0 s = Inr f" "b = direct f ! 0"
  shows "find_in_dir D 1 name s =
     (case find (\<lambda>j. entry_inode (blk D s b) j \<noteq> 0 \<and> entry_named name (blk D s b) j) [0..<ENTRIES] of
        Some j \<Rightarrow> Inr (entry_inode (blk D s b) j, s\<lparr>disk_buffer := blk D s b\<rparr>)
      | None \<Rightarrow> Inr (find_blocks D name (tl (take (min (unat (iblocks f)) 12) (direct f))) (s\<lparr>disk_buffer := blk D s b\<rparr>)))"
proof -
  obtain bs where d: "direct f = b # bs" using assms(2,5) by (cases "direct f") auto
  obtain k where k: "min (unat (iblocks f)) 12 = Suc k" using assms(1) by (cases "min (unat (iblocks f)) 12") auto
  show ?thesis using assms(3,4)
    by (simp add: find_in_dir_def d k read_block_blk Let_def split: option.split)
qed

text \<open>The two allocations of \<^verbatim>\<open>vfs_mkdir\<close>.\<close>

lemma mkdir_inode:
  assumes "mkdir_ready D name s"
  obtains k where "k < length (inode_table s)" "k \<noteq> 0" "alloc_inode s = (of_nat k + 1, s\<lparr>inode_bitmap := bm_set (inode_bitmap s) k, sb := (sb s)\<lparr>free_inodes := free_inodes (sb s) - 1\<rparr>\<rparr>)"
    "of_nat k + 1 \<noteq> (0 :: u32)" "unat (of_nat k :: u32) = k"
proof -
  have a: "inodes_ok s" "card (inodes_used s) < inode_cap s" "bm_test (inode_bitmap s) 0" "inode_cap s \<le> length (inode_table s)"
    "length (inode_table s) < 2 ^ 32"
    using assms by (simp_all add: mkdir_ready_def mounted_def)
  obtain k t where k: "inode_take s = Some (k, t)" using inodes.alloc_progress [OF a(1,2)] by blast
  hence "k \<noteq> 0" "k < length (inode_table s)" using a(3,4) by (auto simp: inode_take_Some intro: ccontr)
  moreover have u: "unat (of_nat (Suc k) :: u32) = Suc k" "unat (of_nat k :: u32) = k"
    using calculation(2) a(5) by (simp_all add: unsigned_of_nat take_bit_nat_eq_self del: of_nat_Suc)
  moreover have "of_nat k + 1 \<noteq> (0 :: u32)"
  proof
    assume "of_nat k + 1 = (0 :: u32)"
    hence "(of_nat (Suc k) :: u32) = 0" by (simp add: add.commute)
    thus False using u(1) by simp
  qed
  moreover have "alloc_inode s = (of_nat k + 1, s\<lparr>inode_bitmap := bm_set (inode_bitmap s) k, sb := (sb s)\<lparr>free_inodes := free_inodes (sb s) - 1\<rparr>\<rparr>)"
    using k by (simp add: alloc_inode_def) (simp add: inode_take_Some)
  ultimately show ?thesis using that by blast
qed

lemma mkdir_block:
  assumes "blocks_ok s" "bm_test (block_bitmap s) 0" "card (blocks_used s) < block_cap s"
  obtains b where "of_nat b \<noteq> (0 :: u32)" "unat (of_nat b :: u32) = b" "\<not> bm_test (block_bitmap s) b"
    "alloc_block s = (of_nat b, s\<lparr>block_bitmap := bm_set (block_bitmap s) b, sb := (sb s)\<lparr>free_blocks := free_blocks (sb s) - 1\<rparr>\<rparr>)"
proof -
  obtain b t where b: "block_take s = Some (b, t)" using blocks.alloc_progress [OF assms(1,3)] by blast
  with alloc_block_cases [OF assms(1)] have u: "unat (of_nat b :: u32) = b" "alloc_block s = (of_nat b, t)" by auto
  have "b \<noteq> 0" "\<not> bm_test (block_bitmap s) b" using b assms(2) by (auto simp: block_take_Some intro: ccontr)
  moreover have "of_nat b \<noteq> (0 :: u32)" using u(1) calculation(1) by auto
  ultimately show ?thesis using that u b by (auto simp: block_take_Some)
qed

lemma add_entry_found:
  assumes D: "disk_laws D" and j: "j < ENTRIES" "entry_inode (blk D s b) j = 0" "\<forall>i<j. entry_inode (blk D s b) i \<noteq> 0"
    and none: "\<forall>i<j. \<not> entry_named name (blk D s b) i" and len: "length name \<le> 255" and n: "n \<noteq> 0"
    and t: "t = add_entry D b n name s"
  shows "inode_table t = inode_table s \<and>
     find (\<lambda>j. entry_inode (blk D t b) j \<noteq> 0 \<and> entry_named name (blk D t b) j) [0..<ENTRIES] = Some j \<and> entry_inode (blk D t b) j = n"
proof -
  let ?x = "patch (SOLIXFS_DIR_ENTRY_SIZE * j) (le32 n @ name_bytes name @ [0]) (blk D s b)"
  have bl: "length (blk D s b) = SOLIXFS_BLOCK_SIZE" using D by simp
  have "find (\<lambda>i. entry_inode (blk D s b) i = 0) [0..<ENTRIES] = Some j" using j unfolding find_upt_Some by simp
  hence e: "t = s\<lparr>disk_buffer := ?x, disk := disk_write D (data_blocks (sb s) + b) ?x (disk s)\<rparr>"
    unfolding t add_entry_def by (simp add: read_block_blk write_block_def)
  have "length ?x = SOLIXFS_BLOCK_SIZE" using bl j(1) len by (simp add: patch_length name_bytes_def)
  hence x: "blk D t b = ?x" using D e by (intro blk_write(1) [OF D]) simp_all
  show ?thesis
    unfolding x find_upt_Some using e j none n len entry_patched [OF bl j(1)] by simp
qed

text \<open>
  Creating a directory (fs/vfs.c, vfs\_mkdir). On a mounted file system whose root directory has a
  free entry and no entry of that name, with an inode and a block free, the call for a name in the
  root succeeds, and looking the name up in the root then gives the new inode. But the new directory
  is none for the lookup: its mode carries permission bits, \<^verbatim>\<open>find_in_dir\<close> compares the whole mode with
  \<^verbatim>\<open>FT_DIRECTORY\<close>, and so finds nothing in it, not even the entries that were just written.
\<close>

theorem mkdir_then_lookup:
  assumes "disk_laws D" and "mkdir_ready D name s" and "length stack = SOLIXFS_BLOCK_SIZE"
  shows "\<exists>t n. vfs_mkdir D ts stack (CHR ''/'' # name) s = Some (Inr (0, t)) \<and> n \<noteq> 0 \<and>
    (\<exists>u. find_in_dir D 1 name t = Inr (n, u)) \<and> (\<forall>m. find_in_dir D n m t = Inr (0, t))"
proof -
  note r = assms(2) [unfolded mkdir_ready_def]
  define f where "f = inode_table s ! 0"
  define b0 where "b0 = direct f ! 0"
  have f: "length (direct f) = 12" "mode f = FT_DIRECTORY" "unat (iblocks f) > 0" "b0 \<noteq> 0" "get_inode 0 s = Inr f"
    using r by (auto simp: f_def b0_def fs_ok_def inode_ok_def get_inode_def word_less_nat_alt)
  have b0: "bm_test (block_bitmap s) (unat b0)"
  proof -
    have "inode_ok s f" using r by (simp add: fs_ok_def f_def)
    moreover have "b0 \<in> set (direct f)" using f(1) by (simp add: b0_def)
    ultimately show ?thesis using f(4) by (simp add: inode_ok_def)
  qed
  define Q where "Q = (\<lambda>j. entry_inode (blk D s b0) j \<noteq> 0 \<and> entry_named name (blk D s b0) j)"
  have none: "\<forall>i<ENTRIES. \<not> Q i"
  proof -
    obtain t where "find_in_dir D 1 name s = Inr (0, t)" using r by blast
    hence t: "(case find Q [0..<ENTRIES] of Some j \<Rightarrow> Inr (entry_inode (blk D s b0) j, s\<lparr>disk_buffer := blk D s b0\<rparr>)
      | None \<Rightarrow> Inr (find_blocks D name (tl (take (min (unat (iblocks f)) 12) (direct f))) (s\<lparr>disk_buffer := blk D s b0\<rparr>))) = (Inr (0, t) :: fault + _)"
      unfolding find_in_root [OF f(3,1,2,5) b0_def] Q_def .
    have "find Q [0..<ENTRIES] = None"
    proof (rule ccontr)
      assume "find Q [0..<ENTRIES] \<noteq> None"
      then obtain a where a: "find Q [0..<ENTRIES] = Some a" by blast
      hence "Q a" by (simp only: find_upt_Some)
      thus False using t a by (simp add: Q_def)
    qed
    thus ?thesis by (simp only: find_upt_None)
  qed
  define j where "j = (LEAST j. entry_inode (blk D s b0) j = 0)"
  obtain j' where j': "j' < ENTRIES" "entry_inode (blk D s b0) j' = 0" using r unfolding f_def b0_def by blast
  have j: "j < ENTRIES" "entry_inode (blk D s b0) j = 0" "\<forall>i<j. entry_inode (blk D s b0) i \<noteq> 0"
    unfolding j_def using LeastI [of "\<lambda>j. entry_inode (blk D s b0) j = 0", OF j'(2)]
      Least_le [of "\<lambda>j. entry_inode (blk D s b0) j = 0", OF j'(2)] j'(1) not_less_Least by (auto intro: le_less_trans)
  obtain k where k: "k < length (inode_table s)" "k \<noteq> 0"
      "alloc_inode s = (of_nat k + 1, s\<lparr>inode_bitmap := bm_set (inode_bitmap s) k, sb := (sb s)\<lparr>free_inodes := free_inodes (sb s) - 1\<rparr>\<rparr>)"
      "of_nat k + 1 \<noteq> (0 :: u32)" "unat (of_nat k :: u32) = k"
    using assms(2) by (rule mkdir_inode)
  let ?n = "of_nat k + 1 :: u32"
  define s2 where "s2 = s\<lparr>inode_bitmap := bm_set (inode_bitmap s) k, sb := (sb s)\<lparr>free_inodes := free_inodes (sb s) - 1\<rparr>\<rparr>"
  define s3 where "s3 = upd_inode (of_nat k) (\<lambda>f. f\<lparr>mode := 1794, uid := 0, gid := 0,
       fsize := 4096, atime := fst ts, mtime := fst (snd ts), ctime := snd (snd ts), links := 2, iblocks := 1\<rparr>) s2"
  have bm3: "block_bitmap s3 = block_bitmap s" "blocks_ok s3" "blocks_used s3 = blocks_used s" "block_cap s3 = block_cap s"
    using r by (simp_all add: s3_def s2_def upd_inode_def blocks_ok_def blocks_used_def block_cap_def fs_ok_def)
  obtain b where b: "of_nat b \<noteq> (0 :: u32)" "unat (of_nat b :: u32) = b" "\<not> bm_test (block_bitmap s3) b"
      "alloc_block s3 = (of_nat b, s3\<lparr>block_bitmap := bm_set (block_bitmap s3) b, sb := (sb s3)\<lparr>free_blocks := free_blocks (sb s3) - 1\<rparr>\<rparr>)"
    using mkdir_block [of s3] r bm3 by metis
  define s4 where "s4 = s3\<lparr>block_bitmap := bm_set (block_bitmap s3) b, sb := (sb s3)\<lparr>free_blocks := free_blocks (sb s3) - 1\<rparr>\<rparr>"
  define s5 where "s5 = upd_inode (of_nat k) (\<lambda>f. f\<lparr>direct := list_update (direct f) 0 (of_nat b)\<rparr>) s4"
  define s6 where "s6 = write_block D (of_nat b) (dir_block ?n 1 stack) s5"
  define t where "t = add_entry D b0 ?n name s6"
  have tab: "inode_table s6 ! 0 = f" "length (inode_table s6) = length (inode_table s)"
    "mode (inode_table s6 ! k) = 1794"
    using k by (simp_all add: s6_def s5_def s4_def s3_def s2_def write_block_def upd_inode_def f_def)
  have "b0 \<noteq> of_nat b" using b(2,3) b0 bm3 by metis
  moreover have "length (dir_block ?n 1 stack) = SOLIXFS_BLOCK_SIZE"
    using assms(3) by (simp add: dir_block_def patch_length name_bytes_def)
  ultimately have "blk D s6 b0 = blk D s5 b0"
    by (intro blk_write(2) [OF assms(1)]) (simp_all add: s6_def write_block_def)
  also have "\<dots> = blk D s b0" using blk_cong [of s5 s D] by (simp add: s5_def s4_def s3_def s2_def upd_inode_def)
  finally have bl: "blk D s6 b0 = blk D s b0" .
  have "\<forall>i<j. \<not> entry_named name (blk D s6 b0) i" using none j unfolding bl Q_def by (meson less_trans)
  from add_entry_found [OF assms(1) _ _ _ this _ k(4) t_def] j r
  have t: "inode_table t = inode_table s6"
    "find (\<lambda>j. entry_inode (blk D t b0) j \<noteq> 0 \<and> entry_named name (blk D t b0) j) [0..<ENTRIES] = Some j" "entry_inode (blk D t b0) j = ?n"
    unfolding bl by blast+
  have "inode_table s \<noteq> []" using k(1) by auto
  hence "get_inode 0 t = Inr f" using t(1) tab by (simp add: get_inode_def)
  hence found: "\<exists>u. find_in_dir D 1 name t = Inr (?n, u)" using find_in_root [OF f(3,1,2) _ b0_def, of t D name] t by simp
  have lost: "\<forall>m. find_in_dir D ?n m t = Inr (0, t)"
    using t(1) tab k by (simp add: find_in_dir_def get_inode_def)
  have run: "vfs_mkdir D ts stack (CHR ''/'' # name) s = Some (Inr (0, t))"
  proof -
    obtain v where v: "vnodes s (root_vnode s) = Some v" "inode_num v = 1" "vinode v = 0" and root: "root_vnode s \<noteq> 0"
      using r by (auto simp: mounted_def split: option.splits)
    have 1: "split_path (CHR ''/'' # name) = Some (Inr ([], name))" using r by (intro split_root) simp_all
    have 2: "resolve_path D [] s = Some (Inr (root_vnode s, s))" using mounted_resolve [of s "[]" D] r by simp
    have 3: "get_vnode (root_vnode s) s = Inr v" using v by (simp add: get_vnode_def)
    have 4: "get_inode (of_nat k) s2 = Inr (inode_table s2 ! k)" using k by (simp add: get_inode_def s2_def)
    have "inode_table s \<noteq> []" using k(1) by auto
    hence 5: "get_inode 0 s6 = Inr f" using tab by (simp add: get_inode_def)
    show ?thesis
      unfolding vfs_mkdir_def using root f(2) k(4) b(1)
      by (simp add: 1 2 3 f(5) v k(3) [folded s2_def] 4 s3_def [symmetric] b(4) [folded s4_def] s5_def [symmetric] s6_def [symmetric] 5 Let_def
          b0_def [symmetric] t_def [symmetric])
  qed
  show ?thesis using run found lost k(4) by blast
qed

lemma root_fs_ready: "mkdir_ready ram_disk ''home'' (root_fs h)"
proof -
  have b: "bm_test [3, 0 :: u8] i \<longleftrightarrow> i < 2" if "i < 16" for i
  proof -
    have three: "bit (3 :: u8) n \<longleftrightarrow> n < 2" for n
      using mask_eq_exp_minus_1 [of 2, where 'a = u8] bit_mask_iff [of 2 n, where 'a = u8] by (auto simp: possible_bit_def)
    show ?thesis
    proof (cases "i < 8")
      case True
      thus ?thesis using three [of i] by (simp add: bm_test_bit)
    next
      case False
      hence "i div 8 = 1" using that by simp
      thus ?thesis using False by (simp add: bm_test_bit)
    qed
  qed
  have bu: "blocks_used (root_fs h) = {0, 1}" using b by (auto simp: blocks_used_def bm_set_of_def root_fs_def tiny_fs_def)
  have iu: "inodes_used (root_fs h) = {0}" by (auto simp: inodes_used_def bm_set_of_def root_fs_def tiny_fs_def bm_test_bit bit_1_iff)
  have fo: "fs_ok (root_fs h)"
  proof -
    have d: "direct (inode_table (root_fs h) ! i) ! l = (if i = 0 \<and> l = 0 then 1 else 0)" if "i < 2" "l < 12" for i l
    proof -
      have "i = 0 \<or> i = Suc 0" using that(1) by auto
      thus ?thesis using that(2) by (cases l) (auto simp: root_fs_def)
    qed
    have two: "length (inode_table (root_fs h)) = 2" by (simp add: root_fs_def)
    have "unshared (inode_table (root_fs h))" unfolding unshared_def two using d by (auto split: if_splits)
    moreover have "bm_test [3, 0 :: u8] (Suc 0)" using b [of 1] by simp
    hence "inode_ok (root_fs h) (inode_table (root_fs h) ! 0)" "inode_ok (root_fs h) (inode_table (root_fs h) ! Suc 0)"
      by (auto simp: inode_ok_def root_fs_def tiny_fs_def block_cap_def nth_Cons')
    ultimately show ?thesis by (auto simp: fs_ok_def two less_Suc_eq numeral_2_eq_2) (simp_all add: root_fs_def tiny_fs_def blocks_ok_def bm_fits_def)
  qed
  have z: "blk ram_disk (root_fs h) x = replicate 4096 0" for x
    by (simp add: blk_def ram_disk_def root_fs_def tiny_fs_def)
  have e: "entry_inode (replicate 4096 0) j = 0" if "j < ENTRIES" for j using that by (simp add: entry_inode_def get32_def)
  have fi: "find_in_dir ram_disk 1 ''home'' (root_fs h) = Inr (0, (root_fs h)\<lparr>disk_buffer := replicate 4096 0\<rparr>)"
  proof -
    have "find (\<lambda>j. entry_inode (replicate 4096 0) j \<noteq> 0 \<and> entry_named ''home'' (replicate 4096 0) j) [0..<ENTRIES] = None"
      unfolding find_upt_None using e by simp
    thus ?thesis by (simp add: find_in_dir_def get_inode_def root_fs_def read_block_blk z [unfolded root_fs_def] Let_def)
  qed
  have 1: "card (blocks_used (root_fs h)) < block_cap (root_fs h)" "card (inodes_used (root_fs h)) < inode_cap (root_fs h)"
    unfolding bu iu by (simp_all add: block_cap_def inode_cap_def root_fs_def tiny_fs_def)
  have 2: "inodes_ok (root_fs h)" "inode_cap (root_fs h) \<le> length (inode_table (root_fs h))" "0 < length (inode_table (root_fs h))"
    "mode (inode_table (root_fs h) ! 0) = FT_DIRECTORY" "0 < iblocks (inode_table (root_fs h) ! 0)" "direct (inode_table (root_fs h) ! 0) ! 0 \<noteq> 0"
    by (simp_all add: root_fs_def tiny_fs_def inodes_ok_def inode_cap_def bm_fits_def)
  have 3: "bm_test (block_bitmap (root_fs h)) 0" "bm_test (inode_bitmap (root_fs h)) 0"
    using b [of 0] by (simp_all add: root_fs_def tiny_fs_def) (simp add: bm_test_bit)
  have 4: "\<exists>j<ENTRIES. entry_inode (blk ram_disk (root_fs h) (direct (inode_table (root_fs h) ! 0) ! 0)) j = 0"
    unfolding z using e [of 0] by (intro exI [of _ 0]) simp
  have 5: "\<exists>t. find_in_dir ram_disk 1 ''home'' (root_fs h) = Inr (0, t)" using fi by blast
  show ?thesis unfolding mkdir_ready_def by (intro conjI fo root_fs_mounted 1 2 3 4 5) simp_all
qed

theorem mkdir_then_lookup_witness:
  "\<forall>h. \<exists>t n. vfs_mkdir ram_disk (7, 7, 7) (replicate 4096 0) ''/home'' (root_fs h) = Some (Inr (0, t)) \<and> n \<noteq> 0 \<and>
    (\<exists>u. find_in_dir ram_disk 1 ''home'' t = Inr (n, u)) \<and> (\<forall>m. find_in_dir ram_disk n m t = Inr (0, t))"
  using mkdir_then_lookup [OF ram_disk_laws root_fs_ready, of "replicate 4096 0" "(7, 7, 7)"] by simp

end
