(* ===== verification/Solix_Shell.thy ===== *)
theory Solix_Shell
  imports Solix_Vfs Solix_Process Solix_Frames
begin

text \<open>
  The command shell, after \<^verbatim>\<open>shell/shell.c\<close>: line editing, splitting into arguments, the table of
  commands and the built-in commands, over the models of the file system, the processes and the
  memory. What the screen is asked to do is recorded in order. The characters that
  \<^verbatim>\<open>keyboard_getchar\<close> will return are a list; the shell that has used them up is waiting for a key, for
  ever if interrupts are disabled.
  \<^verbatim>\<open>vfs_unlink\<close>, \<^verbatim>\<open>vfs_mount\<close> and \<^verbatim>\<open>vfs_umount\<close> are declared in \<^verbatim>\<open>include/vfs.h\<close> and not defined in
  \<^verbatim>\<open>fs/\<close>: they are arguments \<open>X\<close> of the definitions.
\<close>

declare of_nat_add [simp del]

section \<open>State\<close>

abbreviation MAX_CMD_LEN :: nat where "MAX_CMD_LEN \<equiv> 256"
abbreviation MAX_ARGS :: nat where "MAX_ARGS \<equiv> 16"
abbreviation MAX_PATH :: nat where "MAX_PATH \<equiv> 512"
abbreviation MAX_COMMANDS :: nat where "MAX_COMMANDS \<equiv> 64"

datatype screen_op = Put string | Color nat nat | Clear | Cursor int int

datatype cmd_func =
    Cmd_Help | Cmd_Clear | Cmd_Ls | Cmd_Cd | Cmd_Pwd | Cmd_Cat | Cmd_Echo | Cmd_Mkdir | Cmd_Touch | Cmd_Rm
  | Cmd_Ps | Cmd_Kill | Cmd_Reboot | Cmd_Halt | Cmd_Meminfo | Cmd_Mount | Cmd_Umount | Cmd_Df | Cmd_Test

record command =
  cmd_name :: string
  cmd_run :: cmd_func
  cmd_description :: string

record 'd shell =
  current_dir :: string
  commands :: "command list"
  sh_fs :: "'d fs"
  sh_kernel :: kernel
  sh_frames :: frames
  sh_ticks :: u32
  sh_interrupts :: bool
  sh_out :: "screen_op list"

record 'd vfs_rest =
  vfs_unlink :: "string \<Rightarrow> 'd fs \<Rightarrow> int \<times> 'd fs"
  vfs_mount :: "string \<Rightarrow> string \<Rightarrow> 'd fs \<Rightarrow> int \<times> 'd fs"
  vfs_umount :: "string \<Rightarrow> 'd fs \<Rightarrow> int \<times> 'd fs"

abbreviation NL :: string where "NL \<equiv> [CHR ''\<newline>'']"

definition emits :: "screen_op list \<Rightarrow> 'd shell \<Rightarrow> 'd shell" where
  "emits xs s = s\<lparr>sh_out := sh_out s @ xs\<rparr>"

definition say :: "string \<Rightarrow> 'd shell \<Rightarrow> 'd shell" where
  "say t s = emits [Put t] s"

text \<open>\<^verbatim>\<open>screen_print_dec\<close> of a number.\<close>

definition number :: "u32 \<Rightarrow> string" where
  "number w = dec (unat w)"

section \<open>Reading and splitting a line\<close>

definition shell_prompt :: "'d shell \<Rightarrow> 'd shell" where
  "shell_prompt s =
     emits [Color 2 0, Put ''solixos'', Color 15 0, Put '':'', Color 1 0, Put (current_dir s), Color 15 0, Put ''$ ''] s"

definition printable :: "char \<Rightarrow> bool" where
  "printable c \<longleftrightarrow> 32 \<le> (of_char c :: nat) \<and> (of_char c :: nat) < 127"

abbreviation BS :: char where "BS \<equiv> CHR 0x08"

text \<open>The loop of \<^verbatim>\<open>shell_readline\<close>: the line so far, what is typed next. \<open>None\<close> is a shell still waiting.\<close>

fun shell_readline :: "string \<Rightarrow> string \<Rightarrow> 'd shell \<Rightarrow> string option \<times> string \<times> 'd shell" where
  "shell_readline line [] s = (None, [], s)"
| "shell_readline line (c # typed) s =
     (if c = CHR ''\<newline>'' then (Some line, typed, say NL s)
      else if c = BS then
        if line \<noteq> [] then shell_readline (butlast line) typed (say [BS] s) else shell_readline line typed s
      else if printable c \<and> length line < MAX_CMD_LEN - 1 then shell_readline (line @ [c]) typed (say [c] s)
      else shell_readline line typed s)"

definition blank :: "char \<Rightarrow> bool" where
  "blank c \<longleftrightarrow> c = CHR '' '' \<or> c = CHR 0x09"

text \<open>\<^verbatim>\<open>strtok\<close> with the delimiters blank and tabulator: the next token and where the search goes on.\<close>

definition strtok :: "string \<Rightarrow> (string \<times> string) option" where
  "strtok s =
     (case dropWhile blank s of
        [] \<Rightarrow> None
      | t \<Rightarrow> Some (takeWhile (Not \<circ> blank) t, drop 1 (dropWhile (Not \<circ> blank) t)))"

fun parse_loop :: "nat \<Rightarrow> string \<Rightarrow> string list" where
  "parse_loop 0 s = []"
| "parse_loop (Suc n) s = (case strtok s of None \<Rightarrow> [] | Some (t, r) \<Rightarrow> t # parse_loop n r)"

definition shell_parse :: "string \<Rightarrow> string list" where
  "shell_parse line = parse_loop MAX_ARGS line"

definition shell_register_command :: "string \<Rightarrow> cmd_func \<Rightarrow> string \<Rightarrow> 'd shell \<Rightarrow> fault + 'd shell" where
  "shell_register_command n f d s =
     (if length (commands s) < MAX_COMMANDS then
        if length n > 31 \<or> length d > 127 then Inl Out_Of_Bounds
        else Inr (s\<lparr>commands := commands s @ [\<lparr>cmd_name = n, cmd_run = f, cmd_description = d\<rparr>]\<rparr>)
      else Inr s)"

section \<open>Commands without the file system\<close>

definition cmd_help :: "'d shell \<Rightarrow> int \<times> 'd shell" where
  "cmd_help s =
     (0, emits (Put (''Available commands:'' @ NL) #
                concat (map (\<lambda>c. [Put ''  '', Put (cmd_name c), Put '' - '', Put (cmd_description c), Put NL]) (commands s))) s)"

definition cmd_clear :: "'d shell \<Rightarrow> int \<times> 'd shell" where
  "cmd_clear s = (0, emits [Clear] s)"

definition cmd_pwd :: "'d shell \<Rightarrow> int \<times> 'd shell" where
  "cmd_pwd s = (0, emits [Put (current_dir s), Put NL] s)"

fun echo_args :: "string list \<Rightarrow> screen_op list" where
  "echo_args [] = []"
| "echo_args [a] = [Put a]"
| "echo_args (a # b # as) = Put a # Put '' '' # echo_args (b # as)"

definition cmd_echo :: "string list \<Rightarrow> 'd shell \<Rightarrow> int \<times> 'd shell" where
  "cmd_echo argv s = (0, emits (echo_args (drop 1 argv) @ [Put NL]) s)"

definition ps_state :: "u32 \<Rightarrow> string" where
  "ps_state st =
     (if st = PROCESS_RUNNING then ''RUN  '' else if st = PROCESS_READY then ''READY''
      else if st = PROCESS_BLOCKED then ''BLK  '' else ''UNK  '')"

definition cmd_ps :: "'d shell \<Rightarrow> int \<times> 'd shell" where
  "cmd_ps s =
     (let k = sh_kernel s
      in (0, emits (Put (''PID  STATE  PPID  COMMAND'' @ NL) #
             concat (map (\<lambda>i. if state_at k i \<noteq> PROCESS_TERMINATED
                              then [Put (number (pid (pcb_at k i))), Put ''   '', Put (ps_state (state_at k i)), Put ''   '',
                                    Put (number (ppid (pcb_at k i))), Put (''   [kernel]'' @ NL)]
                              else []) [0..<MAX_PROCESSES])) s))"

text \<open>\<^verbatim>\<open>atoi\<close> on an argument, which has no leading blanks; too large numbers wrap around.\<close>

fun atoi_digits :: "u32 \<Rightarrow> string \<Rightarrow> u32" where
  "atoi_digits n [] = n"
| "atoi_digits n (c # cs) =
     (if 48 \<le> (of_char c :: nat) \<and> (of_char c :: nat) \<le> 57
      then atoi_digits (n * 10 + of_nat (of_char c - 48)) cs else n)"

definition atoi :: "string \<Rightarrow> u32" where
  "atoi s =
     (case s of
        c # cs \<Rightarrow> if c = CHR ''-'' then - atoi_digits 0 cs else if c = CHR ''+'' then atoi_digits 0 cs else atoi_digits 0 s
      | [] \<Rightarrow> 0)"

definition cmd_kill :: "string list \<Rightarrow> 'd shell \<Rightarrow> int \<times> 'd shell" where
  "cmd_kill argv s =
     (if length argv \<noteq> 2 then (1, say (''Usage: kill <pid>'' @ NL) s)
      else let p = atoi (argv ! 1); k = sh_kernel s
           in case find (\<lambda>i. pid (pcb_at k i) = p \<and> state_at k i \<noteq> PROCESS_TERMINATED) [0..<MAX_PROCESSES] of
                Some i \<Rightarrow> (0, emits [Put ''Process '', Put (number p), Put ('' terminated'' @ NL)]
                              (s\<lparr>sh_kernel := upd_pcb i (pstate_update (\<lambda>_. PROCESS_TERMINATED)) k\<rparr>))
              | None \<Rightarrow> (1, emits [Put ''Process not found: '', Put (number p), Put NL] s))"

definition cmd_meminfo :: "'d shell \<Rightarrow> int \<times> 'd shell" where
  "cmd_meminfo s =
     (let f = sh_frames s; h = fs_heap (sh_fs s)
      in (0, emits [Put (''Memory Information:'' @ NL), Put ''Total frames: '', Put (number (total_frames f)), Put NL,
                    Put ''Used frames: '', Put (number (used_frames f)), Put NL,
                    Put ''Free frames: '', Put (number (total_frames f - used_frames f)), Put NL,
                    Put ''Kernel heap used: '', Put (number (kernel_heap_current h - kernel_heap_start h)), Put ('' bytes'' @ NL)] s))"

definition cmd_df :: "'d shell \<Rightarrow> int \<times> 'd shell" where
  "cmd_df s =
     (let b = sb (sh_fs s)
      in (0, emits [Put (''Filesystem    Size    Used    Available    Mount point'' @ NL), Put ''SolixFS       '',
                    Put (number (total_blocks b * 4096 div 1024)), Put ''K    '',
                    Put (number ((total_blocks b - free_blocks b) * 4096 div 1024)), Put ''K    '',
                    Put (number (free_blocks b * 4096 div 1024)), Put (''K    /'' @ NL)] s))"

text \<open>\<^verbatim>\<open>timer_wait\<close>: the processor sleeps until the ticks have passed, for ever if interrupts are disabled.\<close>

definition ticks_pass :: "u32 \<Rightarrow> 'd shell \<Rightarrow> 'd shell run" where
  "ticks_pass n s = (if sh_interrupts s \<or> n = 0 then Some (Inr (s\<lparr>sh_ticks := sh_ticks s + n\<rparr>)) else None)"

text \<open>
  The write to address 0 that should make the machine fault has no effect on this state: page 0 is
  mapped by \<^verbatim>\<open>paging_init\<close>. The command returns with interrupts disabled.
\<close>

definition cmd_reboot :: "'d shell \<Rightarrow> (int \<times> 'd shell) run" where
  "cmd_reboot s =
     bind_run (ticks_pass 100 (say (''Rebooting system...'' @ NL) s)) (\<lambda>s1. Some (Inr (0, s1\<lparr>sh_interrupts := False\<rparr>)))"

definition cmd_halt :: "'d shell \<Rightarrow> (int \<times> 'd shell) run" where
  "cmd_halt s = bind_run (ticks_pass 100 (say (''Halting system...'' @ NL) s)) (\<lambda>_. None)"

section \<open>Commands on files\<close>

text \<open>The path an argument stands for, in a buffer of 512 characters.\<close>

definition in_path :: "string \<Rightarrow> fault + string" where
  "in_path p = (if length p < MAX_PATH then Inr p else Inl Out_Of_Bounds)"

definition join_path :: "string \<Rightarrow> string \<Rightarrow> string" where
  "join_path dir n = dir @ (if dir = ''/'' then [] else ''/'') @ n"

definition arg_path :: "string \<Rightarrow> 'd shell \<Rightarrow> fault + string" where
  "arg_path a s = in_path (if a \<noteq> [] \<and> hd a = CHR ''/'' then a else join_path (current_dir s) a)"

text \<open>The loop of \<^verbatim>\<open>cmd_cd\<close> that removes double slashes.\<close>

fun squeeze :: "string \<Rightarrow> string" where
  "squeeze [] = []"
| "squeeze [c] = [c]"
| "squeeze (c # d # cs) =
     (if c = CHR ''/'' \<and> d = CHR ''/'' then squeeze (d # cs) else c # squeeze (d # cs))"

definition cmd_cd :: "'d disk_driver \<Rightarrow> string list \<Rightarrow> 'd shell \<Rightarrow> (int \<times> 'd shell) run" where
  "cmd_cd D argv s =
     (if length argv \<noteq> 2 then Some (Inr (1, say (''Usage: cd <directory>'' @ NL) s))
      else bind_run (Some (arg_path (argv ! 1) s)) (\<lambda>p.
           let new_path = squeeze p
           in bind_run (vfs_stat D new_path (sh_fs s)) (\<lambda>(st, fs1).
              let s1 = s\<lparr>sh_fs := fs1\<rparr>
              in case st of
                   Some f \<Rightarrow> if mode f = FT_DIRECTORY then Some (Inr (0, s1\<lparr>current_dir := new_path\<rparr>))
                             else Some (Inr (1, emits [Put (''cd: '' @ [CHR 0x27]), Put (argv ! 1), Put ([CHR 0x27] @ '': No such directory'' @ NL)] s1))
                 | None \<Rightarrow> Some (Inr (1, emits [Put (''cd: '' @ [CHR 0x27]), Put (argv ! 1), Put ([CHR 0x27] @ '': No such directory'' @ NL)] s1)))))"

text \<open>The name of an entry that was read, a string that has to end within what was read.\<close>

definition entry_name :: "u8 list \<Rightarrow> nat \<Rightarrow> fault + string" where
  "entry_name bs i =
     (let t = drop (SOLIXFS_DIR_ENTRY_SIZE * i + 4) bs
      in if 0 \<in> set t then Inr (map (\<lambda>b. char_of (unat b)) (takeWhile (\<lambda>b. b \<noteq> 0) t)) else Inl Out_Of_Bounds)"

fun ls_entries :: "'d disk_driver \<Rightarrow> string \<Rightarrow> u8 list \<Rightarrow> nat list \<Rightarrow> 'd shell \<Rightarrow> 'd shell run" where
  "ls_entries D path bs [] s = Some (Inr s)"
| "ls_entries D path bs (i # is) s =
     (if entry_inode bs i = 0 then ls_entries D path bs is s
      else bind_run (Some (entry_name bs i)) (\<lambda>n.
           let s1 = say n s
           in bind_run (Some (in_path (join_path path n))) (\<lambda>full.
              bind_run (vfs_stat D full (sh_fs s1)) (\<lambda>(st, fs1).
              let s2 = s1\<lparr>sh_fs := fs1\<rparr>;
                  s3 = (case st of Some f \<Rightarrow> if mode f = FT_DIRECTORY then say ''/'' s2 else s2 | None \<Rightarrow> s2)
              in ls_entries D path bs is (say ''  '' s3)))))"

definition cmd_ls :: "'d disk_driver \<Rightarrow> string list \<Rightarrow> 'd shell \<Rightarrow> (int \<times> 'd shell) run" where
  "cmd_ls D argv s =
     bind_run (Some (if length argv = 1 then in_path (current_dir s) else arg_path (argv ! 1) s)) (\<lambda>path.
     bind_run (vfs_readdir D path 64 (sh_fs s)) (\<lambda>((count, bs), fs1).
       let s1 = s\<lparr>sh_fs := fs1\<rparr>
       in if count < 0
          then Some (Inr (1, emits [Put (''ls: cannot access '' @ [CHR 0x27]), Put path, Put ([CHR 0x27] @ '': No such file or directory'' @ NL)] s1))
          else bind_run (ls_entries D path bs [0..<nat count] s1) (\<lambda>s2. Some (Inr (0, say NL s2)))))"

definition cmd_cat :: "'d disk_driver \<Rightarrow> string list \<Rightarrow> 'd shell \<Rightarrow> (int \<times> 'd shell) run" where
  "cmd_cat D argv s =
     (if length argv \<noteq> 2 then Some (Inr (1, say (''Usage: cat <file>'' @ NL) s))
      else bind_run (Some (arg_path (argv ! 1) s)) (\<lambda>path.
           bind_run (vfs_open D path O_RDONLY (sh_fs s)) (\<lambda>(fd, fs1).
             let s1 = s\<lparr>sh_fs := fs1\<rparr>
             in if fd < 0 then Some (Inr (1, emits [Put (''cat: '' @ [CHR 0x27]), Put (argv ! 1), Put ([CHR 0x27] @ '': No such file'' @ NL)] s1))
                else bind_run (Some (vfs_read D fd 1023 fs1)) (\<lambda>((n, bs), fs2).
                  let s2 = s1\<lparr>sh_fs := snd (vfs_close fd fs2)\<rparr>;
                      s3 = (if n > 0 then say (map (\<lambda>b. char_of (unat b)) (takeWhile (\<lambda>b. b \<noteq> 0) bs)) s2 else s2)
                  in Some (Inr (0, say NL s3))))))"

definition cmd_mkdir :: "'d disk_driver \<Rightarrow> u32 \<times> u32 \<times> u32 \<Rightarrow> u8 list \<Rightarrow> string list \<Rightarrow> 'd shell \<Rightarrow> (int \<times> 'd shell) run" where
  "cmd_mkdir D ts stack argv s =
     (if length argv \<noteq> 2 then Some (Inr (1, say (''Usage: mkdir <directory>'' @ NL) s))
      else bind_run (Some (arg_path (argv ! 1) s)) (\<lambda>path.
           bind_run (vfs_mkdir D ts stack path (sh_fs s)) (\<lambda>(r, fs1).
             let s1 = s\<lparr>sh_fs := fs1\<rparr>
             in if r \<noteq> 0 then Some (Inr (1, emits [Put (''mkdir: cannot create directory '' @ [CHR 0x27]), Put (argv ! 1), Put ([CHR 0x27] @ NL)] s1))
                else Some (Inr (0, s1)))))"

abbreviation O_CREAT :: u32 where "O_CREAT \<equiv> 0x40"

definition cmd_touch :: "'d disk_driver \<Rightarrow> string list \<Rightarrow> 'd shell \<Rightarrow> (int \<times> 'd shell) run" where
  "cmd_touch D argv s =
     (if length argv \<noteq> 2 then Some (Inr (1, say (''Usage: touch <file>'' @ NL) s))
      else bind_run (Some (arg_path (argv ! 1) s)) (\<lambda>path.
           bind_run (vfs_open D path (O_CREAT OR O_WRONLY) (sh_fs s)) (\<lambda>(fd, fs1).
             let s1 = s\<lparr>sh_fs := fs1\<rparr>
             in if fd < 0 then Some (Inr (1, emits [Put (''touch: cannot create file '' @ [CHR 0x27]), Put (argv ! 1), Put ([CHR 0x27] @ NL)] s1))
                else Some (Inr (0, s1\<lparr>sh_fs := snd (vfs_close fd fs1)\<rparr>)))))"

definition cmd_rm :: "'d vfs_rest \<Rightarrow> string list \<Rightarrow> 'd shell \<Rightarrow> (int \<times> 'd shell) run" where
  "cmd_rm X argv s =
     (if length argv \<noteq> 2 then Some (Inr (1, say (''Usage: rm <file>'' @ NL) s))
      else bind_run (Some (arg_path (argv ! 1) s)) (\<lambda>path.
           case vfs_unlink X path (sh_fs s) of (r, fs1) \<Rightarrow>
             let s1 = s\<lparr>sh_fs := fs1\<rparr>
             in if r \<noteq> 0 then Some (Inr (1, emits [Put (''rm: cannot remove '' @ [CHR 0x27]), Put (argv ! 1), Put ([CHR 0x27] @ NL)] s1))
                else Some (Inr (0, s1))))"

definition cmd_mount :: "'d vfs_rest \<Rightarrow> string list \<Rightarrow> 'd shell \<Rightarrow> int \<times> 'd shell" where
  "cmd_mount X argv s =
     (if length argv \<noteq> 3 then (1, say (''Usage: mount <device> <mountpoint>'' @ NL) s)
      else case vfs_mount X (argv ! 1) (argv ! 2) (sh_fs s) of (r, fs1) \<Rightarrow>
        let s1 = s\<lparr>sh_fs := fs1\<rparr>
        in if r = 0 then (0, emits [Put ''Mounted '', Put (argv ! 1), Put '' at '', Put (argv ! 2), Put NL] s1)
           else (1, say (''Mount failed'' @ NL) s1))"

definition cmd_umount :: "'d vfs_rest \<Rightarrow> string list \<Rightarrow> 'd shell \<Rightarrow> int \<times> 'd shell" where
  "cmd_umount X argv s =
     (if length argv \<noteq> 2 then (1, say (''Usage: umount <mountpoint>'' @ NL) s)
      else case vfs_umount X (argv ! 1) (sh_fs s) of (r, fs1) \<Rightarrow>
        let s1 = s\<lparr>sh_fs := fs1\<rparr>
        in if r = 0 then (0, emits [Put ''Unmounted '', Put (argv ! 1), Put NL] s1)
           else (1, say (''Unmount failed'' @ NL) s1))"

section \<open>The test command\<close>

definition test_memory :: "'d shell \<Rightarrow> 'd shell run" where
  "test_memory s =
     bind_run (kmalloc 1024 (fs_heap (sh_fs s))) (\<lambda>(p1, h1).
     bind_run (kmalloc 2048 h1) (\<lambda>(p2, h2).
     bind_run (kmalloc 4096 h2) (\<lambda>(p3, h3).
       let s1 = say (if p1 \<noteq> 0 \<and> p2 \<noteq> 0 \<and> p3 \<noteq> 0 then ''[+] Memory allocation test passed'' @ NL
                     else ''[-] Memory allocation test failed'' @ NL) s
       in bind_run (Some (bind_res (kfree p1 h3) (\<lambda>h4. bind_res (kfree p2 h4) (kfree p3)))) (\<lambda>h6.
            Some (Inr (s1\<lparr>sh_fs := (sh_fs s1)\<lparr>fs_heap := h6\<rparr>\<rparr>))))))"

definition test_data :: string where
  "test_data = ''Hello, SolixOS!''"

text \<open>The second half of the file test; \<^verbatim>\<open>buffer[bytes]\<close> is out of range when the read fails.\<close>

definition test_readback :: "'d disk_driver \<Rightarrow> 'd vfs_rest \<Rightarrow> 'd shell \<Rightarrow> 'd shell run" where
  "test_readback D X s =
     bind_run (vfs_open D ''/test_file'' O_RDONLY (sh_fs s)) (\<lambda>(fd, fs1).
       if fd < 0 then Some (Inr (s\<lparr>sh_fs := fs1\<rparr>))
       else bind_run (Some (vfs_read D fd 31 fs1)) (\<lambda>((n, bs), fs2).
         if n < 0 then Some (Inl Out_Of_Bounds)
         else let fs3 = snd (vfs_close fd fs2);
                  ok = (takeWhile (\<lambda>b. b \<noteq> 0) bs = name_bytes test_data);
                  s1 = say (if ok then ''[+] Filesystem test passed'' @ NL else ''[-] Filesystem test failed'' @ NL) s
              in Some (Inr (s1\<lparr>sh_fs := snd (vfs_unlink X ''/test_file'' fs3)\<rparr>))))"

definition test_files :: "'d disk_driver \<Rightarrow> 'd vfs_rest \<Rightarrow> 'd shell \<Rightarrow> 'd shell run" where
  "test_files D X s =
     bind_run (vfs_open D ''/test_file'' (O_CREAT OR O_WRONLY) (sh_fs s)) (\<lambda>(fd, fs1).
       if fd < 0 then Some (Inr (s\<lparr>sh_fs := fs1\<rparr>))
       else bind_run (Some (vfs_write D fd (name_bytes test_data) fs1)) (\<lambda>(_, fs2).
              test_readback D X (s\<lparr>sh_fs := snd (vfs_close fd fs2)\<rparr>)))"

definition cmd_test :: "'d disk_driver \<Rightarrow> 'd vfs_rest \<Rightarrow> 'd shell \<Rightarrow> (int \<times> 'd shell) run" where
  "cmd_test D X s =
     bind_run (test_memory (say (''Running system tests...'' @ NL) s)) (\<lambda>s1.
     bind_run (test_files D X s1) (\<lambda>s2.
     bind_run (ticks_pass 10 s2) (\<lambda>s3.
       let s4 = say (if sh_ticks s3 - sh_ticks s2 \<ge> 10 then ''[+] Timer test passed'' @ NL else ''[-] Timer test failed'' @ NL) s3
       in Some (Inr (0, say (''System tests completed'' @ NL) s4)))))"

section \<open>The session\<close>

text \<open>
  What the commands depend on besides the state: the disk driver, the missing operations of the
  file system, and, for \<^verbatim>\<open>mkdir\<close>, the ticks and the bytes on the stack.
\<close>

record 'd shell_env =
  env_disk :: "'d disk_driver"
  env_vfs :: "'d vfs_rest"
  env_ticks :: "u32 \<times> u32 \<times> u32"
  env_stack :: "u8 list"

definition run_command :: "'d shell_env \<Rightarrow> cmd_func \<Rightarrow> string list \<Rightarrow> 'd shell \<Rightarrow> (int \<times> 'd shell) run" where
  "run_command E f argv s =
     (case f of
        Cmd_Help \<Rightarrow> Some (Inr (cmd_help s))
      | Cmd_Clear \<Rightarrow> Some (Inr (cmd_clear s))
      | Cmd_Ls \<Rightarrow> cmd_ls (env_disk E) argv s
      | Cmd_Cd \<Rightarrow> cmd_cd (env_disk E) argv s
      | Cmd_Pwd \<Rightarrow> Some (Inr (cmd_pwd s))
      | Cmd_Cat \<Rightarrow> cmd_cat (env_disk E) argv s
      | Cmd_Echo \<Rightarrow> Some (Inr (cmd_echo argv s))
      | Cmd_Mkdir \<Rightarrow> cmd_mkdir (env_disk E) (env_ticks E) (env_stack E) argv s
      | Cmd_Touch \<Rightarrow> cmd_touch (env_disk E) argv s
      | Cmd_Rm \<Rightarrow> cmd_rm (env_vfs E) argv s
      | Cmd_Ps \<Rightarrow> Some (Inr (cmd_ps s))
      | Cmd_Kill \<Rightarrow> Some (Inr (cmd_kill argv s))
      | Cmd_Reboot \<Rightarrow> cmd_reboot s
      | Cmd_Halt \<Rightarrow> cmd_halt s
      | Cmd_Meminfo \<Rightarrow> Some (Inr (cmd_meminfo s))
      | Cmd_Mount \<Rightarrow> Some (Inr (cmd_mount (env_vfs E) argv s))
      | Cmd_Umount \<Rightarrow> Some (Inr (cmd_umount (env_vfs E) argv s))
      | Cmd_Df \<Rightarrow> Some (Inr (cmd_df s))
      | Cmd_Test \<Rightarrow> cmd_test (env_disk E) (env_vfs E) s)"

definition shell_execute :: "'d shell_env \<Rightarrow> string list \<Rightarrow> 'd shell \<Rightarrow> 'd shell run" where
  "shell_execute E argv s =
     (case find (\<lambda>c. cmd_name c = argv ! 0) (commands s) of
        Some c \<Rightarrow> bind_run (run_command E (cmd_run c) argv s) (\<lambda>(_, s1). Some (Inr s1))
      | None \<Rightarrow> Some (Inr (emits [Put ''Command not found: '', Put (argv ! 0), Put NL] s)))"

definition builtins :: "(string \<times> cmd_func \<times> string) list" where
  "builtins =
     [(''help'', Cmd_Help, ''Show this help message''), (''clear'', Cmd_Clear, ''Clear the screen''),
      (''ls'', Cmd_Ls, ''List directory contents''), (''cd'', Cmd_Cd, ''Change directory''),
      (''pwd'', Cmd_Pwd, ''Print working directory''), (''cat'', Cmd_Cat, ''Display file contents''),
      (''echo'', Cmd_Echo, ''Echo arguments''), (''mkdir'', Cmd_Mkdir, ''Create directory''),
      (''touch'', Cmd_Touch, ''Create empty file''), (''rm'', Cmd_Rm, ''Remove file or directory''),
      (''ps'', Cmd_Ps, ''List processes''), (''kill'', Cmd_Kill, ''Terminate process''),
      (''reboot'', Cmd_Reboot, ''Reboot system''), (''halt'', Cmd_Halt, ''Halt system''),
      (''meminfo'', Cmd_Meminfo, ''Show memory information''), (''mount'', Cmd_Mount, ''Mount filesystem''),
      (''umount'', Cmd_Umount, ''Unmount filesystem''), (''df'', Cmd_Df, ''Show disk usage''),
      (''test'', Cmd_Test, ''Run system tests'')]"

fun register_all :: "(string \<times> cmd_func \<times> string) list \<Rightarrow> 'd shell \<Rightarrow> fault + 'd shell" where
  "register_all [] s = Inr s"
| "register_all ((n, f, d) # cs) s = bind_res (shell_register_command n f d s) (register_all cs)"

lemma readline_shorter: "shell_readline line typed s = (Some l, rest, s1) \<Longrightarrow> length rest < length typed"
  by (induction line typed s rule: shell_readline.induct) (auto split: if_splits)

text \<open>The main loop, until the typed characters are used up.\<close>

function shell_loop :: "'d shell_env \<Rightarrow> string \<Rightarrow> 'd shell \<Rightarrow> 'd shell run" where
  "shell_loop E typed s =
     (case shell_readline [] typed (shell_prompt s) of
        (None, _, s1) \<Rightarrow> Some (Inr s1)
      | (Some line, rest, s1) \<Rightarrow>
          if line = [] then shell_loop E rest s1
          else let argv = shell_parse line
               in if argv = [] then shell_loop E rest s1
                  else bind_run (shell_execute E argv s1) (shell_loop E rest))"
  by auto
termination
  by (relation "measure (\<lambda>(E, typed, s). length typed)") (auto dest: readline_shorter [OF sym])

declare shell_loop.simps [simp del]

definition shell_start :: "'d shell_env \<Rightarrow> string \<Rightarrow> 'd shell \<Rightarrow> 'd shell run" where
  "shell_start E typed s =
     bind_run (Some (register_all builtins
       (emits [Put (''SolixOS Shell v1.0'' @ NL), Put (''Type '' @ [CHR 0x27] @ ''help'' @ [CHR 0x27] @ '' for available commands'' @ NL @ NL)] s)))
     (shell_loop E typed)"

section \<open>The line that is read\<close>

text \<open>What one key does to a line that is being typed.\<close>

definition edit_key :: "string \<Rightarrow> char \<Rightarrow> string" where
  "edit_key l c = (if c = BS then butlast l else if printable c \<and> length l < MAX_CMD_LEN - 1 then l @ [c] else l)"



lemma emits_emits [simp]: "emits ys (emits xs s) = emits (xs @ ys) s" "emits [] s = s"
  by (simp_all add: emits_def)

lemma emits_sel [simp]:
  "current_dir (emits xs s) = current_dir s" "commands (emits xs s) = commands s" "sh_fs (emits xs s) = sh_fs s"
  "sh_kernel (emits xs s) = sh_kernel s" "sh_out (emits xs s) = sh_out s @ xs"
  by (simp_all add: emits_def)

lemma printable_not_BS: "printable c \<Longrightarrow> c \<noteq> BS"
  by (auto simp: printable_def)

text \<open>What the shell echoes for the keys of a line.\<close>

fun echo_keys :: "string \<Rightarrow> string \<Rightarrow> screen_op list" where
  "echo_keys l [] = []"
| "echo_keys l (c # cs) =
     (if c = BS then (if l = [] then [] else [Put [BS]])
      else if printable c \<and> length l < MAX_CMD_LEN - 1 then [Put [c]] else []) @ echo_keys (edit_key l c) cs"

lemma readline_keys:
  "CHR ''\<newline>'' \<notin> set t \<Longrightarrow>
   shell_readline l (t @ CHR ''\<newline>'' # rest) s = (Some (foldl edit_key l t), rest, emits (echo_keys l t @ [Put NL]) s)"
  by (induction t arbitrary: l s) (auto simp: edit_key_def say_def)



definition line_ok :: "string \<Rightarrow> bool" where
  "line_ok l \<longleftrightarrow> length l < MAX_CMD_LEN \<and> (\<forall>c\<in>set l. printable c)"





section \<open>Splitting is the inverse of joining\<close>

definition word_ok :: "string \<Rightarrow> bool" where
  "word_ok w \<longleftrightarrow> w \<noteq> [] \<and> (\<forall>c\<in>set w. printable c \<and> \<not> blank c)"

fun join_words :: "string list \<Rightarrow> string" where
  "join_words [] = []"
| "join_words [w] = w"
| "join_words (w # v # ws) = w @ CHR '' '' # join_words (v # ws)"

lemma strtok_word:
  assumes "w \<noteq> []" "\<forall>c\<in>set w. \<not> blank c" "r = [] \<or> blank (hd r)"
  shows "strtok (w @ r) = Some (w, drop 1 r)"
proof -
  have d: "dropWhile blank (w @ r) = w @ r" using assms(1,2) by (cases w) auto
  have t: "takeWhile (Not \<circ> blank) (w @ r) = w" using assms(2,3) by (subst takeWhile_append2) (auto, cases r, auto)
  have e: "dropWhile (Not \<circ> blank) (w @ r) = r" using assms(2,3) by (subst dropWhile_append2) (auto, cases r, auto)
  obtain c cs where x: "w @ r = c # cs" using assms(1) by (cases "w @ r") auto
  show ?thesis using d t e unfolding strtok_def x by simp
qed

lemma parse_join:
  "\<forall>w\<in>set ws. word_ok w \<Longrightarrow> parse_loop n (join_words ws) = take n ws"
proof (induction ws arbitrary: n rule: join_words.induct)
  case 1
  thus ?case by (cases n) (auto simp: strtok_def)
next
  case (2 w)
  thus ?case using strtok_word [of w "[]"]
    by (cases n; cases "n - 1") (auto simp: word_ok_def strtok_def [of "[]"])
next
  case (3 w v ws)
  have "strtok (w @ CHR '' '' # join_words (v # ws)) = Some (w, join_words (v # ws))"
    using 3 strtok_word [of w "CHR '' '' # join_words (v # ws)"] by (auto simp: word_ok_def blank_def)
  thus ?case using 3 by (cases n) auto
qed

section \<open>A session\<close>

definition to_command :: "string \<times> cmd_func \<times> string \<Rightarrow> command" where
  "to_command x = \<lparr>cmd_name = fst x, cmd_run = fst (snd x), cmd_description = snd (snd x)\<rparr>"

lemma register_all_appends:
  "length (commands s) + length cs \<le> MAX_COMMANDS \<Longrightarrow> \<forall>(n, f, d)\<in>set cs. length n \<le> 31 \<and> length d \<le> 127 \<Longrightarrow>
   register_all cs s = Inr (s\<lparr>commands := commands s @ map to_command cs\<rparr>)"
  by (induction cs arbitrary: s) (auto simp: shell_register_command_def to_command_def)

lemma builtins_registered:
  "commands s = [] \<Longrightarrow> register_all builtins s = Inr (s\<lparr>commands := map to_command builtins\<rparr>)"
  using register_all_appends [of s builtins] by (simp add: builtins_def)


lemma builtin_echo:
  "find (\<lambda>c. cmd_name c = ''echo'') (map to_command builtins) = Some \<lparr>cmd_name = ''echo'', cmd_run = Cmd_Echo, cmd_description = ''Echo arguments''\<rparr>"
  by (simp add: builtins_def to_command_def)

lemma edit_plain:
  "line_ok (l @ t) \<Longrightarrow> foldl edit_key l t = l @ t \<and> echo_keys l t = map (\<lambda>c. Put [c]) t"
proof (induction t arbitrary: l)
  case (Cons c t)
  have c: "printable c" "c \<noteq> BS" "length l < 255" using Cons.prems by (auto simp: line_ok_def printable_not_BS)
  have "line_ok ((l @ [c]) @ t)" using Cons.prems by simp
  from Cons.IH [OF this] show ?case using c by (simp add: edit_key_def)
qed simp

lemma line_ok_no_newline: "line_ok l \<Longrightarrow> CHR ''\<newline>'' \<notin> set l"
  by (auto simp: line_ok_def printable_def)

lemma printable_space: "printable CHR '' ''"
  by (simp add: printable_def)

lemma join_printable: "\<forall>w\<in>set ws. word_ok w \<Longrightarrow> \<forall>c\<in>set (join_words ws). printable c"
  by (induction ws rule: join_words.induct) (auto simp: word_ok_def printable_space)

lemma shell_loop_words:
  assumes ws: "\<forall>w\<in>set (w # ws). word_ok w" and n: "length ws < MAX_ARGS" and len: "length (join_words (w # ws)) < MAX_CMD_LEN"
  shows "shell_loop E (join_words (w # ws) @ CHR ''\<newline>'' # rest) s =
    bind_run (shell_execute E (w # ws) (emits (map (\<lambda>c. Put [c]) (join_words (w # ws)) @ [Put NL]) (shell_prompt s))) (shell_loop E rest)"
proof -
  let ?l = "join_words (w # ws)"
  have ok: "line_ok ?l" using join_printable [OF ws] len by (simp add: line_ok_def)
  have e: "foldl edit_key [] ?l = ?l" "echo_keys [] ?l = map (\<lambda>c. Put [c]) ?l" using edit_plain [of "[]" ?l] ok by simp_all
  have r: "shell_readline [] (?l @ CHR ''\<newline>'' # rest) (shell_prompt s) = (Some ?l, rest, emits (map (\<lambda>c. Put [c]) ?l @ [Put NL]) (shell_prompt s))"
    using readline_keys [OF line_ok_no_newline [OF ok], of "[]" rest "shell_prompt s"] unfolding e .
  have p: "shell_parse ?l = w # ws" using parse_join [OF ws, of MAX_ARGS] n by (simp add: shell_parse_def)
  have "?l \<noteq> []" using ws by (cases ws) (auto simp: word_ok_def)
  thus ?thesis by (subst shell_loop.simps) (simp add: r p Let_def)
qed

fun put_text :: "screen_op list \<Rightarrow> string" where
  "put_text [] = []"
| "put_text (Put t # ops) = t @ put_text ops"
| "put_text (_ # ops) = put_text ops"

lemma echo_args_text: "put_text (echo_args ws) = join_words ws"
  by (induction ws rule: echo_args.induct) auto

lemma echo_word: "word_ok ''echo''"
  by (simp add: word_ok_def printable_def blank_def)

text \<open>
  A first command (shell/shell.c, from shell\_start over shell\_readline, shell\_parse and
  shell\_execute to cmd\_echo). When the shell starts and \<^verbatim>\<open>echo\<close> is typed with up to fifteen words of
  printable characters, separated by blanks and short enough for the line, the last thing printed
  before the next prompt is exactly the words, with blanks between them, and a newline; the shell
  then reads on from what follows, and the file system is as before.
\<close>

theorem echo_session:
  assumes "commands s = []" and "\<forall>w\<in>set ws. word_ok w" and "length ws < MAX_ARGS" and "length (join_words (''echo'' # ws)) < MAX_CMD_LEN"
  shows "\<exists>t before ops. shell_start E (join_words (''echo'' # ws) @ CHR ''\<newline>'' # rest) s = shell_loop E rest t \<and>
    sh_out t = before @ ops @ [Put NL] \<and> put_text ops = join_words ws \<and> sh_fs t = sh_fs s \<and> current_dir t = current_dir s"
proof -
  define g where "g = [Put (''SolixOS Shell v1.0'' @ NL), Put (''Type '' @ [CHR 0x27] @ ''help'' @ [CHR 0x27] @ '' for available commands'' @ NL @ NL)]"
  define s1 where "s1 = (emits g s)\<lparr>commands := map to_command builtins\<rparr>"
  define s2 where "s2 = emits (map (\<lambda>c. Put [c]) (join_words (''echo'' # ws)) @ [Put NL]) (shell_prompt s1)"
  have "register_all builtins (emits g s) = Inr s1" using builtins_registered [of "emits g s"] assms(1) by (simp add: s1_def)
  hence "shell_start E (join_words (''echo'' # ws) @ CHR ''\<newline>'' # rest) s = shell_loop E (join_words (''echo'' # ws) @ CHR ''\<newline>'' # rest) s1"
    unfolding shell_start_def g_def [symmetric] by simp
  also have "\<dots> = bind_run (shell_execute E (''echo'' # ws) s2) (shell_loop E rest)"
    unfolding s2_def using assms(2-4) echo_word by (intro shell_loop_words) auto
  also have "shell_execute E (''echo'' # ws) s2 = Some (Inr (emits (echo_args ws @ [Put NL]) s2))"
    using builtin_echo by (simp add: shell_execute_def s2_def s1_def shell_prompt_def run_command_def cmd_echo_def)
  finally have run: "shell_start E (join_words (''echo'' # ws) @ CHR ''\<newline>'' # rest) s = shell_loop E rest (emits (echo_args ws @ [Put NL]) s2)"
    by simp
  have "sh_fs s2 = sh_fs s" "current_dir s2 = current_dir s" by (simp_all add: s2_def shell_prompt_def s1_def)
  thus ?thesis using run echo_args_text [of ws]
    by (intro exI [of _ "emits (echo_args ws @ [Put NL]) s2"] exI [of _ "sh_out s2"] exI [of _ "echo_args ws"]) simp
qed

theorem echo_session_witness:
  "\<forall>E s. \<exists>t before ops. shell_start E (''echo hi you'' @ NL) (s\<lparr>commands := []\<rparr>) = shell_loop E [] t \<and>
    sh_out t = before @ ops @ [Put NL] \<and> put_text ops = ''hi you''"
proof (intro allI)
  fix E :: "'a shell_env" and s :: "'a shell"
  have "commands (s\<lparr>commands := []\<rparr>) = []" by simp
  from echo_session [OF this, of "[''hi'', ''you'']" E "[]"]
  show "\<exists>t before ops. shell_start E (''echo hi you'' @ NL) (s\<lparr>commands := []\<rparr>) = shell_loop E [] t \<and>
      sh_out t = before @ ops @ [Put NL] \<and> put_text ops = ''hi you''"
    by (auto simp: word_ok_def printable_def blank_def)
qed

section \<open>Killing a process\<close>

definition digit :: "char \<Rightarrow> bool" where
  "digit c \<longleftrightarrow> 48 \<le> (of_char c :: nat) \<and> (of_char c :: nat) \<le> 57"

lemma of_char_digit: "d < 10 \<Longrightarrow> of_char (char_of (48 + d) :: char) = (48 + d :: nat)"
  by (simp add: of_char_of)

lemma dec_digits: "\<forall>c\<in>set (dec n). digit c"
  by (induction n rule: dec.induct) (subst dec.simps, auto simp: digit_def of_char_digit)

lemma dec_nonempty: "dec n \<noteq> []"
  by (subst dec.simps) simp

lemma atoi_digits_append: "\<forall>c\<in>set xs. digit c \<Longrightarrow> atoi_digits a (xs @ ys) = atoi_digits (atoi_digits a xs) ys"
  by (induction xs arbitrary: a) (auto simp: digit_def)

lemma atoi_digits_dec: "atoi_digits 0 (dec n) = of_nat n"
proof (induction n rule: less_induct)
  case (less n)
  have d: "atoi_digits a [char_of (48 + k)] = a * 10 + of_nat k" if "k < 10" for a k
    using that by (simp add: of_char_digit)
  show ?case
  proof (cases "n < 10")
    case True
    thus ?thesis using d [of n 0] by (simp add: dec.simps [of n] del: atoi_digits.simps)
  next
    case False
    have "atoi_digits 0 (dec n) = of_nat (n div 10) * 10 + of_nat (n mod 10)"
      using False less.IH [of "n div 10"] d [of "n mod 10"]
      by (simp add: dec.simps [of n] atoi_digits_append dec_digits del: atoi_digits.simps)
    also have "\<dots> = of_nat (n div 10 * 10 + n mod 10)" by (simp only: of_nat_add of_nat_mult of_nat_numeral)
    also have "n div 10 * 10 + n mod 10 = n" by simp
    finally show ?thesis .
  qed
qed

lemma atoi_number: "atoi (number w) = w"
proof -
  obtain c cs where c: "dec (unat w) = c # cs" using dec_nonempty by (cases "dec (unat w)") auto
  have "digit c" using dec_digits [of "unat w"] c by simp
  hence "c \<noteq> CHR ''-''" "c \<noteq> CHR ''+''" by (auto simp: digit_def)
  thus ?thesis using atoi_digits_dec [of "unat w"] c by (simp add: atoi_def number_def)
qed

text \<open>
  The command \<^verbatim>\<open>kill\<close> (shell/shell.c, cmd\_kill). Given the number of a live process as \<^verbatim>\<open>ps\<close> prints it,
  it marks the first such process terminated and changes no other process. But the bit of its slot
  stays set, and if it was the current process it stays the current one: the next
  \<^verbatim>\<open>process_create\<close> is never given the slot, as it could be after \<^verbatim>\<open>process_exit\<close>.
\<close>

theorem kill_keeps_slot:
  assumes "k = sh_kernel s" and "length (process_table k) = MAX_PROCESSES" and "i < MAX_PROCESSES"
    and "pid (pcb_at k i) = p" and "state_at k i \<noteq> PROCESS_TERMINATED"
    and "\<forall>j<i. \<not> (pid (pcb_at k j) = p \<and> state_at k j \<noteq> PROCESS_TERMINATED)" and "bm_test (process_bitmap k) i"
  shows "\<exists>t. cmd_kill [c, number p] s = (0, t) \<and> state_at (sh_kernel t) i = PROCESS_TERMINATED \<and>
    (\<forall>j. j \<noteq> i \<longrightarrow> process_table (sh_kernel t) ! j = process_table k ! j) \<and> current_process (sh_kernel t) = current_process k \<and>
    slots_used (sh_kernel t) = slots_used k \<and> (\<forall>j u. pid_alloc (sh_kernel t) = Some (j, u) \<longrightarrow> j \<noteq> i)"
proof -
  have f: "find (\<lambda>i. pid (pcb_at k i) = p \<and> state_at k i \<noteq> PROCESS_TERMINATED) [0..<MAX_PROCESSES] = Some i"
    using assms unfolding find_upt_Some by simp
  let ?k = "upd_pcb i (pstate_update (\<lambda>_. PROCESS_TERMINATED)) k"
  have "cmd_kill [c, number p] s = (0, emits [Put ''Process '', Put (number p), Put ('' terminated'' @ NL)] (s\<lparr>sh_kernel := ?k\<rparr>))"
    using f assms(1) by (simp add: cmd_kill_def atoi_number)
  moreover have "process_bitmap ?k = process_bitmap k" "current_process ?k = current_process k" by (simp_all add: upd_pcb_def)
  ultimately show ?thesis using assms by (auto simp: upd_pcb_def slots_used_def pid_alloc_Some)
qed

theorem kill_keeps_slot_witness:
  "\<exists>h k. process_init (blank_kernel h) = Some (Inr k) \<and>
     (\<forall>s. \<exists>t. cmd_kill [''kill'', number 1] (s\<lparr>sh_kernel := k\<rparr>) = (0, t) \<and> state_at (sh_kernel t) 0 = PROCESS_TERMINATED \<and>
        current_process (sh_kernel t) = Some 0 \<and> 0 \<in> slots_used (sh_kernel t))"
proof -
  obtain h k bs where h: "process_init (blank_kernel h) = Some (Inr k)" "proc_reach k" by (rule kernel_booted)
  note i = process_init_state [OF blank_kernel_sel(1) h(1)]
  have t: "length (process_table k) = MAX_PROCESSES" using i(1) by (simp add: table_ok_def)
  have u: "0 \<in> slots_used k" using i(6) [of 0] slots_used_iff [of 0 k] by simp
  have z: "bm_test (process_bitmap k) 0" "state_at k 0 \<noteq> PROCESS_TERMINATED" "pid (pcb_at k 0) = 1"
    using i(4) i(5) [of 0] i(6) [of 0] by simp_all
  have "\<exists>t. cmd_kill [''kill'', number 1] (s\<lparr>sh_kernel := k\<rparr>) = (0, t) \<and> state_at (sh_kernel t) 0 = PROCESS_TERMINATED \<and>
      current_process (sh_kernel t) = Some 0 \<and> 0 \<in> slots_used (sh_kernel t)" for s :: "'a shell"
    using kill_keeps_slot [where k = k and s = "s\<lparr>sh_kernel := k\<rparr>" and i = 0 and p = 1 and c = "''kill''"] t z u i(2) by auto
  with h(1) show ?thesis by blast
qed

section \<open>The working directory\<close>

fun no_double :: "string \<Rightarrow> bool" where
  "no_double (c # d # cs) \<longleftrightarrow> \<not> (c = CHR ''/'' \<and> d = CHR ''/'') \<and> no_double (d # cs)"
| "no_double _ \<longleftrightarrow> True"

definition shell_ok :: "'d shell \<Rightarrow> bool" where
  "shell_ok s \<longleftrightarrow> current_dir s \<noteq> [] \<and> hd (current_dir s) = CHR ''/'' \<and> no_double (current_dir s) \<and> length (current_dir s) < MAX_PATH \<and>
     commands s = map to_command builtins"

lemma squeeze_ne [simp]: "squeeze p = [] \<longleftrightarrow> p = []"
  by (induction p rule: squeeze.induct) auto




lemma shell_ok_dir: "shell_ok s \<Longrightarrow> current_dir t = current_dir s \<Longrightarrow> commands t = commands s \<Longrightarrow> shell_ok t"
  by (simp add: shell_ok_def)

lemma say_sel [simp]: "current_dir (say x s) = current_dir s" "commands (say x s) = commands s"
  by (simp_all add: say_def)



text \<open>What the other commands leave alone.\<close>

definition same_shell :: "'d shell \<Rightarrow> 'd shell \<Rightarrow> bool" where
  "same_shell s t \<longleftrightarrow> current_dir t = current_dir s \<and> commands t = commands s"

lemma same_shell_intros [simp, intro]:
  "same_shell s s" "same_shell s (emits xs t) = same_shell s t" "same_shell s (say x t) = same_shell s t"
  "same_shell s (t\<lparr>sh_fs := f\<rparr>) = same_shell s t" "same_shell s (t\<lparr>sh_kernel := k\<rparr>) = same_shell s t"
  "same_shell s (t\<lparr>sh_ticks := n\<rparr>) = same_shell s t" "same_shell s (t\<lparr>sh_interrupts := b\<rparr>) = same_shell s t"
  "same_shell (emits xs s) t = same_shell s t" "same_shell (say x s) t = same_shell s t" "same_shell (s\<lparr>sh_fs := f\<rparr>) t = same_shell s t"
  by (simp_all add: same_shell_def)





















end
