(* ===== verification/Solix_Html.thy ===== *)
theory Solix_Html
  imports Solix_Printk
begin

text \<open>
  The text processing of the browser, after \<^verbatim>\<open>apps/browser/lynx.c\<close>: splitting a URL, removing tags
  and scripts from a page, and collecting its links. Strings are the characters before the
  terminator. The formatter is proved equal to three passes in a row, each simple by itself, and
  the links to be those of every page that is cut at its \<^verbatim>\<open>href\<close> attributes.
\<close>

declare of_nat_add [simp del]

section \<open>Strings\<close>

text \<open>\<^verbatim>\<open>strncmp(s, p, strlen(p)) == 0\<close>, \<^verbatim>\<open>strchr\<close> and \<^verbatim>\<open>strstr\<close>; the latter two return the rest of the string from the match on.\<close>

definition starts :: "string \<Rightarrow> string \<Rightarrow> bool" where
  "starts p s \<longleftrightarrow> take (length p) s = p"

definition strchr :: "char \<Rightarrow> string \<Rightarrow> string option" where
  "strchr c s = (case dropWhile (\<lambda>d. d \<noteq> c) s of [] \<Rightarrow> None | t \<Rightarrow> Some t)"

fun strstr :: "string \<Rightarrow> string \<Rightarrow> string option" where
  "strstr p [] = (if p = [] then Some [] else None)"
| "strstr p (c # cs) = (if starts p (c # cs) then Some (c # cs) else strstr p cs)"

text \<open>\<^verbatim>\<open>sprintf\<close> into a buffer of \<open>n\<close> characters.\<close>

definition sprintf_to :: "nat \<Rightarrow> string \<Rightarrow> va list \<Rightarrow> fault + string" where
  "sprintf_to n fmt args = bind_res (sprintf fmt args) (\<lambda>t. if length t < n then Inr t else Inl Out_Of_Bounds)"

section \<open>URLs\<close>

abbreviation HTTP :: string where "HTTP \<equiv> ''http://''"

definition browser_parse_url :: "string \<Rightarrow> nat \<Rightarrow> nat \<Rightarrow> (string \<times> string) option" where
  "browser_parse_url url host_size path_size =
     (if \<not> starts HTTP url then None
      else let host_start = drop 7 url
           in case strchr CHR ''/'' host_start of
                Some path_start \<Rightarrow>
                  let host = takeWhile (\<lambda>c. c \<noteq> CHR ''/'') host_start
                  in if length host \<ge> host_size then None
                     else if length path_start \<ge> path_size then None
                     else Some (host, path_start)
              | None \<Rightarrow> if length host_start \<ge> host_size then None else Some (host_start, ''/''))"

section \<open>Removing tags\<close>

abbreviation LF :: char where "LF \<equiv> CHR ''\<newline>''"
abbreviation CR :: char where "CR \<equiv> CHR 0x0D"

text \<open>What a character outside of tags adds to the output.\<close>

definition put_char :: "string \<Rightarrow> char \<Rightarrow> string" where
  "put_char out c =
     (if c = CHR '' '' \<and> out \<noteq> [] \<and> last out = CHR '' '' then out
      else if c = LF \<or> c = CR then (if out \<noteq> [] \<and> last out \<noteq> LF then out @ [LF] else out)
      else out @ [c])"

text \<open>The loop, with the size of the output, \<^verbatim>\<open>in_tag\<close>, \<^verbatim>\<open>in_script\<close> and the output so far.\<close>

fun format_loop :: "nat \<Rightarrow> bool \<Rightarrow> bool \<Rightarrow> string \<Rightarrow> string \<Rightarrow> string" where
  "format_loop n in_tag in_script out [] = out"
| "format_loop n in_tag in_script out (c # cs) =
     (if \<not> length out < n - 1 then out
      else if starts ''</script>'' (c # cs) then format_loop n in_tag False out (drop 8 cs)
      else if in_script \<or> starts ''<script'' (c # cs) then format_loop n in_tag True out cs
      else if c = CHR ''<'' then format_loop n True False out cs
      else if c = CHR ''>'' then format_loop n False False out cs
      else if \<not> in_tag then format_loop n in_tag False (put_char out c) cs
      else format_loop n in_tag False out cs)"

definition browser_format_text :: "string \<Rightarrow> nat \<Rightarrow> string" where
  "browser_format_text html output_size = format_loop output_size False False [] html"

section \<open>Links\<close>

abbreviation BROWSER_MAX_URL :: nat where "BROWSER_MAX_URL \<equiv> 256"
abbreviation BROWSER_MAX_CONTENT :: nat where "BROWSER_MAX_CONTENT \<equiv> 65536"
abbreviation BROWSER_MAX_LINKS :: nat where "BROWSER_MAX_LINKS \<equiv> 256"
abbreviation BROWSER_HISTORY_SIZE :: nat where "BROWSER_HISTORY_SIZE \<equiv> 50"

record browser_link =
  link_url :: string
  link_text :: string
  link_line :: int
  link_col :: int

definition isspace :: "char \<Rightarrow> bool" where
  "isspace c \<longleftrightarrow> c = CHR '' '' \<or> (9 \<le> (of_char c :: nat) \<and> (of_char c :: nat) \<le> 13)"

text \<open>The text of a link, from what follows its URL, and the next number for links without one.\<close>

definition anchor_text :: "string \<Rightarrow> string" where
  "anchor_text after =
     (case dropWhile (\<lambda>c. c \<noteq> CHR ''<'') after of
        [] \<Rightarrow> []
      | _ # r \<Rightarrow> takeWhile (\<lambda>c. c \<noteq> CHR ''<'') (dropWhile isspace r))"

definition link_label :: "nat \<Rightarrow> string \<Rightarrow> fault + string \<times> nat" where
  "link_label num after =
     (let t = anchor_text after
      in if 0 < length t \<and> length t < 127 then Inr (t, num)
         else bind_res (sprintf_to 128 ''[%d]'' [Va_Int (of_nat num)]) (\<lambda>l. Inr (l, num + 1)))"

abbreviation HREF :: string where "HREF \<equiv> [CHR ''h'', CHR ''r'', CHR ''e'', CHR ''f'', CHR ''='', CHR 0x22]"

lemma strchr_suffix:
  assumes "strchr c s = Some t"
  shows "t \<noteq> [] \<and> hd t = c \<and> s = takeWhile (\<lambda>d. d \<noteq> c) s @ t"
proof -
  have t: "t = dropWhile (\<lambda>d. d \<noteq> c) s" "t \<noteq> []" using assms by (auto simp: strchr_def split: list.splits)
  with hd_dropWhile [of "\<lambda>d. d \<noteq> c" s] show ?thesis by simp
qed

lemma strstr_suffix: "strstr p s = Some t \<Longrightarrow> \<exists>r. s = r @ t"
  by (induction p s rule: strstr.induct) (auto split: if_splits intro: exI [of _ "[]"] exI [of _ "_ # _"])

lemma strstr_strchr_shorter:
  assumes "strstr HREF s = Some h" "strchr CHR 0x22 (drop 6 h) = Some e"
  shows "length (drop 1 e) < length s"
proof -
  obtain r where s: "s = r @ h" using strstr_suffix [OF assms(1)] by blast
  have e: "e \<noteq> []" "drop 6 h = takeWhile (\<lambda>d. d \<noteq> CHR 0x22) (drop 6 h) @ e" using strchr_suffix [OF assms(2)] by simp_all
  have "length e \<le> length (drop 6 h)" by (subst e(2)) simp
  thus ?thesis using s e(1) by (cases e) auto
qed

function links_loop :: "string \<Rightarrow> nat \<Rightarrow> browser_link list \<Rightarrow> fault + browser_link list" where
  "links_loop ptr num links =
     (if ptr = [] \<or> \<not> length links < BROWSER_MAX_LINKS then Inr links
      else case strstr HREF ptr of
             None \<Rightarrow> Inr links
           | Some h \<Rightarrow>
               (case strchr CHR 0x22 (drop 6 h) of
                  None \<Rightarrow> Inr links
                | Some e \<Rightarrow>
                    let url = takeWhile (\<lambda>c. c \<noteq> CHR 0x22) (drop 6 h)
                    in if length url < BROWSER_MAX_URL
                       then bind_res (link_label num (drop 1 e)) (\<lambda>(t, num1).
                              links_loop (drop 1 e) num1 (links @ [\<lparr>link_url = url, link_text = t, link_line = -1, link_col = -1\<rparr>]))
                       else links_loop (drop 1 e) num links))"
  by pat_completeness auto
termination
  by (relation "measure (\<lambda>(ptr, _, _). length ptr)") (simp_all only: wf_measure in_measure split_conv strstr_strchr_shorter)

declare links_loop.simps [simp del]

definition browser_extract_links :: "string \<Rightarrow> fault + browser_link list" where
  "browser_extract_links html = links_loop html 1 []"

section \<open>Formatting in three passes\<close>

text \<open>The text without scripts; a closing script tag is removed wherever it stands.\<close>

fun strip_scripts :: "bool \<Rightarrow> string \<Rightarrow> string" where
  "strip_scripts b [] = []"
| "strip_scripts b (c # cs) =
     (if starts ''</script>'' (c # cs) then strip_scripts False (drop 8 cs)
      else if b \<or> starts ''<script'' (c # cs) then strip_scripts True cs
      else c # strip_scripts False cs)"

text \<open>The text without tags.\<close>

fun strip_tags :: "bool \<Rightarrow> string \<Rightarrow> string" where
  "strip_tags b [] = []"
| "strip_tags b (c # cs) =
     (if c = CHR ''<'' then strip_tags True cs
      else if c = CHR ''>'' then strip_tags False cs
      else if b then strip_tags b cs else c # strip_tags b cs)"

text \<open>One blank for several, one newline for several line ends and none at the beginning.\<close>

fun tidy :: "char option \<Rightarrow> string \<Rightarrow> string" where
  "tidy prev [] = []"
| "tidy prev (c # cs) =
     (if c = CHR '' '' \<and> prev = Some (CHR '' '') then tidy prev cs
      else if c = LF \<or> c = CR then (if prev = None \<or> prev = Some LF then tidy prev cs else LF # tidy (Some LF) cs)
      else c # tidy (Some c) cs)"

definition last_opt :: "string \<Rightarrow> char option" where
  "last_opt s = (if s = [] then None else Some (last s))"

lemma last_opt_simps [simp]: "last_opt [] = None" "last_opt (s @ [c]) = Some c"
  by (simp_all add: last_opt_def)

lemma put_char_tidy: "put_char out c @ tidy (last_opt (put_char out c)) cs = out @ tidy (last_opt out) (c # cs)"
  by (auto simp: put_char_def last_opt_def)

lemma put_char_length: "length (put_char out c) \<le> Suc (length out)"
  by (simp add: put_char_def)

lemma format_loop_passes:
  "length out \<le> n - 1 \<Longrightarrow>
   format_loop n in_tag in_script out html = take (n - 1) (out @ tidy (last_opt out) (strip_tags in_tag (strip_scripts in_script html)))"
proof (induction n in_tag in_script out html rule: format_loop.induct)
  case (2 n in_tag in_script out c cs)
  show ?case
  proof (cases "length out < n - 1")
    case True
    have len: "length (put_char out c) \<le> n - 1" using put_char_length [of out c] True by simp
    consider "starts ''</script>'' (c # cs)" | "\<not> starts ''</script>'' (c # cs)" "in_script \<or> starts ''<script'' (c # cs)"
      | "\<not> starts ''</script>'' (c # cs)" "\<not> (in_script \<or> starts ''<script'' (c # cs))" by blast
    thus ?thesis
    proof cases
      case 1
      thus ?thesis using True "2.IH"(1) "2.prems" by simp
    next
      case 2
      thus ?thesis using True "2.IH"(2) "2.prems" by simp
    next
      case 3
      note no = 3 True [THEN not_not [THEN iffD2]]
      consider (l) "c = CHR ''<''" | (g) "c \<noteq> CHR ''<''" "c = CHR ''>''" | (t) "c \<noteq> CHR ''<''" "c \<noteq> CHR ''>''" "in_tag"
        | (p) "c \<noteq> CHR ''<''" "c \<noteq> CHR ''>''" "\<not> in_tag" by blast
      thus ?thesis
      proof cases
        case l
        show ?thesis using "2.IH"(3) [OF no(3,1,2) l "2.prems"] True 3 l by simp
      next
        case g
        show ?thesis using "2.IH"(4) [OF no(3,1,2) g "2.prems"] True 3 g by simp
      next
        case t
        show ?thesis using "2.IH"(6) [OF no(3,1,2) t(1,2) _ "2.prems"] True 3 t by simp
      next
        case p
        have "format_loop n in_tag in_script out (c # cs) = format_loop n in_tag False (put_char out c) cs" using True 3 p by simp
        also have "\<dots> = take (n - 1) (put_char out c @ tidy (last_opt (put_char out c)) (strip_tags in_tag (strip_scripts False cs)))"
          by (rule "2.IH"(5) [OF no(3,1,2) p len])
        also have "\<dots> = take (n - 1) (out @ tidy (last_opt out) (c # strip_tags in_tag (strip_scripts False cs)))" by (simp only: put_char_tidy)
        also have "c # strip_tags in_tag (strip_scripts False cs) = strip_tags in_tag (strip_scripts in_script (c # cs))" using 3 p by simp
        finally show ?thesis .
      qed
    qed
  qed (use "2.prems" in simp)
qed simp

lemma strip_tags_clean: "CHR ''<'' \<notin> set (strip_tags b s) \<and> CHR ''>'' \<notin> set (strip_tags b s)"
  by (induction b s rule: strip_tags.induct) auto

lemma tidy_set: "set (tidy p s) \<subseteq> insert LF (set s) - {CR}"
proof (induction s arbitrary: p)
  case (Cons c s)
  show ?case using Cons.IH [of p] Cons.IH [of "Some LF"] Cons.IH [of "Some c"] by auto
qed simp

text \<open>Neighbours in a tidy text.\<close>

fun tidy_text :: "char option \<Rightarrow> string \<Rightarrow> bool" where
  "tidy_text p [] \<longleftrightarrow> True"
| "tidy_text p (c # cs) \<longleftrightarrow>
     \<not> (c = CHR '' '' \<and> p = Some (CHR '' '')) \<and> \<not> (c = LF \<and> (p = None \<or> p = Some LF)) \<and> tidy_text (Some c) cs"

lemma tidy_tidy: "tidy_text p (tidy p s)"
proof (induction s arbitrary: p)
  case (Cons c s)
  show ?case using Cons.IH [of p] Cons.IH [of "Some LF"] Cons.IH [of "Some c"] by auto
qed simp

lemma tidy_text_take: "tidy_text p s \<Longrightarrow> tidy_text p (take n s)"
  by (induction s arbitrary: p n) (auto simp: take_Cons')

text \<open>
  C26. Formatting a page (apps/browser/lynx.c, browser\_format\_text). The single loop with its two flags
  does what three passes in a row do -- removing scripts, removing tags, merging blanks and line
  ends -- cut off at the size of the buffer. What is left has no angle brackets and no carriage
  returns, no double blanks or empty lines, does not begin with a newline, and fits the buffer.
\<close>

theorem format_text_passes:
  assumes "0 < n"
  shows "browser_format_text html n = take (n - 1) (tidy None (strip_tags False (strip_scripts False html))) \<and>
    length (browser_format_text html n) < n \<and> set (browser_format_text html n) \<inter> {CHR ''<'', CHR ''>'', CR} = {} \<and>
    tidy_text None (browser_format_text html n)"
proof -
  let ?t = "tidy None (strip_tags False (strip_scripts False html))"
  have e: "browser_format_text html n = take (n - 1) ?t"
    using format_loop_passes [of "[]" n False False html] by (simp add: browser_format_text_def)
  have "set (take (n - 1) ?t) \<subseteq> set ?t" by (rule set_take_subset)
  hence "set (take (n - 1) ?t) \<inter> {CHR ''<'', CHR ''>'', CR} = {}"
    using tidy_set [of None "strip_tags False (strip_scripts False html)"] strip_tags_clean [of False "strip_scripts False html"] by auto
  thus ?thesis using assms e tidy_text_take [OF tidy_tidy] by simp
qed

theorem format_text_passes_witness:
  "browser_format_text ''<p>a  <b>c</b><script>if (x<y)</script>d'' 65536 = ''a cd''"
proof -
  have "tidy None (strip_tags False (strip_scripts False ''<p>a  <b>c</b><script>if (x<y)</script>d'')) = ''a cd''" by code_simp
  thus ?thesis using format_text_passes [of 65536 "''<p>a  <b>c</b><script>if (x<y)</script>d''"] by simp
qed

section \<open>Links of a page\<close>

lemma sprintf_to_spec:
  assumes "spec_fmt fmt args = Some t" "length t < n" "n < 2 ^ 31"
  shows "sprintf_to n fmt args = Inr t"
proof -
  have "vsn_loop 2147483646 fmt args [] = Inr (take 2147483646 t)" using vsn_loop_spec [OF assms(1), of "[]" 2147483646] by simp
  thus ?thesis using assms(2,3) by (simp add: sprintf_to_def sprintf_def vsnprintf_def bind_res_def)
qed

lemma length_dec: "n < 10 ^ k \<Longrightarrow> 0 < k \<Longrightarrow> length (dec n) \<le> k"
proof (induction k arbitrary: n)
  case (Suc k)
  show ?case
  proof (cases "n < 10")
    case False
    hence "0 < k" using Suc.prems by (cases k) auto
    moreover have "n div 10 < 10 ^ k" using Suc.prems by (simp add: less_mult_imp_div_less mult.commute)
    ultimately show ?thesis using Suc.IH False by (subst dec.simps) simp
  qed (subst dec.simps, simp)
qed simp

lemma length_signed_dec: "length (signed_dec w) \<le> 11"
proof -
  have "- (2 ^ 31) \<le> sint w" "sint w < 2 ^ 31" using sint_ge [of w] sint_less [of w] by simp_all
  hence "nat (- sint w) < 10 ^ 10" "nat (sint w) < 10 ^ 10" by (simp_all add: nat_less_iff)
  hence "length (dec (nat (- sint w))) \<le> 10" "length (dec (nat (sint w))) \<le> 10" by (auto intro: length_dec)
  thus ?thesis by (simp add: signed_dec_def)
qed

lemma num_word: "num < 2 ^ 31 \<Longrightarrow> (of_nat num :: u32) \<noteq> 0x80000000"
proof
  assume n: "num < 2 ^ 31" and "(of_nat num :: u32) = 0x80000000"
  hence "unat (of_nat num :: u32) = 0x80000000" by simp
  thus False using n by (simp add: unat_of_nat take_bit_nat_eq_self)
qed

lemma link_label_ok:
  assumes "num < 2 ^ 31"
  shows "\<exists>t num1. link_label num after = Inr (t, num1) \<and> length t < 128 \<and> num1 \<le> num + 1"
proof -
  have "spec_fmt ''[%d]'' [Va_Int (of_nat num)] = Some (''['' @ signed_dec (of_nat num) @ '']'')"
    using num_word [OF assms] by (simp add: spec_item_def)
  with length_signed_dec [of "of_nat num"] have "sprintf_to 128 ''[%d]'' [Va_Int (of_nat num)] = Inr (''['' @ signed_dec (of_nat num) @ '']'')"
    by (intro sprintf_to_spec) simp_all
  thus ?thesis using length_signed_dec [of "of_nat num"] by (auto simp: link_label_def Let_def bind_res_def)
qed

definition link_ok :: "browser_link \<Rightarrow> bool" where
  "link_ok l \<longleftrightarrow> length (link_url l) < BROWSER_MAX_URL \<and> length (link_text l) < 128 \<and> link_line l = -1 \<and> link_col l = -1"

lemma links_loop_ok:
  "length links \<le> BROWSER_MAX_LINKS \<Longrightarrow> num \<le> length links + 1 \<Longrightarrow> \<forall>l\<in>set links. link_ok l \<Longrightarrow>
   \<exists>ls. links_loop ptr num links = Inr ls \<and> length ls \<le> BROWSER_MAX_LINKS \<and> (\<forall>l\<in>set ls. link_ok l)"
proof (induction ptr num links rule: links_loop.induct)
  case (1 ptr num links)
  show ?case
  proof (cases "(ptr = [] \<or> \<not> length links < BROWSER_MAX_LINKS) \<or> strstr HREF ptr = None \<or> strchr CHR 0x22 (drop 6 (the (strstr HREF ptr))) = None")
    case True
    thus ?thesis using "1.prems" by (subst links_loop.simps) (auto split: option.splits)
  next
    case False
    then obtain h e where h: "\<not> (ptr = [] \<or> \<not> length links < BROWSER_MAX_LINKS)" "strstr HREF ptr = Some h" "strchr CHR 0x22 (drop 6 h) = Some e" by auto
    let ?u = "takeWhile (\<lambda>c. c \<noteq> CHR 0x22) (drop 6 h)"
    show ?thesis
    proof (cases "length ?u < BROWSER_MAX_URL")
      case False
      thus ?thesis using "1.IH"(2) [OF h refl False "1.prems"] h by (subst links_loop.simps) simp
    next
      case True
      obtain t num1 where t: "link_label num (drop 1 e) = Inr (t, num1)" "length t < 128" "num1 \<le> num + 1"
        using link_label_ok [of num "drop 1 e"] "1.prems" by auto
      let ?l = "\<lparr>link_url = ?u, link_text = t, link_line = -1, link_col = -1\<rparr>"
      have "\<exists>ls. links_loop (drop 1 e) num1 (links @ [?l]) = Inr ls \<and> length ls \<le> BROWSER_MAX_LINKS \<and> (\<forall>l\<in>set ls. link_ok l)"
        using "1.IH"(1) [OF h refl True, of t num1] "1.prems" t h(1) True by (auto simp: link_ok_def)
      thus ?thesis using h t True by (subst links_loop.simps) simp
    qed
  qed
qed

text \<open>A page cut at its links: the text before the first, and each URL with the text behind it.\<close>

fun cut_page :: "string \<Rightarrow> (string \<times> string) list \<Rightarrow> string" where
  "cut_page g [] = g"
| "cut_page g ((u, g') # ps) = g @ HREF @ u @ CHR 0x22 # cut_page g' ps"

lemma starts_href: "starts HREF s \<longleftrightarrow> take 6 s = HREF"
  by (simp add: starts_def numeral_eq_Suc)

lemma href_overlap: "0 < k \<Longrightarrow> k < 6 \<Longrightarrow> HREF ! k \<noteq> CHR ''h''"
  by (auto simp: less_Suc_eq numeral_eq_Suc)

lemma strstr_gap: "strstr HREF g = None \<Longrightarrow> strstr HREF (g @ HREF @ r) = Some (HREF @ r)"
proof (induction g)
  case Nil
  have "starts HREF (HREF @ r)" by (simp add: starts_def)
  thus ?case by simp
next
  case (Cons c g)
  let ?s = "(c # g) @ HREF @ r"
  have no: "\<not> starts HREF (c # g)" and g: "strstr HREF g = None" using Cons.prems by (simp_all split: if_splits)
  have "\<not> starts HREF ?s"
  proof
    assume "starts HREF ?s"
    hence st: "take 6 ?s = HREF" by (simp only: starts_href)
    show False
    proof (cases "6 \<le> length (c # g)")
      case True
      hence "take 6 ?s = take 6 (c # g)" by (subst take_append) simp
      hence "take 6 (c # g) = HREF" using st by simp
      thus False using no unfolding starts_href by contradiction
    next
      case False
      hence "take 6 ?s ! length (c # g) = ?s ! length (c # g)" by (intro nth_take) simp
      hence "?s ! length (c # g) = HREF ! length (c # g)" unfolding st by (rule sym)
      moreover have "?s ! length (c # g) = CHR ''h''" by (simp only: nth_append_length_plus [of _ _ 0, simplified]) simp
      ultimately show False using href_overlap [of "length (c # g)"] False by simp
    qed
  qed
  thus ?case using Cons.IH [OF g] by simp
qed

lemma strchr_url: "c \<notin> set u \<Longrightarrow> strchr c (u @ c # r) = Some (c # r) \<and> takeWhile (\<lambda>d. d \<noteq> c) (u @ c # r) = u"
  by (induction u) (auto simp: strchr_def)

lemma links_loop_step:
  assumes "ptr \<noteq> []" "length links < BROWSER_MAX_LINKS" "strstr HREF ptr = Some h" "strchr CHR 0x22 (drop 6 h) = Some (q # after)"
    "takeWhile (\<lambda>c. c \<noteq> CHR 0x22) (drop 6 h) = u"
  shows "links_loop ptr num links =
    (if length u < BROWSER_MAX_URL
     then bind_res (link_label num after) (\<lambda>(t, num1). links_loop after num1 (links @ [\<lparr>link_url = u, link_text = t, link_line = -1, link_col = -1\<rparr>]))
     else links_loop after num links)"
  using assms by (subst links_loop.simps) simp

lemma links_loop_page:
  "length links \<le> BROWSER_MAX_LINKS \<Longrightarrow> num \<le> length links + 1 \<Longrightarrow> strstr HREF g = None \<Longrightarrow>
   \<forall>(u, g')\<in>set ps. CHR 0x22 \<notin> set u \<and> strstr HREF g' = None \<Longrightarrow>
   \<exists>ls. links_loop (cut_page g ps) num links = Inr (links @ ls) \<and>
     map link_url ls = take (BROWSER_MAX_LINKS - length links) (filter (\<lambda>u. length u < BROWSER_MAX_URL) (map fst ps))"
proof (induction ps arbitrary: g num links)
  case Nil
  thus ?case by (subst links_loop.simps) simp
next
  case (Cons p ps)
  obtain u g' where p: "p = (u, g')" by (cases p)
  have u: "CHR 0x22 \<notin> set u" "strstr HREF g' = None" "\<forall>(u, g')\<in>set ps. CHR 0x22 \<notin> set u \<and> strstr HREF g' = None" using Cons.prems(4) p by auto
  let ?after = "cut_page g' ps"
  let ?page = "cut_page g (p # ps)"
  have pg: "?page = g @ HREF @ u @ CHR 0x22 # ?after" by (simp add: p)
  have h: "strstr HREF ?page = Some (HREF @ u @ CHR 0x22 # ?after)" unfolding pg by (rule strstr_gap [OF Cons.prems(3)])
  have d: "drop 6 (HREF @ u @ CHR 0x22 # ?after) = u @ CHR 0x22 # ?after" by simp
  have e: "strchr CHR 0x22 (drop 6 (HREF @ u @ CHR 0x22 # ?after)) = Some (CHR 0x22 # ?after)"
    "takeWhile (\<lambda>c. c \<noteq> CHR 0x22) (drop 6 (HREF @ u @ CHR 0x22 # ?after)) = u" unfolding d using strchr_url [OF u(1)] by simp_all
  have ne: "?page \<noteq> []" unfolding pg by simp
  note step = links_loop_step [OF ne _ h e]
  show ?case
  proof (cases "length links < BROWSER_MAX_LINKS")
    case full: True
    show ?thesis
    proof (cases "length u < BROWSER_MAX_URL")
      case False
      have "links_loop ?page num links = links_loop ?after num links" using step full False by simp
      thus ?thesis using Cons.IH [OF Cons.prems(1,2) u(2,3)] False by (simp add: p)
    next
      case True
      obtain t num1 where t: "link_label num ?after = Inr (t, num1)" "num1 \<le> num + 1" using link_label_ok [of num ?after] Cons.prems(1,2) by auto
      let ?l = "\<lparr>link_url = u, link_text = t, link_line = -1, link_col = -1\<rparr>"
      have "links_loop ?page num links = links_loop ?after num1 (links @ [?l])"
        using step full True t by simp
      moreover obtain ls where "links_loop ?after num1 (links @ [?l]) = Inr ((links @ [?l]) @ ls)"
        "map link_url ls = take (BROWSER_MAX_LINKS - length (links @ [?l])) (filter (\<lambda>u. length u < BROWSER_MAX_URL) (map fst ps))"
        using Cons.IH [of "links @ [?l]" num1 g'] u(2,3) full t(2) Cons.prems(2) by auto
      ultimately show ?thesis using full True by (intro exI [of _ "?l # ls"]) (simp add: p take_Cons' )
    qed
  qed (use Cons.prems(1) in \<open>subst links_loop.simps, simp\<close>)
qed

text \<open>
  In \<^verbatim>\<open><a href="u">t</a>\<close> the scan for the text stops at the closing tag instead of behind the opening
  one: the text kept for the link is the rest of that tag and what follows it.
\<close>

lemma anchor_text_misses:
  assumes "CHR ''<'' \<notin> set t"
  shows "anchor_text (CHR ''>'' # t @ ''</a>'' @ r) = ''/a>'' @ takeWhile (\<lambda>c. c \<noteq> CHR ''<'') r"
proof -
  have "dropWhile (\<lambda>c. c \<noteq> CHR ''<'') (t @ ''</a>'' @ r) = ''</a>'' @ r" using assms by (subst dropWhile_append2) auto
  thus ?thesis by (simp add: anchor_text_def isspace_def)
qed

text \<open>
  C31. The links of a page (apps/browser/lynx.c, browser\_extract\_links). Cut any page at its \<^verbatim>\<open>href="\<close>
  marks and the quotes that end the URLs: the URLs the browser keeps are exactly those shorter than 256
  characters, in their order, the first 256 of them. No buffer is overrun. In an ordinary anchor the
  text kept for the link is not the anchor's text, but \<^verbatim>\<open>/a>\<close> and the text behind it.
\<close>

theorem links_of_page:
  assumes "strstr HREF g = None" and "\<forall>(u, g')\<in>set ps. CHR 0x22 \<notin> set u \<and> strstr HREF g' = None"
  shows "\<exists>ls. browser_extract_links (cut_page g ps) = Inr ls \<and>
    map link_url ls = take BROWSER_MAX_LINKS (filter (\<lambda>u. length u < BROWSER_MAX_URL) (map fst ps)) \<and>
    (\<forall>l\<in>set ls. length (link_text l) < 128) \<and>
    (\<forall>t r. CHR ''<'' \<notin> set t \<longrightarrow> anchor_text (CHR ''>'' # t @ ''</a>'' @ r) = ''/a>'' @ takeWhile (\<lambda>c. c \<noteq> CHR ''<'') r)"
proof -
  obtain ls where ls: "browser_extract_links (cut_page g ps) = Inr ls"
    "map link_url ls = take BROWSER_MAX_LINKS (filter (\<lambda>u. length u < BROWSER_MAX_URL) (map fst ps))"
    using links_loop_page [of "[]" 1 g ps] assms by (auto simp: browser_extract_links_def)
  have "\<forall>l\<in>set ls. link_ok l" using links_loop_ok [of "[]" 1 "cut_page g ps"] ls(1) by (auto simp: browser_extract_links_def)
  thus ?thesis using ls anchor_text_misses by (auto simp: link_ok_def)
qed

theorem links_of_page_witness:
  "\<exists>ls. browser_extract_links (cut_page ''<a '' [(''http://1.2.3.4/'', ''>one</a> or <a ''), (''/b'', ''>two</a>'')]) = Inr ls \<and>
     map link_url ls = [''http://1.2.3.4/'', ''/b'']"
proof -
  let ?ps = "[(''http://1.2.3.4/'', ''>one</a> or <a ''), (''/b'', ''>two</a>'')]"
  have "strstr HREF ''<a '' = None" "\<forall>(u, g')\<in>set ?ps. CHR 0x22 \<notin> set u \<and> strstr HREF g' = None" by code_simp+
  from links_of_page [OF this] show ?thesis by auto
qed

section \<open>Taking a URL apart\<close>

lemma parse_url_join:
  assumes "CHR ''/'' \<notin> set host" "length host < hs" "length p + 1 < ps"
  shows "browser_parse_url (HTTP @ host @ CHR ''/'' # p) hs ps = Some (host, CHR ''/'' # p)"
proof -
  have "starts HTTP (HTTP @ r)" for r by (simp add: starts_def)
  thus ?thesis using assms strchr_url [OF assms(1), of p] by (simp add: browser_parse_url_def)
qed

lemma parse_url_bounds: "browser_parse_url url hs ps = Some (host, path) \<Longrightarrow> 1 < ps \<Longrightarrow> length host < hs \<and> length path < ps"
  by (auto simp: browser_parse_url_def Let_def split: if_splits option.splits)

end
