(* ===== verification/Solix_Browser.thy ===== *)
theory Solix_Browser
  imports Solix_Html Solix_Net Solix_Shell
begin

text \<open>
  The text browser, after \<^verbatim>\<open>apps/browser/lynx.c\<close>: loading and rendering pages, the history, scrolling
  and the keyboard. Output is recorded as in \<open>Solix_Shell\<close>; the keys that will be pressed are a field
  of the state, and a browser that needs one more does not return (\<open>None\<close>). The TCP functions and the
  size of the screen (\<^verbatim>\<open>screen_get_width\<close>, \<^verbatim>\<open>screen_get_height\<close>) are declared or called and defined nowhere:
  they are the environment \<open>E\<close>. Of the array of links the list holds the first \<^verbatim>\<open>num_links\<close>, of the
  history's the first \<^verbatim>\<open>count\<close>. The title of a page is never written.
\<close>

declare of_nat_add [simp del]

section \<open>State\<close>

record browser_page =
  page_url :: string
  page_content :: string
  page_links :: "browser_link list"
  current_line :: int
  num_lines :: int

record browser_history =
  hist_urls :: "string list"
  hist_current :: int

record 'c browser =
  current_page :: browser_page
  history :: browser_history
  cursor_x :: int
  cursor_y :: int
  showing_links :: bool
  browser_active :: bool
  br_keys :: string
  br_ticks :: u32
  br_tcp :: 'c
  br_out :: "screen_op list"

text \<open>
  \<open>sock_vars\<close> is the uninitialised socket on the stack with its type set. \<^verbatim>\<open>tcp_receive\<close> returns the
  bytes it stored, none for a result that is zero or negative.
\<close>

record 'c browser_env =
  scr_width :: int
  scr_height :: int
  br_net :: net
  sock_vars :: socket
  tcp_connect :: "socket \<Rightarrow> u32 \<Rightarrow> u16 \<Rightarrow> 'c \<Rightarrow> int \<times> 'c"
  tcp_send :: "socket \<Rightarrow> string \<Rightarrow> 'c \<Rightarrow> int \<times> 'c"
  tcp_receive :: "socket \<Rightarrow> nat \<Rightarrow> 'c \<Rightarrow> string \<times> 'c"

definition outs :: "screen_op list \<Rightarrow> 'c browser \<Rightarrow> 'c browser" where
  "outs ops b = b\<lparr>br_out := br_out b @ ops\<rparr>"

definition get_key :: "'c browser \<Rightarrow> (char \<times> 'c browser) run" where
  "get_key b = (case br_keys b of [] \<Rightarrow> None | c # cs \<Rightarrow> Some (Inr (c, b\<lparr>br_keys := cs\<rparr>)))"

section \<open>Pages\<close>

definition browser_parse_html :: "string \<Rightarrow> browser_page \<Rightarrow> fault + browser_page" where
  "browser_parse_html html p =
     (let formatted = browser_format_text html BROWSER_MAX_CONTENT;
          content = (if length formatted < BROWSER_MAX_CONTENT then formatted else page_content p)
      in bind_res (browser_extract_links html) (\<lambda>ls.
           Inr (p\<lparr>page_links := ls, current_line := 0, page_content := content,
                  num_lines := 1 + int (length (filter (\<lambda>c. c = LF) content))\<rparr>)))"

fun skip_lines :: "nat \<Rightarrow> string \<Rightarrow> string" where
  "skip_lines 0 s = s"
| "skip_lines (Suc n) s = (if s = [] then s else skip_lines n (drop 1 (dropWhile (\<lambda>c. c \<noteq> LF) s)))"

text \<open>The loop that shows the visible lines, with the variables \<^verbatim>\<open>line\<close>, \<^verbatim>\<open>col\<close> and \<^verbatim>\<open>lines_rendered\<close>.\<close>

fun render_loop :: "browser_link list \<Rightarrow> int \<Rightarrow> string \<Rightarrow> int \<Rightarrow> int \<Rightarrow> int \<Rightarrow> screen_op list" where
  "render_loop ls max_lines [] line col n = []"
| "render_loop ls max_lines (c # cs) line col n =
     (if \<not> n < max_lines then []
      else if c = LF then Put NL # render_loop ls max_lines cs (line + 1) 0 (n + 1)
      else case find (\<lambda>l. link_line l = line \<and> link_col l = col) ls of
             Some l \<Rightarrow> [Color 1 0, Put ''['', Put (link_text l), Put '']'', Color 15 0] @
                       render_loop ls max_lines cs line (col + int (length (link_text l)) + 2) n
           | None \<Rightarrow> Put [c] # render_loop ls max_lines cs line (col + 1) n)"

definition render_status :: "browser_page \<Rightarrow> fault + string" where
  "render_status p =
     sprintf_to 256 (''Line %d/%d | Links: %d | Press '' @ [CHR 0x27] @ ''h'' @ [CHR 0x27] @ '' for help'')
       [Va_Int (word_of_int (current_line p + 1)), Va_Int (word_of_int (num_lines p)), Va_Int (of_nat (length (page_links p)))]"

definition browser_render_page :: "'c browser_env \<Rightarrow> 'c browser \<Rightarrow> fault + 'c browser" where
  "browser_render_page E b =
     (let p = current_page b;
          visible = skip_lines (nat (current_line p)) (page_content p)
      in bind_res (render_status p) (\<lambda>status.
           Inr (outs ([Clear, Color 1 15, Put (page_url p), Put NL, Color 15 0, Put NL] @
                      render_loop (page_links p) (scr_height E - 4) visible 0 0 0 @
                      [Cursor 0 (scr_height E - 1), Color 0 15, Put status, Color 15 0]) b)))"

section \<open>Messages, help\<close>

definition browser_status_message :: "'c browser_env \<Rightarrow> string \<Rightarrow> 'c browser \<Rightarrow> 'c browser" where
  "browser_status_message E message b =
     outs ([Cursor 0 (scr_height E - 1), Color 0 15, Put message] @
           replicate (nat (scr_width E - int (length message))) (Put '' '') @ [Color 15 0]) b"

definition browser_error_message :: "string \<Rightarrow> 'c browser \<Rightarrow> 'c browser" where
  "browser_error_message error b =
     (outs [Color 4 0, Put ''Error: '', Put error, Put NL, Color 15 0] b)\<lparr>br_ticks := br_ticks b + 2000\<rparr>"

definition help_text :: "screen_op list" where
  "help_text =
     [Clear, Put (''SolixOS Text Browser - Help'' @ NL @ NL), Put (''Navigation:'' @ NL), Put (''  g        - Go to URL'' @ NL),
      Put (''  r        - Refresh page'' @ NL), Put (''  b        - Go back'' @ NL), Put (''  f        - Go forward'' @ NL),
      Put (''  l        - List links'' @ NL), Put (''  q        - Quit browser'' @ NL @ NL), Put (''Scrolling:'' @ NL),
      Put (''  Up/Down  - Scroll one line'' @ NL), Put (''  Space    - Page down'' @ NL), Put (''  Home/End - Go to top/bottom'' @ NL @ NL),
      Put (''Links:'' @ NL), Put (''  0-9      - Follow link number'' @ NL), Put (''  h        - Show this help'' @ NL @ NL),
      Put ''Press any key to continue...'']"

definition browser_show_help :: "'c browser_env \<Rightarrow> 'c browser \<Rightarrow> 'c browser run" where
  "browser_show_help E b = bind_run (get_key (outs help_text b)) (\<lambda>(_, b1). Some (browser_render_page E b1))"


definition browser_show :: "'c browser_env \<Rightarrow> 'c browser \<Rightarrow> 'c browser run" where
  "browser_show E b =
     (if \<not> browser_active b then browser_show_help E ((outs [Clear] b)\<lparr>browser_active := True\<rparr>) else Some (Inr b))"

definition browser_hide :: "'c browser \<Rightarrow> 'c browser" where
  "browser_hide b = outs [Clear, Put (''Returning to shell...'' @ NL)] (b\<lparr>browser_active := False\<rparr>)"

section \<open>Loading a page\<close>

text \<open>The loop that collects the answer in a buffer of \<open>sz\<close> characters.\<close>

function receive_loop :: "'c browser_env \<Rightarrow> socket \<Rightarrow> nat \<Rightarrow> string \<Rightarrow> 'c \<Rightarrow> fault + string \<times> 'c" where
  "receive_loop E sock sz buffer c =
     (if length buffer < sz - 1 then
        case tcp_receive E sock 1024 c of
          (bytes, c1) \<Rightarrow>
            if bytes = [] then Inr (buffer, c1)
            else if length bytes > 1024 then Inl Out_Of_Bounds
            else if length buffer + length bytes < sz then receive_loop E sock sz (buffer @ bytes) c1
            else Inr (buffer, c1)
      else Inr (buffer, c))"
  by pat_completeness auto
termination
  by (relation "measure (\<lambda>(E, sock, sz, buffer, c). sz - length buffer)") (auto simp flip: length_greater_0_conv)

declare receive_loop.simps [simp del]

abbreviation CRLF2 :: string where "CRLF2 \<equiv> [CR, LF, CR, LF]"

definition http_request :: "string \<Rightarrow> string \<Rightarrow> fault + string" where
  "http_request path hostname =
     sprintf_to 1024 (''GET %s HTTP/1.1'' @ [CR, LF] @ ''Host: %s'' @ [CR, LF] @ ''Connection: close'' @ [CR, LF] @
         ''User-Agent: SolixOS-Lynx/1.0'' @ [CR, LF] @ [CR, LF])
       [Va_Str (Some path), Va_Str (Some hostname)]"

definition browser_download_page :: "'c browser_env \<Rightarrow> string \<Rightarrow> nat \<Rightarrow> 'c \<Rightarrow> ((int \<times> string) \<times> 'c) run" where
  "browser_download_page E url sz c =
     (case browser_parse_url url 256 512 of
        None \<Rightarrow> Some (Inr ((-1, []), c))
      | Some (hostname, path) \<Rightarrow>
          bind_run (Some (net_get_device ''eth0'' (br_net E))) (\<lambda>p.
          bind_run (the_dev p (br_net E)) (\<lambda>dev.
            let sock = (sock_vars E)\<lparr>protocol := 6, local_ip := ip_addr dev, local_port := 12345, remote_ip := ip_aton hostname, remote_port := 80\<rparr>
            in case tcp_connect E sock (remote_ip sock) 80 c of
                 (r, c1) \<Rightarrow>
                   if r \<noteq> 0 then Some (Inr ((-1, []), c1))
                   else bind_run (Some (http_request path hostname)) (\<lambda>request.
                     case tcp_send E sock request c1 of
                       (r, c2) \<Rightarrow>
                         if r \<noteq> 0 then Some (Inr ((-1, []), c2))
                         else bind_run (Some (receive_loop E sock sz [] c2)) (\<lambda>(buffer, c3).
                           case strstr CRLF2 (takeWhile (\<lambda>c. c \<noteq> CHR 0x00) buffer) of
                             Some h \<Rightarrow> Some (Inr ((int (length (drop 4 h)), drop 4 h), c3))
                           | None \<Rightarrow> Some (Inr ((0, takeWhile (\<lambda>c. c \<noteq> CHR 0x00) buffer), c3)))))))"

text \<open>
  Loading a page. The URL may be a pointer into the array of links, whose number is then \<open>alias\<close>: when the
  URL is copied to the history, the links of the new page have been written over the old ones.
\<close>

definition aliased_url :: "nat option \<Rightarrow> string \<Rightarrow> browser_page \<Rightarrow> string" where
  "aliased_url alias url p =
     (case alias of Some i \<Rightarrow> if i < length (page_links p) then link_url (page_links p ! i) else url | None \<Rightarrow> url)"

definition add_history :: "string \<Rightarrow> browser_history \<Rightarrow> browser_history" where
  "add_history url h =
     (if length (hist_urls h) < BROWSER_HISTORY_SIZE
      then h\<lparr>hist_urls := hist_urls h @ [url], hist_current := int (length (hist_urls h))\<rparr> else h)"

definition load_page :: "'c browser_env \<Rightarrow> nat option \<Rightarrow> string \<Rightarrow> 'c browser \<Rightarrow> 'c browser run" where
  "load_page E alias url b =
     (if \<not> starts HTTP url then Some (Inr (browser_error_message ''Only HTTP URLs are supported'' b))
      else bind_run (browser_download_page E url BROWSER_MAX_CONTENT (br_tcp b)) (\<lambda>((bytes, response), c).
        let b1 = b\<lparr>br_tcp := c\<rparr>
        in if bytes \<le> 0 then Some (Inr (browser_error_message ''Failed to download page'' b1))
           else if \<not> length url < BROWSER_MAX_URL then Some (Inl Out_Of_Bounds)
           else bind_run (Some (browser_parse_html response ((current_page b1)\<lparr>page_url := url\<rparr>))) (\<lambda>p.
             bind_run (Some (browser_render_page E (b1\<lparr>current_page := p\<rparr>))) (\<lambda>b2.
               Some (Inr (browser_status_message E ''Page loaded''
                 (b2\<lparr>history := add_history (aliased_url alias url p) (history b2)\<rparr>)))))))"

definition browser_navigate :: "'c browser_env \<Rightarrow> nat option \<Rightarrow> string \<Rightarrow> 'c browser \<Rightarrow> 'c browser run" where
  "browser_navigate E alias url b =
     bind_run (if \<not> browser_active b then browser_show E b else Some (Inr b)) (\<lambda>b1.
       load_page E alias url (browser_status_message E ''Loading...'' b1))"

section \<open>Moving about\<close>




definition goto_line :: "'c browser_env \<Rightarrow> int \<Rightarrow> 'c browser \<Rightarrow> 'c browser run" where
  "goto_line E n b = Some (browser_render_page E (b\<lparr>current_page := (current_page b)\<lparr>current_line := n\<rparr>\<rparr>))"





definition browser_home :: "'c browser_env \<Rightarrow> 'c browser \<Rightarrow> 'c browser run" where
  "browser_home E b = goto_line E 0 b"

definition browser_end :: "'c browser_env \<Rightarrow> 'c browser \<Rightarrow> 'c browser run" where
  "browser_end E b = goto_line E (num_lines (current_page b) - 1) b"

definition browser_follow_link :: "'c browser_env \<Rightarrow> nat \<Rightarrow> 'c browser \<Rightarrow> 'c browser run" where
  "browser_follow_link E k b =
     (let ls = page_links (current_page b)
      in if 0 < k \<and> k \<le> length ls then browser_navigate E (Some (k - 1)) (link_url (ls ! (k - 1))) b else Some (Inr b))"



section \<open>The keyboard\<close>







section \<open>The invariant\<close>

text \<open>A run that does not fault, and whose result, if it returns, satisfies \<open>P\<close>.\<close>

definition run_all :: "('a \<Rightarrow> bool) \<Rightarrow> 'a run \<Rightarrow> bool" where
  "run_all P r \<longleftrightarrow> (case r of None \<Rightarrow> True | Some (Inl _) \<Rightarrow> False | Some (Inr x) \<Rightarrow> P x)"

lemma run_all_simps [simp]: "run_all P None" "run_all P (Some (Inr x)) = P x" "\<not> run_all P (Some (Inl e))"
  by (simp_all add: run_all_def)


text \<open>Before the first page is loaded there are no lines, and scrolling can leave the line at -1.\<close>

definition page_ok :: "browser_page \<Rightarrow> bool" where
  "page_ok p \<longleftrightarrow> length (page_url p) < BROWSER_MAX_URL \<and> length (page_content p) < BROWSER_MAX_CONTENT \<and>
     length (page_links p) \<le> BROWSER_MAX_LINKS \<and> (\<forall>l\<in>set (page_links p). link_ok l) \<and>
     (num_lines p = 0 \<and> page_content p = [] \<and> current_line p \<in> {-1, 0} \<or>
      num_lines p = 1 + int (length (filter (\<lambda>c. c = LF) (page_content p))) \<and> 0 \<le> current_line p \<and> current_line p < num_lines p)"

definition hist_ok :: "browser_history \<Rightarrow> bool" where
  "hist_ok h \<longleftrightarrow> length (hist_urls h) \<le> BROWSER_HISTORY_SIZE \<and> (\<forall>u\<in>set (hist_urls h). length u < BROWSER_MAX_URL) \<and>
     0 \<le> hist_current h \<and> (hist_current h < int (length (hist_urls h)) \<or> hist_urls h = [] \<and> hist_current h = 0)"

definition browser_ok :: "'c browser \<Rightarrow> bool" where
  "browser_ok b \<longleftrightarrow> page_ok (current_page b) \<and> hist_ok (history b)"


lemma browser_ok_upd [simp]:
  "browser_ok (outs ops b) = browser_ok b" "browser_ok (b\<lparr>br_keys := ks\<rparr>) = browser_ok b" "browser_ok (b\<lparr>br_tcp := c\<rparr>) = browser_ok b"
  "browser_ok (b\<lparr>br_ticks := t\<rparr>) = browser_ok b" "browser_ok (b\<lparr>browser_active := a\<rparr>) = browser_ok b" "browser_ok (b\<lparr>showing_links := a\<rparr>) = browser_ok b"
  "browser_ok (browser_status_message E m b) = browser_ok b" "browser_ok (browser_error_message m b) = browser_ok b" "browser_ok (browser_hide b) = browser_ok b"
  by (simp_all add: browser_ok_def outs_def browser_status_message_def browser_error_message_def browser_hide_def)

lemma outs_sel [simp]:
  "current_page (outs ops b) = current_page b" "history (outs ops b) = history b" "br_tcp (outs ops b) = br_tcp b"
  "browser_active (outs ops b) = browser_active b" "br_keys (outs ops b) = br_keys b"
  by (simp_all add: outs_def)

lemma small_int_word:
  assumes "0 \<le> n" "n < 2 ^ 31"
  shows "(word_of_int n :: u32) \<noteq> 0x80000000"
  using num_word [of "nat n"] assms by (simp add: nat_less_iff)

lemma page_ok_lines:
  assumes "page_ok p"
  shows "0 \<le> current_line p + 1" "current_line p + 1 < 2 ^ 31" "0 \<le> num_lines p" "num_lines p < 2 ^ 31" "length (page_links p) < 2 ^ 31"
proof -
  define n where "n = length (filter (\<lambda>c. c = LF) (page_content p))"
  have "n \<le> length (page_content p)" unfolding n_def by (rule length_filter_le)
  thus "0 \<le> current_line p + 1" "current_line p + 1 < 2 ^ 31" "0 \<le> num_lines p" "num_lines p < 2 ^ 31" "length (page_links p) < 2 ^ 31"
    using assms unfolding page_ok_def n_def [symmetric] by auto
qed

lemma render_status_ok:
  assumes "page_ok p"
  shows "\<exists>t. render_status p = Inr t"
proof -
  let ?a = "signed_dec (word_of_int (current_line p + 1))" and ?b = "signed_dec (word_of_int (num_lines p))"
  let ?c = "signed_dec (of_nat (length (page_links p)))"
  note n = small_int_word [OF page_ok_lines(1,2) [OF assms]] small_int_word [OF page_ok_lines(3,4) [OF assms]] num_word [OF page_ok_lines(5) [OF assms]]
  have "spec_fmt (''Line %d/%d | Links: %d | Press '' @ [CHR 0x27] @ ''h'' @ [CHR 0x27] @ '' for help'')
      [Va_Int (word_of_int (current_line p + 1)), Va_Int (word_of_int (num_lines p)), Va_Int (of_nat (length (page_links p)))] =
    Some (''Line '' @ ?a @ ''/'' @ ?b @ '' | Links: '' @ ?c @ '' | Press '' @ [CHR 0x27] @ ''h'' @ [CHR 0x27] @ '' for help'')"
    using n by (simp add: spec_item_def)
  moreover have "length (''Line '' @ ?a @ ''/'' @ ?b @ '' | Links: '' @ ?c @ '' | Press '' @ [CHR 0x27] @ ''h'' @ [CHR 0x27] @ '' for help'') < 256"
    using length_signed_dec [of "word_of_int (current_line p + 1)"] length_signed_dec [of "word_of_int (num_lines p)"]
      length_signed_dec [of "of_nat (length (page_links p))"] by simp
  ultimately have "render_status p = Inr (''Line '' @ ?a @ ''/'' @ ?b @ '' | Links: '' @ ?c @ '' | Press '' @ [CHR 0x27] @ ''h'' @ [CHR 0x27] @ '' for help'')"
    unfolding render_status_def by (rule sprintf_to_spec) simp
  thus ?thesis by blast
qed

lemma browser_render_page_ok:
  assumes "page_ok (current_page b)"
  shows "\<exists>ops. browser_render_page E b = Inr (outs ops b)"
  using render_status_ok [OF assms] by (auto simp: browser_render_page_def Let_def bind_res_def)









lemma http_request_ok:
  assumes "length hostname < 256" "length path < 512"
  shows "\<exists>t. http_request path hostname = Inr t"
proof -
  let ?t = "''GET '' @ path @ '' HTTP/1.1'' @ [CR, LF] @ ''Host: '' @ hostname @ [CR, LF] @ ''Connection: close'' @ [CR, LF] @
    ''User-Agent: SolixOS-Lynx/1.0'' @ [CR, LF] @ [CR, LF]"
  have "spec_fmt (''GET %s HTTP/1.1'' @ [CR, LF] @ ''Host: %s'' @ [CR, LF] @ ''Connection: close'' @ [CR, LF] @
    ''User-Agent: SolixOS-Lynx/1.0'' @ [CR, LF] @ [CR, LF]) [Va_Str (Some path), Va_Str (Some hostname)] = Some ?t"
    by (simp add: spec_item_def)
  moreover have "length ?t < 1024" using assms by simp
  ultimately have "http_request path hostname = Inr ?t" unfolding http_request_def by (rule sprintf_to_spec) simp
  thus ?thesis by blast
qed


lemma parse_html_ok:
  assumes "page_ok p" "length url < BROWSER_MAX_URL"
  shows "\<exists>q. browser_parse_html html (p\<lparr>page_url := url\<rparr>) = Inr q \<and> page_ok q \<and> page_url q = url \<and>
    browser_extract_links html = Inr (page_links q) \<and> page_content q = browser_format_text html BROWSER_MAX_CONTENT"
proof -
  obtain ls where ls: "browser_extract_links html = Inr ls" "length ls \<le> BROWSER_MAX_LINKS" "\<forall>l\<in>set ls. link_ok l"
    using links_loop_ok [of "[]" 1 html] by (auto simp: browser_extract_links_def)
  have len: "length (browser_format_text html BROWSER_MAX_CONTENT) < BROWSER_MAX_CONTENT"
    using format_loop_passes [of "[]" BROWSER_MAX_CONTENT False False html] by (simp add: browser_format_text_def)
  show ?thesis using ls len assms by (auto simp: browser_parse_html_def Let_def bind_res_def page_ok_def)
qed

lemma aliased_url_ok: "page_ok p \<Longrightarrow> length url < BROWSER_MAX_URL \<Longrightarrow> length (aliased_url a url p) < BROWSER_MAX_URL"
  by (auto simp: aliased_url_def page_ok_def link_ok_def split: option.splits)

lemma add_history_ok: "hist_ok h \<Longrightarrow> length url < BROWSER_MAX_URL \<Longrightarrow> hist_ok (add_history url h)"
  by (auto simp: hist_ok_def add_history_def)

text \<open>What loading a page does when the download succeeds.\<close>

lemma load_page_result:
  assumes "browser_ok b" "length url < BROWSER_MAX_URL" "starts HTTP url" "0 < n"
    and dl: "browser_download_page E url BROWSER_MAX_CONTENT (br_tcp b) = Some (Inr ((n, r), c))"
  shows "\<exists>q b'. load_page E a url b = Some (Inr b') \<and> browser_ok b' \<and> current_page b' = q \<and> page_url q = url \<and>
    browser_extract_links r = Inr (page_links q) \<and> page_content q = browser_format_text r BROWSER_MAX_CONTENT \<and>
    history b' = add_history (aliased_url a url q) (history b) \<and> browser_active b' = browser_active b \<and> br_keys b' = br_keys b"
proof -
  let ?b = "b\<lparr>br_tcp := c\<rparr>"
  have ok: "page_ok (current_page ?b)" "hist_ok (history ?b)" using assms(1) by (simp_all add: browser_ok_def)
  obtain q where q: "browser_parse_html r ((current_page ?b)\<lparr>page_url := url\<rparr>) = Inr q" "page_ok q" "page_url q = url"
    "browser_extract_links r = Inr (page_links q)" "page_content q = browser_format_text r BROWSER_MAX_CONTENT"
    using parse_html_ok [OF ok(1) assms(2)] by blast
  obtain ops where rd: "browser_render_page E (?b\<lparr>current_page := q\<rparr>) = Inr (outs ops (?b\<lparr>current_page := q\<rparr>))"
    using browser_render_page_ok [of "?b\<lparr>current_page := q\<rparr>" E] q(2) by auto
  let ?h = "add_history (aliased_url a url q) (history b)"
  let ?r = "browser_status_message E ''Page loaded'' ((outs ops (?b\<lparr>current_page := q\<rparr>))\<lparr>history := ?h\<rparr>)"
  have "load_page E a url b = Some (Inr ?r)" using assms q(1) rd by (simp add: load_page_def Let_def)
  moreover have "hist_ok ?h" using ok(2) aliased_url_ok [OF q(2) assms(2)] by (simp add: add_history_ok)
  hence "browser_ok ?r" using q(2) by (simp add: browser_ok_def browser_status_message_def)
  ultimately show ?thesis using q by (intro exI [of _ q] exI [of _ ?r]) (simp add: browser_status_message_def)
qed








section \<open>Sessions\<close>







text \<open>An environment with a server whose answer is the rest of a string.\<close>

definition demo_env :: "heap \<Rightarrow> string browser_env" where
  "demo_env h = \<lparr>scr_width = 80, scr_height = 25, br_net = host h 0x0A000001 1,
     sock_vars = \<lparr>sock_type = 1, protocol = 0, local_ip = 0, local_port = 0, remote_ip = 0, remote_port = 0, sock_state = 0\<rparr>,
     tcp_connect = \<lambda>_ _ _ c. (0, c), tcp_send = \<lambda>_ _ c. (0, c), tcp_receive = \<lambda>_ n c. (take n c, drop n c)\<rparr>"

lemma demo_device: "net_get_device ''eth0'' (br_net (demo_env h)) = Inr 1" "dev_objs (br_net (demo_env h)) 1 = Some (host_dev 0x0A000001 1)"
  by (simp_all add: demo_env_def net_get_device_def host_def host_dev_def registered_def)



text \<open>
  Following a link (apps/browser/lynx.c, browser\_follow\_link and browser\_navigate). The page the link points to is
  loaded and becomes the current one. But the URL is passed as a pointer into the array of links,
  which the new page's links overwrite before it is copied to the history: if the new page has at least
  as many links as the number pressed, the history gets the URL of that link of the new page, which was
  never visited, instead of the page's own; the command to go back goes there.
\<close>

theorem follow_link_history:
  assumes "browser_ok b" and "browser_active b" and "0 < k" and "k \<le> length (page_links (current_page b))"
    and "url = link_url (page_links (current_page b) ! (k - 1))" and "starts HTTP url" and "length (hist_urls (history b)) < BROWSER_HISTORY_SIZE"
    and "browser_download_page E url BROWSER_MAX_CONTENT (br_tcp b) = Some (Inr ((n, r), c))" and "0 < n" and "browser_extract_links r = Inr ls"
  shows "\<exists>b'. browser_follow_link E k b = Some (Inr b') \<and> page_url (current_page b') = url \<and> page_links (current_page b') = ls \<and>
    page_content (current_page b') = browser_format_text r BROWSER_MAX_CONTENT \<and>
    hist_urls (history b') = hist_urls (history b) @ [if k \<le> length ls then link_url (ls ! (k - 1)) else url] \<and>
    hist_current (history b') = int (length (hist_urls (history b)))"
proof -
  have "link_ok (page_links (current_page b) ! (k - 1))" using assms(1,3,4) by (simp add: browser_ok_def page_ok_def)
  hence len: "length url < BROWSER_MAX_URL" using assms(5) by (simp add: link_ok_def)
  let ?b = "browser_status_message E ''Loading...'' b"
  have dl: "browser_download_page E url BROWSER_MAX_CONTENT (br_tcp ?b) = Some (Inr ((n, r), c))" "browser_ok ?b"
    using assms(1,8) by (simp_all add: browser_status_message_def [of _ _ b])
  from load_page_result [OF this(2) len assms(6,9) this(1), of "Some (k - 1)"] obtain b' where
    b': "load_page E (Some (k - 1)) url ?b = Some (Inr b')" "page_url (current_page b') = url" "browser_extract_links r = Inr (page_links (current_page b'))"
    "page_content (current_page b') = browser_format_text r BROWSER_MAX_CONTENT" "history b' = add_history (aliased_url (Some (k - 1)) url (current_page b')) (history ?b)"
    by blast
  have "browser_follow_link E k b = Some (Inr b')" using b'(1) assms(2-5) by (simp add: browser_follow_link_def browser_navigate_def)
  moreover have "history ?b = history b" by (simp add: browser_status_message_def)
  moreover have "k - 1 < length ls \<longleftrightarrow> k \<le> length ls" using assms(3) by auto
  ultimately show ?thesis using b' assms(7,10) by (auto simp: add_history_def aliased_url_def)
qed

lemma demo_download:
  assumes "browser_parse_url url 256 512 = Some (hostname, path)" "ans \<noteq> []" "length ans < 1024" "CHR 0x00 \<notin> set ans" "strstr CRLF2 ans = Some h'"
  shows "browser_download_page (demo_env h) url BROWSER_MAX_CONTENT ans = Some (Inr ((int (length (drop 4 h')), drop 4 h'), []))"
proof -
  let ?E = "demo_env h"
  obtain t where t: "http_request path hostname = Inr t" using http_request_ok parse_url_bounds [OF assms(1)] by auto
  have rc: "tcp_receive ?E = (\<lambda>_ n c. (take n c, drop n c))" by (simp add: demo_env_def)
  have r: "receive_loop ?E sock BROWSER_MAX_CONTENT [] ans = Inr (ans, [])" for sock
    using assms(2,3) by (simp add: receive_loop.simps [of ?E sock BROWSER_MAX_CONTENT "[]" ans] receive_loop.simps [of ?E sock BROWSER_MAX_CONTENT ans "[]"] rc)
  have w: "takeWhile (\<lambda>c. c \<noteq> CHR 0x00) ans = ans" using assms(4) by (simp add: takeWhile_eq_all_conv) metis
  have tcp: "tcp_connect ?E = (\<lambda>_ _ _ c. (0, c))" "tcp_send ?E = (\<lambda>_ _ c. (0, c))" by (simp_all add: demo_env_def)
  show ?thesis unfolding browser_download_page_def assms(1) using t r assms(5) demo_device [of h] by (simp add: the_dev_def Let_def tcp w)
qed

definition demo_answer :: string where
  "demo_answer = ''HTTP/1.1 200 OK'' @ CRLF2 @ cut_page ''see <a '' [(''http://10.0.0.9/elsewhere'', ''>this</a>'')]"

definition demo_page :: browser_page where
  "demo_page = \<lparr>page_url = ''http://10.0.0.2/'', page_content = ''a'',
     page_links = [\<lparr>link_url = ''http://10.0.0.2/x'', link_text = ''x'', link_line = -1, link_col = -1\<rparr>], current_line = 0, num_lines = 1\<rparr>"

theorem follow_link_history_witness:
  "\<forall>h b. \<exists>b'. browser_follow_link (demo_env h) 1
       (b\<lparr>current_page := demo_page, history := \<lparr>hist_urls = [''http://10.0.0.2/''], hist_current = 0\<rparr>, browser_active := True, br_tcp := demo_answer\<rparr>) = Some (Inr b') \<and>
     page_url (current_page b') = ''http://10.0.0.2/x'' \<and> hist_urls (history b') = [''http://10.0.0.2/'', ''http://10.0.0.9/elsewhere'']"
proof (intro allI)
  fix h and b :: "string browser"
  let ?b = "b\<lparr>current_page := demo_page, history := \<lparr>hist_urls = [''http://10.0.0.2/''], hist_current = 0\<rparr>, browser_active := True, br_tcp := demo_answer\<rparr>"
  let ?body = "cut_page ''see <a '' [(''http://10.0.0.9/elsewhere'', ''>this</a>'')]"
  have u: "browser_parse_url ''http://10.0.0.2/x'' 256 512 = Some (''10.0.0.2'', ''/x'')" "starts HTTP ''http://10.0.0.2/x''" by code_simp+
  have "demo_answer \<noteq> []" "length demo_answer < 1024" "CHR 0x00 \<notin> set demo_answer" "strstr CRLF2 demo_answer = Some (CRLF2 @ ?body)" by code_simp+
  from demo_download [OF u(1) this, of h] have
    dl: "browser_download_page (demo_env h) ''http://10.0.0.2/x'' BROWSER_MAX_CONTENT (br_tcp ?b) = Some (Inr ((int (length ?body), ?body), []))" by simp
  have "strstr HREF ''see <a '' = None" "\<forall>(u, g')\<in>set [(''http://10.0.0.9/elsewhere'', ''>this</a>'')]. CHR 0x22 \<notin> set u \<and> strstr HREF g' = None" by code_simp+
  with links_loop_page [of "[]" 1 "''see <a ''" "[(''http://10.0.0.9/elsewhere'', ''>this</a>'')]"] obtain ls where
    ls: "browser_extract_links ?body = Inr ls" "map link_url ls = [''http://10.0.0.9/elsewhere'']" by (auto simp: browser_extract_links_def)
  have l1: "length ls = 1" "link_url (ls ! 0) = ''http://10.0.0.9/elsewhere''" using ls(2) by (auto simp: map_eq_Cons_conv)
  have ok: "browser_ok ?b" by (simp add: browser_ok_def page_ok_def hist_ok_def demo_page_def link_ok_def)
  have p: "0 < (1 :: nat)" "1 \<le> length (page_links (current_page ?b))" "''http://10.0.0.2/x'' = link_url (page_links (current_page ?b) ! (1 - 1))"
    "length (hist_urls (history ?b)) < BROWSER_HISTORY_SIZE" "browser_active ?b" by (simp_all add: demo_page_def)
  have n: "0 < int (length ?body)" by simp
  from follow_link_history [OF ok p(5,1-3) u(2) p(4) dl n ls(1)] l1
  show "\<exists>b'. browser_follow_link (demo_env h) 1 ?b = Some (Inr b') \<and> page_url (current_page b') = ''http://10.0.0.2/x'' \<and>
      hist_urls (history b') = [''http://10.0.0.2/'', ''http://10.0.0.9/elsewhere'']" by auto
qed

end
