(* ===== verification/Solix_Apps.thy ===== *)
theory Solix_Apps
  imports Solix_Browser
begin

text \<open>
  The network commands, after \<^verbatim>\<open>apps/net/\<close>: \<^verbatim>\<open>ping\<close>, \<^verbatim>\<open>ifconfig\<close> and \<^verbatim>\<open>curl\<close>, over the network stack of \<open>Solix_Net\<close> and the
  string functions of \<open>Solix_Html\<close>. The environment of \<^verbatim>\<open>curl\<close> is that of the browser. A state of a command is that of
  the network with what was printed so far.
\<close>

declare of_nat_add [simp del]

section \<open>ping\<close>

record app =
  app_net :: net
  app_out :: "screen_op list"

definition prints :: "screen_op list \<Rightarrow> app \<Rightarrow> app" where
  "prints ops a = a\<lparr>app_out := app_out a @ ops\<rparr>"

text \<open>One round: the request, the message, and one second of waiting.\<close>

definition ping_round :: "(u32 \<Rightarrow> u8 list \<Rightarrow> int) \<Rightarrow> string \<Rightarrow> u32 \<Rightarrow> app \<Rightarrow> app run" where
  "ping_round drv name target_ip a =
     (let start_time = ticks (app_net a)
      in bind_run (icmp_ping drv target_ip (app_net a)) (\<lambda>(r, s).
           let a1 = prints (if r = 0 then [Put ''Reply from '', Put name, Put '': time='', Put (number (ticks s - start_time)), Put (''ms'' @ NL)]
                            else [Put (''Request timed out'' @ NL)]) (a\<lparr>app_net := s\<rparr>)
           in Some (Inr (a1\<lparr>app_net := s\<lparr>ticks := ticks s + 100\<rparr>\<rparr>))))"

fun ping_rounds :: "nat \<Rightarrow> (u32 \<Rightarrow> u8 list \<Rightarrow> int) \<Rightarrow> string \<Rightarrow> u32 \<Rightarrow> app \<Rightarrow> app run" where
  "ping_rounds 0 drv name target_ip a = Some (Inr a)"
| "ping_rounds (Suc n) drv name target_ip a = bind_run (ping_round drv name target_ip a) (ping_rounds n drv name target_ip)"

definition ping_main :: "(u32 \<Rightarrow> u8 list \<Rightarrow> int) \<Rightarrow> string list \<Rightarrow> app \<Rightarrow> (int \<times> app) run" where
  "ping_main drv argv a =
     (if length argv \<noteq> 2 then Some (Inr (1, prints [Put (''Usage: ping <ip_address>'' @ NL)] a))
      else let target_ip = ip_aton (argv ! 1)
           in if target_ip = 0 then Some (Inr (1, prints [Put (''Invalid IP address'' @ NL)] a))
              else bind_run (ping_rounds 4 drv (argv ! 1) target_ip
                      (prints [Put ''PING '', Put (argv ! 1), Put '' ('', Put (argv ! 1), Put ('')'' @ NL)] a)) (\<lambda>a1. Some (Inr (0, a1))))"

section \<open>ifconfig\<close>

text \<open>The entries of the array that are not null, counted from 0.\<close>

definition net_get_device_by_index :: "int \<Rightarrow> net \<Rightarrow> u32" where
  "net_get_device_by_index index s =
     (if index < 0 \<or> index \<ge> 16 then 0
      else let ps = filter (\<lambda>p. p \<noteq> 0) (take 16 (slots (devices s)))
           in if nat index < length ps then ps ! nat index else 0)"

definition hex_text :: "u8 \<Rightarrow> string" where
  "hex_text b = ''0x'' @ hex8 (ucast b)"

fun mac_ops :: "u8 list \<Rightarrow> screen_op list" where
  "mac_ops [] = []"
| "mac_ops [b] = [Put (hex_text b)]"
| "mac_ops (b # c # bs) = Put (hex_text b) # Put '':'' # mac_ops (c # bs)"

definition interface_line :: "net_device \<Rightarrow> screen_op list" where
  "interface_line d =
     [Put (dev_name d), Put ''            '', Put (ip_ntoa (ip_addr d)), Put ''      '', Put (ip_ntoa (netmask d)), Put ''      '',
      Put (ip_ntoa (gateway d)), Put ''      ''] @ mac_ops (mac d) @ [Put NL]"

fun show_interfaces :: "nat list \<Rightarrow> app \<Rightarrow> fault + app" where
  "show_interfaces [] a = Inr a"
| "show_interfaces (i # is) a =
     (let p = net_get_device_by_index (int i) (app_net a)
      in if p = 0 then Inr a
         else case dev_objs (app_net a) p of
                None \<Rightarrow> Inl (Wild_Access p)
              | Some d \<Rightarrow> show_interfaces is (prints (interface_line d) a))"

definition ifconfig_main :: "string list \<Rightarrow> app \<Rightarrow> fault + int \<times> app" where
  "ifconfig_main argv a =
     (if length argv = 1 then
        bind_res (show_interfaces [0..<16]
          (prints [Put (''Interface      IP Address      Netmask         Gateway         MAC Address'' @ NL),
                   Put (replicate 77 (CHR ''-'') @ NL)] a)) (\<lambda>a1. Inr (0, a1))
      else if length argv < 3 then Inr (1, prints [Put (''Usage: ifconfig <interface> <ip_address> [netmask] [gateway]'' @ NL)] a)
      else bind_res (net_get_device (argv ! 1) (app_net a)) (\<lambda>p.
        if p = 0 then Inr (1, prints [Put ''Interface not found: '', Put (argv ! 1), Put NL] a)
        else case dev_objs (app_net a) p of
               None \<Rightarrow> Inl (Wild_Access p)
             | Some d \<Rightarrow>
                 let d1 = d\<lparr>ip_addr := ip_aton (argv ! 2)\<rparr>;
                     d2 = (if length argv \<ge> 4 then d1\<lparr>netmask := ip_aton (argv ! 3)\<rparr> else d1);
                     d3 = (if length argv \<ge> 5 then d2\<lparr>gateway := ip_aton (argv ! 4)\<rparr> else d2);
                     s = (app_net a)\<lparr>dev_objs := (dev_objs (app_net a))(p \<mapsto> d3)\<rparr>
                 in Inr (0, prints [Put ''Interface '', Put (dev_name d3), Put ('' configured'' @ NL)] (a\<lparr>app_net := s\<rparr>))))"

section \<open>curl\<close>

text \<open>Host and path are copied into buffers of 256 and 512 characters without looking at their lengths.\<close>

definition curl_split :: "string \<Rightarrow> fault + string \<times> string" where
  "curl_split url =
     (let hp = (case strchr CHR ''/'' url of
                  Some slash \<Rightarrow> (takeWhile (\<lambda>c. c \<noteq> CHR ''/'') url, slash)
                | None \<Rightarrow> (url, ''/''))
      in if length (fst hp) < 256 \<and> length (snd hp) < 512 then Inr hp else Inl Out_Of_Bounds)"

definition curl_request :: "string \<Rightarrow> string \<Rightarrow> fault + string" where
  "curl_request path hostname =
     sprintf_to 1024 (''GET %s HTTP/1.1'' @ [CR, LF] @ ''Host: %s'' @ [CR, LF] @ ''Connection: close'' @ [CR, LF] @ [CR, LF])
       [Va_Str (Some path), Va_Str (Some hostname)]"

partial_function (option) curl_receive :: "'c browser_env \<Rightarrow> socket \<Rightarrow> nat \<Rightarrow> screen_op list \<Rightarrow> 'c \<Rightarrow> (fault + nat \<times> screen_op list \<times> 'c) option" where
  "curl_receive E sock received out c =
     (case tcp_receive E sock 1023 c of
        (bytes, c1) \<Rightarrow>
          if bytes = [] then Some (Inr (received, out, c1))
          else if length bytes > 1023 then Some (Inl Out_Of_Bounds)
          else if length bytes < 1023 then Some (Inr (received + length bytes, out @ [Put (takeWhile (\<lambda>c. c \<noteq> CHR 0x00) bytes)], c1))
          else curl_receive E sock (received + length bytes) (out @ [Put (takeWhile (\<lambda>c. c \<noteq> CHR 0x00) bytes)]) c1)"

definition curl_connected :: "'c browser_env \<Rightarrow> socket \<Rightarrow> string \<times> string \<Rightarrow> screen_op list \<Rightarrow> 'c \<Rightarrow> (int \<times> screen_op list \<times> 'c) run" where
  "curl_connected E sock hp out c =
     bind_run (Some (curl_request (snd hp) (fst hp))) (\<lambda>request.
       case tcp_send E sock request c of
         (r, c1) \<Rightarrow>
           if r \<noteq> 0 then Some (Inr (1, out @ [Put (''Failed to send request'' @ NL)], c1))
           else bind_run (curl_receive E sock 0 (out @ [Put (''HTTP request sent, waiting for response...'' @ NL)]) c1) (\<lambda>(received, out1, c2).
                  Some (Inr (0, out1 @ [Put (NL @ ''Total received: ''), Put (number (of_nat received)), Put ('' bytes'' @ NL)], c2))))"

definition curl_main :: "'c browser_env \<Rightarrow> string list \<Rightarrow> screen_op list \<Rightarrow> 'c \<Rightarrow> (int \<times> screen_op list \<times> 'c) run" where
  "curl_main E argv out c =
     (if length argv \<noteq> 2 then Some (Inr (1, out @ [Put (''Usage: curl <url>'' @ NL)], c))
      else if \<not> starts HTTP (argv ! 1) then Some (Inr (1, out @ [Put (''Only HTTP URLs are supported'' @ NL)], c))
      else bind_run (Some (curl_split (drop 7 (argv ! 1)))) (\<lambda>hp.
        let host_ip = ip_aton (fst hp)
        in if host_ip = 0 then Some (Inr (1, out @ [Put (''Hostname resolution not supported, use IP address'' @ NL)], c))
           else bind_run (Some (net_get_device ''eth0'' (br_net E))) (\<lambda>p.
                bind_run (the_dev p (br_net E)) (\<lambda>dev.
                  let sock = (sock_vars E)\<lparr>protocol := 6, local_ip := ip_addr dev, local_port := 12345, remote_ip := host_ip, remote_port := 80\<rparr>;
                      out1 = out @ [Put ''Connecting to '', Put (fst hp), Put (''...'' @ NL)]
                  in case tcp_connect E sock host_ip 80 c of
                       (r, c1) \<Rightarrow>
                         if r \<noteq> 0 then Some (Inr (1, out1 @ [Put (''Connection failed'' @ NL)], c1))
                         else curl_connected E sock hp out1 c1))))"

section \<open>Facts\<close>

lemma icmp_ping_sends:
  assumes ok: "net_ok bs s" and dev: "net_get_device ''eth0'' s = Inr p" "dev_objs s p = Some d"
  shows "sends bs s (icmp_ping drv target_ip s) UNIV"
proof -
  let ?pkt = "icmp_packet 8 (net_checksum (icmp_packet 8 0 (le32 (ticks s)))) (le32 (ticks s))"
  have len: "length ?pkt < 2 ^ 32 - 38" by (simp add: icmp_packet_def hdr_defs)
  have tr: "sends bs1 (s\<lparr>net_heap := h\<rparr>) (ip_transmit drv (ip_addr d) target_ip IPPROTO_ICMP ?pkt (s\<lparr>net_heap := h\<rparr>)) UNIV"
    if "heap_inv h bs1" for h bs1
  proof -
    have "net_ok bs1 (s\<lparr>net_heap := h\<rparr>)" by (rule net_ok_heap [OF ok that])
    from ip_transmit_sends [OF net_okD [OF this] len] show ?thesis by (rule sends_mono) simp
  qed
  have "sends bs s (icmp_ping drv target_ip s) (UNIV \<union> unless_room bs (buf 12))"
    unfolding icmp_ping_def
    by (rule with_buffer_sends [OF net_okD(1) [OF ok]]) (use tr dev in \<open>simp_all add: the_dev_def net_get_device_def Let_def\<close>)
  thus ?thesis by simp
qed

lemma ping_rounds_safe:
  "net_ok bs (app_net a) \<Longrightarrow> net_get_device ''eth0'' (app_net a) = Inr p \<Longrightarrow> dev_objs (app_net a) p = Some d \<Longrightarrow>
   \<exists>b. ping_rounds n drv name target_ip a = Some (Inr b) \<and> net_ok bs (app_net b) \<and> ticks (app_net b) = ticks (app_net a) + 100 * of_nat n"
proof (induction n arbitrary: a)
  case (Suc n)
  obtain r fs h where r: "icmp_ping drv target_ip (app_net a) = Some (Inr (r, (app_net a)\<lparr>net_heap := h, wire := wire (app_net a) @ fs\<rparr>))"
    "same_heap bs (net_heap (app_net a)) h" using icmp_ping_sends [OF Suc.prems, of drv target_ip] by (auto simp: sends_def)
  let ?s = "(app_net a)\<lparr>net_heap := h, wire := wire (app_net a) @ fs, ticks := ticks (app_net a) + 100\<rparr>"
  obtain b where b: "ping_round drv name target_ip a = Some (Inr b)" "app_net b = ?s" using r(1) by (simp add: ping_round_def Let_def)
  have "net_ok bs ?s" using net_ok_upd [OF Suc.prems(1) r(2)] by (simp add: net_ok_def devices_ok_def macs_ok_def arp_ok_def arp_keys_def)
  with Suc.IH [of b] b(2) Suc.prems(2,3) obtain c where "ping_rounds n drv name target_ip b = Some (Inr c)" "net_ok bs (app_net c)"
    "ticks (app_net c) = ticks ?s + 100 * of_nat n" by (auto simp: net_get_device_def)
  thus ?case using b by (simp add: algebra_simps)
qed simp

text \<open>On a sound network with a device \<^verbatim>\<open>eth0\<close>, \<^verbatim>\<open>ping\<close> never faults, keeps the state sound and takes four seconds.\<close>

lemma ping_main_safe:
  assumes "net_ok bs (app_net a)" "net_get_device ''eth0'' (app_net a) = Inr p" "dev_objs (app_net a) p = Some d"
  shows "\<exists>r b. ping_main drv argv a = Some (Inr (r, b)) \<and> net_ok bs (app_net b) \<and>
    ticks (app_net b) = ticks (app_net a) + (if r = 0 then 400 else 0)"
proof -
  let ?b = "prints [Put ''PING '', Put (argv ! 1), Put '' ('', Put (argv ! 1), Put ('')'' @ NL)] a"
  have p: "app_net (prints ops a) = app_net a" for ops by (simp add: prints_def)
  obtain c where c: "ping_rounds 4 drv (argv ! 1) (ip_aton (argv ! 1)) ?b = Some (Inr c)" "net_ok bs (app_net c)" "ticks (app_net c) = ticks (app_net a) + 400"
    using ping_rounds_safe [of bs ?b p d 4 drv "argv ! 1" "ip_aton (argv ! 1)"] assms p by auto
  consider "length argv \<noteq> 2" | "length argv = 2" "ip_aton (argv ! 1) = 0" | "length argv = 2" "ip_aton (argv ! 1) \<noteq> 0" by blast
  thus ?thesis by cases (use assms c p in \<open>simp_all add: ping_main_def Let_def\<close>)
qed

text \<open>Setting an address that is then shown: the line printed for the interface holds what was typed.\<close>

lemma ifconfig_sets:
  assumes "net_get_device n (app_net a) = Inr p" "p \<noteq> 0" "dev_objs (app_net a) p = Some d"
  shows "\<exists>b. ifconfig_main [c, n, ip_ntoa ip] a = Inr (0, b) \<and> dev_objs (app_net b) p = Some (d\<lparr>ip_addr := ip_aton (ip_ntoa ip)\<rparr>) \<and>
    (\<forall>q. q \<noteq> p \<longrightarrow> dev_objs (app_net b) q = dev_objs (app_net a) q)"
  using assms by (simp add: ifconfig_main_def bind_res_def Let_def prints_def)

text \<open>A host name of 256 or more characters runs over the buffer, which the browser checks.\<close>

lemma curl_overruns:
  assumes "256 \<le> length hostname" "CHR ''/'' \<notin> set hostname"
  shows "curl_main E [c, HTTP @ hostname] out t = Some (Inl Out_Of_Bounds) \<and> browser_parse_url (HTTP @ hostname) 256 512 = None"
proof -
  have "dropWhile (\<lambda>d. d \<noteq> CHR ''/'') hostname = []" using assms(2) by (induction hostname) auto
  hence "strchr CHR ''/'' hostname = None" unfolding strchr_def by (simp only: list.case)
  thus ?thesis using assms(1) by (simp add: curl_main_def curl_split_def starts_def browser_parse_url_def)
qed

end
