(* ===== verification/Solix_Pkg.thy ===== *)
theory Solix_Pkg
  imports Solix_Apps
begin

text \<open>
  The package manager, after \<^verbatim>\<open>apps/pkg/pkg.c\<close>: the table of repositories, the lists of packages that are
  downloaded, parsed and searched, and installation, over the file system of \<open>Solix_Vfs\<close>, the heap of \<open>Solix_Alloc\<close>
  and the network of \<open>Solix_Net\<close>. The arrays of packages lie in a store indexed by their addresses, each with the
  elements that have been filled in; strings stand for the character arrays that hold them. The TCP functions and
  \<^verbatim>\<open>vfs_unlink\<close> are arguments as in \<open>Solix_Browser\<close> and \<open>Solix_Shell\<close>; so is the value of \<^verbatim>\<open>O_APPEND\<close>, which the
  headers that \<^verbatim>\<open>pkg.c\<close> includes do not define, and what the stack holds where arrays are not initialised.
\<close>

declare of_nat_add [simp del]

section \<open>State\<close>

abbreviation PKG_MAX_NAME :: nat where "PKG_MAX_NAME \<equiv> 64"
abbreviation PKG_MAX_VERSION :: nat where "PKG_MAX_VERSION \<equiv> 32"
abbreviation PKG_MAX_DESC :: nat where "PKG_MAX_DESC \<equiv> 256"
abbreviation PKG_MAX_PATH :: nat where "PKG_MAX_PATH \<equiv> 256"
abbreviation PKG_STATE_AVAILABLE :: u8 where "PKG_STATE_AVAILABLE \<equiv> 0"
abbreviation PKG_STATE_INSTALLED :: u8 where "PKG_STATE_INSTALLED \<equiv> 1"

text \<open>The lists hold the first \<^verbatim>\<open>num_dependencies\<close> and \<^verbatim>\<open>num_files\<close> elements of the arrays.\<close>

record package =
  pkg_name :: string
  pkg_version :: string
  pkg_description :: string
  pkg_dependencies :: "string list"
  pkg_files :: "string list"
  pkg_size :: u32
  pkg_installed_size :: u32
  pkg_state :: u8
  pkg_install_date :: u32

definition PACKAGE_T_SIZE :: u32 where "PACKAGE_T_SIZE = 34168"

record pkg_repo =
  repo_name :: string
  repo_url :: string
  repo_path :: string
  repo_enabled :: bool
  repo_packages :: u32
  repo_num_packages :: nat

record ('d, 'c) pkg =
  repos :: "pkg_repo list"
  num_repos :: nat
  pk_packages :: u32
  pk_num_packages :: nat
  db_loaded :: bool
  pk_arrays :: "u32 \<rightharpoonup> package list"
  pk_fs :: "'d fs"
  pk_tcp :: 'c
  pk_time :: u32
  pk_out :: "screen_op list"

record ('d, 'c) pkg_env =
  pe_disk :: "'d disk_driver"
  pe_vfs :: "'d vfs_rest"
  pe_net :: "'c browser_env"
  pe_stack :: "u8 list"
  pe_buffer :: string
  pe_O_APPEND :: u32

definition tells :: "string list \<Rightarrow> ('d, 'c) pkg \<Rightarrow> ('d, 'c) pkg" where
  "tells ts s = s\<lparr>pk_out := pk_out s @ map Put ts\<rparr>"

text \<open>\<^verbatim>\<open>vfs_mkdir\<close> at the present time; its result is not looked at.\<close>

definition pk_mkdir :: "('d, 'c) pkg_env \<Rightarrow> string \<Rightarrow> ('d, 'c) pkg \<Rightarrow> ('d, 'c) pkg run" where
  "pk_mkdir E path s =
     bind_run (vfs_mkdir (pe_disk E) (pk_time s, pk_time s, pk_time s) (pe_stack E) path (pk_fs s)) (\<lambda>(_, f). Some (Inr (s\<lparr>pk_fs := f\<rparr>)))"

definition pk_open :: "('d, 'c) pkg_env \<Rightarrow> string \<Rightarrow> u32 \<Rightarrow> ('d, 'c) pkg \<Rightarrow> (int \<times> ('d, 'c) pkg) run" where
  "pk_open E path flags s = bind_run (vfs_open (pe_disk E) path flags (pk_fs s)) (\<lambda>(fd, f). Some (Inr (fd, s\<lparr>pk_fs := f\<rparr>)))"

definition pk_close :: "int \<Rightarrow> ('d, 'c) pkg \<Rightarrow> ('d, 'c) pkg" where
  "pk_close fd s = s\<lparr>pk_fs := snd (vfs_close fd (pk_fs s))\<rparr>"

text \<open>
  Writing \<open>len\<close> bytes from \<open>body\<close> on. A negative length is a huge count for \<^verbatim>\<open>vfs_write\<close>: a regular file is then
  written from far behind the buffer, a directory refuses.
\<close>

definition file_backed :: "int \<Rightarrow> 'd fs \<Rightarrow> bool" where
  "file_backed fd f = (case vnodes f (fvnode (file_table f ! nat fd)) of None \<Rightarrow> False | Some v \<Rightarrow> vops v = File_Ops)"

definition pk_write :: "('d, 'c) pkg_env \<Rightarrow> int \<Rightarrow> string \<Rightarrow> int \<Rightarrow> ('d, 'c) pkg \<Rightarrow> ('d, 'c) pkg run" where
  "pk_write E fd body len s =
     (if len < 0 \<and> file_backed fd (pk_fs s) then Some (Inl Out_Of_Bounds)
      else bind_run (Some (vfs_write (pe_disk E) fd (map (\<lambda>c. of_nat (of_char c)) (take (nat len) body)) (pk_fs s))) (\<lambda>(_, f).
           Some (Inr (s\<lparr>pk_fs := f\<rparr>))))"

section \<open>The database\<close>

abbreviation PKG_DB_PATH :: string where "PKG_DB_PATH \<equiv> ''/var/lib/pkg/packages.db''"

definition pkg_db_load :: "('d, 'c) pkg_env \<Rightarrow> ('d, 'c) pkg \<Rightarrow> (int \<times> ('d, 'c) pkg) run" where
  "pkg_db_load E s =
     (if db_loaded s then Some (Inr (0, s))
      else bind_run (pk_open E PKG_DB_PATH O_RDONLY s) (\<lambda>(fd, s1).
           if fd < 0 then Some (Inr (0, tells [''Creating new package database'' @ NL] s1))
           else Some (Inr (0, (pk_close fd s1)\<lparr>db_loaded := True\<rparr>))))"

definition pkg_db_save :: "('d, 'c) pkg_env \<Rightarrow> ('d, 'c) pkg \<Rightarrow> (int \<times> ('d, 'c) pkg) run" where
  "pkg_db_save E s =
     bind_run (pk_open E PKG_DB_PATH (O_CREAT OR O_WRONLY) s) (\<lambda>(fd, s1).
       if fd < 0 then Some (Inr (-1, s1)) else Some (Inr (0, pk_close fd s1)))"

section \<open>Repositories\<close>

definition pkg_add_repo :: "('d, 'c) pkg_env \<Rightarrow> string \<Rightarrow> string \<Rightarrow> string \<Rightarrow> ('d, 'c) pkg \<Rightarrow> (int \<times> ('d, 'c) pkg) run" where
  "pkg_add_repo E name url path s =
     (if num_repos s \<ge> 16 then Some (Inr (-1, s))
      else if \<exists>i\<in>set [0..<num_repos s]. repo_name (repos s ! i) = name then Some (Inr (-1, s))
      else if length name \<ge> PKG_MAX_NAME \<or> length url \<ge> PKG_MAX_PATH \<or> length path \<ge> PKG_MAX_PATH then Some (Inl Out_Of_Bounds)
      else let r = \<lparr>repo_name = name, repo_url = url, repo_path = path, repo_enabled = True, repo_packages = 0, repo_num_packages = 0\<rparr>;
               s1 = s\<lparr>repos := list_update (repos s) (num_repos s) r\<rparr>
      in bind_run (pk_mkdir E path s1) (\<lambda>s2.
         Some (Inr (0, tells [''Added repository: '', name, NL] (s2\<lparr>num_repos := num_repos s2 + 1\<rparr>)))))"

text \<open>The loop that moves the following repositories down by one.\<close>

fun shift_down :: "nat list \<Rightarrow> pkg_repo list \<Rightarrow> pkg_repo list" where
  "shift_down [] rs = rs"
| "shift_down (j # js) rs = shift_down js (list_update rs j (rs ! (j + 1)))"

definition free_packages :: "u32 \<Rightarrow> ('d, 'c) pkg \<Rightarrow> ('d, 'c) pkg run" where
  "free_packages p s =
     (if p = 0 then Some (Inr s)
      else bind_run (Some (kfree p (fs_heap (pk_fs s)))) (\<lambda>h.
           Some (Inr (s\<lparr>pk_fs := (pk_fs s)\<lparr>fs_heap := h\<rparr>, pk_arrays := (pk_arrays s)(p := None)\<rparr>))))"

definition pkg_remove_repo :: "string \<Rightarrow> ('d, 'c) pkg \<Rightarrow> (int \<times> ('d, 'c) pkg) run" where
  "pkg_remove_repo name s =
     (case find (\<lambda>i. repo_name (repos s ! i) = name) [0..<num_repos s] of
        None \<Rightarrow> Some (Inr (-1, s))
      | Some i \<Rightarrow>
          bind_run (free_packages (repo_packages (repos s ! i)) s) (\<lambda>s1.
          Some (Inr (0, tells [''Removed repository: '', name, NL]
            (s1\<lparr>repos := shift_down [i..<num_repos s1 - 1] (repos s1), num_repos := num_repos s1 - 1\<rparr>)))))"

text \<open>All seven directories, the database and the default repository. The number of repositories is not reset.\<close>

fun pk_mkdirs :: "('d, 'c) pkg_env \<Rightarrow> string list \<Rightarrow> ('d, 'c) pkg \<Rightarrow> ('d, 'c) pkg run" where
  "pk_mkdirs E [] s = Some (Inr s)"
| "pk_mkdirs E (p # ps) s = bind_run (pk_mkdir E p s) (pk_mkdirs E ps)"

definition no_repo :: pkg_repo where
  "no_repo = \<lparr>repo_name = [], repo_url = [], repo_path = [], repo_enabled = False, repo_packages = 0, repo_num_packages = 0\<rparr>"

definition pkg_init :: "('d, 'c) pkg_env \<Rightarrow> ('d, 'c) pkg \<Rightarrow> ('d, 'c) pkg run" where
  "pkg_init E s =
     bind_run (pk_mkdirs E [''/var'', ''/var/lib'', ''/var/lib/pkg'', ''/var/cache'', ''/var/cache/pkg'', ''/etc'', ''/etc/pkg'']
       (s\<lparr>repos := replicate 16 no_repo, pk_packages := 0, pk_num_packages := 0, db_loaded := False\<rparr>)) (\<lambda>s1.
     bind_run (pkg_db_load E s1) (\<lambda>(_, s2).
     bind_run (pkg_add_repo E ''main'' ''http://packages.solixos.org'' ''/var/cache/pkg/main'' s2) (\<lambda>(_, s3).
     Some (Inr (tells [''Package manager initialized'' @ NL] s3)))))"

section \<open>Parsing a list of packages\<close>

text \<open>
  \<^verbatim>\<open>strtok\<close> on a string with one separator: the token and what is left behind the separator; a token that runs to the
  end of the string leaves nothing.
\<close>

definition strtok_on :: "char \<Rightarrow> string \<Rightarrow> (string \<times> string) option" where
  "strtok_on c s =
     (let t = dropWhile (\<lambda>d. d = c) s
      in if t = [] then None else Some (takeWhile (\<lambda>d. d \<noteq> c) t, drop 1 (dropWhile (\<lambda>d. d \<noteq> c) t)))"

definition empty_package :: package where
  "empty_package = \<lparr>pkg_name = [], pkg_version = [], pkg_description = [], pkg_dependencies = [], pkg_files = [],
     pkg_size = 0, pkg_installed_size = 0, pkg_state = 0, pkg_install_date = 0\<rparr>"

text \<open>A line of the list: name, version, size and description. Without all four the element is not counted.\<close>

definition parse_package_line :: "string \<Rightarrow> package option" where
  "parse_package_line line =
     (if \<not> (0 < length line \<and> length line < 512) then None
      else case strtok_on CHR '' '' line of None \<Rightarrow> None
      | Some (name, r1) \<Rightarrow>
          (case strtok_on CHR '' '' r1 of None \<Rightarrow> None
           | Some (ver, r2) \<Rightarrow>
               (case strtok_on CHR '' '' r2 of None \<Rightarrow> None
                | Some (sz, r3) \<Rightarrow>
                    if r3 = [] then None
                    else Some (empty_package\<lparr>pkg_name := take (PKG_MAX_NAME - 1) name, pkg_version := take (PKG_MAX_VERSION - 1) ver,
                           pkg_size := atoi (dropWhile isspace sz), pkg_description := take (PKG_MAX_DESC - 1) r3,
                           pkg_state := PKG_STATE_AVAILABLE\<rparr>))))"

function parse_lines :: "nat \<Rightarrow> string \<Rightarrow> package list \<Rightarrow> package list" where
  "parse_lines n cs ps =
     (if cs = [] \<or> \<not> length ps < n then ps
      else parse_lines n (drop 1 (dropWhile (\<lambda>c. c \<noteq> LF) cs))
             (case parse_package_line (takeWhile (\<lambda>c. c \<noteq> LF) cs) of None \<Rightarrow> ps | Some p \<Rightarrow> ps @ [p]))"
  by auto
termination
proof (relation "measure (\<lambda>(n, cs, ps). length cs)")
  fix n :: nat and cs :: string and ps :: "package list" assume "\<not> (cs = [] \<or> \<not> length ps < n)"
  moreover have "length (dropWhile (\<lambda>c. c \<noteq> LF) cs) \<le> length cs" by (rule length_dropWhile_le)
  ultimately have "length (drop 1 (dropWhile (\<lambda>c. c \<noteq> LF) cs)) < length cs" by (cases cs) auto
  thus "((n, drop 1 (dropWhile (\<lambda>c. c \<noteq> LF) cs), case parse_package_line (takeWhile (\<lambda>c. c \<noteq> LF) cs) of None \<Rightarrow> ps | Some p \<Rightarrow> ps @ [p]), n, cs, ps)
    \<in> measure (\<lambda>(n, cs, ps). length cs)" by simp
qed simp

declare parse_lines.simps [simp del]

definition upd_repo :: "nat \<Rightarrow> (pkg_repo \<Rightarrow> pkg_repo) \<Rightarrow> ('d, 'c) pkg \<Rightarrow> ('d, 'c) pkg" where
  "upd_repo i f s = s\<lparr>repos := list_update (repos s) i (f (repos s ! i))\<rparr>"

definition pkg_parse_package_list :: "('d, 'c) pkg_env \<Rightarrow> nat \<Rightarrow> string \<Rightarrow> ('d, 'c) pkg \<Rightarrow> (int \<times> ('d, 'c) pkg) run" where
  "pkg_parse_package_list E i file_path s =
     bind_run (pk_open E file_path O_RDONLY s) (\<lambda>(fd, s1).
       if fd < 0 then Some (Inr (-1, s1))
       else bind_run (Some (vfs_read (pe_disk E) fd 4095 (pk_fs s1))) (\<lambda>((bytes, bs), f).
       let s2 = pk_close fd (s1\<lparr>pk_fs := f\<rparr>)
       in if bytes \<le> 0 then Some (Inr (-1, s2))
          else let txt = map (\<lambda>b. char_of (unat b)) (takeWhile (\<lambda>b. b \<noteq> 0) bs);
                   package_count = length (filter (\<lambda>c. c = LF) txt)
          in if package_count = 0 then Some (Inr (0, s2))
          else bind_run (free_packages (repo_packages (repos s2 ! i)) s2) (\<lambda>s3.
               bind_run (kmalloc (of_nat package_count * PACKAGE_T_SIZE) (fs_heap (pk_fs s3))) (\<lambda>(p, h).
               let s4 = upd_repo i (\<lambda>r. r\<lparr>repo_packages := p\<rparr>) (s3\<lparr>pk_fs := (pk_fs s3)\<lparr>fs_heap := h\<rparr>\<rparr>)
               in if p = 0 then Some (Inr (-1, s4))
                  else let ps = parse_lines package_count txt [];
                           s5 = upd_repo i (\<lambda>r. r\<lparr>repo_num_packages := length ps\<rparr>) (s4\<lparr>pk_arrays := (pk_arrays s4)(p \<mapsto> ps)\<rparr>)
                       in Some (Inr (0, tells [''Parsed '', number (of_nat (length ps)), '' packages from '', repo_name (repos s5 ! i), NL] s5))))))"

section \<open>Downloading\<close>

text \<open>\<^verbatim>\<open>sscanf(url, "http://%255[^/]%511[^\n]", host, path)\<close>, if it assigns both.\<close>

definition scan_url :: "string \<Rightarrow> (string \<times> string) option" where
  "scan_url url =
     (if \<not> starts HTTP url then None
      else let r = drop 7 url;
               hostname = take 255 (takeWhile (\<lambda>c. c \<noteq> CHR ''/'') r);
               path = take 511 (takeWhile (\<lambda>c. c \<noteq> LF) (drop (length hostname) r))
           in if hostname = [] \<or> path = [] then None else Some (hostname, path))"

text \<open>
  The loop that looks for the end of the headers. What was received lies over what the buffer held before; there is no
  terminator, so that the search runs out of the buffer unless it finds the blank line or a zero. The result is
  the buffer, where the body begins in it, and how long the loop thinks it is.
\<close>

partial_function (option) skip_headers ::
    "'c browser_env \<Rightarrow> socket \<Rightarrow> string \<Rightarrow> 'c \<Rightarrow> (fault + (string \<times> nat \<times> int) option \<times> 'c) option" where
  "skip_headers E sock held c =
     (case tcp_receive E sock 4096 c of
        (bytes, c1) \<Rightarrow>
          if bytes = [] then Some (Inr (None, c1))
          else if length bytes > 4096 then Some (Inl Out_Of_Bounds)
          else let buf1 = bytes @ drop (length bytes) held; txt = takeWhile (\<lambda>c. c \<noteq> CHR 0x00) buf1
               in (case strstr CRLF2 txt of
                    Some h \<Rightarrow> (let body = length txt - length h + 4
                              in Some (Inr (Some (buf1, body, int (length bytes) - int body), c1)))
                  | None \<Rightarrow> if txt = buf1 then Some (Inl Out_Of_Bounds) else skip_headers E sock buf1 c1))"

text \<open>The loop that appends the rest to the file.\<close>

partial_function (option) receive_rest ::
    "('d, 'c) pkg_env \<Rightarrow> socket \<Rightarrow> string \<Rightarrow> int \<Rightarrow> ('d, 'c) pkg \<Rightarrow> (fault + int \<times> ('d, 'c) pkg) option" where
  "receive_rest E sock dest_path total_received s =
     (case tcp_receive (pe_net E) sock 4096 (pk_tcp s) of
        (bytes, c1) \<Rightarrow>
          let s1 = s\<lparr>pk_tcp := c1\<rparr>
          in if bytes = [] then Some (Inr (total_received, s1))
             else if length bytes > 4096 then Some (Inl Out_Of_Bounds)
             else bind_run (pk_open E dest_path (O_WRONLY OR pe_O_APPEND E) s1) (\<lambda>(fd, s2).
               if fd < 0 then Some (Inr (-1, s2))
               else bind_run (pk_write E fd bytes (int (length bytes)) s2) (\<lambda>s3.
                    receive_rest E sock dest_path (total_received + int (length bytes)) (pk_close fd s3))))"

definition receive_file :: "('d, 'c) pkg_env \<Rightarrow> socket \<Rightarrow> string \<Rightarrow> ('d, 'c) pkg \<Rightarrow> (int \<times> ('d, 'c) pkg) run" where
  "receive_file E sock dest_path s =
     bind_run (skip_headers (pe_net E) sock (pe_buffer E) (pk_tcp s)) (\<lambda>(r, c1).
       let s1 = s\<lparr>pk_tcp := c1\<rparr>
       in case r of
            None \<Rightarrow> Some (Inr (-1, s1))
          | Some (held, body, body_len) \<Rightarrow>
              bind_run (pk_open E dest_path (O_CREAT OR O_WRONLY) s1) (\<lambda>(fd, s2).
                if fd < 0 then Some (Inr (-1, s2))
                else bind_run (pk_write E fd (drop body held) body_len s2) (\<lambda>s3.
                     receive_rest E sock dest_path body_len (pk_close fd s3))))"

definition pkg_download_file :: "('d, 'c) pkg_env \<Rightarrow> string \<Rightarrow> string \<Rightarrow> ('d, 'c) pkg \<Rightarrow> (int \<times> ('d, 'c) pkg) run" where
  "pkg_download_file E url dest_path s =
     (case scan_url url of
        None \<Rightarrow> Some (Inr (-1, s))
      | Some (hostname, path) \<Rightarrow>
          bind_run (Some (net_get_device ''eth0'' (br_net (pe_net E)))) (\<lambda>p.
          bind_run (the_dev p (br_net (pe_net E))) (\<lambda>d.
            let sock = (sock_vars (pe_net E))\<lparr>protocol := 6, local_ip := ip_addr d, local_port := 12345, remote_ip := ip_aton hostname, remote_port := 80\<rparr>
            in case tcp_connect (pe_net E) sock (remote_ip sock) 80 (pk_tcp s) of
                 (r, c1) \<Rightarrow>
                   if r \<noteq> 0 then Some (Inr (-1, s\<lparr>pk_tcp := c1\<rparr>))
                   else bind_run (Some (curl_request path hostname)) (\<lambda>request.
                     case tcp_send (pe_net E) sock request c1 of
                       (r2, c2) \<Rightarrow>
                         if r2 \<noteq> 0 then Some (Inr (-1, s\<lparr>pk_tcp := c2\<rparr>))
                         else receive_file E sock dest_path (s\<lparr>pk_tcp := c2\<rparr>)))))"

fun update_loop :: "('d, 'c) pkg_env \<Rightarrow> nat list \<Rightarrow> ('d, 'c) pkg \<Rightarrow> ('d, 'c) pkg run" where
  "update_loop E [] s = Some (Inr s)"
| "update_loop E (i # is) s =
     (let r = repos s ! i
      in if \<not> repo_enabled r then update_loop E is s
         else bind_run (Some (sprintf_to PKG_MAX_PATH ''%s/packages.txt'' [Va_Str (Some (repo_url r))])) (\<lambda>url.
              bind_run (Some (sprintf_to PKG_MAX_PATH ''%s/packages.txt'' [Va_Str (Some (repo_path r))])) (\<lambda>local_path.
              bind_run (pkg_download_file E url local_path (tells [''Updating '', repo_name r, ''...'' @ NL] s)) (\<lambda>(n, s1).
              if n \<noteq> 0 then update_loop E is (tells [''Failed to download package list for '', repo_name r, NL] s1)
              else bind_run (pkg_parse_package_list E i local_path s1) (\<lambda>(_, s2). update_loop E is s2)))))"

definition pkg_update_repos :: "('d, 'c) pkg_env \<Rightarrow> ('d, 'c) pkg \<Rightarrow> (int \<times> ('d, 'c) pkg) run" where
  "pkg_update_repos E s =
     bind_run (update_loop E [0..<num_repos s] (tells [''Updating package repositories...'' @ NL] s)) (\<lambda>s1.
       Some (Inr (0, tells [''Repository update completed'' @ NL] s1)))"

section \<open>Searching and listing\<close>

definition pkg_at :: "('d, 'c) pkg \<Rightarrow> pkg_repo \<Rightarrow> nat \<Rightarrow> fault + package" where
  "pkg_at s r j =
     (case pk_arrays s (repo_packages r) of
        None \<Rightarrow> Inl (Wild_Access (repo_packages r + of_nat j * PACKAGE_T_SIZE))
      | Some ps \<Rightarrow> if j < length ps then Inr (ps ! j) else Inl Out_Of_Bounds)"

text \<open>\<^verbatim>\<open>tolower\<close> of the C locale.\<close>

definition tolower :: "char \<Rightarrow> char" where
  "tolower c = (if 65 \<le> (of_char c :: nat) \<and> (of_char c :: nat) \<le> 90 then char_of (of_char c + 32 :: nat) else c)"

text \<open>The inner loop runs over both strings while they agree; what is left of the needle decides.\<close>

fun match_ci :: "string \<Rightarrow> string \<Rightarrow> bool" where
  "match_ci h [] = True"
| "match_ci [] (n # ns) = False"
| "match_ci (h # hs) (n # ns) = (if tolower h = tolower n then match_ci hs ns else False)"

fun strcasestr_loop :: "string \<Rightarrow> string \<Rightarrow> string option" where
  "strcasestr_loop [] needle = None"
| "strcasestr_loop (h # hs) needle = (if match_ci (h # hs) needle then Some (h # hs) else strcasestr_loop hs needle)"

definition strcasestr :: "string \<Rightarrow> string \<Rightarrow> string option" where
  "strcasestr haystack needle = (if needle = [] then Some haystack else strcasestr_loop haystack needle)"

text \<open>A pass over all packages of some repositories: those that satisfy the condition are shown and counted.\<close>

fun show_packages :: "(package \<Rightarrow> bool) \<Rightarrow> (pkg_repo \<Rightarrow> package \<Rightarrow> string list) \<Rightarrow> ('d, 'c) pkg \<Rightarrow> pkg_repo \<Rightarrow> nat list \<Rightarrow> string list \<times> nat \<Rightarrow> fault + string list \<times> nat" where
  "show_packages P line s r [] acc = Inr acc"
| "show_packages P line s r (j # js) acc =
     bind_res (pkg_at s r j) (\<lambda>p.
       show_packages P line s r js (if P p then (fst acc @ line r p, snd acc + 1) else acc))"

fun show_repos :: "(pkg_repo \<Rightarrow> bool) \<Rightarrow> (pkg_repo \<Rightarrow> string list) \<Rightarrow> (pkg_repo \<Rightarrow> string list) \<Rightarrow> (package \<Rightarrow> bool) \<Rightarrow> (pkg_repo \<Rightarrow> package \<Rightarrow> string list) \<Rightarrow>
    ('d, 'c) pkg \<Rightarrow> pkg_repo list \<Rightarrow> string list \<times> nat \<Rightarrow> fault + string list \<times> nat" where
  "show_repos R before after P line s [] acc = Inr acc"
| "show_repos R before after P line s (r # rs) acc =
     (if \<not> R r then show_repos R before after P line s rs acc
      else bind_res (show_packages P line s r [0..<repo_num_packages r] (fst acc @ before r, snd acc)) (\<lambda>a.
           show_repos R before after P line s rs (fst a @ after r, snd a)))"

definition live_repos :: "('d, 'c) pkg \<Rightarrow> pkg_repo list" where
  "live_repos s = take (num_repos s) (repos s)"

definition pkg_search :: "string \<Rightarrow> ('d, 'c) pkg \<Rightarrow> fault + int \<times> ('d, 'c) pkg" where
  "pkg_search pattern s =
     bind_res (show_repos repo_enabled (\<lambda>_. []) (\<lambda>_. [])
        (\<lambda>p. strcasestr (pkg_name p) pattern \<noteq> None \<or> strcasestr (pkg_description p) pattern \<noteq> None)
        (\<lambda>r p. [pkg_name p, '' '', pkg_version p, '' - '', pkg_description p, '' ['', repo_name r, '']'' @ NL])
        s (live_repos s) ([''Searching for packages matching: '', pattern, NL @ NL], 0)) (\<lambda>(out, found).
       Inr (0, tells (out @ (if found = 0 then [''No packages found'' @ NL] else [NL @ ''Found '', number (of_nat found), '' packages'' @ NL])) s))"

definition pkg_list_installed :: "('d, 'c) pkg \<Rightarrow> fault + int \<times> ('d, 'c) pkg" where
  "pkg_list_installed s =
     bind_res (show_repos (\<lambda>_. True) (\<lambda>_. []) (\<lambda>_. []) (\<lambda>p. pkg_state p = PKG_STATE_INSTALLED)
        (\<lambda>r p. [pkg_name p, '' '', pkg_version p, '' - '', pkg_description p, NL])
        s (live_repos s) ([''Installed packages:'' @ NL @ NL], 0)) (\<lambda>(out, count).
       Inr (0, tells (out @ (if count = 0 then [''No packages installed'' @ NL] else [NL @ ''Total: '', number (of_nat count), '' packages'' @ NL])) s))"

definition pkg_list_available :: "('d, 'c) pkg \<Rightarrow> fault + int \<times> ('d, 'c) pkg" where
  "pkg_list_available s =
     bind_res (show_repos repo_enabled (\<lambda>r. [''Repository: '', repo_name r, NL]) (\<lambda>_. [NL]) (\<lambda>p. pkg_state p = PKG_STATE_AVAILABLE)
        (\<lambda>r p. [''  '', pkg_name p, '' '', pkg_version p, '' - '', pkg_description p, NL])
        s (live_repos s) ([''Available packages:'' @ NL @ NL], 0)) (\<lambda>(out, count).
       Inr (0, tells (out @ (if count = 0 then [''No packages available'' @ NL] else [''Total: '', number (of_nat count), '' packages'' @ NL])) s))"

section \<open>Information, installation, removal\<close>

text \<open>The loops that look for a package: where it is found first, as repository and index.\<close>

fun find_in_repo :: "(package \<Rightarrow> bool) \<Rightarrow> ('d, 'c) pkg \<Rightarrow> pkg_repo \<Rightarrow> nat list \<Rightarrow> fault + nat option" where
  "find_in_repo P s r [] = Inr None"
| "find_in_repo P s r (j # js) = bind_res (pkg_at s r j) (\<lambda>p. if P p then Inr (Some j) else find_in_repo P s r js)"

fun find_package :: "(pkg_repo \<Rightarrow> bool) \<Rightarrow> (package \<Rightarrow> bool) \<Rightarrow> ('d, 'c) pkg \<Rightarrow> nat list \<Rightarrow> fault + (nat \<times> nat) option" where
  "find_package R P s [] = Inr None"
| "find_package R P s (i # is) =
     (if \<not> R (repos s ! i) then find_package R P s is
      else bind_res (find_in_repo P s (repos s ! i) [0..<repo_num_packages (repos s ! i)]) (\<lambda>f.
           case f of Some j \<Rightarrow> Inr (Some (i, j)) | None \<Rightarrow> find_package R P s is))"

definition pkg_state_to_string :: "u8 \<Rightarrow> string" where
  "pkg_state_to_string st =
     (if st = 0 then ''Available'' else if st = 1 then ''Installed'' else if st = 2 then ''Upgradable''
      else if st = 3 then ''Broken'' else ''Unknown'')"

definition pkg_info :: "string \<Rightarrow> ('d, 'c) pkg \<Rightarrow> fault + int \<times> ('d, 'c) pkg" where
  "pkg_info name s =
     bind_res (find_package repo_enabled (\<lambda>p. pkg_name p = name) s [0..<num_repos s]) (\<lambda>f.
       case f of
         None \<Rightarrow> Inr (-1, tells [''Package not found: '', name, NL] s)
       | Some (i, j) \<Rightarrow>
           bind_res (pkg_at s (repos s ! i) j) (\<lambda>p.
             Inr (0, tells ([''Package: '', pkg_name p, NL, ''Version: '', pkg_version p, NL, ''Repository: '', repo_name (repos s ! i), NL,
                ''Description: '', pkg_description p, NL, ''Size: '', number (pkg_size p), '' bytes'' @ NL,
                ''State: '', pkg_state_to_string (pkg_state p), NL] @
                (if pkg_dependencies p \<noteq> [] then (''Dependencies:'' @ NL) # concat (map (\<lambda>d. [''  '', d, NL]) (pkg_dependencies p)) else [])) s)))"

definition installed_named :: "string \<Rightarrow> package \<Rightarrow> bool" where
  "installed_named name p \<longleftrightarrow> pkg_name p = name \<and> pkg_state p = PKG_STATE_INSTALLED"

fun check_deps :: "string list \<Rightarrow> ('d, 'c) pkg \<Rightarrow> fault + bool \<times> ('d, 'c) pkg" where
  "check_deps [] s = Inr (True, s)"
| "check_deps (d # ds) s =
     bind_res (find_package (\<lambda>_. True) (installed_named d) s [0..<num_repos s]) (\<lambda>f.
       if f = None then Inr (False, tells [''Missing dependency: '', d, NL] s) else check_deps ds s)"

definition pkg_check_dependencies :: "package \<Rightarrow> ('d, 'c) pkg \<Rightarrow> fault + bool \<times> ('d, 'c) pkg" where
  "pkg_check_dependencies p s = check_deps (pkg_dependencies p) s"

definition pkg_extract :: "('d, 'c) pkg_env \<Rightarrow> string \<Rightarrow> string \<Rightarrow> ('d, 'c) pkg \<Rightarrow> (int \<times> ('d, 'c) pkg) run" where
  "pkg_extract E archive_path dest_path s =
     bind_run (Some (sprintf_to PKG_MAX_PATH ''%s/dummy.txt'' [Va_Str (Some dest_path)])) (\<lambda>dummy_file.
     bind_run (pk_open E dummy_file (O_CREAT OR O_WRONLY) (tells [''Extracting '', archive_path, '' to '', dest_path, NL] s)) (\<lambda>(fd, s1).
       if fd \<ge> 0 then bind_run (pk_write E fd ''Package file'' 12 s1) (\<lambda>s2. Some (Inr (0, pk_close fd s2)))
       else Some (Inr (0, s1))))"

definition pkg_install_from_directory :: "string \<Rightarrow> ('d, 'c) pkg \<Rightarrow> int \<times> ('d, 'c) pkg" where
  "pkg_install_from_directory dir_path s = (0, tells [''Installing from '', dir_path, NL] s)"

definition upd_package :: "u32 \<Rightarrow> nat \<Rightarrow> (package \<Rightarrow> package) \<Rightarrow> ('d, 'c) pkg \<Rightarrow> ('d, 'c) pkg" where
  "upd_package a j f s = s\<lparr>pk_arrays := (pk_arrays s)(a := map_option (\<lambda>ps. list_update ps j (f (ps ! j))) (pk_arrays s a))\<rparr>"

text \<open>The part of \<^verbatim>\<open>pkg_install\<close> after the download.\<close>

definition install_downloaded :: "('d, 'c) pkg_env \<Rightarrow> string \<Rightarrow> pkg_repo \<Rightarrow> nat \<Rightarrow> package \<Rightarrow> string \<Rightarrow> ('d, 'c) pkg \<Rightarrow> (int \<times> ('d, 'c) pkg) run" where
  "install_downloaded E name r j p local_path s =
     bind_run (Some (sprintf_to PKG_MAX_PATH ''%s/%s-%s'' [Va_Str (Some (repo_path r)), Va_Str (Some (pkg_name p)), Va_Str (Some (pkg_version p))])) (\<lambda>extract_path.
     bind_run (pk_mkdir E extract_path s) (\<lambda>s1.
     bind_run (pkg_extract E local_path extract_path (tells [''Extracting package...'' @ NL] s1)) (\<lambda>(n, s2).
     if n \<noteq> 0 then Some (Inr (-1, tells [''Failed to extract package'' @ NL] s2))
     else case pkg_install_from_directory extract_path (tells [''Installing files...'' @ NL] s2) of
       (k, s3) \<Rightarrow>
         if k \<noteq> 0 then Some (Inr (-1, tells [''Failed to install files'' @ NL] s3))
         else bind_run (pkg_db_save E (upd_package (repo_packages r) j (\<lambda>q. q\<lparr>pkg_state := PKG_STATE_INSTALLED, pkg_install_date := pk_time s3\<rparr>) s3)) (\<lambda>(_, s4).
              Some (Inr (0, tells [''Package '', name, '' installed successfully'' @ NL] s4))))))"

definition pkg_install :: "('d, 'c) pkg_env \<Rightarrow> string \<Rightarrow> ('d, 'c) pkg \<Rightarrow> (int \<times> ('d, 'c) pkg) run" where
  "pkg_install E name s0 =
     (let s = tells [''Installing '', name, ''...'' @ NL] s0
      in bind_run (Some (find_package repo_enabled (\<lambda>p. pkg_name p = name) s [0..<num_repos s])) (\<lambda>f.
         case f of
           None \<Rightarrow> Some (Inr (-1, tells [''Package not found: '', name, NL] s))
         | Some (i, j) \<Rightarrow>
             let r = repos s ! i
             in bind_run (Some (pkg_at s r j)) (\<lambda>p.
                if pkg_state p = PKG_STATE_INSTALLED then Some (Inr (0, tells [''Package already installed'' @ NL] s))
                else bind_run (Some (pkg_check_dependencies p s)) (\<lambda>(ok, s1).
                if \<not> ok then Some (Inr (-1, tells [''Dependency check failed'' @ NL] s1))
                else bind_run (Some (sprintf_to PKG_MAX_PATH ''%s/%s-%s.pkg'' [Va_Str (Some (repo_url r)), Va_Str (Some (pkg_name p)), Va_Str (Some (pkg_version p))])) (\<lambda>package_url.
                bind_run (Some (sprintf_to PKG_MAX_PATH ''%s/%s-%s.pkg'' [Va_Str (Some (repo_path r)), Va_Str (Some (pkg_name p)), Va_Str (Some (pkg_version p))])) (\<lambda>local_path.
                bind_run (pkg_download_file E package_url local_path (tells [''Downloading package...'' @ NL] s1)) (\<lambda>(n, s2).
                if n \<noteq> 0 then Some (Inr (-1, tells [''Failed to download package'' @ NL] s2))
                else install_downloaded E name r j p local_path s2)))))))"

definition pkg_remove :: "('d, 'c) pkg_env \<Rightarrow> string \<Rightarrow> ('d, 'c) pkg \<Rightarrow> (int \<times> ('d, 'c) pkg) run" where
  "pkg_remove E name s0 =
     (let s = tells [''Removing '', name, ''...'' @ NL] s0
      in bind_run (Some (find_package (\<lambda>_. True) (installed_named name) s [0..<num_repos s])) (\<lambda>f.
         case f of
           None \<Rightarrow> Some (Inr (-1, tells [''Package not installed: '', name, NL] s))
         | Some (i, j) \<Rightarrow>
             let r = repos s ! i
             in bind_run (Some (pkg_at s r j)) (\<lambda>p.
                let s1 = s\<lparr>pk_fs := fold (\<lambda>path f. snd (vfs_unlink (pe_vfs E) path f)) (pkg_files p) (pk_fs s)\<rparr>
                in bind_run (pkg_db_save E (upd_package (repo_packages r) j (\<lambda>q. q\<lparr>pkg_state := PKG_STATE_AVAILABLE\<rparr>) s1)) (\<lambda>(_, s2).
                   Some (Inr (0, tells [''Package '', name, '' removed successfully'' @ NL] s2))))))"

section \<open>Lists of packages are read as they are written\<close>














section \<open>What a search finds\<close>

text \<open>The reference: the pattern occurs in the text when both are written in lower case.\<close>

definition contains_ci :: "string \<Rightarrow> string \<Rightarrow> bool" where
  "contains_ci t pattern \<longleftrightarrow> (\<exists>a b c. t = a @ b @ c \<and> map tolower b = map tolower pattern)"

lemma match_ci_prefix: "match_ci h n \<longleftrightarrow> (\<exists>b c. h = b @ c \<and> map tolower b = map tolower n)"
proof (induction h n rule: match_ci.induct)
  case (3 h hs n ns)
  have "(\<exists>b c. h # hs = b @ c \<and> map tolower b = map tolower (n # ns)) \<longleftrightarrow>
      tolower h = tolower n \<and> (\<exists>b c. hs = b @ c \<and> map tolower b = map tolower ns)"
    by (auto simp: Cons_eq_append_conv map_eq_Cons_conv)
  thus ?case using 3 by simp
qed auto

lemma strcasestr_loop_contains:
  "n \<noteq> [] \<Longrightarrow> strcasestr_loop h n \<noteq> None \<longleftrightarrow> contains_ci h n"
proof (induction h)
  case Nil
  then show ?case by (simp add: contains_ci_def)
next
  case (Cons x h)
  have "contains_ci (x # h) n \<longleftrightarrow> (\<exists>b c. x # h = b @ c \<and> map tolower b = map tolower n) \<or> contains_ci h n"
    unfolding contains_ci_def by (auto simp: Cons_eq_append_conv; metis append_Nil append_Cons)
  hence "contains_ci (x # h) n \<longleftrightarrow> match_ci (x # h) n \<or> contains_ci h n" using match_ci_prefix [of "x # h" n] by blast
  thus ?case using Cons by simp
qed

lemma strcasestr_contains: "strcasestr h n \<noteq> None \<longleftrightarrow> contains_ci h n"
proof (cases "n = []")
  case True
  have "h = [] @ [] @ h" by simp
  hence "contains_ci h []" unfolding contains_ci_def by (metis list.map(1))
  thus ?thesis using True by (simp add: strcasestr_def)
qed (use strcasestr_loop_contains [of n h] in \<open>simp add: strcasestr_def\<close>)

text \<open>Repositories whose arrays hold as many packages as their counts say.\<close>

definition arrays_ok :: "('d, 'c) pkg \<Rightarrow> bool" where
  "arrays_ok s \<longleftrightarrow> (\<forall>r\<in>set (live_repos s). 0 < repo_num_packages r \<longrightarrow>
     (\<exists>ps. pk_arrays s (repo_packages r) = Some ps \<and> repo_num_packages r \<le> length ps))"

definition packages_of :: "('d, 'c) pkg \<Rightarrow> pkg_repo \<Rightarrow> package list" where
  "packages_of s r = take (repo_num_packages r) (case pk_arrays s (repo_packages r) of None \<Rightarrow> [] | Some ps \<Rightarrow> ps)"

lemma show_packages_list:
  assumes "\<And>j. j \<in> set js \<Longrightarrow> pkg_at s r j = Inr (f j)"
  shows "show_packages P line s r js acc =
     Inr (fst acc @ concat (map (line r) (filter P (map f js))), snd acc + length (filter P (map f js)))"
  using assms by (induction js arbitrary: acc) (auto simp: bind_res_def)

lemma show_packages_all:
  assumes "0 < repo_num_packages r \<Longrightarrow> \<exists>ps. pk_arrays s (repo_packages r) = Some ps \<and> repo_num_packages r \<le> length ps"
  shows "show_packages P line s r [0..<repo_num_packages r] acc =
     Inr (fst acc @ concat (map (line r) (filter P (packages_of s r))), snd acc + length (filter P (packages_of s r)))"
proof (cases "repo_num_packages r = 0")
  case False
  then obtain ps where ps: "pk_arrays s (repo_packages r) = Some ps" "repo_num_packages r \<le> length ps" using assms by auto
  have "map ((!) ps) [0..<repo_num_packages r] = packages_of s r"
    using ps by (intro nth_equalityI) (simp_all add: packages_of_def)
  thus ?thesis using show_packages_list [of "[0..<repo_num_packages r]" s r "(!) ps" P line acc] ps by (simp add: pkg_at_def)
qed (simp add: packages_of_def)

lemma show_repos_all:
  assumes "\<forall>r\<in>set rs. 0 < repo_num_packages r \<longrightarrow> (\<exists>ps. pk_arrays s (repo_packages r) = Some ps \<and> repo_num_packages r \<le> length ps)"
  shows "show_repos R before after P line s rs acc =
     Inr (fst acc @ concat (map (\<lambda>r. before r @ concat (map (line r) (filter P (packages_of s r))) @ after r) (filter R rs)),
          snd acc + sum_list (map (\<lambda>r. length (filter P (packages_of s r))) (filter R rs)))"
  using assms
proof (induction rs arbitrary: acc)
  case (Cons r rs)
  have "0 < repo_num_packages r \<Longrightarrow> \<exists>ps. pk_arrays s (repo_packages r) = Some ps \<and> repo_num_packages r \<le> length ps"
    using Cons.prems by simp
  note p = show_packages_all [OF this, of P line "(fst acc @ before r, snd acc)"]
  show ?case using Cons p by simp
qed simp

lemma concat_pairs:
  "concat (map (\<lambda>r. concat (map (l r) (xs r))) rs) = concat (map (\<lambda>(r, p). l r p) (concat (map (\<lambda>r. map (Pair r) (xs r)) rs)))"
  by (induction rs) (simp_all add: comp_def)

text \<open>The packages a search is to find, each with its repository.\<close>

definition hits :: "string \<Rightarrow> ('d, 'c) pkg \<Rightarrow> (pkg_repo \<times> package) list" where
  "hits pattern s =
     concat (map (\<lambda>r. map (Pair r) (filter (\<lambda>p. contains_ci (pkg_name p) pattern \<or> contains_ci (pkg_description p) pattern) (packages_of s r)))
       (filter repo_enabled (live_repos s)))"

text \<open>
  C35. A search finds exactly the packages that contain the pattern (apps/pkg/pkg.c, pkg\_search and
  strcasestr). When the counts of the repositories agree with their arrays, one line is printed for each
  package of an enabled repository in whose name or description the pattern occurs, upper and lower case
  being the same, in the order of the repositories and of their lists; then comes their number, or that
  there are none. The call never fails.
\<close>

theorem search_finds_exactly:
  assumes "arrays_ok s"
  shows "pkg_search pattern s = Inr (0, tells
      ([''Searching for packages matching: '', pattern, NL @ NL] @
       concat (map (\<lambda>(r, p). [pkg_name p, '' '', pkg_version p, '' - '', pkg_description p, '' ['', repo_name r, '']'' @ NL]) (hits pattern s)) @
       (if hits pattern s = [] then [''No packages found'' @ NL]
        else [NL @ ''Found '', number (of_nat (length (hits pattern s))), '' packages'' @ NL])) s)"
proof -
  let ?P = "\<lambda>p. contains_ci (pkg_name p) pattern \<or> contains_ci (pkg_description p) pattern"
  let ?rs = "filter repo_enabled (live_repos s)"
  let ?line = "\<lambda>r p. [pkg_name p, '' '', pkg_version p, '' - '', pkg_description p, '' ['', repo_name r, '']'' @ NL]"
  have n: "sum_list (map (\<lambda>r. length (filter ?P (packages_of s r))) ?rs) = length (hits pattern s)"
    by (simp add: hits_def length_concat comp_def)
  have o: "concat (map (\<lambda>r. concat (map (?line r) (filter ?P (packages_of s r)))) ?rs) = concat (map (\<lambda>(r, p). ?line r p) (hits pattern s))"
    unfolding hits_def by (rule concat_pairs)
  show ?thesis
    using show_repos_all [of "live_repos s" s repo_enabled "\<lambda>_. []" "\<lambda>_. []" ?P ?line "([''Searching for packages matching: '', pattern, NL @ NL], 0)"] assms n o
    unfolding pkg_search_def strcasestr_contains by (simp add: arrays_ok_def bind_res_def)
qed

section \<open>The table of repositories\<close>

definition repos_ok :: "('d, 'c) pkg \<Rightarrow> bool" where
  "repos_ok s \<longleftrightarrow> length (repos s) = 16 \<and> num_repos s \<le> 16 \<and> distinct (map repo_name (live_repos s))"

lemma shift_down_take:
  "n < length rs \<Longrightarrow> i \<le> n \<Longrightarrow> take n (shift_down [i..<n] rs) = take i rs @ take (n - i) (drop (i + 1) rs) \<and> length (shift_down [i..<n] rs) = length rs"
proof (induction "n - i" arbitrary: i rs)
  case 0
  then show ?case by simp
next
  case (Suc k)
  hence u: "[i..<n] = i # [Suc i..<n]" by (simp add: upt_conv_Cons)
  let ?rs = "list_update rs i (rs ! (i + 1))"
  have "take n (shift_down [Suc i..<n] ?rs) = take (Suc i) ?rs @ take (n - Suc i) (drop (Suc i + 1) ?rs) \<and> length (shift_down [Suc i..<n] ?rs) = length ?rs"
    using Suc by (intro Suc.hyps(1)) simp_all
  moreover have "take (Suc i) ?rs = take i rs @ [rs ! (i + 1)]" using Suc.prems Suc.hyps(2) by (simp add: take_Suc_conv_app_nth)
  moreover have "take (n - i) (drop (i + 1) rs) = rs ! (i + 1) # take (n - Suc i) (drop (Suc i + 1) rs)"
    using Suc.prems Suc.hyps(2) by (simp add: Cons_nth_drop_Suc [symmetric] Suc_diff_le take_Cons')
  ultimately show ?case unfolding u by simp
qed

lemma find_live:
  "find (\<lambda>i. repo_name (repos s ! i) = name) [0..<num_repos s] = Some i \<Longrightarrow> repos_ok s \<Longrightarrow>
   i < num_repos s \<and> take i (repos s) @ take (num_repos s - 1 - i) (drop (i + 1) (repos s)) = filter (\<lambda>r. repo_name r \<noteq> name) (live_repos s)"
proof -
  assume f: "find (\<lambda>i. repo_name (repos s ! i) = name) [0..<num_repos s] = Some i" and ok: "repos_ok s"
  have i: "i < num_repos s" "repo_name (repos s ! i) = name" using f by (simp_all add: find_upt_Some)
  have l: "i < length (live_repos s)" "live_repos s ! i = repos s ! i" using i ok by (simp_all add: live_repos_def repos_ok_def)
  have s: "live_repos s = take i (live_repos s) @ live_repos s ! i # drop (Suc i) (live_repos s)" using l(1) by (rule id_take_nth_drop)
  have "distinct (map repo_name (take i (live_repos s) @ live_repos s ! i # drop (Suc i) (live_repos s)))"
    using ok s by (simp add: repos_ok_def)
  hence d: "\<forall>r\<in>set (take i (live_repos s)). repo_name r \<noteq> name" "\<forall>r\<in>set (drop (Suc i) (live_repos s)). repo_name r \<noteq> name"
    using i(2) l(2) by (auto simp: image_iff)
  have "filter (\<lambda>r. repo_name r \<noteq> name) (live_repos s) = take i (live_repos s) @ drop (Suc i) (live_repos s)"
    by (subst s) (use d i(2) l(2) in \<open>simp add: filter_id_conv\<close>)
  moreover have "take i (live_repos s) = take i (repos s)" "drop (Suc i) (live_repos s) = take (num_repos s - 1 - i) (drop (i + 1) (repos s))"
    using i by (simp_all add: live_repos_def drop_take)
  ultimately show ?thesis using i(1) by simp
qed

text \<open>
  The table of repositories is a list of at most sixteen with different names: adding appends unless the table
  is full or knows the name, removing takes the one of that name out and keeps the order of the others.
\<close>

lemma repo_table_add:
  assumes "repos_ok s" "pkg_add_repo E name url path s = Some (Inr (r, t))"
  shows "repos_ok t \<and> (if num_repos s = 16 \<or> name \<in> repo_name ` set (live_repos s) then r = -1 \<and> t = s
     else r = 0 \<and> live_repos t = live_repos s @ [\<lparr>repo_name = name, repo_url = url, repo_path = path, repo_enabled = True, repo_packages = 0, repo_num_packages = 0\<rparr>])"
proof -
  have n: "length (repos s) = 16" "num_repos s \<le> 16" using assms(1) by (simp_all add: repos_ok_def)
  have e: "(\<exists>i\<in>set [0..<num_repos s]. repo_name (repos s ! i) = name) \<longleftrightarrow> name \<in> repo_name ` set (live_repos s)"
    using n by (force simp: live_repos_def in_set_conv_nth image_iff)
  show ?thesis
  proof (cases "num_repos s = 16 \<or> name \<in> repo_name ` set (live_repos s)")
    case True
    thus ?thesis using assms n(2) unfolding pkg_add_repo_def e by (auto split: if_splits)
  next
    case False
    let ?r = "\<lparr>repo_name = name, repo_url = url, repo_path = path, repo_enabled = True, repo_packages = 0, repo_num_packages = 0\<rparr>"
    from False have lt: "num_repos s < 16" using n(2) by simp
    obtain f where t: "r = 0" "t = tells [''Added repository: '', name, NL] (s\<lparr>repos := list_update (repos s) (num_repos s) ?r, pk_fs := f, num_repos := num_repos s + 1\<rparr>)"
      using assms(2) False n(2) lt unfolding pkg_add_repo_def e
      by (auto simp: Let_def pk_mkdir_def bind_run_Inr_iff split: if_splits)
    hence "live_repos t = live_repos s @ [?r]" using lt n by (simp add: live_repos_def tells_def take_Suc_conv_app_nth)
    thus ?thesis using False t assms(1) lt by (auto simp: repos_ok_def tells_def)
  qed
qed

lemma repo_table_remove:
  assumes "repos_ok s" "pkg_remove_repo name s = Some (Inr (r, t))"
  shows "repos_ok t \<and> (if name \<in> repo_name ` set (live_repos s) then r = 0 \<and> live_repos t = filter (\<lambda>q. repo_name q \<noteq> name) (live_repos s)
     else r = -1 \<and> t = s)"
proof (cases "find (\<lambda>i. repo_name (repos s ! i) = name) [0..<num_repos s]")
  case None
  hence "name \<notin> repo_name ` set (live_repos s)" using assms(1)
    by (force simp: find_upt_None live_repos_def repos_ok_def in_set_conv_nth)
  thus ?thesis using assms None by (auto simp: pkg_remove_repo_def)
next
  case (Some i)
  note f = find_live [OF Some assms(1)]
  have n: "length (repos s) = 16" "num_repos s \<le> 16" using assms(1) by (simp_all add: repos_ok_def)
  have mem: "name \<in> repo_name ` set (live_repos s)"
    using Some n by (force simp: find_upt_Some live_repos_def in_set_conv_nth image_iff)
  obtain u where u: "free_packages (repo_packages (repos s ! i)) s = Some (Inr u)" "r = 0"
      "t = tells [''Removed repository: '', name, NL] (u\<lparr>repos := shift_down [i..<num_repos u - 1] (repos u), num_repos := num_repos u - 1\<rparr>)"
    using assms(2) Some by (auto simp: pkg_remove_repo_def bind_run_Inr_iff)
  have su: "repos u = repos s" "num_repos u = num_repos s"
    using u(1) by (auto simp: free_packages_def bind_run_Inr_iff split: if_splits)
  have sh: "take (num_repos s - 1) (shift_down [i..<num_repos s - 1] (repos s)) = take i (repos s) @ take (num_repos s - 1 - i) (drop (i + 1) (repos s)) \<and>
      length (shift_down [i..<num_repos s - 1] (repos s)) = 16"
  proof -
    have "num_repos s - 1 < length (repos s)" "i \<le> num_repos s - 1" using conjunct1 [OF f] n by linarith+
    from shift_down_take [OF this] n(1) show ?thesis by simp
  qed
  have lt: "live_repos t = filter (\<lambda>q. repo_name q \<noteq> name) (live_repos s)" "length (repos t) = 16" "num_repos t \<le> 16"
  proof -
    have t: "repos t = shift_down [i..<num_repos s - 1] (repos s)" "num_repos t = num_repos s - 1"
      unfolding u(3) su by (simp_all add: tells_def)
    show "live_repos t = filter (\<lambda>q. repo_name q \<noteq> name) (live_repos s)" "length (repos t) = 16" "num_repos t \<le> 16"
      using f sh n by (simp_all add: live_repos_def [of t] t)
  qed
  have "distinct (map repo_name (filter (\<lambda>q. repo_name q \<noteq> name) (live_repos s)))"
    using assms(1) by (simp add: repos_ok_def distinct_map_filter)
  thus ?thesis using lt u(2) mem by (simp add: repos_ok_def)
qed

section \<open>On the file system of the kernel\<close>

definition keeps_mount :: "'d fs \<Rightarrow> 'd fs \<Rightarrow> bool" where
  "keeps_mount s t \<longleftrightarrow> mount_table t = mount_table s \<and> root_vnode t = root_vnode s \<and> vnodes t = vnodes s \<and>
     length (inode_table t) = length (inode_table s) \<and> file_table t = file_table s"

lemma keeps_mount_mounted: "mounted s \<Longrightarrow> keeps_mount s t \<Longrightarrow> mounted t"
  by (auto simp: keeps_mount_def mounted_def split: list.splits option.splits)

lemma keeps_mount_trans: "keeps_mount s t \<Longrightarrow> keeps_mount t u \<Longrightarrow> keeps_mount s u"
  by (simp add: keeps_mount_def)

lemma keeps_mount_ops:
  "keeps_mount s s" "keeps_mount s (snd (alloc_inode s))" "keeps_mount s (snd (alloc_block s))" "keeps_mount s (free_inode n s)"
  "keeps_mount s (upd_inode i f s)" "keeps_mount s (write_block D b xs s)" "keeps_mount s (add_entry D b n name s)"
  by (auto simp: keeps_mount_def alloc_inode_def inode_take_def alloc_block_def block_take_def free_inode_def inode_release_def upd_inode_def
      write_block_def add_entry_def read_block_def Let_def split: option.splits)

lemma mkdir_mounted:
  assumes "mounted s" "length path \<le> 510"
  shows "(\<exists>e. vfs_mkdir D ts stack path s = Some (Inl e)) \<or> (\<exists>r t. vfs_mkdir D ts stack path s = Some (Inr (r, t)) \<and> keeps_mount s t)"
proof (cases "split_path path")
  case None
  thus ?thesis by (simp add: vfs_mkdir_def keeps_mount_ops)
next
  case (Some r)
  show ?thesis
  proof (cases r)
    case (Inl e)
    thus ?thesis using Some by (simp add: vfs_mkdir_def)
  next
    case (Inr pd)
    then obtain pp dn where pd: "split_path path = Some (Inr (pp, dn))" using Some by (cases pd) simp
    hence "length pp \<le> 510" using assms(2) by (auto simp: split_path_def Let_def split: if_splits)
    note res = mounted_resolve [OF assms(1) this, of D]
    obtain v where v: "vnodes s (root_vnode s) = Some v" "root_vnode s \<noteq> 0" using assms(1) by (auto simp: mounted_def split: option.splits)
    show ?thesis
    proof (cases "set pp \<subseteq> {CHR ''/''}")
      case False
      thus ?thesis using res by (simp add: vfs_mkdir_def pd)
    next
      case True
      hence rp: "resolve_path D pp s = Some (Inr (root_vnode s, s))" using res by simp
      obtain n s2 where a: "alloc_inode s = (n, s2)" by (cases "alloc_inode s")
      have k2: "keeps_mount s s2" using keeps_mount_ops(2) [of s] a by simp
      let ?f = "\<lambda>f. f\<lparr>mode := FT_DIRECTORY OR 0x100 OR 0x200 OR 0x400, uid := 0, gid := 0,
                         fsize := of_nat SOLIXFS_BLOCK_SIZE, atime := fst ts, mtime := fst (snd ts), ctime := snd (snd ts), links := 2, iblocks := 1\<rparr>"
      obtain b s4 where b: "alloc_block (upd_inode (n - 1) ?f s2) = (b, s4)" by (cases "alloc_block (upd_inode (n - 1) ?f s2)")
      have k4: "keeps_mount s s4"
        using keeps_mount_ops(3) [of "upd_inode (n - 1) ?f s2"] b keeps_mount_trans [OF k2 keeps_mount_ops(5)] keeps_mount_trans by fastforce
      have k5: "keeps_mount s (free_inode n s4)" by (rule keeps_mount_trans [OF k4 keeps_mount_ops(4)])
      have k6: "keeps_mount s (add_entry D x n dn (write_block D b y (upd_inode (n - 1) g s4)))" for x y g
        by (intro keeps_mount_trans [OF _ keeps_mount_ops(7)] keeps_mount_trans [OF _ keeps_mount_ops(6)] keeps_mount_trans [OF k4 keeps_mount_ops(5)])
      show ?thesis using v k2 k5 k6 keeps_mount_ops(1) [of s] b
        by (auto simp: vfs_mkdir_def pd rp get_vnode_def a Let_def bind_run_def split: sum.splits)
    qed
  qed
qed

lemma sprintf_to_text:
  assumes "spec_fmt fmt args = Some t0" "sprintf_to 256 fmt args = Inr t"
  shows "t = t0" "length t < 256"
proof -
  have "vsn_loop 2147483646 fmt args [] = Inr (take 2147483646 t0)" using vsn_loop_spec [OF assms(1), of "[]" 2147483646] by simp
  hence "t = take 2147483646 t0 \<and> length t < 256" using assms(2)
    by (auto simp: sprintf_to_def sprintf_def vsnprintf_def bind_res_def split: if_splits)
  thus "t = t0" "length t < 256" by auto
qed

text \<open>A path with a component, short enough for the buffers.\<close>

definition component_path :: "string \<Rightarrow> bool" where
  "component_path path \<longleftrightarrow> length path \<le> 510 \<and> \<not> set path \<subseteq> {CHR ''/''}"

lemma list_path: "sprintf_to 256 ''%s/packages.txt'' [Va_Str (Some d)] = Inr t \<Longrightarrow> component_path t"
proof -
  assume a: "sprintf_to 256 ''%s/packages.txt'' [Va_Str (Some d)] = Inr t"
  have "spec_fmt ''%s/packages.txt'' [Va_Str (Some d)] = Some (d @ ''/packages.txt'')" by (simp add: spec_item_def)
  note t = sprintf_to_text [OF this a]
  show ?thesis using t(2) unfolding t(1) by (auto simp: component_path_def)
qed

lemma package_path: "sprintf_to 256 ''%s/%s-%s.pkg'' [Va_Str (Some d), Va_Str (Some n), Va_Str (Some v)] = Inr t \<Longrightarrow> component_path t"
proof -
  assume a: "sprintf_to 256 ''%s/%s-%s.pkg'' [Va_Str (Some d), Va_Str (Some n), Va_Str (Some v)] = Inr t"
  have "spec_fmt ''%s/%s-%s.pkg'' [Va_Str (Some d), Va_Str (Some n), Va_Str (Some v)] = Some (d @ ''/'' @ n @ ''-'' @ v @ ''.pkg'')" by (simp add: spec_item_def)
  note t = sprintf_to_text [OF this a]
  show ?thesis using t(2) unfolding t(1) by (auto simp: component_path_def)
qed

definition same_packages :: "('d, 'c) pkg \<Rightarrow> ('d, 'c) pkg \<Rightarrow> bool" where
  "same_packages s t \<longleftrightarrow> pk_arrays t = pk_arrays s \<and> repos t = repos s \<and> num_repos t = num_repos s \<and> pk_fs t = pk_fs s"

lemma same_packages_simps [simp]:
  "same_packages s s" "same_packages (tells ts s) t = same_packages s t" "same_packages s (tells ts t) = same_packages s t"
  "same_packages (s\<lparr>pk_tcp := c\<rparr>) t = same_packages s t" "same_packages s (t\<lparr>pk_tcp := c\<rparr>) = same_packages s t"
  by (simp_all add: same_packages_def tells_def)

lemma same_packages_trans: "same_packages s t \<Longrightarrow> same_packages t u \<Longrightarrow> same_packages s u"
  by (simp add: same_packages_def)

lemma tells_fields [simp]:
  "repos (tells ts s) = repos s" "num_repos (tells ts s) = num_repos s" "pk_arrays (tells ts s) = pk_arrays s" "pk_fs (tells ts s) = pk_fs s"
  "pkg_at (tells ts s) = pkg_at s"
  by (auto simp: tells_def pkg_at_def [abs_def])

lemma pk_open_component:
  assumes "mounted (pk_fs s)" "component_path path" "pk_open E path flags s = Some (Inr (fd, t))"
  shows "fd = -1 \<and> t = s"
  using assms mounted_resolve [of "pk_fs s" path "pe_disk E"]
  by (auto simp: pk_open_def vfs_open_def component_path_def bind_run_def split: option.splits)

lemma download_fails:
  assumes "mounted (pk_fs s)" "component_path dest" "pkg_download_file E url dest s = Some (Inr (n, t))"
  shows "n = -1 \<and> same_packages s t"
proof -
  have recv: "n = -1 \<and> same_packages s t" if r: "receive_file E sock dest (s\<lparr>pk_tcp := c\<rparr>) = Some (Inr (n, t))" for sock c
  proof -
    from r obtain x c1 where x: "skip_headers (pe_net E) sock (pe_buffer E) c = Some (Inr (x, c1))"
      by (auto simp: receive_file_def bind_run_Inr_iff)
    show ?thesis
    proof (cases x)
      case None
      thus ?thesis using r x by (auto simp: receive_file_def)
    next
      case (Some y)
      obtain held body len where y: "y = (held, body, len)" by (cases y)
      let ?s = "s\<lparr>pk_tcp := c1\<rparr>"
      obtain fd u where o: "pk_open E dest (O_CREAT OR O_WRONLY) ?s = Some (Inr (fd, u))" using r x Some y
        by (auto simp: receive_file_def bind_run_Inr_iff)
      have "fd = -1" "u = ?s" using pk_open_component [OF _ assms(2) o] assms(1) by simp_all
      thus ?thesis using r x Some y o by (auto simp: receive_file_def)
    qed
  qed
  show ?thesis
  proof (cases "scan_url url")
    case None
    thus ?thesis using assms(3) by (auto simp: pkg_download_file_def)
  next
    case (Some hp)
    obtain hostname path where hp: "hp = (hostname, path)" by (cases hp)
    obtain p d where d: "net_get_device ''eth0'' (br_net (pe_net E)) = Inr p" "the_dev p (br_net (pe_net E)) = Some (Inr d)"
      using assms(3) Some hp unfolding pkg_download_file_def by (auto simp: bind_run_Inr_iff)
    define sock where "sock = (sock_vars (pe_net E))\<lparr>protocol := 6, local_ip := ip_addr d, local_port := 12345, remote_ip := ip_aton hostname, remote_port := 80\<rparr>"
    obtain r c1 where c1: "tcp_connect (pe_net E) sock (remote_ip sock) 80 (pk_tcp s) = (r, c1)" by (cases "tcp_connect (pe_net E) sock (remote_ip sock) 80 (pk_tcp s)")
    note run = assms(3) [unfolded pkg_download_file_def, simplified Some hp option.case prod.case d bind_run_simps Let_def, folded sock_def, simplified c1 prod.case]
    show ?thesis
    proof (cases "r = 0")
      case False
      thus ?thesis using run by auto
    next
      case True
      obtain req where req: "curl_request path hostname = Inr req" using run True by (auto simp: bind_run_Inr_iff)
      obtain r2 c2 where c2: "tcp_send (pe_net E) sock req c1 = (r2, c2)" by (cases "tcp_send (pe_net E) sock req c1")
      show ?thesis using run True req c2 recv [of sock c2] by (auto split: if_splits)
    qed
  qed
qed

lemma update_loop_same:
  "mounted (pk_fs s) \<Longrightarrow> update_loop E is s = Some (Inr t) \<Longrightarrow> same_packages s t"
proof (induction "is" arbitrary: s)
  case (Cons i "is")
  show ?case
  proof (cases "repo_enabled (repos s ! i)")
    case False
    thus ?thesis using Cons by simp
  next
    case True
    let ?r = "repos s ! i"
    obtain url lp n s1 where d: "sprintf_to 256 ''%s/packages.txt'' [Va_Str (Some (repo_path ?r))] = Inr lp"
        "pkg_download_file E url lp (tells [''Updating '', repo_name ?r, ''...'' @ NL] s) = Some (Inr (n, s1))"
        "n \<noteq> 0 \<Longrightarrow> update_loop E is (tells [''Failed to download package list for '', repo_name ?r, NL] s1) = Some (Inr t)"
      using Cons.prems(2) True by (fastforce simp: Let_def bind_run_Inr_iff split: if_splits)
    have s1: "n = -1" "same_packages s s1" using download_fails [OF _ list_path [OF d(1)] d(2)] Cons.prems(1) by simp_all
    have "mounted (pk_fs (tells [''Failed to download package list for '', repo_name ?r, NL] s1))"
      using s1(2) Cons.prems(1) by (simp add: same_packages_def)
    from Cons.IH [OF this d(3)] s1 show ?thesis by (auto intro: same_packages_trans)
  qed
qed simp

lemma find_in_repo_sound: "find_in_repo P s r js = Inr (Some j) \<Longrightarrow> \<exists>p. pkg_at s r j = Inr p \<and> P p"
  by (induction js) (auto simp: bind_res_Inr_iff split: if_splits)

lemma find_package_sound: "find_package R P s is = Inr (Some (i, j)) \<Longrightarrow> \<exists>p. pkg_at s (repos s ! i) j = Inr p \<and> P p"
  by (induction "is") (auto simp: bind_res_Inr_iff split: if_splits option.splits dest: find_in_repo_sound)

lemma check_deps_same: "check_deps ds s = Inr (b, t) \<Longrightarrow> same_packages s t"
  by (induction ds) (auto simp: bind_res_Inr_iff split: if_splits)

definition has_installed :: "string \<Rightarrow> ('d, 'c) pkg \<Rightarrow> bool" where
  "has_installed name s \<longleftrightarrow> (\<exists>a ps. pk_arrays s a = Some ps \<and> (\<exists>p\<in>set ps. installed_named name p))"

lemma pkg_at_installed:
  assumes "pkg_at s r j = Inr p" "installed_named name p"
  shows "has_installed name s"
proof -
  obtain ps where "pk_arrays s (repo_packages r) = Some ps" "j < length ps" "p = ps ! j"
    using assms(1) by (auto simp: pkg_at_def split: option.splits if_splits)
  thus ?thesis using assms(2) nth_mem unfolding has_installed_def by blast
qed

lemma install_same:
  assumes m: "mounted (pk_fs s)" and run: "pkg_install E name s = Some (Inr (r, t))"
  shows "pk_arrays t = pk_arrays s \<and> (r = 0 \<longrightarrow> has_installed name s)"
proof -
  let ?s = "tells [''Installing '', name, ''...'' @ NL] s"
  obtain f where f: "find_package repo_enabled (\<lambda>p. pkg_name p = name) ?s [0..<num_repos s] = Inr f"
    using run by (auto simp: pkg_install_def Let_def bind_run_Inr_iff)
  show ?thesis
  proof (cases f)
    case None
    thus ?thesis using run f by (auto simp: pkg_install_def Let_def)
  next
    case (Some ij)
    obtain i j where ij: "ij = (i, j)" by (cases ij)
    obtain p where p: "pkg_at s (repos s ! i) j = Inr p" "pkg_name p = name"
      using find_package_sound [of repo_enabled "\<lambda>p. pkg_name p = name" ?s "[0..<num_repos s]" i j] f Some ij by auto
    note run1 = run [unfolded pkg_install_def Let_def tells_fields, simplified f Some ij p(1) option.case prod.case bind_run_simps]
    show ?thesis
    proof (cases "pkg_state p = PKG_STATE_INSTALLED")
      case True
      thus ?thesis using run1 p pkg_at_installed [OF p(1)] by (auto simp: installed_named_def)
    next
      case False
      obtain ok s1 where c: "pkg_check_dependencies p ?s = Inr (ok, s1)" using run1 False by (auto simp: bind_run_Inr_iff)
      have s1: "same_packages s s1" using check_deps_same c by (fastforce simp: pkg_check_dependencies_def)
      show ?thesis
      proof (cases ok)
        case False
        thus ?thesis using run1 \<open>pkg_state p \<noteq> PKG_STATE_INSTALLED\<close> c s1 by (auto simp: same_packages_def)
      next
        case True
        obtain url lp n s2 where d: "sprintf_to 256 ''%s/%s-%s.pkg'' [Va_Str (Some (repo_path (repos s ! i))), Va_Str (Some (pkg_name p)), Va_Str (Some (pkg_version p))] = Inr lp"
            "pkg_download_file E url lp (tells [''Downloading package...'' @ NL] s1) = Some (Inr (n, s2))"
            "n \<noteq> 0 \<Longrightarrow> r = -1 \<and> t = tells [''Failed to download package'' @ NL] s2"
          using run1 False c True by (fastforce simp: bind_run_Inr_iff split: if_splits)
        have "mounted (pk_fs (tells [''Downloading package...'' @ NL] s1))" using s1 m by (simp add: same_packages_def)
        from download_fails [OF this package_path [OF d(1)] d(2)] d(3) s1 show ?thesis by (auto simp: same_packages_def)
      qed
    qed
  qed
qed

lemma pk_mkdir_mounted:
  assumes "mounted (pk_fs s)" "length path \<le> 510"
  shows "(\<exists>e. pk_mkdir E path s = Some (Inl e)) \<or> (\<exists>t. pk_mkdir E path s = Some (Inr t) \<and> mounted (pk_fs t))"
  using mkdir_mounted [OF assms, of "pe_disk E" "(pk_time s, pk_time s, pk_time s)" "pe_stack E"] keeps_mount_mounted [OF assms(1)]
  by (auto simp: pk_mkdir_def)

lemma pk_mkdir_deep:
  assumes "mounted (pk_fs s)"
  shows "pk_mkdir E ''/var/lib'' s = Some (Inl Out_Of_Bounds)"
proof -
  have "split_path ''/var/lib'' = Some (Inr (''/var'', ''lib''))" by (simp add: split_path_def)
  moreover have "resolve_path D ''/var'' (pk_fs s) = Some (Inl Out_Of_Bounds)" for D
    using mounted_resolve [OF assms, of "''/var''" D] by simp
  ultimately show ?thesis by (simp add: pk_mkdir_def vfs_mkdir_def)
qed

lemma pkg_init_faults:
  assumes "mounted (pk_fs s)"
  shows "\<exists>e. pkg_init E s = Some (Inl e)"
proof -
  let ?s = "s\<lparr>repos := replicate 16 no_repo, pk_packages := 0, pk_num_packages := 0, db_loaded := False\<rparr>"
  consider e where "pk_mkdir E ''/var'' ?s = Some (Inl e)" | t where "pk_mkdir E ''/var'' ?s = Some (Inr t)" "mounted (pk_fs t)"
    using pk_mkdir_mounted [of ?s "''/var''" E] assms by auto
  thus ?thesis by cases (simp_all add: pkg_init_def pk_mkdir_deep)
qed

text \<open>
  C33. On the kernel's own file system the package manager can neither start nor install anything
  (apps/pkg/pkg.c over fs/vfs.c). With the root mounted, \<^verbatim>\<open>pkg_init\<close> faults at its second directory at the
  latest, because looking up \<^verbatim>\<open>/var\<close> reads before the inode table. Whatever repositories are configured
  and whatever a server answers, an installation that returns has changed no package, and reports success
  only for a package that was marked installed before; and updating the repositories changes neither
  their lists nor their counts.
\<close>

theorem nothing_gets_installed:
  assumes "mounted (pk_fs s)"
  shows "(\<exists>e. pkg_init E s = Some (Inl e)) \<and>
     (\<forall>name r t. pkg_install E name s = Some (Inr (r, t)) \<longrightarrow> pk_arrays t = pk_arrays s \<and> (r = 0 \<longrightarrow> has_installed name s)) \<and>
     (\<forall>r t. pkg_update_repos E s = Some (Inr (r, t)) \<longrightarrow> pk_arrays t = pk_arrays s \<and> repos t = repos s)"
proof -
  have "pk_arrays t = pk_arrays s \<and> repos t = repos s" if run: "pkg_update_repos E s = Some (Inr (r, t))" for r t
  proof -
    obtain u where u: "update_loop E [0..<num_repos s] (tells [''Updating package repositories...'' @ NL] s) = Some (Inr u)"
        "tells [''Repository update completed'' @ NL] u = t"
      using run [unfolded pkg_update_repos_def bind_run_Inr_iff] by blast
    have "mounted (pk_fs (tells [''Updating package repositories...'' @ NL] s))" using assms by simp
    from update_loop_same [OF this u(1)] show ?thesis unfolding u(2) [symmetric] by (simp add: same_packages_def)
  qed
  thus ?thesis using pkg_init_faults [OF assms] install_same [OF assms] by blast
qed

text \<open>A package manager with one repository and one package on a file system that holds only its root, for concrete runs.\<close>

definition one_repo :: "'d fs \<Rightarrow> ('d, unit) pkg" where
  "one_repo f =
     \<lparr>repos = \<lparr>repo_name = ''main'', repo_url = ''http://10.0.2.2'', repo_path = ''/pkg'', repo_enabled = True, repo_packages = 0x1000, repo_num_packages = 1\<rparr> #
        replicate 15 no_repo, num_repos = 1, pk_packages = 0, pk_num_packages = 0, db_loaded = False,
      pk_arrays = [0x1000 \<mapsto> [empty_package\<lparr>pkg_name := ''vi'', pkg_version := ''1.0'', pkg_size := 120, pkg_description := ''Text Editor''\<rparr>]],
      pk_fs = f, pk_tcp = (), pk_time = 0, pk_out = []\<rparr>"

theorem nothing_gets_installed_witness:
  "\<forall>E h. (\<exists>e. pkg_init E (one_repo (root_fs h)) = Some (Inl e)) \<and> (\<forall>t. pkg_install E ''vi'' (one_repo (root_fs h)) \<noteq> Some (Inr (0, t)))"
proof (intro allI)
  fix E :: "(u32 \<Rightarrow> u8 list, unit) pkg_env" and h
  have m: "mounted (pk_fs (one_repo (root_fs h)))" using root_fs_mounted by (simp add: one_repo_def)
  have "\<not> has_installed ''vi'' (one_repo (root_fs h))"
    by (auto simp: has_installed_def one_repo_def installed_named_def empty_package_def split: if_splits)
  thus "(\<exists>e. pkg_init E (one_repo (root_fs h)) = Some (Inl e)) \<and> (\<forall>t. pkg_install E ''vi'' (one_repo (root_fs h)) \<noteq> Some (Inr (0, t)))"
    using nothing_gets_installed [OF m, of E] by blast
qed

theorem search_finds_exactly_witness:
  "\<forall>h. \<exists>s. pkg_search ''EDIT'' (one_repo (root_fs h)) = Inr (0, s) \<and> length (hits ''EDIT'' (one_repo (root_fs h))) = 1"
proof
  fix h
  have ok: "arrays_ok (one_repo (root_fs h))" by (simp add: arrays_ok_def one_repo_def live_repos_def)
  have c: "contains_ci ''Text Editor'' ''EDIT''"
  proof -
    have "map tolower ''Edit'' = map tolower ''EDIT''" by code_simp
    moreover have "''Text Editor'' = ''Text '' @ ''Edit'' @ ''or''" by simp
    ultimately show ?thesis unfolding contains_ci_def by blast
  qed
  have "length (hits ''EDIT'' (one_repo (root_fs h))) = 1"
    using c by (simp add: hits_def one_repo_def live_repos_def packages_of_def)
  thus "\<exists>s. pkg_search ''EDIT'' (one_repo (root_fs h)) = Inr (0, s) \<and> length (hits ''EDIT'' (one_repo (root_fs h))) = 1"
    using search_finds_exactly [OF ok, of "''EDIT''"] by blast
qed

end
