(* ===== verification/Solix_Ethernet.thy ===== *)
theory Solix_Ethernet
  imports Solix_Net
begin


unbundle bit_operations_syntax

section \<open>Ports\<close>

record 'h ports =
  out8 :: "u16 \<Rightarrow> u8 \<Rightarrow> 'h \<Rightarrow> 'h"
  out16 :: "u16 \<Rightarrow> u16 \<Rightarrow> 'h \<Rightarrow> 'h"
  out32 :: "u16 \<Rightarrow> u32 \<Rightarrow> 'h \<Rightarrow> 'h"
  in8 :: "u16 \<Rightarrow> 'h \<Rightarrow> u8 \<times> 'h"
  in16 :: "u16 \<Rightarrow> 'h \<Rightarrow> u16 \<times> 'h"
  in32 :: "u16 \<Rightarrow> 'h \<Rightarrow> u32 \<times> 'h"

record 'h rtl =
  rtl_net :: net
  rx_buffer :: u32
  tx_buffers :: "u32 list"
  tx_data :: "u8 list list"
  current_tx_buffer :: nat
  hw :: 'h
  irq_lines :: "u32 list"

abbreviation RTL8139_PORT_BASE :: u16 where "RTL8139_PORT_BASE \<equiv> 0xC000"
abbreviation RTL8139_IRQ :: u32 where "RTL8139_IRQ \<equiv> 32"
abbreviation RTL8139_IDR :: u16 where "RTL8139_IDR \<equiv> 0x00"
abbreviation RTL8139_CMD :: u16 where "RTL8139_CMD \<equiv> 0x37"
abbreviation RTL8139_IMR :: u16 where "RTL8139_IMR \<equiv> 0x3C"
abbreviation RTL8139_TSD :: u16 where "RTL8139_TSD \<equiv> 0x10"
abbreviation RTL8139_RCR :: u16 where "RTL8139_RCR \<equiv> 0x44"
abbreviation RTL8139_RBSTART :: u16 where "RTL8139_RBSTART \<equiv> 0x30"
abbreviation RTL8139_CMD_RESET :: u8 where "RTL8139_CMD_RESET \<equiv> 0x10"
abbreviation RTL8139_CMD_TX_ENABLE :: u8 where "RTL8139_CMD_TX_ENABLE \<equiv> 0x04"
abbreviation RTL8139_CMD_RX_ENABLE :: u8 where "RTL8139_CMD_RX_ENABLE \<equiv> 0x08"
abbreviation RTL8139_RX_BUFFER_SIZE :: nat where "RTL8139_RX_BUFFER_SIZE \<equiv> 8192"
abbreviation RTL8139_TX_BUFFER_SIZE :: nat where "RTL8139_TX_BUFFER_SIZE \<equiv> 1536"

section \<open>The PCI bus\<close>

definition pci_address :: "u8 \<Rightarrow> u8 \<Rightarrow> u8 \<Rightarrow> u8 \<Rightarrow> u32" where
  "pci_address bus slot func offset =
     push_bit 16 (ucast bus) OR push_bit 11 (ucast slot) OR push_bit 8 (ucast func) OR ucast (offset AND 0xFC) OR 0x80000000"

definition pci_config_read_word :: "'h ports \<Rightarrow> u8 \<Rightarrow> u8 \<Rightarrow> u8 \<Rightarrow> u8 \<Rightarrow> 'h \<Rightarrow> u16 \<times> 'h" where
  "pci_config_read_word P bus slot func offset h =
     (case in32 P 0xCFC (out32 P 0xCF8 (pci_address bus slot func offset) h) of
        (v, h1) \<Rightarrow> (ucast (drop_bit (unat ((offset AND 2) * 8)) v), h1))"

definition pci_config_write_word :: "'h ports \<Rightarrow> u8 \<Rightarrow> u8 \<Rightarrow> u8 \<Rightarrow> u8 \<Rightarrow> u16 \<Rightarrow> 'h \<Rightarrow> 'h" where
  "pci_config_write_word P bus slot func offset value h =
     out16 P 0xCFC value (out32 P 0xCF8 (pci_address bus slot func offset) h)"

text \<open>
  The three nested loops of \<^verbatim>\<open>find_rtl8139\<close>. The bus number is an 8 bit integer, so that the outer
  loop's condition always holds and 255 is followed by 0: it does not end by itself.
\<close>

partial_function (option) find_rtl8139 :: "'h ports \<Rightarrow> u8 \<Rightarrow> u8 \<Rightarrow> u8 \<Rightarrow> 'h \<Rightarrow> ((u8 \<times> u8 \<times> u8) \<times> 'h) option" where
  "find_rtl8139 io b s f h =
     (case pci_config_read_word io b s f 0x00 h of (vendor, h1) \<Rightarrow>
      case pci_config_read_word io b s f 0x02 h1 of (device, h2) \<Rightarrow>
        if vendor = 0x10EC \<and> device = 0x8139 then Some ((b, s, f), h2)
        else if f + 1 < 8 then find_rtl8139 io b s (f + 1) h2
        else if s + 1 < 32 then find_rtl8139 io b (s + 1) 0 h2
        else find_rtl8139 io (b + 1) 0 0 h2)"

section \<open>Operations of the device\<close>

definition set_up :: "u32 \<Rightarrow> bool \<Rightarrow> 'h rtl \<Rightarrow> 'h rtl" where
  "set_up dev v r =
     r\<lparr>rtl_net := (rtl_net r)\<lparr>dev_objs := (dev_objs (rtl_net r))(dev := map_option (\<lambda>d. d\<lparr>up := v\<rparr>) (dev_objs (rtl_net r) dev))\<rparr>\<rparr>"

definition rtl_kmalloc :: "u32 \<Rightarrow> 'h rtl \<Rightarrow> (u32 \<times> 'h rtl) run" where
  "rtl_kmalloc n r = bind_run (kmalloc n (net_heap (rtl_net r))) (\<lambda>(p, h). Some (Inr (p, r\<lparr>rtl_net := (rtl_net r)\<lparr>net_heap := h\<rparr>\<rparr>)))"

definition rtl_kfree :: "u32 \<Rightarrow> 'h rtl \<Rightarrow> fault + 'h rtl" where
  "rtl_kfree p r = bind_res (kfree p (net_heap (rtl_net r))) (\<lambda>h. Inr (r\<lparr>rtl_net := (rtl_net r)\<lparr>net_heap := h\<rparr>\<rparr>))"

fun alloc_tx :: "nat list \<Rightarrow> 'h rtl \<Rightarrow> (bool \<times> 'h rtl) run" where
  "alloc_tx [] r = Some (Inr (True, r))"
| "alloc_tx (i # is) r =
     bind_run (rtl_kmalloc (of_nat RTL8139_TX_BUFFER_SIZE) r) (\<lambda>(p, r1).
       let r2 = r1\<lparr>tx_buffers := list_update (tx_buffers r1) i p\<rparr>
       in if p = 0 then Some (Inr (False, r2)) else alloc_tx is r2)"

text \<open>The loop that waits for the reset to complete.\<close>

partial_function (option) wait_reset :: "'h ports \<Rightarrow> 'h \<Rightarrow> 'h option" where
  "wait_reset io h =
     (case in8 io (RTL8139_PORT_BASE + RTL8139_CMD) h of
        (v, h1) \<Rightarrow> if v AND RTL8139_CMD_RESET \<noteq> 0 then wait_reset io h1 else Some h1)"

definition rtl8139_open :: "'h ports \<Rightarrow> u32 \<Rightarrow> 'h rtl \<Rightarrow> (int \<times> 'h rtl) run" where
  "rtl8139_open P dev r =
     bind_run (rtl_kmalloc (of_nat RTL8139_RX_BUFFER_SIZE) r) (\<lambda>(p, r1).
       let r2 = r1\<lparr>rx_buffer := p\<rparr>
       in if p = 0 then Some (Inr (-1, r2))
          else bind_run (alloc_tx [0..<4] r2) (\<lambda>(ok, r3).
            if \<not> ok then Some (Inr (-1, r3))
            else case wait_reset P (out8 P (RTL8139_PORT_BASE + RTL8139_CMD) RTL8139_CMD_RESET (hw r3)) of
                   None \<Rightarrow> None
                 | Some h1 \<Rightarrow>
                     let h2 = out32 P (RTL8139_PORT_BASE + RTL8139_RBSTART) (rx_buffer r3) h1;
                         h3 = out8 P (RTL8139_PORT_BASE + RTL8139_CMD) (RTL8139_CMD_TX_ENABLE OR RTL8139_CMD_RX_ENABLE) h2;
                         h4 = out32 P (RTL8139_PORT_BASE + RTL8139_RCR) (0x0F OR push_bit 7 1) h3;
                         h5 = out16 P (RTL8139_PORT_BASE + RTL8139_IMR) 0x0005 h4
                     in Some (Inr (0, set_up dev True (r3\<lparr>hw := h5\<rparr>)))))"

fun free_all :: "u32 list \<Rightarrow> 'h rtl \<Rightarrow> fault + 'h rtl" where
  "free_all [] r = Inr r"
| "free_all (p # ps) r = bind_res (rtl_kfree p r) (free_all ps)"

definition rtl8139_close :: "'h ports \<Rightarrow> u32 \<Rightarrow> 'h rtl \<Rightarrow> fault + int \<times> 'h rtl" where
  "rtl8139_close P dev r =
     bind_res (free_all (rx_buffer r # tx_buffers r) (r\<lparr>hw := out8 P (RTL8139_PORT_BASE + RTL8139_CMD) 0 (hw r)\<rparr>)) (\<lambda>r1.
       Inr (0, set_up dev False r1))"

definition rtl8139_transmit :: "'h ports \<Rightarrow> u8 list \<Rightarrow> 'h rtl \<Rightarrow> int \<times> 'h rtl" where
  "rtl8139_transmit P data r =
     (if length data > RTL8139_TX_BUFFER_SIZE then (-1, r)
      else let i = current_tx_buffer r
           in (0, r\<lparr>tx_data := list_update (tx_data r) i (data @ drop (length data) (tx_data r ! i)),
                    hw := out32 P (RTL8139_PORT_BASE + RTL8139_TSD + of_nat i * 4) (of_nat (length data)) (hw r),
                    current_tx_buffer := (i + 1) mod 4\<rparr>))"

section \<open>The interrupt handler\<close>






section \<open>Initialisation\<close>

definition rtl8139_init :: "'h ports \<Rightarrow> u32 \<Rightarrow> 'h rtl \<Rightarrow> (int \<times> 'h rtl) run" where
  "rtl8139_init P dev r =
     (case find_rtl8139 P 0 0 0 (hw r) of
        None \<Rightarrow> None
      | Some ((bus, slot, func), h1) \<Rightarrow>
          (case pci_config_read_word P bus slot func 0x04 h1 of (command, h2) \<Rightarrow>
           case in32 P (RTL8139_PORT_BASE + RTL8139_IDR) (pci_config_write_word P bus slot func 0x04 (command OR 0x04) h2) of (mac0, h4) \<Rightarrow>
           case in16 P (RTL8139_PORT_BASE + RTL8139_IDR + 4) h4 of (mac4, h5) \<Rightarrow>
             let d = \<lparr>dev_name = ''eth0'', mac = le32 mac0 @ le16 mac4, ip_addr = ip_aton ''192.168.1.100'',
                      netmask = ip_aton ''255.255.255.0'', gateway = ip_aton ''192.168.1.1'', up = False, can_transmit = True\<rparr>;
                 n = (rtl_net r)\<lparr>dev_objs := (dev_objs (rtl_net r))(dev := Some d), devices := snd (net_register_device dev (devices (rtl_net r)))\<rparr>
             in Some (Inr (0, r\<lparr>rtl_net := n, hw := h5, irq_lines := irq_lines r @ [RTL8139_IRQ]\<rparr>))))"

section \<open>Sending\<close>

text \<open>The card sends from the four buffers in turn; a frame is taken if it fits, and lies at the start of its buffer.\<close>

definition tx_ok :: "'h rtl \<Rightarrow> bool" where
  "tx_ok r \<longleftrightarrow> current_tx_buffer r < 4 \<and> length (tx_data r) = 4 \<and> (\<forall>b\<in>set (tx_data r). length b = RTL8139_TX_BUFFER_SIZE)"

lemma rtl8139_transmit_ok:
  assumes "tx_ok r" and "rtl8139_transmit P data r = (v, r')"
  shows "tx_ok r' \<and> v = (if length data \<le> RTL8139_TX_BUFFER_SIZE then 0 else -1) \<and>
    (v = 0 \<longrightarrow> take (length data) (tx_data r' ! current_tx_buffer r) = data \<and> current_tx_buffer r' = (current_tx_buffer r + 1) mod 4)"
proof -
  have "length (tx_data r ! current_tx_buffer r) = RTL8139_TX_BUFFER_SIZE" using assms(1) by (simp add: tx_ok_def)
  thus ?thesis using assms by (auto simp: tx_ok_def rtl8139_transmit_def Let_def split: if_splits dest!: set_update_subset_insert [THEN subsetD])
qed

section \<open>Finding the card\<close>

text \<open>The configuration space of the bus: what is read after an address was written is the word at this address.\<close>

definition pci_bus :: "'h ports \<Rightarrow> (u32 \<Rightarrow> u32) \<Rightarrow> bool" where
  "pci_bus P cfg \<longleftrightarrow> (\<forall>a h. fst (in32 P 0xCFC (out32 P 0xCF8 a h)) = cfg a)"

definition card_at :: "(u32 \<Rightarrow> u32) \<Rightarrow> u8 \<times> u8 \<times> u8 \<Rightarrow> bool" where
  "card_at cfg x = (case x of (b, s, f) \<Rightarrow>
     (ucast (cfg (pci_address b s f 0)) :: u16) = 0x10EC \<and> (ucast (drop_bit 16 (cfg (pci_address b s f 0))) :: u16) = 0x8139)"

definition pci_next :: "u8 \<times> u8 \<times> u8 \<Rightarrow> u8 \<times> u8 \<times> u8" where
  "pci_next x = (case x of (b, s, f) \<Rightarrow> if f + 1 < 8 then (b, s, f + 1) else if s + 1 < 32 then (b, s + 1, 0) else (b + 1, 0, 0))"

definition find_at :: "'h ports \<Rightarrow> u8 \<times> u8 \<times> u8 \<Rightarrow> 'h \<Rightarrow> ((u8 \<times> u8 \<times> u8) \<times> 'h) option" where
  "find_at P x h = (case x of (b, s, f) \<Rightarrow> find_rtl8139 P b s f h)"

lemma pci_address_2: "pci_address b s f 2 = pci_address b s f 0"
  by (simp add: pci_address_def)

lemma find_at_step:
  assumes "pci_bus P cfg"
  shows "\<exists>h'. find_at P x h = (if card_at cfg x then Some (x, h') else find_at P (pci_next x) h')"
proof -
  obtain b s f where x: "x = (b, s, f)" by (cases x)
  obtain v h1 where v: "in32 P 0xCFC (out32 P 0xCF8 (pci_address b s f 0) h) = (v, h1)" by (cases "in32 P 0xCFC (out32 P 0xCF8 (pci_address b s f 0) h)")
  obtain w h2 where w: "in32 P 0xCFC (out32 P 0xCF8 (pci_address b s f 0) h1) = (w, h2)" by (cases "in32 P 0xCFC (out32 P 0xCF8 (pci_address b s f 0) h1)")
  have "v = cfg (pci_address b s f 0)" "w = cfg (pci_address b s f 0)" using assms v w unfolding pci_bus_def by (metis fst_conv)+
  moreover have "pci_config_read_word P b s f 0 h = (ucast v, h1)" "pci_config_read_word P b s f 2 h1 = (ucast (drop_bit 16 w), h2)"
    using v w by (simp_all add: pci_config_read_word_def pci_address_2)
  ultimately have "find_at P x h = (if card_at cfg x then Some (x, h2) else find_at P (pci_next x) h2)"
    unfolding x find_at_def by (simp add: find_rtl8139.simps [of P b s f h] card_at_def pci_next_def)
  thus ?thesis by blast
qed

lemma find_at_reaches:
  assumes "pci_bus P cfg"
  shows "card_at cfg ((pci_next ^^ n) x) \<Longrightarrow> (\<And>k. k < n \<Longrightarrow> \<not> card_at cfg ((pci_next ^^ k) x)) \<Longrightarrow>
    \<exists>h'. find_at P x h = Some ((pci_next ^^ n) x, h')"
proof (induction n arbitrary: x h)
  case 0
  thus ?case using find_at_step [OF assms, of x h] by auto
next
  case (Suc n)
  obtain h' where "find_at P x h = find_at P (pci_next x) h'" using find_at_step [OF assms, of x h] Suc.prems(2) [of 0] by auto
  moreover have "\<exists>h2. find_at P (pci_next x) h' = Some ((pci_next ^^ n) (pci_next x), h2)"
  proof (rule Suc.IH)
    show "card_at cfg ((pci_next ^^ n) (pci_next x))" using Suc.prems(1) by (simp add: funpow_swap1)
    show "\<not> card_at cfg ((pci_next ^^ k) (pci_next x))" if "k < n" for k using Suc.prems(2) [of "Suc k"] that by (simp add: funpow_swap1)
  qed
  ultimately show ?case by (simp add: funpow_swap1)
qed

lemma find_result_card:
  assumes "find_rtl8139 io b s f h = Some r"
  shows "pci_bus io cfg \<longrightarrow> s < 32 \<longrightarrow> f < 8 \<longrightarrow> card_at cfg (fst r) \<and> fst (snd (fst r)) < 32 \<and> snd (snd (fst r)) < 8"
proof (rule find_rtl8139.raw_induct [where P = "\<lambda>io b s f h r. pci_bus io cfg \<longrightarrow> s < 32 \<longrightarrow> f < 8 \<longrightarrow>
    card_at cfg (fst r) \<and> fst (snd (fst r)) < 32 \<and> snd (snd (fst r)) < 8", OF _ assms], intro impI)
  fix loop :: "'a ports \<Rightarrow> u8 \<Rightarrow> u8 \<Rightarrow> u8 \<Rightarrow> 'a \<Rightarrow> ((u8 \<times> u8 \<times> u8) \<times> 'a) option" and io b s f h r
  assume IH: "\<And>io b s f h r. loop io b s f h = Some r \<Longrightarrow>
      pci_bus io cfg \<longrightarrow> s < 32 \<longrightarrow> f < 8 \<longrightarrow> card_at cfg (fst r) \<and> fst (snd (fst r)) < 32 \<and> snd (snd (fst r)) < 8"
    and run: "(case pci_config_read_word io b s f 0x00 h of (vendor, h1) \<Rightarrow>
      case pci_config_read_word io b s f 0x02 h1 of (device, h2) \<Rightarrow>
        if vendor = 0x10EC \<and> device = 0x8139 then Some ((b, s, f), h2)
        else if f + 1 < 8 then loop io b s (f + 1) h2
        else if s + 1 < 32 then loop io b (s + 1) 0 h2
        else loop io (b + 1) 0 0 h2) = Some r"
    and bus: "pci_bus io cfg" and sf: "s < 32" "f < 8"
  obtain v h1 where v: "pci_config_read_word io b s f 0 h = (v, h1)" by (cases "pci_config_read_word io b s f 0 h")
  obtain w h2 where w: "pci_config_read_word io b s f 2 h1 = (w, h2)" by (cases "pci_config_read_word io b s f 2 h1")
  have "fst (in32 io 0xCFC (out32 io 0xCF8 a h)) = cfg a" for a h using bus by (simp add: pci_bus_def)
  hence vw: "v = ucast (cfg (pci_address b s f 0))" "w = ucast (drop_bit 16 (cfg (pci_address b s f 0)))"
    using v w by (auto simp: pci_config_read_word_def pci_address_2 split: prod.splits) (metis fst_conv)+
  show "card_at cfg (fst r) \<and> fst (snd (fst r)) < 32 \<and> snd (snd (fst r)) < 8"
  proof (cases "v = 0x10EC \<and> w = 0x8139")
    case True
    thus ?thesis using run v w vw sf by (auto simp: card_at_def)
  next
    case False
    thus ?thesis using run v w IH bus sf by (auto split: if_splits)
  qed
qed

text \<open>The order of the search.\<close>

definition pci_place :: "nat \<Rightarrow> u8 \<times> u8 \<times> u8" where
  "pci_place n = (of_nat (n div 256), of_nat (n div 8 mod 32), of_nat (n mod 8))"

lemma small_word_less: "k < 256 \<Longrightarrow> m < 256 \<Longrightarrow> (of_nat k :: u8) < of_nat m \<longleftrightarrow> k < m"
  by (simp add: word_less_nat_alt unat_of_nat take_bit_nat_eq_self)

lemma place_parts:
  assumes "s < 32" "f < (8 :: nat)"
  shows "pci_place (256 * b + 8 * s + f) = (of_nat b, of_nat s, of_nat f)"
proof -
  let ?n = "8 * (32 * b + s) + f"
  have "(8 * k + f) div 8 = k" "(8 * k + f) mod 8 = f" for k using assms(2) by simp_all
  note d = this [of "32 * b + s"]
  have "?n div (8 * 32) = ?n div 8 div 32" by (rule div_mult2_eq)
  hence q: "?n div 256 = b" "?n div 8 mod 32 = s" unfolding d(1) using assms(1) by simp_all
  have e: "256 * b + 8 * s + f = ?n" by simp
  show ?thesis unfolding e pci_place_def q d(2) ..
qed

lemma pci_next_place: "pci_next (pci_place n) = pci_place (Suc n)"
proof -
  define m b s f where "m = n div 8" and "b = m div 32" and "s = m mod 32" and "f = n mod 8"
  have "m * 8 + f = n" "b * 32 + s = m" unfolding m_def b_def s_def f_def by (rule div_mult_mod_eq)+
  hence n: "n = 256 * b + 8 * s + f" "s < 32" "f < 8" by (linarith, simp_all add: s_def f_def)
  have lt: "(of_nat f + 1 :: u8) < 8 \<longleftrightarrow> Suc f < 8" "(of_nat s + 1 :: u8) < 32 \<longleftrightarrow> Suc s < 32"
    using small_word_less [of "Suc f" 8] small_word_less [of "Suc s" 32] n(2,3) by (simp_all add: add.commute)
  have here: "pci_place n = (of_nat b, of_nat s, of_nat f)" unfolding n(1) by (rule place_parts [OF n(2,3)])
  consider "f < 7" | "f = 7" "s < 31" | "f = 7" "s = 31" using n(2,3) by linarith
  thus ?thesis
  proof cases
    case 1
    have "Suc n = 256 * b + 8 * s + Suc f" using n(1) by simp
    thus ?thesis using place_parts [of s "Suc f" b] 1 n(2) here lt by (simp only: pci_next_def) simp
  next
    case 2
    have "Suc n = 256 * b + 8 * Suc s + 0" using n(1) 2 by simp
    thus ?thesis using place_parts [of "Suc s" 0 b] 2 here lt by (simp only: pci_next_def) simp
  next
    case 3
    have "Suc n = 256 * Suc b + 8 * 0 + 0" using n(1) 3 by simp
    thus ?thesis using place_parts [of 0 0 "Suc b"] 3 here lt by (simp only: pci_next_def) simp
  qed
qed

lemma pci_iterates: "(pci_next ^^ n) (0, 0, 0) = pci_place n"
  by (induction n) (simp_all add: pci_next_place, simp add: pci_place_def)

lemma pci_place_surj:
  assumes "s < 32" "f < 8"
  shows "pci_place (256 * unat b + 8 * unat s + unat f) = (b, s, f)"
proof -
  have "unat s < 32" "unat f < 8" using assms by (simp_all add: word_less_nat_alt)
  thus ?thesis by (simp add: place_parts)
qed

text \<open>
  C28. Looking for the network card (drivers/ethernet.c, find\_rtl8139). On a bus with a card the first one in
  the order of bus, slot and function is found. On a bus without one the search does not end, since the
  bus number is an 8 bit integer that is always below 256: \<^verbatim>\<open>rtl8139_init\<close> does not report the
  missing card, but never returns.
\<close>

theorem find_rtl8139_ends_iff_card:
  assumes "pci_bus P cfg"
  shows "if \<exists>b s f. s < 32 \<and> f < 8 \<and> card_at cfg (b, s, f)
    then \<exists>n h'. find_rtl8139 P 0 0 0 h = Some (pci_place n, h') \<and> card_at cfg (pci_place n) \<and> (\<forall>k<n. \<not> card_at cfg (pci_place k))
    else find_rtl8139 P 0 0 0 h = None \<and> (\<forall>dev r. hw r = h \<longrightarrow> rtl8139_init P dev r = None)"
proof (cases "\<exists>n. card_at cfg (pci_place n)")
  case True
  then obtain n where n: "card_at cfg (pci_place n)" "\<forall>k<n. \<not> card_at cfg (pci_place k)" using exists_least_iff [of "\<lambda>n. card_at cfg (pci_place n)"] by blast
  hence f: "\<exists>h'. find_rtl8139 P 0 0 0 h = Some (pci_place n, h')"
    using find_at_reaches [OF assms, of n "(0, 0, 0)" h] by (simp add: pci_iterates find_at_def)
  have "snd (snd (pci_place n)) < 8" "fst (snd (pci_place n)) < 32"
    using small_word_less [of "n mod 8" 8] small_word_less [of "n div 8 mod 32" 32] by (simp_all add: pci_place_def)
  hence "\<exists>b s f. s < 32 \<and> f < 8 \<and> card_at cfg (b, s, f)" using n(1) by (cases "pci_place n") auto
  thus ?thesis using n f by simp blast
next
  case False
  hence no: "\<not> card_at cfg (b, s, f)" if "s < 32" "f < 8" for b s f using pci_place_surj [OF that, of b] by metis
  have "find_rtl8139 P 0 0 0 h = None"
  proof (rule ccontr)
    assume "find_rtl8139 P 0 0 0 h \<noteq> None"
    then obtain x h' where "find_rtl8139 P 0 0 0 h = Some (x, h')" by auto
    thus False using find_result_card [of P 0 0 0 h "(x, h')" cfg] assms no by (cases x) auto
  qed
  thus ?thesis using no by (auto simp: rtl8139_init_def)
qed

text \<open>A bus with a given configuration space, on a machine that remembers the last address.\<close>

definition demo_ports :: "(u32 \<Rightarrow> u32) \<Rightarrow> u32 ports" where
  "demo_ports cfg = \<lparr>out8 = \<lambda>_ _ h. h, out16 = \<lambda>_ _ h. h, out32 = \<lambda>_ v _. v, in8 = \<lambda>_ h. (0, h), in16 = \<lambda>_ h. (0, h), in32 = \<lambda>_ h. (cfg h, h)\<rparr>"

lemma demo_bus: "pci_bus (demo_ports cfg) cfg"
  by (simp add: pci_bus_def demo_ports_def)

theorem find_rtl8139_ends_iff_card_witness:
  "find_rtl8139 (demo_ports (\<lambda>_. 0xFFFFFFFF)) 0 0 0 0 = None \<and>
   (\<exists>h. find_rtl8139 (demo_ports (\<lambda>a. if a = pci_address 0 0 3 0 then 0x813910EC else 0xFFFFFFFF)) 0 0 0 0 = Some ((0, 0, 3), h))"
proof
  have "\<not> card_at (\<lambda>_. 0xFFFFFFFF) x" for x by (cases x) (simp add: card_at_def)
  thus "find_rtl8139 (demo_ports (\<lambda>_. 0xFFFFFFFF)) 0 0 0 0 = None"
    using find_rtl8139_ends_iff_card [OF demo_bus, of "\<lambda>_. 0xFFFFFFFF" 0] by simp
next
  let ?cfg = "\<lambda>a. if a = pci_address 0 0 3 0 then 0x813910EC else 0xFFFFFFFF :: u32"
  have c: "card_at ?cfg (0, 0, 3)" by (simp add: card_at_def)
  have no: "\<not> card_at ?cfg (pci_place k)" if "k < 3" for k
  proof -
    have "k = 0 \<or> k = 1 \<or> k = 2" using that by linarith
    thus ?thesis by (auto simp: card_at_def pci_place_def pci_address_def)
  qed
  have p3: "pci_place 3 = (0, 0, 3)" by (simp add: pci_place_def)
  have "\<exists>b s f. s < 32 \<and> f < 8 \<and> card_at ?cfg (b, s, f)" using c by (intro exI [of _ 0] exI [of _ 3]) simp
  then obtain n h where n: "find_rtl8139 (demo_ports ?cfg) 0 0 0 0 = Some (pci_place n, h)" "card_at ?cfg (pci_place n)" "\<forall>k<n. \<not> card_at ?cfg (pci_place k)"
    using find_rtl8139_ends_iff_card [OF demo_bus, of ?cfg 0] by (simp only: if_True) blast
  have "n = 3" using n(2,3) no [of n] c p3 by (metis linorder_neqE_nat)
  thus "\<exists>h. find_rtl8139 (demo_ports ?cfg) 0 0 0 0 = Some ((0, 0, 3), h)" using n(1) p3 by auto
qed

section \<open>Receiving packets\<close>














end
