(* ===== verification/Solix_Wifi.thy ===== *)
theory Solix_Wifi
  imports Solix_Net
begin

text \<open>
  The WiFi layer, after \<^verbatim>\<open>drivers/wifi.c\<close>: the table of devices of \<open>Solix_Net\<close>, the operations that are passed on to
  the first device, and two conversions. Devices are objects in a store; their operations are functions on
  a world of any type, and a missing one is \<open>None\<close>. What is printed is recorded.
\<close>

declare of_nat_add [simp del]

record wifi_network =
  ssid :: string
  bssid :: "u8 list"
  security :: u8
  channel :: u8
  rssi :: "8 word"
  net_connected :: bool

record 'w wifi_device =
  wifi_name :: string
  op_scan :: "(u32 \<Rightarrow> int \<Rightarrow> 'w \<Rightarrow> (int \<times> wifi_network list) \<times> 'w) option"
  op_connect :: "(u32 \<Rightarrow> string \<Rightarrow> string \<Rightarrow> 'w \<Rightarrow> int \<times> 'w) option"
  op_disconnect :: "(u32 \<Rightarrow> 'w \<Rightarrow> int \<times> 'w) option"
  op_get_status :: "(u32 \<Rightarrow> 'w \<Rightarrow> int \<times> 'w) option"

record 'w wifi =
  wifi_devices :: ptab
  wifi_objs :: "u32 \<rightharpoonup> 'w wifi_device"
  wifi_world :: 'w
  wifi_out :: "string list"

abbreviation NEWLINE :: string where "NEWLINE \<equiv> [CHR ''\<newline>'']"

definition wifi_print :: "string list \<Rightarrow> 'w wifi \<Rightarrow> 'w wifi" where
  "wifi_print ts w = w\<lparr>wifi_out := wifi_out w @ ts\<rparr>"

text \<open>The array is cleared, the number of devices is not.\<close>

definition wifi_init :: "'w wifi \<Rightarrow> 'w wifi" where
  "wifi_init w =
     wifi_print [''WiFi subsystem initialized'' @ NEWLINE] (w\<lparr>wifi_devices := (wifi_devices w)\<lparr>slots := replicate 8 0\<rparr>\<rparr>)"

definition wifi_register :: "u32 \<Rightarrow> 'w wifi \<Rightarrow> fault + int \<times> 'w wifi" where
  "wifi_register dev w =
     (case wifi_register_device dev (wifi_devices w) of
        (r, t) \<Rightarrow>
          if r \<noteq> 0 then Inr (r, w)
          else case wifi_objs w dev of
                 None \<Rightarrow> Inl (Wild_Access dev)
               | Some d \<Rightarrow> Inr (0, wifi_print [''Registered WiFi device: '', wifi_name d, NEWLINE] (w\<lparr>wifi_devices := t\<rparr>)))"

fun scan_wifi :: "(u32 \<rightharpoonup> 'w wifi_device) \<Rightarrow> string \<Rightarrow> u32 list \<Rightarrow> fault + u32" where
  "scan_wifi m name [] = Inr 0"
| "scan_wifi m name (p # ps) =
     (case m p of None \<Rightarrow> Inl (Wild_Access p)
      | Some d \<Rightarrow> if wifi_name d = name then Inr p else scan_wifi m name ps)"

definition wifi_get_device :: "string \<Rightarrow> 'w wifi \<Rightarrow> fault + u32" where
  "wifi_get_device name w = scan_wifi (wifi_objs w) name (registered (wifi_devices w))"

text \<open>The first device, none if there is no device.\<close>

definition first_wifi :: "'w wifi \<Rightarrow> fault + (u32 \<times> 'w wifi_device) option" where
  "first_wifi w =
     (if count (wifi_devices w) = 0 then Inr None
      else let p = slots (wifi_devices w) ! 0
           in case wifi_objs w p of None \<Rightarrow> Inl (Wild_Access p) | Some d \<Rightarrow> Inr (Some (p, d)))"

definition wifi_scan :: "int \<Rightarrow> 'w wifi \<Rightarrow> fault + (int \<times> wifi_network list) \<times> 'w wifi" where
  "wifi_scan max_count w =
     bind_res (first_wifi w) (\<lambda>x. case x of
        None \<Rightarrow> Inr ((-1, []), w)
      | Some (p, d) \<Rightarrow>
          (case op_scan d of
             None \<Rightarrow> Inr ((-1, []), w)
           | Some scan \<Rightarrow> (case scan p max_count (wifi_world w) of (r, v) \<Rightarrow> Inr (r, w\<lparr>wifi_world := v\<rparr>))))"

definition wifi_connect :: "string \<Rightarrow> string \<Rightarrow> 'w wifi \<Rightarrow> fault + int \<times> 'w wifi" where
  "wifi_connect name password w =
     bind_res (first_wifi w) (\<lambda>x. case x of
        None \<Rightarrow> Inr (-1, w)
      | Some (p, d) \<Rightarrow>
          (case op_connect d of
             None \<Rightarrow> Inr (-1, w)
           | Some connect \<Rightarrow>
               (case connect p name password (wifi_world w) of
                  (r, v) \<Rightarrow> Inr (r, wifi_print [''Connecting to '', name, ''...'' @ NEWLINE, if r = 0 then ''Connected to '' else ''Failed to connect to '', name, NEWLINE]
                                     (w\<lparr>wifi_world := v\<rparr>)))))"

definition wifi_disconnect :: "'w wifi \<Rightarrow> fault + int \<times> 'w wifi" where
  "wifi_disconnect w =
     bind_res (first_wifi w) (\<lambda>x. case x of
        None \<Rightarrow> Inr (-1, w)
      | Some (p, d) \<Rightarrow>
          (case op_disconnect d of
             None \<Rightarrow> Inr (-1, w)
           | Some disconnect \<Rightarrow>
               (case disconnect p (wifi_world w) of
                  (r, v) \<Rightarrow> Inr (r, (if r = 0 then wifi_print [''Disconnected from WiFi'' @ NEWLINE] else id) (w\<lparr>wifi_world := v\<rparr>)))))"

definition wifi_get_status :: "'w wifi \<Rightarrow> fault + int \<times> 'w wifi" where
  "wifi_get_status w =
     bind_res (first_wifi w) (\<lambda>x. case x of
        None \<Rightarrow> Inr (-1, w)
      | Some (p, d) \<Rightarrow>
          (case op_get_status d of
             None \<Rightarrow> Inr (-1, w)
           | Some status \<Rightarrow> (case status p (wifi_world w) of (r, v) \<Rightarrow> Inr (r, w\<lparr>wifi_world := v\<rparr>))))"

definition wifi_security_to_string :: "u8 \<Rightarrow> string" where
  "wifi_security_to_string s =
     (if s = 0 then ''Open'' else if s = 1 then ''WEP'' else if s = 2 then ''WPA'' else if s = 3 then ''WPA2'' else ''Unknown'')"

definition wifi_rssi_to_percent :: "8 word \<Rightarrow> int" where
  "wifi_rssi_to_percent v =
     (let r = sint v
      in if r \<ge> -50 then 100 else if r \<ge> -60 then 80 else if r \<ge> -70 then 60
         else if r \<ge> -80 then 40 else if r \<ge> -90 then 20 else 10)"

section \<open>Facts\<close>

text \<open>The strength never grows when the signal gets weaker, and is a percentage.\<close>

lemma wifi_rssi_mono: "sint v \<le> sint w \<Longrightarrow> wifi_rssi_to_percent v \<le> wifi_rssi_to_percent w"
  by (simp add: wifi_rssi_to_percent_def Let_def)

lemma wifi_rssi_range: "10 \<le> wifi_rssi_to_percent v \<and> wifi_rssi_to_percent v \<le> 100"
  by (simp add: wifi_rssi_to_percent_def Let_def)

text \<open>All registered devices exist; then no operation faults.\<close>

definition wifi_ok :: "'w wifi \<Rightarrow> bool" where
  "wifi_ok w \<longleftrightarrow> tab_ok 8 (wifi_devices w) \<and> (\<forall>p\<in>set (registered (wifi_devices w)). wifi_objs w p \<noteq> None)"

lemma wifi_ok_print [simp]: "wifi_ok (wifi_print ts w) = wifi_ok w" "wifi_ok (w\<lparr>wifi_world := v\<rparr>) = wifi_ok w"
  by (simp_all add: wifi_ok_def wifi_print_def)

lemma first_wifi_ok:
  assumes "wifi_ok w"
  shows "\<exists>x. first_wifi w = Inr x \<and> (x = None \<longleftrightarrow> registered (wifi_devices w) = [])"
proof (cases "count (wifi_devices w) = 0")
  case False
  have "slots (wifi_devices w) \<noteq> []" using False assms by (auto simp: wifi_ok_def tab_ok_def)
  hence "slots (wifi_devices w) ! 0 \<in> set (registered (wifi_devices w))" "registered (wifi_devices w) \<noteq> []"
    using False by (cases "slots (wifi_devices w)"; cases "count (wifi_devices w)"; simp add: registered_def)+
  thus ?thesis using False assms by (auto simp: first_wifi_def wifi_ok_def Let_def split: option.splits)
qed (simp add: first_wifi_def registered_def)

lemma wifi_register_ok:
  assumes "wifi_ok w" and "wifi_objs w dev \<noteq> None"
  shows "\<exists>r t. wifi_register dev w = Inr (r, t) \<and> wifi_ok t \<and> (r = 0 \<longleftrightarrow> length (registered (wifi_devices w)) < 8)"
proof (cases "length (registered (wifi_devices w)) < 8")
  case True
  with wifi_devs.reg_new [of "wifi_devices w" dev] assms(1) obtain t where
    "wifi_register_device dev (wifi_devices w) = (0, t)" "tab_ok 8 t" "registered t = registered (wifi_devices w) @ [dev]" by (auto simp: wifi_ok_def)
  thus ?thesis using True assms by (auto simp: wifi_register_def wifi_ok_def wifi_print_def)
next
  case False
  hence "length (registered (wifi_devices w)) = 8" using wifi_devs.reg_bound [of "wifi_devices w"] assms(1) by (simp add: wifi_ok_def)
  with wifi_devs.reg_full [of "wifi_devices w" dev] assms False show ?thesis by (simp add: wifi_register_def wifi_ok_def)
qed

lemma wifi_ops_ok:
  assumes "wifi_ok w"
  shows "\<exists>r t. wifi_scan n w = Inr (r, t) \<and> wifi_ok t" "\<exists>r t. wifi_connect name pw w = Inr (r, t) \<and> wifi_ok t"
    "\<exists>r t. wifi_disconnect w = Inr (r, t) \<and> wifi_ok t" "\<exists>r t. wifi_get_status w = Inr (r, t) \<and> wifi_ok t"
  using first_wifi_ok [OF assms] assms
  by (auto simp: wifi_scan_def wifi_connect_def wifi_disconnect_def wifi_get_status_def bind_res_def split: option.splits prod.splits)

text \<open>Initialising again with devices registered leaves null pointers that are counted.\<close>

lemma wifi_init_again:
  assumes "wifi_ok w" "registered (wifi_devices w) \<noteq> []" "wifi_objs w 0 = None"
  shows "wifi_get_status (wifi_init w) = Inl (Wild_Access 0)"
  using assms by (auto simp: wifi_get_status_def first_wifi_def wifi_init_def wifi_print_def bind_res_def registered_def Let_def)

end
