(* ===== verification/Solix_Irq.thy ===== *)
theory Solix_Irq
  imports Solix_Printk
begin

text \<open>
  The interrupt descriptors of \<^verbatim>\<open>kernel/irq.c\<close> and \<^verbatim>\<open>include/irq.h\<close>, with the spin locks of
  \<^verbatim>\<open>include/slab.h\<close> and the messages of \<open>Solix_Printk\<close>. Pointers to handlers, device data and names
  are addresses, \<open>0\<close> being \<^verbatim>\<open>NULL\<close>; a chip or a flow control is the name of the object it points to.
  \<^verbatim>\<open>spin_lock_irqsave\<close>, \<^verbatim>\<open>spin_unlock_irqrestore\<close> and the handlers of drivers are not in the repository:
  they are the arguments of \<open>irq_env\<close>. A call that does not return has the value \<open>None\<close>.
\<close>

declare of_nat_add [simp del]

section \<open>Spin locks\<close>

text \<open>One thread of control: nobody else clears the lock word while \<^verbatim>\<open>spin_lock\<close> loops.\<close>

partial_function (option) spin_lock :: "u32 \<Rightarrow> u32 run" where
  "spin_lock w = (let old = w; w1 = (1 :: u32) in if old \<noteq> 0 then spin_lock w1 else Some (Inr w1))"

definition spin_unlock :: "u32 \<Rightarrow> u32" where
  "spin_unlock w = 0"

definition spin_trylock :: "u32 \<Rightarrow> bool \<times> u32" where
  "spin_trylock w = (w = 0, 1)"

section \<open>State\<close>

abbreviation NR_IRQS :: u32 where "NR_IRQS \<equiv> 256"
abbreviation IRQ_DISABLED :: u32 where "IRQ_DISABLED \<equiv> 0x01"
abbreviation IRQ_MASKED :: u32 where "IRQ_MASKED \<equiv> 0x04"
abbreviation IRQ_INPROGRESS :: u32 where "IRQ_INPROGRESS \<equiv> 0x08"
abbreviation IRQ_AFFINITY_DEFAULT :: u32 where "IRQ_AFFINITY_DEFAULT \<equiv> 0xFFFFFFFF"

text \<open>The error numbers are named but nowhere defined in the repository; \<open>None\<close> stands for the return value 0.\<close>

datatype errno = EINVAL | EBUSY | ENOTSUPP

datatype irq_chip = dummy_irq_chip | generic_irq_chip

datatype irq_flow_control = edge_flow_control | level_flow_control | simple_flow_control | percpu_flow_control

record irq_desc_stats =
  irqs :: u32
  spurious :: u32
  unhandled :: u32
  retriggered :: u32
  missed :: u32

record irq_desc =
  irq_no :: u32
  status :: u32
  depth :: u32
  wake_depth :: u32
  irq_count :: u32
  irqs_unhandled :: u32
  handle_irq :: u32
  handler_data :: u32
  chip_data :: u32
  chip :: "irq_chip option"
  flow_control :: "irq_flow_control option"
  affinity :: u32
  irq_thread :: u32
  thread_flags :: u32
  stats :: irq_desc_stats
  lock :: u32
  irq_name :: "string option"
  dev :: u32
  wake :: u32
  domain :: u32
  hwirq :: u32

record irq_stats =
  total_irqs :: u32
  spurious_irqs :: u32
  unhandled_irqs :: u32
  disabled_irqs :: u32
  masked_irqs :: u32

record irq_sys =
  descs :: "irq_desc list"
  istats :: irq_stats
  plog :: printk_state

record irq_env =
  lock_irqsave :: "u32 \<Rightarrow> u32 run"
  unlock_irqrestore :: "u32 \<Rightarrow> u32"
  call_handler :: "u32 \<Rightarrow> u32 \<Rightarrow> u32 \<Rightarrow> irq_sys \<Rightarrow> irq_sys run"

definition desc_at :: "irq_sys \<Rightarrow> u32 \<Rightarrow> irq_desc" where
  "desc_at s irq = descs s ! unat irq"

definition upd_desc :: "u32 \<Rightarrow> (irq_desc \<Rightarrow> irq_desc) \<Rightarrow> irq_sys \<Rightarrow> irq_sys" where
  "upd_desc irq f s = s\<lparr>descs := list_update (descs s) (unat irq) (f (desc_at s irq))\<rparr>"

definition lock_desc :: "irq_env \<Rightarrow> u32 \<Rightarrow> irq_sys \<Rightarrow> irq_sys run" where
  "lock_desc E irq s = bind_run (lock_irqsave E (lock (desc_at s irq))) (\<lambda>w. Some (Inr (upd_desc irq (lock_update (\<lambda>_. w)) s)))"

definition unlock_desc :: "irq_env \<Rightarrow> u32 \<Rightarrow> irq_sys \<Rightarrow> irq_sys" where
  "unlock_desc E irq s = upd_desc irq (lock_update (unlock_irqrestore E)) s"

section \<open>Messages\<close>

definition printk_at :: "string \<Rightarrow> string \<Rightarrow> va list \<Rightarrow> irq_sys \<Rightarrow> irq_sys run" where
  "printk_at level fmt args s =
     bind_run (vprintk (level @ fmt @ [CHR ''\<newline>'']) args (plog s)) (\<lambda>(_, p). Some (Inr (s\<lparr>plog := p\<rparr>)))"

abbreviation "pr_debug_irq \<equiv> printk_at ''<7>''"
abbreviation "pr_info_irq \<equiv> printk_at ''<6>''"
abbreviation "pr_warn_irq \<equiv> printk_at ''<4>''"
abbreviation "printk_irq \<equiv> printk_at []"

section \<open>Chips\<close>

text \<open>The operations of the two chips that the descriptor functions call, as their tables give them.\<close>

definition generic_irq_enable :: "u32 \<Rightarrow> irq_sys \<Rightarrow> irq_sys" where "generic_irq_enable irq s = s"
definition generic_irq_disable :: "u32 \<Rightarrow> irq_sys \<Rightarrow> irq_sys" where "generic_irq_disable irq s = s"
definition generic_irq_ack :: "u32 \<Rightarrow> irq_sys \<Rightarrow> irq_sys" where "generic_irq_ack irq s = s"
definition generic_irq_mask :: "u32 \<Rightarrow> irq_sys \<Rightarrow> irq_sys" where "generic_irq_mask irq s = s"
definition generic_irq_unmask :: "u32 \<Rightarrow> irq_sys \<Rightarrow> irq_sys" where "generic_irq_unmask irq s = s"
definition generic_irq_eoi :: "u32 \<Rightarrow> irq_sys \<Rightarrow> irq_sys" where "generic_irq_eoi irq s = s"

record chip_table =
  chip_name :: string
  chip_enable :: "(u32 \<Rightarrow> irq_sys \<Rightarrow> irq_sys) option"
  chip_disable :: "(u32 \<Rightarrow> irq_sys \<Rightarrow> irq_sys) option"
  chip_ack :: "(u32 \<Rightarrow> irq_sys \<Rightarrow> irq_sys) option"
  chip_mask :: "(u32 \<Rightarrow> irq_sys \<Rightarrow> irq_sys) option"
  chip_unmask :: "(u32 \<Rightarrow> irq_sys \<Rightarrow> irq_sys) option"
  chip_eoi :: "(u32 \<Rightarrow> irq_sys \<Rightarrow> irq_sys) option"

definition dummy_table :: chip_table where
  "dummy_table = \<lparr>chip_name = ''dummy'', chip_enable = None, chip_disable = None, chip_ack = None,
     chip_mask = None, chip_unmask = None, chip_eoi = None\<rparr>"

definition generic_table :: chip_table where
  "generic_table = \<lparr>chip_name = ''generic'', chip_enable = Some generic_irq_enable, chip_disable = Some generic_irq_disable,
     chip_ack = Some generic_irq_ack, chip_mask = Some generic_irq_mask, chip_unmask = Some generic_irq_unmask,
     chip_eoi = Some generic_irq_eoi\<rparr>"

definition table_of :: "irq_chip \<Rightarrow> chip_table" where
  "table_of c = (case c of dummy_irq_chip \<Rightarrow> dummy_table | generic_irq_chip \<Rightarrow> generic_table)"

text \<open>\<^verbatim>\<open>if (desc->chip && desc->chip->op) desc->chip->op(irq);\<close>\<close>

definition chip_call :: "(chip_table \<Rightarrow> (u32 \<Rightarrow> irq_sys \<Rightarrow> irq_sys) option) \<Rightarrow> u32 \<Rightarrow> irq_sys \<Rightarrow> irq_sys" where
  "chip_call op irq s =
     (case chip (desc_at s irq) of None \<Rightarrow> s
      | Some c \<Rightarrow> (case op (table_of c) of None \<Rightarrow> s | Some f \<Rightarrow> f irq s))"

section \<open>Initialisation and configuration\<close>

definition irq_desc_init :: "nat \<Rightarrow> irq_desc" where
  "irq_desc_init i =
     \<lparr>irq_no = of_nat i, status = IRQ_DISABLED, depth = 1, wake_depth = 0, irq_count = 0, irqs_unhandled = 0,
      handle_irq = 0, handler_data = 0, chip_data = 0, chip = Some dummy_irq_chip, flow_control = None,
      affinity = IRQ_AFFINITY_DEFAULT, irq_thread = 0, thread_flags = 0,
      stats = \<lparr>irqs = 0, spurious = 0, unhandled = 0, retriggered = 0, missed = 0\<rparr>, lock = 0,
      irq_name = Some ''unknown'', dev = 0, wake = 0, domain = 0, hwirq = of_nat i\<rparr>"

definition irq_init :: "irq_sys \<Rightarrow> irq_sys run" where
  "irq_init s =
     bind_run (pr_info_irq ''Initializing Linux-inspired IRQ subsystem'' [] s) (\<lambda>s1.
       pr_info_irq ''IRQ subsystem initialized with %d IRQ descriptors'' [Va_Int NR_IRQS]
         (s1\<lparr>descs := map irq_desc_init [0..<256]\<rparr>))"

definition early_irq_init :: "irq_sys \<Rightarrow> irq_sys run" where
  "early_irq_init s = pr_debug_irq ''Early IRQ initialization'' [] s"

definition late_irq_init :: "irq_sys \<Rightarrow> irq_sys run" where
  "late_irq_init s = pr_debug_irq ''Late IRQ initialization'' [] s"

text \<open>The setters: guards, then one field changed under the lock, then a message.\<close>

definition irq_set_chip :: "irq_env \<Rightarrow> u32 \<Rightarrow> irq_chip option \<Rightarrow> irq_sys \<Rightarrow> (errno option \<times> irq_sys) run" where
  "irq_set_chip E irq c s =
     (if irq \<ge> NR_IRQS then Some (Inr (Some EINVAL, s))
      else case c of None \<Rightarrow> Some (Inr (Some EINVAL, s))
      | Some k \<Rightarrow>
          bind_run (lock_desc E irq s) (\<lambda>s1.
          bind_run (pr_debug_irq (''IRQ %d: set chip '' @ [CHR 0x27] @ ''%s'' @ [CHR 0x27]) [Va_Int irq, Va_Str (Some (chip_name (table_of k)))]
                     (unlock_desc E irq (upd_desc irq (chip_update (\<lambda>_. Some k)) s1))) (\<lambda>s2.
          Some (Inr (None, s2)))))"

definition irq_set_chip_data :: "irq_env \<Rightarrow> u32 \<Rightarrow> u32 \<Rightarrow> irq_sys \<Rightarrow> (errno option \<times> irq_sys) run" where
  "irq_set_chip_data E irq data s =
     (if irq \<ge> NR_IRQS then Some (Inr (Some EINVAL, s))
      else bind_run (lock_desc E irq s) (\<lambda>s1.
           Some (Inr (None, unlock_desc E irq (upd_desc irq (chip_data_update (\<lambda>_. data)) s1)))))"

definition irq_set_handler :: "irq_env \<Rightarrow> u32 \<Rightarrow> u32 \<Rightarrow> irq_sys \<Rightarrow> (errno option \<times> irq_sys) run" where
  "irq_set_handler E irq handler s =
     (if irq \<ge> NR_IRQS then Some (Inr (Some EINVAL, s))
      else bind_run (lock_desc E irq s) (\<lambda>s1.
           bind_run (pr_debug_irq ''IRQ %d: set handler %p'' [Va_Int irq, Va_Int handler]
                      (unlock_desc E irq (upd_desc irq (handle_irq_update (\<lambda>_. handler)) s1))) (\<lambda>s2.
           Some (Inr (None, s2)))))"

definition irq_set_handler_data :: "irq_env \<Rightarrow> u32 \<Rightarrow> u32 \<Rightarrow> irq_sys \<Rightarrow> (errno option \<times> irq_sys) run" where
  "irq_set_handler_data E irq data s =
     (if irq \<ge> NR_IRQS then Some (Inr (Some EINVAL, s))
      else bind_run (lock_desc E irq s) (\<lambda>s1.
           Some (Inr (None, unlock_desc E irq (upd_desc irq (handler_data_update (\<lambda>_. data)) s1)))))"

definition typename :: "irq_flow_control \<Rightarrow> string" where
  "typename f = (case f of edge_flow_control \<Rightarrow> ''edge'' | level_flow_control \<Rightarrow> ''level''
     | simple_flow_control \<Rightarrow> ''simple'' | percpu_flow_control \<Rightarrow> ''percpu'')"

definition irq_set_flow_handler :: "irq_env \<Rightarrow> u32 \<Rightarrow> irq_flow_control option \<Rightarrow> irq_sys \<Rightarrow> irq_sys run" where
  "irq_set_flow_handler E irq flow s =
     (if irq \<ge> NR_IRQS then Some (Inr s)
      else bind_run (lock_desc E irq s) (\<lambda>s1.
           pr_debug_irq (''IRQ %d: set flow control '' @ [CHR 0x27] @ ''%s'' @ [CHR 0x27])
             [Va_Int irq, Va_Str (Some (case flow of None \<Rightarrow> ''none'' | Some f \<Rightarrow> typename f))]
             (unlock_desc E irq (upd_desc irq (flow_control_update (\<lambda>_. flow)) s1))))"

section \<open>Enabling, masking, acknowledging\<close>

text \<open>
  The operations of the four flow controls (\<^verbatim>\<open>edge_irq_enable\<close> and so on) call the function they are
  called from on the number of the descriptor: the recursive calls below.
\<close>

partial_function (option) irq_enable :: "irq_env \<Rightarrow> u32 \<Rightarrow> irq_sys \<Rightarrow> irq_sys run" where
  "irq_enable E irq s =
     (if irq \<ge> NR_IRQS then Some (Inr s)
      else bind_run (lock_desc E irq s) (\<lambda>s1.
        if depth (desc_at s1 irq) = 0 then Some (Inr (unlock_desc E irq s1))
        else let s2 = upd_desc irq (depth_update (\<lambda>d. d - 1)) s1
             in bind_run
               (if depth (desc_at s2 irq) = 0 then
                  let s3 = chip_call chip_enable irq (upd_desc irq (status_update (\<lambda>w. w AND NOT IRQ_DISABLED)) s2)
                  in case flow_control (desc_at s3 irq) of None \<Rightarrow> Some (Inr s3)
                     | Some f \<Rightarrow> irq_enable E (irq_no (desc_at s3 irq)) s3
                else Some (Inr s2)) (\<lambda>s4.
               pr_debug_irq ''IRQ %d: enabled'' [Va_Int irq] (unlock_desc E irq s4))))"

partial_function (option) irq_disable :: "irq_env \<Rightarrow> u32 \<Rightarrow> irq_sys \<Rightarrow> irq_sys run" where
  "irq_disable E irq s =
     (if irq \<ge> NR_IRQS then Some (Inr s)
      else bind_run (lock_desc E irq s) (\<lambda>s1.
        bind_run
          (if depth (desc_at s1 irq) = 0 then
             let s2 = chip_call chip_disable irq (upd_desc irq (status_update (\<lambda>w. w OR IRQ_DISABLED)) s1)
             in case flow_control (desc_at s2 irq) of None \<Rightarrow> Some (Inr s2)
                | Some f \<Rightarrow> irq_disable E (irq_no (desc_at s2 irq)) s2
           else Some (Inr s1)) (\<lambda>s3.
        let s4 = unlock_desc E irq (upd_desc irq (depth_update (\<lambda>d. d + 1)) s3)
        in pr_debug_irq ''IRQ %d: disabled (depth %d)'' [Va_Int irq, Va_Int (depth (desc_at s4 irq))] s4)))"

partial_function (option) irq_mask :: "irq_env \<Rightarrow> u32 \<Rightarrow> irq_sys \<Rightarrow> irq_sys run" where
  "irq_mask E irq s =
     (if irq \<ge> NR_IRQS then Some (Inr s)
      else bind_run (lock_desc E irq s) (\<lambda>s1.
        let s2 = chip_call chip_mask irq (upd_desc irq (status_update (\<lambda>w. w OR IRQ_MASKED)) s1)
        in bind_run
          (case flow_control (desc_at s2 irq) of None \<Rightarrow> Some (Inr s2)
           | Some f \<Rightarrow> irq_mask E (irq_no (desc_at s2 irq)) s2) (\<lambda>s3.
        pr_debug_irq ''IRQ %d: masked'' [Va_Int irq]
          (unlock_desc E irq (s3\<lparr>istats := (istats s3)\<lparr>masked_irqs := masked_irqs (istats s3) + 1\<rparr>\<rparr>)))))"

partial_function (option) irq_unmask :: "irq_env \<Rightarrow> u32 \<Rightarrow> irq_sys \<Rightarrow> irq_sys run" where
  "irq_unmask E irq s =
     (if irq \<ge> NR_IRQS then Some (Inr s)
      else bind_run (lock_desc E irq s) (\<lambda>s1.
        let s2 = chip_call chip_unmask irq (upd_desc irq (status_update (\<lambda>w. w AND NOT IRQ_MASKED)) s1)
        in bind_run
          (case flow_control (desc_at s2 irq) of None \<Rightarrow> Some (Inr s2)
           | Some f \<Rightarrow> irq_unmask E (irq_no (desc_at s2 irq)) s2) (\<lambda>s3.
        pr_debug_irq ''IRQ %d: unmasked'' [Va_Int irq] (unlock_desc E irq s3))))"

partial_function (option) irq_ack :: "irq_env \<Rightarrow> u32 \<Rightarrow> irq_sys \<Rightarrow> irq_sys run" where
  "irq_ack E irq s =
     (if irq \<ge> NR_IRQS then Some (Inr s)
      else bind_run (lock_desc E irq s) (\<lambda>s1.
        let s2 = chip_call chip_ack irq s1
        in bind_run
          (case flow_control (desc_at s2 irq) of None \<Rightarrow> Some (Inr s2)
           | Some f \<Rightarrow> irq_ack E (irq_no (desc_at s2 irq)) s2) (\<lambda>s3.
        Some (Inr (unlock_desc E irq s3)))))"

partial_function (option) irq_eoi :: "irq_env \<Rightarrow> u32 \<Rightarrow> irq_sys \<Rightarrow> irq_sys run" where
  "irq_eoi E irq s =
     (if irq \<ge> NR_IRQS then Some (Inr s)
      else bind_run (lock_desc E irq s) (\<lambda>s1.
        let s2 = chip_call chip_eoi irq s1
        in bind_run
          (case flow_control (desc_at s2 irq) of None \<Rightarrow> Some (Inr s2)
           | Some f \<Rightarrow> irq_eoi E (irq_no (desc_at s2 irq)) s2) (\<lambda>s3.
        Some (Inr (unlock_desc E irq s3)))))"

text \<open>What the flow controls' own operations are, for a descriptor given by its place in the array.\<close>

definition flow_irq_enable :: "irq_env \<Rightarrow> u32 \<Rightarrow> irq_sys \<Rightarrow> irq_sys run" where
  "flow_irq_enable E i s = irq_enable E (irq_no (desc_at s i)) s"

definition flow_irq_disable :: "irq_env \<Rightarrow> u32 \<Rightarrow> irq_sys \<Rightarrow> irq_sys run" where
  "flow_irq_disable E i s = irq_disable E (irq_no (desc_at s i)) s"

definition flow_irq_ack :: "irq_env \<Rightarrow> u32 \<Rightarrow> irq_sys \<Rightarrow> irq_sys run" where
  "flow_irq_ack E i s = irq_ack E (irq_no (desc_at s i)) s"

definition flow_irq_mask :: "irq_env \<Rightarrow> u32 \<Rightarrow> irq_sys \<Rightarrow> irq_sys run" where
  "flow_irq_mask E i s = irq_mask E (irq_no (desc_at s i)) s"

definition flow_irq_unmask :: "irq_env \<Rightarrow> u32 \<Rightarrow> irq_sys \<Rightarrow> irq_sys run" where
  "flow_irq_unmask E i s = irq_unmask E (irq_no (desc_at s i)) s"

definition flow_irq_eoi :: "irq_env \<Rightarrow> u32 \<Rightarrow> irq_sys \<Rightarrow> irq_sys run" where
  "flow_irq_eoi E i s = irq_eoi E (irq_no (desc_at s i)) s"

section \<open>Requesting and freeing\<close>



section \<open>Handling\<close>

text \<open>\<^verbatim>\<open>if (desc->handle_irq) desc->handle_irq(irq, desc->handler_data);\<close>\<close>

definition run_handler :: "irq_env \<Rightarrow> u32 \<Rightarrow> u32 \<Rightarrow> irq_sys \<Rightarrow> irq_sys run" where
  "run_handler E i irq s =
     (if handle_irq (desc_at s i) \<noteq> 0 then call_handler E (handle_irq (desc_at s i)) irq (handler_data (desc_at s i)) s
      else Some (Inr s))"

definition handle_edge_irq :: "irq_env \<Rightarrow> u32 \<Rightarrow> irq_sys \<Rightarrow> irq_sys run" where
  "handle_edge_irq E i s =
     (let irq = irq_no (desc_at s i)
      in bind_run (irq_ack E irq s) (\<lambda>s1. bind_run (irq_unmask E irq s1) (\<lambda>s2.
         bind_run (run_handler E i irq s2) (\<lambda>s3. irq_eoi E irq s3))))"

definition handle_level_irq :: "irq_env \<Rightarrow> u32 \<Rightarrow> irq_sys \<Rightarrow> irq_sys run" where
  "handle_level_irq E i s =
     (let irq = irq_no (desc_at s i)
      in bind_run (irq_mask E irq s) (\<lambda>s1. bind_run (irq_ack E irq s1) (\<lambda>s2.
         bind_run (run_handler E i irq s2) (\<lambda>s3. bind_run (irq_eoi E irq s3) (\<lambda>s4. irq_unmask E irq s4)))))"

definition handle_simple_irq :: "irq_env \<Rightarrow> u32 \<Rightarrow> irq_sys \<Rightarrow> irq_sys run" where
  "handle_simple_irq E i s = run_handler E i (irq_no (desc_at s i)) s"

definition handle_percpu_irq :: "irq_env \<Rightarrow> u32 \<Rightarrow> irq_sys \<Rightarrow> irq_sys run" where
  "handle_percpu_irq E i s =
     (let irq = irq_no (desc_at s i)
      in bind_run (run_handler E i irq s) (\<lambda>s1. irq_eoi E irq s1))"

definition flow_handle :: "irq_flow_control \<Rightarrow> irq_env \<Rightarrow> u32 \<Rightarrow> irq_sys \<Rightarrow> irq_sys run" where
  "flow_handle f = (case f of edge_flow_control \<Rightarrow> handle_edge_irq | level_flow_control \<Rightarrow> handle_level_irq
     | simple_flow_control \<Rightarrow> handle_simple_irq | percpu_flow_control \<Rightarrow> handle_percpu_irq)"

definition count_unhandled :: "u32 \<Rightarrow> irq_sys \<Rightarrow> irq_sys" where
  "count_unhandled irq s =
     (upd_desc irq (stats_update (unhandled_update (\<lambda>n. n + 1))) s)
       \<lparr>istats := (istats s)\<lparr>unhandled_irqs := unhandled_irqs (istats s) + 1\<rparr>\<rparr>"

definition do_IRQ :: "irq_env \<Rightarrow> u32 \<Rightarrow> irq_sys \<Rightarrow> irq_sys run" where
  "do_IRQ E irq s =
     (if irq \<ge> NR_IRQS then
        bind_run (pr_warn_irq ''Spurious IRQ %d'' [Va_Int irq] s) (\<lambda>s1.
        Some (Inr (s1\<lparr>istats := (istats s1)\<lparr>spurious_irqs := spurious_irqs (istats s1) + 1\<rparr>\<rparr>)))
      else let s1 = (upd_desc irq (stats_update (irqs_update (\<lambda>n. n + 1))) s)\<lparr>istats := (istats s)\<lparr>total_irqs := total_irqs (istats s) + 1\<rparr>\<rparr>
      in if status (desc_at s1 irq) AND IRQ_DISABLED \<noteq> 0 then Some (Inr (count_unhandled irq s1))
      else let s2 = upd_desc irq (status_update (\<lambda>w. w OR IRQ_INPROGRESS)) s1
      in bind_run
        (case flow_control (desc_at s2 irq) of
           Some f \<Rightarrow> flow_handle f E irq s2
         | None \<Rightarrow>
             if handle_irq (desc_at s2 irq) \<noteq> 0
             then call_handler E (handle_irq (desc_at s2 irq)) irq (handler_data (desc_at s2 irq)) s2
             else pr_warn_irq ''Unhandled IRQ %d'' [Va_Int irq] (count_unhandled irq s2)) (\<lambda>s3.
        Some (Inr (upd_desc irq (status_update (\<lambda>w. w AND NOT IRQ_INPROGRESS)) s3))))"

section \<open>The other operations of the generic chip\<close>

definition generic_irq_startup :: "irq_env \<Rightarrow> u32 \<Rightarrow> irq_sys \<Rightarrow> irq_sys run" where
  "generic_irq_startup E irq s = irq_enable E irq s"

definition generic_irq_shutdown :: "irq_env \<Rightarrow> u32 \<Rightarrow> irq_sys \<Rightarrow> irq_sys run" where
  "generic_irq_shutdown E irq s = irq_disable E irq s"

text \<open>
  The chip of the descriptor is asked; the only chip with these operations is the generic one, and
  its operation is the function itself. There is no test of the number.
\<close>

partial_function (option) generic_irq_set_type :: "u32 \<Rightarrow> u32 \<Rightarrow> irq_sys \<Rightarrow> (errno option) run" where
  "generic_irq_set_type irq type s =
     (if unat irq \<ge> length (descs s) then Some (Inl Out_Of_Bounds)
      else case chip (desc_at s irq) of
        Some generic_irq_chip \<Rightarrow> generic_irq_set_type irq type s
      | _ \<Rightarrow> Some (Inr (Some ENOTSUPP)))"

partial_function (option) generic_irq_set_affinity :: "u32 \<Rightarrow> u32 \<Rightarrow> irq_sys \<Rightarrow> (errno option) run" where
  "generic_irq_set_affinity irq dest s =
     (if unat irq \<ge> length (descs s) then Some (Inl Out_Of_Bounds)
      else case chip (desc_at s irq) of
        Some generic_irq_chip \<Rightarrow> generic_irq_set_affinity irq dest s
      | _ \<Rightarrow> Some (Inr (Some ENOTSUPP)))"

partial_function (option) generic_irq_set_wake :: "u32 \<Rightarrow> u32 \<Rightarrow> irq_sys \<Rightarrow> (errno option) run" where
  "generic_irq_set_wake irq on s =
     (if unat irq \<ge> length (descs s) then Some (Inl Out_Of_Bounds)
      else case chip (desc_at s irq) of
        Some generic_irq_chip \<Rightarrow> generic_irq_set_wake irq on s
      | _ \<Rightarrow> Some (Inr (Some ENOTSUPP)))"

partial_function (option) generic_irq_retrigger :: "u32 \<Rightarrow> irq_sys \<Rightarrow> irq_sys run" where
  "generic_irq_retrigger irq s =
     (if unat irq \<ge> length (descs s) then Some (Inl Out_Of_Bounds)
      else case chip (desc_at s irq) of
        Some generic_irq_chip \<Rightarrow> generic_irq_retrigger irq s
      | _ \<Rightarrow> Some (Inr s))"

text \<open>The remaining operations of the four flow controls.\<close>

definition flow_irq_set_affinity :: "u32 \<Rightarrow> u32 \<Rightarrow> irq_sys \<Rightarrow> int" where
  "flow_irq_set_affinity i dest s = 0"

definition flow_irq_set_type :: "u32 \<Rightarrow> u32 \<Rightarrow> irq_sys \<Rightarrow> int" where
  "flow_irq_set_type i type s = 0"

definition flow_irq_retrigger :: "u32 \<Rightarrow> irq_sys \<Rightarrow> irq_sys run" where
  "flow_irq_retrigger i s = generic_irq_retrigger (irq_no (desc_at s i)) s"

section \<open>Statistics\<close>

fun print_lines :: "(string \<times> va list) list \<Rightarrow> irq_sys \<Rightarrow> irq_sys run" where
  "print_lines [] s = Some (Inr s)"
| "print_lines ((fmt, args) # ls) s = bind_run (printk_irq fmt args s) (print_lines ls)"

definition irq_print_stats :: "u32 \<Rightarrow> irq_sys \<Rightarrow> irq_sys run" where
  "irq_print_stats irq s =
     (if irq \<ge> NR_IRQS then Some (Inr s)
      else let d = desc_at s irq
      in print_lines
        [(''IRQ %d (%s):'', [Va_Int irq, Va_Str (irq_name d)]),
         (''  Total: %u'', [Va_Int (irqs (stats d))]),
         (''  Spurious: %u'', [Va_Int (spurious (stats d))]),
         (''  Unhandled: %u'', [Va_Int (unhandled (stats d))]),
         (''  Retriggered: %u'', [Va_Int (retriggered (stats d))]),
         (''  Missed: %u'', [Va_Int (missed (stats d))])] s)"

fun show_descs :: "nat list \<Rightarrow> irq_sys \<Rightarrow> irq_sys run" where
  "show_descs [] s = Some (Inr s)"
| "show_descs (i # is) s =
     bind_run (if irqs (stats (desc_at s (of_nat i))) > 0 then irq_print_stats (of_nat i) s else Some (Inr s)) (show_descs is)"

definition irq_debug_show :: "irq_sys \<Rightarrow> irq_sys run" where
  "irq_debug_show s =
     (let t = istats s
      in bind_run (print_lines
        [(''=== IRQ Statistics ==='', []),
         (''Total IRQs: %u'', [Va_Int (total_irqs t)]),
         (''Spurious IRQs: %u'', [Va_Int (spurious_irqs t)]),
         (''Unhandled IRQs: %u'', [Va_Int (unhandled_irqs t)]),
         (''Disabled IRQs: %u'', [Va_Int (disabled_irqs t)]),
         (''Masked IRQs: %u'', [Va_Int (masked_irqs t)]),
         ([], [])] s) (show_descs [0..<256]))"

section \<open>Locks and messages behave\<close>

text \<open>
  What is documented of the missing lock functions: on the lock word they are \<^verbatim>\<open>spin_lock\<close> and
  \<^verbatim>\<open>spin_unlock\<close>; that they also switch the processor's interrupts off and on is not visible here.
\<close>

definition lock_contract :: "irq_env \<Rightarrow> bool" where
  "lock_contract E \<longleftrightarrow> lock_irqsave E = spin_lock \<and> unlock_irqrestore E = spin_unlock"

lemma spin_lock_free [simp]: "spin_lock 0 = Some (Inr 1)"
  by (subst spin_lock.simps) simp

lemma spin_lock_value: "spin_lock w = Some r \<Longrightarrow> w = 0"
proof (rule spin_lock.raw_induct [where P = "\<lambda>w r. w = 0"])
  fix f :: "u32 \<Rightarrow> u32 run" and w r assume IH: "\<And>w r. f w = Some r \<Longrightarrow> w = 0"
    and f: "(let old = w; w1 = 1 in if old \<noteq> 0 then f w1 else Some (Inr w1)) = Some r"
  show "w = 0"
  proof (rule ccontr)
    assume "w \<noteq> 0"
    hence "f 1 = Some r" using f by simp
    from IH [OF this] show False by simp
  qed
qed

lemma spin_lock_held: "w \<noteq> 0 \<Longrightarrow> spin_lock w = None"
  using spin_lock_value by (cases "spin_lock w") auto

definition irq_array :: "irq_sys \<Rightarrow> bool" where
  "irq_array s \<longleftrightarrow> length (descs s) = 256"

lemma unat_irq: "irq < NR_IRQS \<Longrightarrow> unat irq < 256"
  by (simp add: word_less_nat_alt)

lemma desc_at_upd [simp]:
  assumes "irq_array s" "irq < NR_IRQS"
  shows "desc_at (upd_desc irq f s) irq = f (desc_at s irq)"
  using assms unat_irq [of irq] by (simp add: desc_at_def upd_desc_def irq_array_def)

lemma upd_desc_simps [simp]:
  "irq_array (upd_desc irq f s) = irq_array s"
  "plog (upd_desc irq f s) = plog s"
  "istats (upd_desc irq f s) = istats s"
  by (simp_all add: irq_array_def upd_desc_def)

lemma irq_sys_upd_simps [simp]:
  "irq_array (s\<lparr>plog := p\<rparr>) = irq_array s"
  "irq_array (s\<lparr>istats := t\<rparr>) = irq_array s"
  "desc_at (s\<lparr>plog := p\<rparr>) i = desc_at s i"
  "desc_at (s\<lparr>istats := t\<rparr>) i = desc_at s i"
  "upd_desc irq f (s\<lparr>plog := p\<rparr>) = (upd_desc irq f s)\<lparr>plog := p\<rparr>"
  "upd_desc irq f (s\<lparr>istats := t\<rparr>) = (upd_desc irq f s)\<lparr>istats := t\<rparr>"
  by (simp_all add: irq_array_def desc_at_def upd_desc_def)

lemma upd_desc_upd [simp]:
  assumes "irq_array s" "irq < NR_IRQS"
  shows "upd_desc irq g (upd_desc irq f s) = upd_desc irq (g \<circ> f) s"
  using assms unat_irq [of irq] by (simp add: upd_desc_def desc_at_def irq_array_def)

lemma desc_at_other [simp]:
  "i \<noteq> irq \<Longrightarrow> desc_at (upd_desc irq f s) i = desc_at s i"
  by (metis desc_at_def upd_desc_def nth_list_update_neq irq_sys.select_convs(1) irq_sys.surjective irq_sys.update_convs(1) word_unat_eq_iff)

lemma chip_call_void [simp]:
  "chip_call chip_enable irq s = s" "chip_call chip_disable irq s = s" "chip_call chip_ack irq s = s"
  "chip_call chip_mask irq s = s" "chip_call chip_unmask irq s = s" "chip_call chip_eoi irq s = s"
  by (simp_all add: chip_call_def table_of_def dummy_table_def generic_table_def generic_irq_enable_def
      generic_irq_disable_def generic_irq_ack_def generic_irq_mask_def generic_irq_unmask_def generic_irq_eoi_def
      split: option.splits irq_chip.splits)

lemma upd_desc_cong: "f (desc_at s irq) = g (desc_at s irq) \<Longrightarrow> upd_desc irq f s = upd_desc irq g s"
  by (simp add: upd_desc_def)


lemma lock_desc_free:
  "lock_contract E \<Longrightarrow> lock (desc_at s irq) = 0 \<Longrightarrow> lock_desc E irq s = Some (Inr (upd_desc irq (lock_update (\<lambda>_. 1)) s))"
  by (simp add: lock_desc_def lock_contract_def)

lemma lock_desc_held: "lock_contract E \<Longrightarrow> lock (desc_at s irq) \<noteq> 0 \<Longrightarrow> lock_desc E irq s = None"
  by (simp add: lock_desc_def lock_contract_def spin_lock_held)

lemma unlock_desc_upd: "lock_contract E \<Longrightarrow> unlock_desc E irq s = upd_desc irq (lock_update (\<lambda>_. 0)) s"
  by (simp add: unlock_desc_def lock_contract_def spin_unlock_def [abs_def])

lemma printk_upd_cong:
  "f (desc_at s irq) = g (desc_at s irq) \<Longrightarrow> (printk_at l fmt args (upd_desc irq f s) = printk_at l fmt args (upd_desc irq g s)) = True"
  using upd_desc_cong [of f s irq g] by simp

text \<open>Messages with a level prefix and a format that has a text change the log only.\<close>

lemma printk_at_total:
  assumes "consoles_ok (plog s) ps" and "l \<in> {''<4>'', ''<6>'', ''<7>''}"
    and "spec_fmt (fmt @ [CHR ''\<newline>'']) args = Some t" and "t \<noteq> []"
  shows "\<exists>q. printk_at l fmt args s = Some (Inr (s\<lparr>plog := q\<rparr>)) \<and> consoles_ok q ps"
proof -
  obtain n where p: "parse_log_level (ctrl (plog s)) (l @ fmt @ [CHR ''\<newline>'']) = (3, n)" "length l = 3"
    using assms(2) by (auto simp: parse_log_level_def)
  have d: "drop 3 (l @ fmt @ [CHR ''\<newline>'']) = fmt @ [CHR ''\<newline>'']" using p(2) by simp
  have "spec_fmt (drop 3 (l @ fmt @ [CHR ''\<newline>''])) args = Some t" using assms(3) d by simp
  from vprintk_line [OF assms(1) p(1) this assms(4) refl refl] obtain k q
    where q: "vprintk (l @ fmt @ [CHR ''\<newline>'']) args (plog s) = Some (Inr (k, q))"
      "consoles q = consoles (plog s)" "ctrl q = ctrl (plog s)" by (simp add: deliver_def)
  thus ?thesis using assms(1) by (intro exI [of _ q]) (simp add: printk_at_def consoles_ok_def)
qed

section \<open>Nesting of enable and disable\<close>

text \<open>A descriptor that can be switched: it is in the array, its lock is free, and it has no flow control.\<close>

definition plain_line :: "irq_sys \<Rightarrow> u32 \<Rightarrow> u32 list \<Rightarrow> bool" where
  "plain_line s irq ps \<longleftrightarrow>
     irq < NR_IRQS \<and> irq_array s \<and> lock (desc_at s irq) = 0 \<and> flow_control (desc_at s irq) = None \<and> consoles_ok (plog s) ps"

lemma irq_not_min: "irq < NR_IRQS \<Longrightarrow> irq \<noteq> 0x80000000"
  by auto

lemma depth_nonzero: "depth d \<noteq> 0 \<Longrightarrow> depth d - 1 = 0 \<longleftrightarrow> depth d = 1"
  by (metis diff_eq_eq add_0)

lemma irq_disable_step:
  assumes "lock_contract E" "plain_line s irq ps" "depth (desc_at s irq) + 1 \<noteq> 0x80000000"
  shows "\<exists>q. irq_disable E irq s = Some (Inr (upd_desc irq (\<lambda>d. d\<lparr>depth := depth d + 1,
           status := (if depth d = 0 then status d OR IRQ_DISABLED else status d)\<rparr>) (s\<lparr>plog := q\<rparr>))) \<and> consoles_ok q ps"
proof -
  let ?d = "desc_at s irq"
  have p: "irq < NR_IRQS" "\<not> NR_IRQS \<le> irq" "irq_array s" "lock ?d = 0" "flow_control ?d = None" "consoles_ok (plog s) ps"
    using assms(2) by (auto simp: plain_line_def)
  define s4 where "s4 = upd_desc irq (\<lambda>d. d\<lparr>depth := depth d + 1,
     status := (if depth d = 0 then status d OR IRQ_DISABLED else status d)\<rparr>) s"
  have e: "irq_disable E irq s = pr_debug_irq ''IRQ %d: disabled (depth %d)'' [Va_Int irq, Va_Int (depth (desc_at s4 irq))] s4"
    using p assms(1) unfolding s4_def
    by (subst irq_disable.simps)
       (simp add: lock_desc_free unlock_desc_upd Let_def comp_def printk_upd_cong irq_desc.equality)
  have "\<exists>t. spec_fmt (''IRQ %d: disabled (depth %d)'' @ [CHR ''\<newline>'']) [Va_Int irq, Va_Int (depth (desc_at s4 irq))] = Some t \<and> t \<noteq> []"
    using assms(3) p irq_not_min [OF p(1)] by (simp add: spec_item_def s4_def)
  then obtain q where "pr_debug_irq ''IRQ %d: disabled (depth %d)'' [Va_Int irq, Va_Int (depth (desc_at s4 irq))] s4
      = Some (Inr (s4\<lparr>plog := q\<rparr>))" "consoles_ok q ps"
    using printk_at_total [of s4 ps "''<7>''"] p(6) by (fastforce simp: s4_def)
  thus ?thesis using e by (auto simp: s4_def)
qed

lemma irq_enable_step:
  assumes "lock_contract E" "plain_line s irq ps"
  shows "\<exists>q. irq_enable E irq s = Some (Inr (upd_desc irq (\<lambda>d. d\<lparr>depth := (if depth d = 0 then 0 else depth d - 1),
           status := (if depth d = 1 then status d AND NOT IRQ_DISABLED else status d)\<rparr>) (s\<lparr>plog := q\<rparr>))) \<and> consoles_ok q ps"
proof -
  let ?d = "desc_at s irq"
  have p: "irq < NR_IRQS" "\<not> NR_IRQS \<le> irq" "irq_array s" "lock ?d = 0" "flow_control ?d = None" "consoles_ok (plog s) ps"
    using assms(2) by (auto simp: plain_line_def)
  define s4 where "s4 = upd_desc irq (\<lambda>d. d\<lparr>depth := (if depth d = 0 then 0 else depth d - 1),
     status := (if depth d = 1 then status d AND NOT IRQ_DISABLED else status d)\<rparr>) s"
  have pl: "s4\<lparr>plog := plog s\<rparr> = s4" by (simp add: s4_def upd_desc_def)
  show ?thesis
  proof (cases "depth ?d = 0")
    case True
    have "upd_desc irq (\<lambda>d. d\<lparr>lock := 0\<rparr>) s = s4" unfolding s4_def
      by (rule upd_desc_cong, rule irq_desc.equality) (simp_all add: True p(4))
    hence "irq_enable E irq s = Some (Inr s4)" using p assms(1) True
      by (subst irq_enable.simps) (simp add: lock_desc_free unlock_desc_upd comp_def)
    thus ?thesis using pl p(6) by (intro exI [of _ "plog s"]) (simp add: s4_def)
  next
    case False
    have e: "irq_enable E irq s = pr_debug_irq ''IRQ %d: enabled'' [Va_Int irq] s4"
      using p assms(1) False depth_nonzero [of ?d] unfolding s4_def
      by (subst irq_enable.simps)
         (simp add: lock_desc_free unlock_desc_upd Let_def comp_def printk_upd_cong irq_desc.equality)
    have "\<exists>t. spec_fmt (''IRQ %d: enabled'' @ [CHR ''\<newline>'']) [Va_Int irq] = Some t \<and> t \<noteq> []"
      using irq_not_min [OF p(1)] by (simp add: spec_item_def)
    then obtain q where "pr_debug_irq ''IRQ %d: enabled'' [Va_Int irq] s4 = Some (Inr (s4\<lparr>plog := q\<rparr>))" "consoles_ok q ps"
      using printk_at_total [of s4 ps "''<7>''"] p(6) by (fastforce simp: s4_def)
    thus ?thesis using e by (auto simp: s4_def)
  qed
qed

text \<open>A sequence of calls on one line; \<open>True\<close> is \<^verbatim>\<open>irq_enable\<close>.\<close>

fun toggles :: "irq_env \<Rightarrow> u32 \<Rightarrow> bool list \<Rightarrow> irq_sys \<Rightarrow> irq_sys run" where
  "toggles E irq [] s = Some (Inr s)"
| "toggles E irq (b # bs) s = bind_run (if b then irq_enable E irq s else irq_disable E irq s) (toggles E irq bs)"

text \<open>What the calls promise: a count of disables, which enables take back.\<close>

definition nest :: "bool \<Rightarrow> nat \<Rightarrow> nat" where
  "nest b n = (if b then n - 1 else n + 1)"

definition masked_by_depth :: "irq_desc \<Rightarrow> bool" where
  "masked_by_depth d \<longleftrightarrow> (status d AND IRQ_DISABLED \<noteq> 0 \<longleftrightarrow> depth d \<noteq> 0)"

text \<open>Descriptors that differ in nothing but the depth and the disabled bit.\<close>

definition same_line :: "irq_desc \<Rightarrow> irq_desc \<Rightarrow> bool" where
  "same_line d d' \<longleftrightarrow> d'\<lparr>depth := 0, status := status d' AND NOT IRQ_DISABLED\<rparr> = d\<lparr>depth := 0, status := status d AND NOT IRQ_DISABLED\<rparr>"

lemma disabled_bit [simp]:
  "((w :: u32) OR 1) AND 1 = 1" "((w :: u32) AND - 2) AND 1 = 0" "(w OR 1) AND - 2 = w AND - 2"
  unfolding not_one_eq [symmetric] by (rule bit_eqI; auto simp: bit_simps)+

lemma toggle_step:
  assumes "lock_contract E" "plain_line s irq ps" "masked_by_depth (desc_at s irq)" "unat (depth (desc_at s irq)) + 1 < 2 ^ 31"
  shows "\<exists>s'. (if b then irq_enable E irq s else irq_disable E irq s) = Some (Inr s') \<and> plain_line s' irq ps \<and>
     masked_by_depth (desc_at s' irq) \<and> unat (depth (desc_at s' irq)) = nest b (unat (depth (desc_at s irq))) \<and>
     same_line (desc_at s irq) (desc_at s' irq) \<and> istats s' = istats s \<and> (\<forall>i. i \<noteq> irq \<longrightarrow> desc_at s' i = desc_at s i)"
proof -
  let ?d = "desc_at s irq"
  have p: "irq < NR_IRQS" "irq_array s" using assms(2) by (simp_all add: plain_line_def)
  have u: "unat (depth ?d + 1) = unat (depth ?d) + 1" using assms(4) by (simp add: unat_word_ariths)
  have n: "depth ?d + 1 \<noteq> 0x80000000"
  proof
    assume "depth ?d + 1 = 0x80000000"
    hence "unat (depth ?d) + 1 = 0x80000000" using u by simp
    thus False using assms(4) by simp
  qed
  have v: "depth ?d \<noteq> 0 \<Longrightarrow> unat (depth ?d - 1) = unat (depth ?d) - 1" by (simp add: unat_minus_one)
  have z: "depth ?d + 1 \<noteq> 0" using u by (metis Suc_eq_plus1 nat.distinct(1) unat_0)
  show ?thesis
  proof (cases b)
    case True
    from irq_enable_step [OF assms(1,2)] obtain q where
      "irq_enable E irq s = Some (Inr (upd_desc irq (\<lambda>d. d\<lparr>depth := (if depth d = 0 then 0 else depth d - 1),
           status := (if depth d = 1 then status d AND NOT IRQ_DISABLED else status d)\<rparr>) (s\<lparr>plog := q\<rparr>)))" "consoles_ok q ps" by blast
    thus ?thesis using True p assms(2,3) v depth_nonzero [of ?d]
      by (auto simp: plain_line_def masked_by_depth_def nest_def same_line_def)
  next
    case False
    from irq_disable_step [OF assms(1,2) n] obtain q where
      "irq_disable E irq s = Some (Inr (upd_desc irq (\<lambda>d. d\<lparr>depth := depth d + 1,
           status := (if depth d = 0 then status d OR IRQ_DISABLED else status d)\<rparr>) (s\<lparr>plog := q\<rparr>)))" "consoles_ok q ps" by blast
    thus ?thesis using False p assms(2,3) u z
      by (auto simp: plain_line_def masked_by_depth_def nest_def same_line_def)
  qed
qed

lemma toggles_refine:
  assumes "lock_contract E" "plain_line s irq ps" "masked_by_depth (desc_at s irq)" "unat (depth (desc_at s irq)) + length bs < 2 ^ 31"
  shows "\<exists>s'. toggles E irq bs s = Some (Inr s') \<and> plain_line s' irq ps \<and> masked_by_depth (desc_at s' irq) \<and>
     unat (depth (desc_at s' irq)) = fold nest bs (unat (depth (desc_at s irq))) \<and>
     same_line (desc_at s irq) (desc_at s' irq) \<and> istats s' = istats s \<and> (\<forall>i. i \<noteq> irq \<longrightarrow> desc_at s' i = desc_at s i)"
  using assms(2-4)
proof (induction bs arbitrary: s)
  case Nil
  then show ?case by (simp add: same_line_def)
next
  case (Cons b bs)
  have "unat (depth (desc_at s irq)) + 1 < 2 ^ 31" using Cons.prems(3) by simp
  from toggle_step [OF assms(1) Cons.prems(1,2) this, of b] obtain t where
    t: "(if b then irq_enable E irq s else irq_disable E irq s) = Some (Inr t)" "plain_line t irq ps" "masked_by_depth (desc_at t irq)"
      "unat (depth (desc_at t irq)) = nest b (unat (depth (desc_at s irq)))" "same_line (desc_at s irq) (desc_at t irq)"
      "istats t = istats s" "\<forall>i. i \<noteq> irq \<longrightarrow> desc_at t i = desc_at s i" by blast
  have "unat (depth (desc_at t irq)) + length bs < 2 ^ 31" using Cons.prems(3) t(4) by (simp add: nest_def split: if_splits)
  from Cons.IH [OF t(2,3) this] t show ?case by (auto simp: same_line_def)
qed

text \<open>The state after \<^verbatim>\<open>irq_init\<close>, and an environment whose handlers do nothing, for concrete runs.\<close>

definition irq_env0 :: irq_env where
  "irq_env0 = \<lparr>lock_irqsave = spin_lock, unlock_irqrestore = spin_unlock, call_handler = (\<lambda>h irq d s. Some (Inr s))\<rparr>"

definition irq_sys0 :: irq_sys where
  "irq_sys0 = \<lparr>descs = map irq_desc_init [0..<256],
     istats = \<lparr>total_irqs = 0, spurious_irqs = 0, unhandled_irqs = 0, disabled_irqs = 0, masked_irqs = 0\<rparr>, plog = two_consoles\<rparr>"

lemma irq_env0_contract [simp]: "lock_contract irq_env0"
  by (simp add: lock_contract_def irq_env0_def)

lemma irq_sys0_array [simp]: "irq_array irq_sys0"
  by (simp add: irq_array_def irq_sys0_def)

lemma irq_sys0_log: "plog irq_sys0 = two_consoles"
  by (simp add: irq_sys0_def)

lemma irq_sys0_desc: "irq < NR_IRQS \<Longrightarrow> desc_at irq_sys0 irq = irq_desc_init (unat irq)"
  using unat_irq [of irq] by (simp add: desc_at_def irq_sys0_def)

lemma irq_sys0_plain: "irq < NR_IRQS \<Longrightarrow> plain_line irq_sys0 irq [16, 32]"
  by (simp add: plain_line_def irq_sys0_desc irq_desc_init_def irq_sys0_log two_consoles_ok)

text \<open>
  C29. Enabling and disabling nest (kernel/irq.c, irq\_enable and irq\_disable). On a line without flow
  control whose lock is free and whose disabled bit agrees with its depth, any sequence of calls
  returns; the depth is then the count of disables less the enables that took one back, the line is
  marked disabled exactly while that count is not zero, and nothing else of the descriptors has
  changed. The sequence is shorter than 2 to the 31, so that the count does not wrap.
\<close>

theorem irq_nesting:
  assumes "lock_contract E" and "plain_line s irq ps" and "masked_by_depth (desc_at s irq)"
    and "unat (depth (desc_at s irq)) + length bs < 2 ^ 31"
  shows "\<exists>s'. toggles E irq bs s = Some (Inr s') \<and> unat (depth (desc_at s' irq)) = fold nest bs (unat (depth (desc_at s irq))) \<and>
     (status (desc_at s' irq) AND IRQ_DISABLED \<noteq> 0 \<longleftrightarrow> fold nest bs (unat (depth (desc_at s irq))) \<noteq> 0) \<and>
     same_line (desc_at s irq) (desc_at s' irq) \<and> (\<forall>i. i \<noteq> irq \<longrightarrow> desc_at s' i = desc_at s i)"
  using toggles_refine [OF assms] by (auto simp: masked_by_depth_def unat_eq_0 [symmetric])

theorem irq_nesting_witness:
  "\<exists>s'. toggles irq_env0 7 [True, True, False, False, True] irq_sys0 = Some (Inr s') \<and> unat (depth (desc_at s' 7)) = 1"
  using irq_nesting [OF irq_env0_contract irq_sys0_plain, of 7 "[True, True, False, False, True]"]
  by (auto simp: irq_sys0_desc irq_desc_init_def masked_by_depth_def nest_def)

section \<open>Calls that never return\<close>

lemma relock_None:
  assumes "lock_contract E" "irq < NR_IRQS" "lock (desc_at s irq) \<noteq> 0"
  shows "irq_enable E irq s = None" "irq_disable E irq s = None" "irq_mask E irq s = None" "irq_unmask E irq s = None"
    "irq_ack E irq s = None" "irq_eoi E irq s = None"
  using assms
  by (subst irq_enable.simps irq_disable.simps irq_mask.simps irq_unmask.simps irq_ack.simps irq_eoi.simps,
      simp add: lock_desc_held)+

text \<open>A line whose lock is free and whose flow control points back to it.\<close>

definition flow_line :: "irq_sys \<Rightarrow> u32 \<Rightarrow> irq_flow_control \<Rightarrow> bool" where
  "flow_line s irq f \<longleftrightarrow> irq < NR_IRQS \<and> irq_array s \<and> lock (desc_at s irq) = 0 \<and> irq_no (desc_at s irq) = irq \<and>
     flow_control (desc_at s irq) = Some f"

lemma flow_line_ops:
  assumes "lock_contract E" "flow_line s irq f"
  shows "irq_mask E irq s = None" "irq_unmask E irq s = None" "irq_ack E irq s = None" "irq_eoi E irq s = None"
    "depth (desc_at s irq) = 1 \<Longrightarrow> irq_enable E irq s = None" "depth (desc_at s irq) = 0 \<Longrightarrow> irq_disable E irq s = None"
  using assms
  by (subst irq_enable.simps irq_disable.simps irq_mask.simps irq_unmask.simps irq_ack.simps irq_eoi.simps,
      simp add: flow_line_def lock_desc_free relock_None linorder_not_le)+

lemma flow_handle_None:
  assumes "lock_contract E" "flow_line s irq f" "f \<in> {edge_flow_control, level_flow_control}"
  shows "flow_handle f E irq s = None"
  using assms flow_line_ops [OF assms(1,2)]
  by (auto simp: flow_handle_def handle_edge_irq_def handle_level_irq_def flow_line_def)

text \<open>
  C32. Flow control and locks (kernel/irq.c, irq\_mask to irq\_eoi, do\_IRQ and the operations of the flow controls). Each operation of a
  flow control calls the function it is called from, whose lock is then held. So on a line with any of
  the four flow controls masking, unmasking, acknowledging and ending an interrupt never return, nor
  do the enable and the disable that reach the flow control; and an interrupt that arrives on an
  enabled line with edge or level flow control is never done, before any handler of it has run.
\<close>

theorem flow_control_hangs:
  assumes "lock_contract E" and "flow_line s irq f"
  shows "irq_mask E irq s = None \<and> irq_unmask E irq s = None \<and> irq_ack E irq s = None \<and> irq_eoi E irq s = None \<and>
     (depth (desc_at s irq) = 1 \<longrightarrow> irq_enable E irq s = None) \<and>
     (depth (desc_at s irq) = 0 \<longrightarrow> irq_disable E irq s = None) \<and>
     (f \<in> {edge_flow_control, level_flow_control} \<and> status (desc_at s irq) AND IRQ_DISABLED = 0 \<longrightarrow> do_IRQ E irq s = None)"
proof -
  define s2 where "s2 = upd_desc irq (status_update (\<lambda>w. w OR IRQ_INPROGRESS) \<circ> stats_update (irqs_update (\<lambda>n. n + 1)))
    (s\<lparr>istats := (istats s)\<lparr>total_irqs := total_irqs (istats s) + 1\<rparr>\<rparr>)"
  have f: "flow_line s2 irq f" using assms(2) by (simp add: flow_line_def s2_def)
  have "do_IRQ E irq s = None" if "f \<in> {edge_flow_control, level_flow_control}" "status (desc_at s irq) AND IRQ_DISABLED = 0"
    using that assms(2) flow_handle_None [OF assms(1) f that(1)]
    by (simp add: do_IRQ_def flow_line_def linorder_not_le [symmetric] Let_def comp_def s2_def)
  with flow_line_ops [OF assms] show ?thesis by blast
qed

theorem flow_control_hangs_witness:
  "do_IRQ irq_env0 4 (upd_desc 4 (\<lambda>d. d\<lparr>flow_control := Some level_flow_control, depth := 0, status := 0\<rparr>) irq_sys0) = None"
  using flow_control_hangs [OF irq_env0_contract,
    of "upd_desc 4 (\<lambda>d. d\<lparr>flow_control := Some level_flow_control, depth := 0, status := 0\<rparr>) irq_sys0" 4 level_flow_control]
  by (simp add: flow_line_def irq_sys0_desc irq_desc_init_def)



text \<open>The operations of the generic chip that ask the chip of the line ask themselves again.\<close>

lemma generic_set_type_loops:
  assumes "chip (desc_at s irq) = Some generic_irq_chip" "unat irq < length (descs s)"
  shows "generic_irq_set_type irq type s = None"
proof (rule ccontr)
  assume "generic_irq_set_type irq type s \<noteq> None"
  then obtain r where r: "generic_irq_set_type irq type s = Some r" by blast
  have "\<not> (chip (desc_at s irq) = Some generic_irq_chip \<and> unat irq < length (descs s))"
  proof (rule generic_irq_set_type.raw_induct [where P = "\<lambda>irq type s r. \<not> (chip (desc_at s irq) = Some generic_irq_chip \<and> unat irq < length (descs s))", OF _ r])
    fix f irq type s r
    assume IH: "\<And>irq type s r. f irq type s = Some r \<Longrightarrow> \<not> (chip (desc_at s irq) = Some generic_irq_chip \<and> unat irq < length (descs s))"
      and f: "(if length (descs s) \<le> unat irq then Some (Inl Out_Of_Bounds)
         else case chip (desc_at s irq) of Some generic_irq_chip \<Rightarrow> f irq type s | _ \<Rightarrow> Some (Inr (Some ENOTSUPP))) = Some r"
    show "\<not> (chip (desc_at s irq) = Some generic_irq_chip \<and> unat irq < length (descs s))"
      using IH [of irq type s r] f by (cases "unat irq < length (descs s)") (auto simp: linorder_not_le)
  qed
  thus False using assms by blast
qed

section \<open>Accounting\<close>

text \<open>Interrupts one after the other.\<close>

fun do_IRQs :: "irq_env \<Rightarrow> u32 list \<Rightarrow> irq_sys \<Rightarrow> irq_sys run" where
  "do_IRQs E [] s = Some (Inr s)"
| "do_IRQs E (i # is) s = bind_run (do_IRQ E i s) (do_IRQs E is)"

text \<open>Handlers that return and touch neither the tables nor the list of consoles.\<close>

definition quiet_handlers :: "irq_env \<Rightarrow> u32 list \<Rightarrow> bool" where
  "quiet_handlers E ps \<longleftrightarrow> (\<forall>h irq d s. consoles_ok (plog s) ps \<longrightarrow>
     (\<exists>q. call_handler E h irq d s = Some (Inr (s\<lparr>plog := q\<rparr>)) \<and> consoles_ok q ps))"

text \<open>What of a descriptor decides whether an interrupt counts as unhandled.\<close>

definition line_kind :: "irq_desc \<Rightarrow> bool \<times> bool \<times> irq_flow_control option" where
  "line_kind d = (status d AND IRQ_DISABLED \<noteq> 0, handle_irq d = 0, flow_control d)"

definition silent :: "irq_desc \<Rightarrow> bool" where
  "silent d \<longleftrightarrow> status d AND IRQ_DISABLED \<noteq> 0 \<or> handle_irq d = 0 \<and> flow_control d = None"

definition simple_lines :: "irq_sys \<Rightarrow> u32 list \<Rightarrow> bool" where
  "simple_lines s ps \<longleftrightarrow> irq_array s \<and> consoles_ok (plog s) ps \<and>
     (\<forall>i<NR_IRQS. flow_control (desc_at s i) \<in> {None, Some simple_flow_control})"

lemma silent_kind: "line_kind d = line_kind d' \<Longrightarrow> silent d = silent d'"
  by (auto simp: line_kind_def silent_def)

lemma inprogress_bit [simp]: "(((w :: u32) OR 8) AND 1) = w AND 1" "((w :: u32) AND - 9) AND 1 = w AND 1"
proof -
  have n: "- 9 = NOT (8 :: u32)" by simp
  show "((w :: u32) OR 8) AND 1 = w AND 1"
    using bit_and_iff by (rule_tac bit_eqI) (auto simp: bit_simps)
  show "((w :: u32) AND - 9) AND 1 = w AND 1"
    unfolding n by (rule bit_eqI) (auto simp: bit_simps)
qed

text \<open>How the counters of one state follow from those of another and a sequence of interrupts.\<close>

definition accounted :: "irq_sys \<Rightarrow> u32 list \<Rightarrow> irq_sys \<Rightarrow> bool" where
  "accounted s is t \<longleftrightarrow>
     (\<forall>i<NR_IRQS. irqs (stats (desc_at t i)) = irqs (stats (desc_at s i)) + of_nat (count_list is i) \<and>
        unhandled (stats (desc_at t i)) = unhandled (stats (desc_at s i)) + of_nat (if silent (desc_at s i) then count_list is i else 0) \<and>
        line_kind (desc_at t i) = line_kind (desc_at s i)) \<and>
     total_irqs (istats t) = total_irqs (istats s) + of_nat (length (filter (\<lambda>i. i < NR_IRQS) is)) \<and>
     spurious_irqs (istats t) = spurious_irqs (istats s) + of_nat (length (filter (\<lambda>i. \<not> i < NR_IRQS) is)) \<and>
     unhandled_irqs (istats t) = unhandled_irqs (istats s) + of_nat (length (filter (\<lambda>i. i < NR_IRQS \<and> silent (desc_at s i)) is))"

lemma accounted_Cons:
  assumes "accounted s [i] t" "accounted t is u"
  shows "accounted s (i # is) u"
proof -
  have k: "silent (desc_at t j) = silent (desc_at s j)" if "j < NR_IRQS" for j
    using assms(1) that by (intro silent_kind) (simp add: accounted_def)
  have f: "filter (\<lambda>i. i < NR_IRQS \<and> silent (desc_at t i)) is = filter (\<lambda>i. i < NR_IRQS \<and> silent (desc_at s i)) is"
    using k by (intro filter_cong) auto
  show ?thesis using assms k f unfolding accounted_def by (simp add: of_nat_add)
qed

lemma accounted_local:
  assumes a: "irq_array s" and i: "irq < NR_IRQS"
    and d: "\<And>j. j \<noteq> irq \<Longrightarrow> desc_at t j = desc_at s j"
    and k: "line_kind (desc_at t irq) = line_kind (desc_at s irq)"
    and n: "irqs (stats (desc_at t irq)) = irqs (stats (desc_at s irq)) + 1"
      "unhandled (stats (desc_at t irq)) = unhandled (stats (desc_at s irq)) + (if silent (desc_at s irq) then 1 else 0)"
    and g: "istats t = (istats s)\<lparr>total_irqs := total_irqs (istats s) + 1,
              unhandled_irqs := unhandled_irqs (istats s) + (if silent (desc_at s irq) then 1 else 0)\<rparr>"
  shows "accounted s [irq] t"
proof -
  have "irqs (stats (desc_at t j)) = irqs (stats (desc_at s j)) + of_nat (count_list [irq] j) \<and>
        unhandled (stats (desc_at t j)) = unhandled (stats (desc_at s j)) + of_nat (if silent (desc_at s j) then count_list [irq] j else 0) \<and>
        line_kind (desc_at t j) = line_kind (desc_at s j)" for j
    using d [of j] k n by (cases "j = irq") auto
  thus ?thesis using g i by (simp add: accounted_def)
qed

lemma simple_lines_upd:
  assumes "simple_lines s ps" "consoles_ok q ps" "irq < NR_IRQS" "\<And>d. flow_control (f d) = flow_control d"
  shows "simple_lines ((upd_desc irq f s)\<lparr>plog := q\<rparr>) ps"
proof -
  have "flow_control (desc_at (upd_desc irq f s) j) = flow_control (desc_at s j)" for j
    using assms by (cases "j = irq") (simp_all add: simple_lines_def)
  thus ?thesis using assms(1,2) by (simp add: simple_lines_def)
qed

definition counted :: "u32 \<Rightarrow> irq_sys \<Rightarrow> irq_sys" where
  "counted irq s = (upd_desc irq (stats_update (irqs_update (\<lambda>n. n + 1))) s)\<lparr>istats := (istats s)\<lparr>total_irqs := total_irqs (istats s) + 1\<rparr>\<rparr>"

text \<open>The middle of \<^verbatim>\<open>do_IRQ\<close> on an enabled line: the handler runs once, or the interrupt is counted as unhandled.\<close>

lemma do_IRQ_middle:
  assumes q: "quiet_handlers E ps" and c: "consoles_ok (plog s) ps" and i: "irq < NR_IRQS"
    and f: "flow_control (desc_at s irq) \<in> {None, Some simple_flow_control}"
  shows "\<exists>p. (case flow_control (desc_at s irq) of
           Some f \<Rightarrow> flow_handle f E irq s
         | None \<Rightarrow>
             if handle_irq (desc_at s irq) \<noteq> 0
             then call_handler E (handle_irq (desc_at s irq)) irq (handler_data (desc_at s irq)) s
             else pr_warn_irq ''Unhandled IRQ %d'' [Va_Int irq] (count_unhandled irq s))
       = Some (Inr ((if handle_irq (desc_at s irq) = 0 \<and> flow_control (desc_at s irq) = None then count_unhandled irq s else s)\<lparr>plog := p\<rparr>)) \<and>
       consoles_ok p ps"
proof -
  have h: "\<exists>p. call_handler E h n d s = Some (Inr (s\<lparr>plog := p\<rparr>)) \<and> consoles_ok p ps" for h n d
    using q c by (simp add: quiet_handlers_def)
  have "\<exists>t. spec_fmt (''Unhandled IRQ %d'' @ [CHR ''\<newline>'']) [Va_Int irq] = Some t \<and> t \<noteq> []"
    using irq_not_min [OF i] by (simp add: spec_item_def)
  hence w: "\<exists>p. pr_warn_irq ''Unhandled IRQ %d'' [Va_Int irq] (count_unhandled irq s) = Some (Inr ((count_unhandled irq s)\<lparr>plog := p\<rparr>)) \<and> consoles_ok p ps"
    using printk_at_total [of "count_unhandled irq s" ps "''<4>''"] c by (fastforce simp: count_unhandled_def)
  have s: "s\<lparr>plog := plog s\<rparr> = s" by simp
  show ?thesis
  proof (cases "flow_control (desc_at s irq) = None")
    case True
    thus ?thesis using h w by auto
  next
    case False
    hence "flow_control (desc_at s irq) = Some simple_flow_control" using f by auto
    thus ?thesis using h [of "handle_irq (desc_at s irq)" "irq_no (desc_at s irq)" "handler_data (desc_at s irq)"] c s
      by (cases "handle_irq (desc_at s irq) = 0") (auto simp: flow_handle_def handle_simple_irq_def run_handler_def intro: exI [of _ "plog s"])
  qed
qed

lemma do_IRQ_spurious:
  assumes "simple_lines s ps" "\<not> irq < NR_IRQS" "irq \<noteq> 0x80000000"
  shows "\<exists>t. do_IRQ E irq s = Some (Inr t) \<and> simple_lines t ps \<and> accounted s [irq] t"
proof -
  have "\<exists>t. spec_fmt (''Spurious IRQ %d'' @ [CHR ''\<newline>'']) [Va_Int irq] = Some t \<and> t \<noteq> []"
    using assms(3) by (simp add: spec_item_def)
  then obtain q where "pr_warn_irq ''Spurious IRQ %d'' [Va_Int irq] s = Some (Inr (s\<lparr>plog := q\<rparr>))" "consoles_ok q ps"
    using printk_at_total [of s ps "''<4>''"] assms(1) by (fastforce simp: simple_lines_def)
  thus ?thesis using assms by (auto simp: do_IRQ_def accounted_def simple_lines_def)
qed

lemma do_IRQ_step:
  assumes q: "quiet_handlers E ps" and s: "simple_lines s ps" and i: "irq < NR_IRQS"
  shows "\<exists>t. do_IRQ E irq s = Some (Inr t) \<and> simple_lines t ps \<and> accounted s [irq] t"
proof -
  have a: "irq_array s" and c: "consoles_ok (plog s) ps" and f: "flow_control (desc_at s irq) \<in> {None, Some simple_flow_control}"
    using s i by (simp_all add: simple_lines_def)
  have ni: "\<not> NR_IRQS \<le> irq" using i by simp
  have sp: "simple_lines ((upd_desc irq g s)\<lparr>istats := t, plog := p\<rparr>) ps" if "consoles_ok p ps" "\<And>d. flow_control (g d) = flow_control d" for g t p
    using simple_lines_upd [OF s that(1) i that(2)] by (simp add: simple_lines_def)
  have sp0: "simple_lines ((upd_desc irq g s)\<lparr>istats := t\<rparr>) ps" if "\<And>d. flow_control (g d) = flow_control d" for g t
    using simple_lines_upd [OF s c i that] by (simp add: simple_lines_def)
  show ?thesis
  proof (cases "status (desc_at s irq) AND IRQ_DISABLED \<noteq> 0")
    case True
    hence e: "do_IRQ E irq s = Some (Inr (count_unhandled irq (counted irq s)))"
      using ni a i by (simp add: do_IRQ_def counted_def Let_def)
    have "accounted s [irq] (count_unhandled irq (counted irq s))"
      by (rule accounted_local [OF a i]) (use True a i in \<open>simp_all add: counted_def count_unhandled_def line_kind_def silent_def\<close>)
    moreover have "simple_lines (count_unhandled irq (counted irq s)) ps"
      using a i by (simp add: counted_def count_unhandled_def sp0)
    ultimately show ?thesis using e by blast
  next
    case False
    define u where "u = upd_desc irq (status_update (\<lambda>w. w OR IRQ_INPROGRESS)) (counted irq s)"
    have u: "flow_control (desc_at u irq) \<in> {None, Some simple_flow_control}" "consoles_ok (plog u) ps"
      using a i f c by (simp_all add: u_def counted_def)
    obtain p where p: "(case flow_control (desc_at u irq) of
           Some f \<Rightarrow> flow_handle f E irq u
         | None \<Rightarrow>
             if handle_irq (desc_at u irq) \<noteq> 0
             then call_handler E (handle_irq (desc_at u irq)) irq (handler_data (desc_at u irq)) u
             else pr_warn_irq ''Unhandled IRQ %d'' [Va_Int irq] (count_unhandled irq u))
       = Some (Inr ((if handle_irq (desc_at u irq) = 0 \<and> flow_control (desc_at u irq) = None then count_unhandled irq u else u)\<lparr>plog := p\<rparr>))"
       "consoles_ok p ps" using do_IRQ_middle [OF q u(2) i u(1)] by blast
    define t where "t = upd_desc irq (status_update (\<lambda>w. w AND NOT IRQ_INPROGRESS))
       ((if handle_irq (desc_at u irq) = 0 \<and> flow_control (desc_at u irq) = None then count_unhandled irq u else u)\<lparr>plog := p\<rparr>)"
    have st: "status (desc_at (counted irq s) irq) = status (desc_at s irq)" using a i by (simp add: counted_def)
    have "do_IRQ E irq s = Some (Inr t)"
      using i ni a False st p(1) unfolding t_def u_def counted_def [symmetric]
      by (simp add: do_IRQ_def Let_def counted_def [symmetric])
    moreover have "accounted s [irq] t"
      by (rule accounted_local [OF a i])
         (use False a i in \<open>simp_all add: t_def u_def counted_def count_unhandled_def line_kind_def silent_def\<close>)
    moreover have "simple_lines t ps"
      using p(2) a i by (simp add: t_def u_def counted_def count_unhandled_def sp)
    ultimately show ?thesis by blast
  qed
qed

text \<open>
  C30. Every interrupt is accounted for (kernel/irq.c, do\_IRQ). Take lines without flow control or with
  the simple one, and handlers that return and leave the tables alone. Any sequence of interrupts is
  then processed to its end. The count of each line grows by its interrupts, its unhandled count by the
  same number if it is disabled or has nobody to call, and not otherwise; the global totals are the
  sums; numbers from 256 on count as spurious and touch no line; and no line changes its handler, its
  flow control or its disabled bit. The number 0x80000000 is left out: its decimal form is undefined in C.
\<close>

theorem interrupts_accounted:
  assumes "quiet_handlers E ps" and "simple_lines s ps" and "0x80000000 \<notin> set is"
  shows "\<exists>t. do_IRQs E is s = Some (Inr t) \<and> simple_lines t ps \<and> accounted s is t"
  using assms(2,3)
proof (induction "is" arbitrary: s)
  case Nil
  then show ?case by (simp add: accounted_def)
next
  case (Cons i "is")
  have "\<exists>t. do_IRQ E i s = Some (Inr t) \<and> simple_lines t ps \<and> accounted s [i] t"
    using do_IRQ_step [OF assms(1) Cons.prems(1)] do_IRQ_spurious [OF Cons.prems(1)] Cons.prems(2) by (cases "i < NR_IRQS") auto
  then obtain t where t: "do_IRQ E i s = Some (Inr t)" "simple_lines t ps" "accounted s [i] t" by blast
  with Cons.IH [OF t(2)] Cons.prems(2) show ?case by (auto intro: accounted_Cons)
qed

lemma irq_env0_quiet: "quiet_handlers irq_env0 ps"
proof -
  have "\<exists>q. s = s\<lparr>plog := q\<rparr> \<and> consoles_ok q ps" if "consoles_ok (plog s) ps" for s :: irq_sys
    using that by (intro exI [of _ "plog s"]) simp
  thus ?thesis by (simp add: quiet_handlers_def irq_env0_def)
qed

lemma irq_sys0_simple: "simple_lines irq_sys0 [16, 32]"
  by (simp add: simple_lines_def irq_sys0_log two_consoles_ok irq_sys0_desc irq_desc_init_def)

theorem interrupts_accounted_witness:
  "\<exists>t. do_IRQs irq_env0 [3, 300, 3] irq_sys0 = Some (Inr t) \<and> irqs (stats (desc_at t 3)) = 2 \<and>
     unhandled_irqs (istats t) = 2 \<and> spurious_irqs (istats t) = 1"
proof -
  have d: "desc_at irq_sys0 3 = irq_desc_init 3" by (simp add: irq_sys0_desc)
  have t: "unhandled_irqs (istats irq_sys0) = 0" "spurious_irqs (istats irq_sys0) = 0" by (simp_all add: irq_sys0_def)
  from interrupts_accounted [OF irq_env0_quiet irq_sys0_simple, of "[3, 300, 3]"] obtain u where
    u: "do_IRQs irq_env0 [3, 300, 3] irq_sys0 = Some (Inr u)" "accounted irq_sys0 [3, 300, 3] u" by auto
  have "irqs (stats (desc_at u 3)) = 2" "unhandled_irqs (istats u) = 2" "spurious_irqs (istats u) = 1"
    using u(2) d t by (simp_all add: accounted_def irq_desc_init_def silent_def)
  with u(1) show ?thesis by blast
qed

end
