(* ===== verification/Solix_Slab.thy ===== *)
theory Solix_Slab
  imports Solix_Paging Solix_Process Solix_Irq
begin

text \<open>
  The slab allocator, after \<^verbatim>\<open>kernel/slab.c\<close> and \<^verbatim>\<open>include/slab.h\<close>: caches of objects of one size, cut from pages that
  \<^verbatim>\<open>kmalloc_aligned\<close> of \<open>Solix_Paging\<close> gives, under the spin lock of \<open>Solix_Irq\<close>. Caches and slab headers are objects
  in stores indexed by their addresses; the links of the free lists lie in the words of memory that
  \<open>Solix_Paging\<close> also keeps its bookkeeping in. The list functions (\<^verbatim>\<open>list_add\<close>, \<^verbatim>\<open>list_del\<close>, \<^verbatim>\<open>list_empty\<close>, \<^verbatim>\<open>list_first_entry\<close>,
  \<^verbatim>\<open>INIT_LIST_HEAD\<close>, \<^verbatim>\<open>list_for_each_entry\<close>) are not defined for this file: they are the arguments \<open>L\<close>, over a state of lists
  of their own, as are the constructors of drivers and the sizes of the structures that contain a list head.
\<close>

declare of_nat_add [simp del]

section \<open>State\<close>

abbreviation SLAB_RED_MAGIC1 :: u32 where "SLAB_RED_MAGIC1 \<equiv> 0x5A5A5A5A"
abbreviation SLAB_POISON_BYTE :: u8 where "SLAB_POISON_BYTE \<equiv> 0x5A"
abbreviation SLAB_POISON :: u32 where "SLAB_POISON \<equiv> 8"
abbreviation SLAB_HWCACHE_ALIGN :: u32 where "SLAB_HWCACHE_ALIGN \<equiv> 16"
abbreviation CACHE_LINE_SIZE :: u32 where "CACHE_LINE_SIZE \<equiv> 64"
abbreviation SLAB_BATCH_COUNT :: u32 where "SLAB_BATCH_COUNT \<equiv> 16"
abbreviation KMALLOC_MAX_SIZE :: u32 where "KMALLOC_MAX_SIZE \<equiv> 8192"

record kmem_stats =
  st_allocated :: u32
  st_freed :: u32
  st_errors :: u32
  st_max_active :: u32
  st_active :: u32

record kmem_cache =
  kc_name :: string
  object_size :: u32
  kc_align :: u32
  ctor :: u32
  dtor :: u32
  num :: u32
  batchcount :: u32
  kc_limit :: u32
  colour_next :: u32
  colour_off :: u32
  colour :: u32
  kc_flags :: u32
  gfporder :: u32
  kc_stats :: kmem_stats

record slab =
  slab_cache :: u32
  s_mem :: u32
  inuse :: u32
  freelist :: u32
  objects :: u32
  slab_magic :: u32
  slab_end :: u32

text \<open>The list heads of the program: the chain of caches, the three lists of a cache, and the links in caches and slabs.\<close>

datatype list_node = Chain | Full u32 | Partial u32 | Free u32 | Cache_Link u32 | Slab_Link u32

record 'l list_ops =
  INIT_LIST_HEAD :: "list_node \<Rightarrow> 'l \<Rightarrow> 'l"
  list_add :: "list_node \<Rightarrow> list_node \<Rightarrow> 'l \<Rightarrow> 'l"
  list_del :: "list_node \<Rightarrow> 'l \<Rightarrow> 'l"
  list_empty :: "list_node \<Rightarrow> 'l \<Rightarrow> bool"
  list_first :: "list_node \<Rightarrow> 'l \<Rightarrow> list_node"
  list_entries :: "list_node \<Rightarrow> 'l \<Rightarrow> list_node list"
  sizeof_slab :: u32
  sizeof_kmem_cache :: u32

record 'l slab_sys =
  caches :: "u32 \<rightharpoonup> kmem_cache"
  slabs :: "u32 \<rightharpoonup> slab"
  sl_mem :: aligned_heap
  sl_lists :: 'l
  cache_chain_lock :: u32
  kmalloc_caches :: "u32 list"
  common_caches :: "string \<Rightarrow> u32"
  sl_kernel :: kernel
  sl_out :: "string list"

text \<open>Constructors and destructors: the function a pointer stands for, on the address of an object.\<close>

type_synonym 'l obj_fun = "u32 \<Rightarrow> u32 \<Rightarrow> 'l slab_sys \<Rightarrow> 'l slab_sys run"

definition sl_debug :: "u32 \<Rightarrow> string \<Rightarrow> 'l slab_sys \<Rightarrow> 'l slab_sys" where
  "sl_debug level fmt s = s\<lparr>sl_kernel := debug_print level fmt (sl_kernel s)\<rparr>"

definition chain_acquire :: "'l slab_sys \<Rightarrow> 'l slab_sys run" where
  "chain_acquire s = bind_run (spin_lock (cache_chain_lock s)) (\<lambda>w. Some (Inr (s\<lparr>cache_chain_lock := w\<rparr>)))"

definition chain_release :: "'l slab_sys \<Rightarrow> 'l slab_sys" where
  "chain_release s = s\<lparr>cache_chain_lock := spin_unlock (cache_chain_lock s)\<rparr>"

definition the_cache :: "u32 \<Rightarrow> 'l slab_sys \<Rightarrow> kmem_cache run" where
  "the_cache c s = (case caches s c of None \<Rightarrow> Some (Inl (Wild_Access c)) | Some k \<Rightarrow> Some (Inr k))"

definition the_slab :: "u32 \<Rightarrow> 'l slab_sys \<Rightarrow> slab run" where
  "the_slab a s = (case slabs s a of None \<Rightarrow> Some (Inl (Wild_Access a)) | Some b \<Rightarrow> Some (Inr b))"

definition upd_cache :: "u32 \<Rightarrow> (kmem_cache \<Rightarrow> kmem_cache) \<Rightarrow> 'l slab_sys \<Rightarrow> 'l slab_sys" where
  "upd_cache c f s = s\<lparr>caches := (caches s)(c := map_option f (caches s c))\<rparr>"

definition upd_slab :: "u32 \<Rightarrow> (slab \<Rightarrow> slab) \<Rightarrow> 'l slab_sys \<Rightarrow> 'l slab_sys" where
  "upd_slab a f s = s\<lparr>slabs := (slabs s)(a := map_option f (slabs s a))\<rparr>"

definition upd_lists :: "('l \<Rightarrow> 'l) \<Rightarrow> 'l slab_sys \<Rightarrow> 'l slab_sys" where
  "upd_lists f s = s\<lparr>sl_lists := f (sl_lists s)\<rparr>"

text \<open>
  Memory is read a word at a time, but words may overlap: a store changes the bytes it has in common with every word
  that is kept. \<open>f\<close> gives the new bytes.
\<close>

definition overwrite :: "(u32 \<rightharpoonup> u8) \<Rightarrow> u32 \<Rightarrow> u32 \<Rightarrow> u32" where
  "overwrite f a w =
     fold (\<lambda>k w. case f (a + of_nat k) of None \<Rightarrow> w
                 | Some b \<Rightarrow> (w AND NOT (push_bit (8 * k) 0xFF)) OR push_bit (8 * k) (ucast b)) [0..<4] w"

definition bytes_of :: "u32 \<Rightarrow> u32 \<Rightarrow> u32 \<rightharpoonup> u8" where
  "bytes_of a w = (\<lambda>x. if x - a < 4 then Some (ucast (drop_bit (8 * unat (x - a)) w)) else None)"

definition set_word :: "u32 \<Rightarrow> u32 \<Rightarrow> 'l slab_sys \<Rightarrow> 'l slab_sys" where
  "set_word a w s =
     s\<lparr>sl_mem := (sl_mem s)\<lparr>words := (\<lambda>x. map_option (overwrite (bytes_of a w) x) (words (sl_mem s) x))(a \<mapsto> w)\<rparr>\<rparr>"

text \<open>\<^verbatim>\<open>memset\<close>.\<close>

definition mem_fill :: "u32 \<Rightarrow> u8 \<Rightarrow> u32 \<Rightarrow> 'l slab_sys \<Rightarrow> 'l slab_sys" where
  "mem_fill obj b n s =
     s\<lparr>sl_mem := (sl_mem s)\<lparr>words := (\<lambda>x. map_option (overwrite (\<lambda>y. if y - obj < n then Some b else None) x) (words (sl_mem s) x))\<rparr>\<rparr>"

section \<open>Slabs\<close>

definition calculate_objects :: "'l list_ops \<Rightarrow> u32 \<Rightarrow> u32 \<Rightarrow> u32 \<Rightarrow> u32 \<Rightarrow> u32" where
  "calculate_objects L order sz align flags =
     (let nr_pages = push_bit (unat order) 1;
          objs = (PAGE_SIZE * nr_pages - sizeof_slab L) div sz;
          leftover = (PAGE_SIZE * nr_pages - sizeof_slab L) mod sz
      in if flags AND SLAB_HWCACHE_ALIGN \<noteq> 0 \<and> leftover \<ge> 4 then objs + 1 else objs)"

definition calculate_colours :: "kmem_cache \<Rightarrow> u32 \<times> u32" where
  "calculate_colours k =
     (let off = object_size k mod CACHE_LINE_SIZE
      in if kc_flags k AND SLAB_HWCACHE_ALIGN \<noteq> 0 \<and> off \<noteq> 0 then (CACHE_LINE_SIZE div off, off) else (0, colour_off k))"

text \<open>The loop that links the objects of a new slab.\<close>

fun link_objects :: "nat \<Rightarrow> u32 \<Rightarrow> u32 \<Rightarrow> 'l slab_sys \<Rightarrow> 'l slab_sys" where
  "link_objects 0 sz p s = set_word p 0 s"
| "link_objects (Suc n) sz p s = link_objects n sz (p + sz) (set_word p (p + sz) s)"

fun each_object :: "nat \<Rightarrow> u32 \<Rightarrow> (u32 \<Rightarrow> 'l slab_sys \<Rightarrow> 'l slab_sys run) \<Rightarrow> u32 \<Rightarrow> 'l slab_sys \<Rightarrow> 'l slab_sys run" where
  "each_object 0 sz f obj s = Some (Inr s)"
| "each_object (Suc n) sz f obj s = bind_run (f obj s) (each_object n sz f (obj + sz))"

definition alloc_slab :: "'l list_ops \<Rightarrow> 'l obj_fun \<Rightarrow> u32 \<Rightarrow> 'l slab_sys \<Rightarrow> (u32 \<times> 'l slab_sys) run" where
  "alloc_slab L call c s =
     bind_run (the_cache c s) (\<lambda>k.
     let bytes = PAGE_SIZE * push_bit (unat (gfporder k)) 1
     in bind_run (kmalloc_aligned bytes PAGE_SIZE (sl_mem s)) (\<lambda>(pages, ah).
     let s1 = s\<lparr>sl_mem := ah\<rparr>
     in if pages = 0 then Some (Inr (0, s1))
        else let objp = pages + sizeof_slab L + colour_off k;
                 s2 = s1\<lparr>slabs := (slabs s1)(pages \<mapsto> \<lparr>slab_cache = c, s_mem = objp, inuse = 0, freelist = objp, objects = num k,
                        slab_magic = SLAB_RED_MAGIC1, slab_end = pages + bytes\<rparr>)\<rparr>;
                 s3 = link_objects (unat (num k - 1)) (object_size k) objp s2
             in bind_run (if kc_flags k AND SLAB_POISON \<noteq> 0
                          then each_object (unat (num k)) (object_size k) (\<lambda>obj t. Some (Inr (mem_fill obj SLAB_POISON_BYTE (object_size k) t))) objp s3
                          else Some (Inr s3)) (\<lambda>s4.
                bind_run (if ctor k \<noteq> 0 then each_object (unat (num k)) (object_size k) (call (ctor k)) objp s4 else Some (Inr s4)) (\<lambda>s5.
                Some (Inr (pages, upd_cache c (kc_stats_update (st_allocated_update (\<lambda>n. n + num k))) s5))))))"

text \<open>The header is read again after its page has been freed; its contents are then still those of the slab.\<close>

definition free_slab :: "'l obj_fun \<Rightarrow> u32 \<Rightarrow> u32 \<Rightarrow> 'l slab_sys \<Rightarrow> 'l slab_sys run" where
  "free_slab call c a s =
     bind_run (the_cache c s) (\<lambda>k. bind_run (the_slab a s) (\<lambda>b.
     bind_run (if dtor k \<noteq> 0 then each_object (unat (objects b)) (object_size k) (call (dtor k)) (s_mem b) s else Some (Inr s)) (\<lambda>s1.
     bind_run (Some (kfree_aligned a (sl_mem s1))) (\<lambda>ah.
     Some (Inr (upd_cache c (kc_stats_update (st_freed_update (\<lambda>n. n + objects b))) (s1\<lparr>sl_mem := ah, slabs := (slabs s1)(a := None)\<rparr>)))))))"

definition cache_grow :: "'l list_ops \<Rightarrow> 'l obj_fun \<Rightarrow> u32 \<Rightarrow> 'l slab_sys \<Rightarrow> (int \<times> 'l slab_sys) run" where
  "cache_grow L call c s =
     bind_run (alloc_slab L call c s) (\<lambda>(a, s1).
     if a = 0 then Some (Inr (-1, s1))
     else bind_run (chain_acquire s1) (\<lambda>s2.
          bind_run (the_slab a s2) (\<lambda>b. bind_run (the_cache c s2) (\<lambda>k.
          let h = (if inuse b = 0 then Free c else if inuse b = num k then Full c else Partial c)
          in Some (Inr (0, chain_release (upd_lists (list_add L (Slab_Link a) h) s2)))))))"

section \<open>Caches\<close>

definition kmem_cache_create :: "'l list_ops \<Rightarrow> string option \<Rightarrow> u32 \<Rightarrow> u32 \<Rightarrow> u32 \<Rightarrow> u32 \<Rightarrow> u32 \<Rightarrow> 'l slab_sys \<Rightarrow> (u32 \<times> 'l slab_sys) run" where
  "kmem_cache_create L name sz align flags ctor_fn dtor_fn s =
     (case name of None \<Rightarrow> Some (Inr (0, s))
      | Some nm \<Rightarrow>
          if sz = 0 \<or> sz > KMALLOC_MAX_SIZE then Some (Inr (0, s))
          else bind_run (kmalloc (sizeof_kmem_cache L) (kheap (sl_mem s))) (\<lambda>(c, h).
          let s1 = s\<lparr>sl_mem := (sl_mem s)\<lparr>kheap := h\<rparr>\<rparr>
          in if c = 0 then Some (Inr (0, s1))
          else let n = calculate_objects L 0 sz align flags;
                   k0 = \<lparr>kc_name = nm, object_size = sz, kc_align = align, ctor = ctor_fn, dtor = dtor_fn, num = n, batchcount = SLAB_BATCH_COUNT,
                         kc_limit = n * 2, colour_next = 0, colour_off = 0, colour = 0, kc_flags = flags, gfporder = 0,
                         kc_stats = \<lparr>st_allocated = 0, st_freed = 0, st_errors = 0, st_max_active = 0, st_active = 0\<rparr>\<rparr>;
                   k = k0\<lparr>colour := fst (calculate_colours k0), colour_off := snd (calculate_colours k0)\<rparr>;
                   s2 = upd_lists (INIT_LIST_HEAD L (Free c) \<circ> INIT_LIST_HEAD L (Partial c) \<circ> INIT_LIST_HEAD L (Full c))
                          (s1\<lparr>caches := (caches s1)(c \<mapsto> k)\<rparr>)
               in if n = 0
                  then bind_run (Some (kfree c (kheap (sl_mem s2)))) (\<lambda>h2.
                       Some (Inr (0, s2\<lparr>sl_mem := (sl_mem s2)\<lparr>kheap := h2\<rparr>, caches := (caches s2)(c := None)\<rparr>)))
                  else bind_run (chain_acquire s2) (\<lambda>s3.
                       let s4 = chain_release (upd_lists (list_add L (Cache_Link c) Chain) s3)
                       in Some (Inr (c, sl_debug 3 (''Created cache '' @ [CHR 0x27] @ ''%s'' @ [CHR 0x27] @ '': objsize=%d, objs=%d, order=%d'') s4)))))"

fun free_slabs :: "'l list_ops \<Rightarrow> 'l obj_fun \<Rightarrow> u32 \<Rightarrow> list_node list \<Rightarrow> 'l slab_sys \<Rightarrow> 'l slab_sys run" where
  "free_slabs L call c [] s = Some (Inr s)"
| "free_slabs L call c (x # xs) s =
     (case x of
        Slab_Link a \<Rightarrow> bind_run (free_slab call c a (upd_lists (list_del L x) s)) (free_slabs L call c xs)
      | _ \<Rightarrow> Some (Inl Out_Of_Bounds))"

definition kmem_cache_destroy :: "'l list_ops \<Rightarrow> 'l obj_fun \<Rightarrow> u32 \<Rightarrow> 'l slab_sys \<Rightarrow> 'l slab_sys run" where
  "kmem_cache_destroy L call c s =
     (if c = 0 then Some (Inr s)
      else bind_run (chain_acquire s) (\<lambda>s1.
           bind_run (free_slabs L call c (list_entries L (Full c) (sl_lists s1)) s1) (\<lambda>s2.
           bind_run (free_slabs L call c (list_entries L (Partial c) (sl_lists s2)) s2) (\<lambda>s3.
           bind_run (free_slabs L call c (list_entries L (Free c) (sl_lists s3)) s3) (\<lambda>s4.
           let s5 = sl_debug 3 (''Destroyed cache '' @ [CHR 0x27] @ ''%s'' @ [CHR 0x27]) (chain_release (upd_lists (list_del L (Cache_Link c)) s4))
           in bind_run (Some (kfree c (kheap (sl_mem s5)))) (\<lambda>h.
              Some (Inr (s5\<lparr>sl_mem := (sl_mem s5)\<lparr>kheap := h\<rparr>, caches := (caches s5)(c := None)\<rparr>))))))))"

section \<open>Objects\<close>

definition first_slab :: "'l list_ops \<Rightarrow> list_node \<Rightarrow> 'l slab_sys \<Rightarrow> u32 run" where
  "first_slab L h s = (case list_first L h (sl_lists s) of Slab_Link a \<Rightarrow> Some (Inr a) | _ \<Rightarrow> Some (Inl Out_Of_Bounds))"

text \<open>Where an object is taken from; \<open>0\<close> when the cache cannot grow. The lock is held unless it is \<open>0\<close>.\<close>

definition choose_slab :: "'l list_ops \<Rightarrow> 'l obj_fun \<Rightarrow> u32 \<Rightarrow> 'l slab_sys \<Rightarrow> (u32 \<times> 'l slab_sys) run" where
  "choose_slab L call c s =
     (if \<not> list_empty L (Partial c) (sl_lists s) then bind_run (first_slab L (Partial c) s) (\<lambda>a. Some (Inr (a, s)))
      else if \<not> list_empty L (Free c) (sl_lists s) then bind_run (first_slab L (Free c) s) (\<lambda>a. Some (Inr (a, s)))
      else bind_run (cache_grow L call c (chain_release s)) (\<lambda>(r, s1).
           if r < 0 then Some (Inr (0, upd_cache c (kc_stats_update (st_errors_update (\<lambda>n. n + 1))) s1))
           else bind_run (chain_acquire s1) (\<lambda>s2.
                bind_run (first_slab L (Free c) s2) (\<lambda>a. Some (Inr (a, s2))))))"

definition move_slab :: "'l list_ops \<Rightarrow> u32 \<Rightarrow> list_node \<Rightarrow> 'l slab_sys \<Rightarrow> 'l slab_sys" where
  "move_slab L a h s = upd_lists (list_add L (Slab_Link a) h \<circ> list_del L (Slab_Link a)) s"

definition count_active :: "kmem_cache \<Rightarrow> kmem_cache" where
  "count_active k =
     (let st = (kc_stats k)\<lparr>st_active := st_active (kc_stats k) + 1\<rparr>
      in k\<lparr>kc_stats := (if st_active st > st_max_active st then st\<lparr>st_max_active := st_active st\<rparr> else st)\<rparr>)"

definition kmem_cache_alloc :: "'l list_ops \<Rightarrow> 'l obj_fun \<Rightarrow> u32 \<Rightarrow> 'l slab_sys \<Rightarrow> (u32 \<times> 'l slab_sys) run" where
  "kmem_cache_alloc L call c s =
     (if c = 0 then Some (Inr (0, s))
      else bind_run (chain_acquire s) (\<lambda>s1.
           bind_run (choose_slab L call c s1) (\<lambda>(a, s2).
           if a = 0 then Some (Inr (0, s2))
           else bind_run (the_slab a s2) (\<lambda>b. bind_run (the_cache c s2) (\<lambda>k.
                let objp = freelist b
                in if objp = 0 then Some (Inr (0, upd_cache c (kc_stats_update (st_errors_update (\<lambda>n. n + 1))) (chain_release s2)))
                   else bind_run (Some (load_word (words (sl_mem s2)) objp)) (\<lambda>nxt.
                        let s3 = upd_slab a (\<lambda>b. b\<lparr>freelist := nxt, inuse := inuse b + 1\<rparr>) s2;
                            used = inuse b + 1;
                            s4 = (if used = num k then move_slab L a (Full c) s3 else if used = 1 then move_slab L a (Partial c) s3 else s3);
                            s5 = chain_release s4;
                            s6 = (if kc_flags k AND SLAB_POISON \<noteq> 0 then mem_fill objp 0 (object_size k) s5 else s5)
                        in Some (Inr (objp, upd_cache c count_active s6))))))))"

definition kmem_cache_free :: "'l list_ops \<Rightarrow> u32 \<Rightarrow> u32 \<Rightarrow> 'l slab_sys \<Rightarrow> 'l slab_sys run" where
  "kmem_cache_free L c objp s =
     (if c = 0 \<or> objp = 0 then Some (Inr s)
      else let a = objp AND NOT (PAGE_SIZE - 1)
      in bind_run (the_slab a s) (\<lambda>b.
         if slab_magic b \<noteq> SLAB_RED_MAGIC1 \<or> slab_cache b \<noteq> c then Some (Inl (Panic ''Invalid object passed to kmem_cache_free''))
         else bind_run (the_cache c s) (\<lambda>k.
         let s1 = (if kc_flags k AND SLAB_POISON \<noteq> 0 then mem_fill objp SLAB_POISON_BYTE (object_size k) s else s)
         in bind_run (chain_acquire s1) (\<lambda>s2.
         let s3 = upd_slab a (\<lambda>b. b\<lparr>freelist := objp, inuse := inuse b - 1\<rparr>) (set_word objp (freelist b) s2);
             used = inuse b - 1;
             s4 = (if used = 0 then move_slab L a (Free c) s3 else if used = num k - 1 then move_slab L a (Partial c) s3 else s3)
         in Some (Inr (chain_release (upd_cache c (kc_stats_update (st_active_update (\<lambda>n. n - 1))) s4)))))))"

text \<open>
  Bulk operations. When an allocation fails, \<^verbatim>\<open>while (i--)\<close> frees the objects got so far, last one first, and leaves
  \<open>i\<close> at the largest \<^verbatim>\<open>size_t\<close>, which is returned. The result comes with what was stored in the array of pointers.
\<close>

fun free_each :: "(u32 \<Rightarrow> 's \<Rightarrow> 's run) \<Rightarrow> u32 list \<Rightarrow> 's \<Rightarrow> 's run" where
  "free_each release [] s = Some (Inr s)"
| "free_each release (p # ps) s = bind_run (release p s) (free_each release ps)"

fun bulk_loop :: "('s \<Rightarrow> (u32 \<times> 's) run) \<Rightarrow> (u32 \<Rightarrow> 's \<Rightarrow> 's run) \<Rightarrow> nat \<Rightarrow> u32 list \<Rightarrow> 's \<Rightarrow> ((u32 \<times> u32 list) \<times> 's) run" where
  "bulk_loop alloc release 0 ps s = Some (Inr ((of_nat (length ps), ps), s))"
| "bulk_loop alloc release (Suc n) ps s =
     bind_run (alloc s) (\<lambda>(p, s1).
       if p = 0 then bind_run (free_each release (rev ps) s1) (\<lambda>s2. Some (Inr ((-1, ps @ [0]), s2)))
       else bulk_loop alloc release n (ps @ [p]) s1)"

definition kmem_cache_alloc_bulk :: "'l list_ops \<Rightarrow> 'l obj_fun \<Rightarrow> u32 \<Rightarrow> u32 \<Rightarrow> 'l slab_sys \<Rightarrow> ((u32 \<times> u32 list) \<times> 'l slab_sys) run" where
  "kmem_cache_alloc_bulk L call c sz s = bulk_loop (kmem_cache_alloc L call c) (kmem_cache_free L c) (unat sz) [] s"

definition kmem_cache_free_bulk :: "'l list_ops \<Rightarrow> u32 \<Rightarrow> u32 list \<Rightarrow> 'l slab_sys \<Rightarrow> 'l slab_sys run" where
  "kmem_cache_free_bulk L c ps s = free_each (kmem_cache_free L c) ps s"

definition kmem_cache_size :: "u32 \<Rightarrow> 'l slab_sys \<Rightarrow> u32 run" where
  "kmem_cache_size c s = (if c = 0 then Some (Inr 0) else bind_run (the_cache c s) (\<lambda>k. Some (Inr (object_size k))))"

definition kmem_cache_name :: "u32 \<Rightarrow> 'l slab_sys \<Rightarrow> string run" where
  "kmem_cache_name c s = (if c = 0 then Some (Inr ''unknown'') else bind_run (the_cache c s) (\<lambda>k. Some (Inr (kc_name k))))"

definition kmem_cache_info :: "u32 \<Rightarrow> 'l slab_sys \<Rightarrow> 'l slab_sys run" where
  "kmem_cache_info c s =
     (if c = 0 then Some (Inr s)
      else bind_run (the_cache c s) (\<lambda>k.
        let line = (\<lambda>t w. [[CHR ''\<newline>''] @ ''  '' @ t @ '': '', dec (unat w)])
        in Some (Inr (s\<lparr>sl_out := sl_out s @ [''Cache: '', kc_name k] @ line ''Object size'' (object_size k) @ line ''Objects per slab'' (num k) @
             line ''Active objects'' (st_active (kc_stats k)) @ line ''Max active'' (st_max_active (kc_stats k)) @
             line ''Total allocated'' (st_allocated (kc_stats k)) @ line ''Total freed'' (st_freed (kc_stats k)) @
             line ''Errors'' (st_errors (kc_stats k)) @ [[CHR ''\<newline>'']]\<rparr>))))"

section \<open>The kmalloc interface and initialisation\<close>

text \<open>The search of \<^verbatim>\<open>kmalloc_slab\<close> for the first cache of the first eleven that is large enough.\<close>

fun find_kmalloc_cache :: "u32 \<Rightarrow> u32 list \<Rightarrow> 'l slab_sys \<Rightarrow> u32 run" where
  "find_kmalloc_cache sz [] s = Some (Inr 0)"
| "find_kmalloc_cache sz (c # cs) s =
     (if c = 0 then Some (Inr 0)
      else bind_run (kmem_cache_size c s) (\<lambda>n. if sz > n then find_kmalloc_cache sz cs s else Some (Inr c)))"

definition kmalloc_slab :: "'l list_ops \<Rightarrow> 'l obj_fun \<Rightarrow> u32 \<Rightarrow> 'l slab_sys \<Rightarrow> (u32 \<times> 'l slab_sys) run" where
  "kmalloc_slab L call sz s =
     (if sz = 0 then Some (Inr (0, s))
      else bind_run (find_kmalloc_cache sz (take 11 (kmalloc_caches s)) s) (\<lambda>c.
           if c = 0 then Some (Inr (0, s)) else kmem_cache_alloc L call c s))"

definition kfree_slab :: "'l list_ops \<Rightarrow> u32 \<Rightarrow> 'l slab_sys \<Rightarrow> 'l slab_sys run" where
  "kfree_slab L objp s =
     (if objp = 0 then Some (Inr s)
      else bind_run (the_slab (objp AND NOT (PAGE_SIZE - 1)) s) (\<lambda>b. kmem_cache_free L (slab_cache b) objp s))"

definition kmalloc_sizes :: "u32 list" where
  "kmalloc_sizes = [8, 16, 32, 64, 128, 256, 512, 1024, 2048, 4096, 8192, 16384]"

fun create_kmalloc_caches :: "'l list_ops \<Rightarrow> nat \<Rightarrow> u32 list \<Rightarrow> 'l slab_sys \<Rightarrow> 'l slab_sys run" where
  "create_kmalloc_caches L i [] s = Some (Inr s)"
| "create_kmalloc_caches L i (sz # szs) s =
     bind_run (kmem_cache_create L (Some (''kmalloc-'' @ dec (unat sz))) sz 0 SLAB_HWCACHE_ALIGN 0 0 s) (\<lambda>(c, s1).
       let s2 = s1\<lparr>kmalloc_caches := list_update (kmalloc_caches s1) i c\<rparr>
       in if c = 0 then Some (Inl (Panic ''Failed to create kmalloc cache'')) else create_kmalloc_caches L (i + 1) szs s2)"

definition slab_init :: "'l list_ops \<Rightarrow> 'l slab_sys \<Rightarrow> 'l slab_sys run" where
  "slab_init L s =
     bind_run (create_kmalloc_caches L 0 kmalloc_sizes
       (upd_lists (INIT_LIST_HEAD L Chain) (sl_debug 3 ''Initializing Linux-inspired SLAB allocator'' s))) (\<lambda>s1.
     Some (Inr (sl_debug 3 ''SLAB allocator initialized successfully'' s1)))"

text \<open>
  The caches of other subsystems, as variable, name and size. The sizes of structures defined elsewhere are the
  argument \<open>sizeof\<close>. The pointers are stored even when they are null.
\<close>

definition common_cache_table :: "(string \<Rightarrow> u32) \<Rightarrow> (string \<times> string \<times> u32) list" where
  "common_cache_table sizeof =
     [(''vm_area_cache'', ''vm_area_struct'', sizeof ''struct vm_area_struct''), (''files_cache'', ''files_struct'', sizeof ''struct files_struct''),
      (''mm_struct_cache'', ''mm_struct'', sizeof ''struct mm_struct''), (''inode_cache'', ''inode'', sizeof ''struct inode''),
      (''dentry_cache'', ''dentry'', sizeof ''struct dentry''), (''names_cache'', ''names_cache'', 256), (''pid_cache'', ''pid'', sizeof ''struct pid'')]"

fun create_common_caches :: "'l list_ops \<Rightarrow> (string \<times> string \<times> u32) list \<Rightarrow> 'l slab_sys \<Rightarrow> 'l slab_sys run" where
  "create_common_caches L [] s = Some (Inr s)"
| "create_common_caches L ((v, nm, sz) # r) s =
     bind_run (kmem_cache_create L (Some nm) sz 0 SLAB_HWCACHE_ALIGN 0 0 s) (\<lambda>(c, s1).
     create_common_caches L r (s1\<lparr>common_caches := (common_caches s1)(v := c)\<rparr>))"

definition kmem_cache_init :: "'l list_ops \<Rightarrow> (string \<Rightarrow> u32) \<Rightarrow> 'l slab_sys \<Rightarrow> 'l slab_sys run" where
  "kmem_cache_init L sizeof s =
     bind_run (slab_init L s) (\<lambda>s1. bind_run (create_common_caches L (common_cache_table sizeof) s1) (\<lambda>s2.
     Some (Inr (sl_debug 3 ''Common kernel caches initialized'' s2))))"

fun show_caches :: "list_node list \<Rightarrow> 'l slab_sys \<Rightarrow> 'l slab_sys run" where
  "show_caches [] s = Some (Inr s)"
| "show_caches (x # xs) s =
     (case x of Cache_Link c \<Rightarrow> bind_run (kmem_cache_info c s) (show_caches xs) | _ \<Rightarrow> Some (Inl Out_Of_Bounds))"

definition slab_debug_info :: "'l list_ops \<Rightarrow> 'l slab_sys \<Rightarrow> 'l slab_sys run" where
  "slab_debug_info L s =
     bind_run (chain_acquire (s\<lparr>sl_out := sl_out s @ [[CHR ''\<newline>''] @ ''=== SLAB Allocator Debug Info ==='' @ [CHR ''\<newline>'']]\<rparr>)) (\<lambda>s1.
     bind_run (show_caches (list_entries L Chain (sl_lists s1)) s1) (\<lambda>s2. Some (Inr (chain_release s2))))"

end
