(* ===== verification/Solix_SlabInv.thy ===== *)
theory Solix_SlabInv
  imports Solix_Slab
begin

text \<open>
  The invariant of the slab allocator (\<open>slab_inv\<close>): the slabs of every cache lie in live regions of the heap, are on the list that their
  number of objects in use asks for, and link exactly their free objects. A page that is turned into a slab, an object that
  is taken and an object that is returned keep it. What is documented of the list functions is the
  predicate \<open>list_contract\<close>.
\<close>

declare of_nat_add [simp del]

section \<open>The contract of the list functions\<close>

text \<open>
  What is documented of the kernel's lists. \<open>\<alpha> l h\<close> is the list that the head \<open>h\<close> stands for in the state \<open>l\<close>, and \<open>None\<close>
  when \<open>h\<close> has not been initialised: an entry is added in front of a list when it is on no other list, and removed
  from the list it is on; the rest observes the list.
\<close>

definition list_contract :: "'l list_ops \<Rightarrow> ('l \<Rightarrow> list_node \<rightharpoonup> list_node list) \<Rightarrow> bool" where
  "list_contract L \<alpha> \<longleftrightarrow>
     (\<forall>l h. \<alpha> (INIT_LIST_HEAD L h l) = (\<alpha> l)(h \<mapsto> [])) \<and>
     (\<forall>l h x xs. \<alpha> l h = Some xs \<and> (\<forall>ys\<in>ran (\<alpha> l). x \<notin> set ys) \<longrightarrow> \<alpha> (list_add L x h l) = (\<alpha> l)(h \<mapsto> x # xs)) \<and>
     (\<forall>l h x xs. \<alpha> l h = Some xs \<and> x \<in> set xs \<longrightarrow> \<alpha> (list_del L x l) = (\<lambda>h. map_option (removeAll x) (\<alpha> l h))) \<and>
     (\<forall>l h xs. \<alpha> l h = Some xs \<longrightarrow> list_empty L h l = (xs = []) \<and> list_entries L h l = xs) \<and>
     (\<forall>l h x xs. \<alpha> l h = Some (x # xs) \<longrightarrow> list_first L h l = x)"

lemma list_contractD:
  assumes "list_contract L \<alpha>"
  shows "\<alpha> (INIT_LIST_HEAD L h l) = (\<alpha> l)(h \<mapsto> [])"
    and "\<alpha> l h = Some xs \<Longrightarrow> (\<forall>ys\<in>ran (\<alpha> l). x \<notin> set ys) \<Longrightarrow> \<alpha> (list_add L x h l) = (\<alpha> l)(h \<mapsto> x # xs)"
    and "\<alpha> l h = Some xs \<Longrightarrow> x \<in> set xs \<Longrightarrow> \<alpha> (list_del L x l) = (\<lambda>h. map_option (removeAll x) (\<alpha> l h))"
    and "\<alpha> l h = Some xs \<Longrightarrow> list_empty L h l = (xs = [])"
    and "\<alpha> l h = Some xs \<Longrightarrow> list_entries L h l = xs"
    and "\<alpha> l h = Some (x # xs) \<Longrightarrow> list_first L h l = x"
  using assms unfolding list_contract_def by blast+

text \<open>Removing an entry from the list it is on and adding it to another.\<close>

lemma list_contract_move:
  assumes L: "list_contract L \<alpha>" and on: "\<alpha> l g = Some xs" "x \<in> set xs" and h: "\<alpha> l h = Some ys"
  shows "\<alpha> (list_add L x h (list_del L x l)) = (\<lambda>i. map_option (removeAll x) (\<alpha> l i))(h \<mapsto> x # removeAll x ys)"
proof -
  note del = list_contractD(3) [OF L on]
  have "\<forall>zs\<in>ran (\<alpha> (list_del L x l)). x \<notin> set zs" by (auto simp: del ran_def)
  then show ?thesis using list_contractD(2) [OF L, of "list_del L x l" h "removeAll x ys" x] h by (simp add: del)
qed

section \<open>Memory\<close>

lemma fold_id_on: "(\<And>k v. k \<in> set ks \<Longrightarrow> g k v = v) \<Longrightarrow> fold g ks w = w"
  by (induction ks arbitrary: w) simp_all

lemma overwrite_outside: "(\<And>k. k < 4 \<Longrightarrow> f (a + of_nat k) = None) \<Longrightarrow> overwrite f a w = w"
  unfolding overwrite_def by (rule fold_id_on) simp

text \<open>Four bytes at \<open>a\<close> and at \<open>x\<close> that do not overlap, below the end of the address space.\<close>

definition apart :: "u32 \<Rightarrow> u32 \<Rightarrow> bool" where
  "apart a x \<longleftrightarrow> unat a + 4 \<le> unat x \<and> unat x + 4 < 2 ^ 32 \<or> unat x + 4 \<le> unat a \<and> unat a + 4 < 2 ^ 32"

lemma apart_distinct: "apart a x \<Longrightarrow> a \<noteq> x" by (auto simp: apart_def)

lemma bytes_of_apart:
  assumes "apart a x" and "k < 4"
  shows "bytes_of a w (x + of_nat k) = None"
proof -
  have k: "unat (of_nat k :: u32) = k" using assms(2) by (intro unat_of_nat_u32) simp
  have xk: "unat (x + of_nat k) = unat x + k"
    using assms k by (subst unat_add_lem [THEN iffD1]) (auto simp: apart_def)
  have "4 \<le> unat (x + of_nat k - a)"
  proof (cases "unat a \<le> unat (x + of_nat k)")
    case True
    then have "unat (x + of_nat k - a) = unat x + k - unat a" by (simp add: unat_sub word_le_nat_alt xk)
    then show ?thesis using assms True xk by (auto simp: apart_def)
  next
    case False
    then have "unat (x + of_nat k - a) = 2 ^ 32 + unat (x + of_nat k) - unat a"
      by (subst unat_sub_if') simp
    then show ?thesis using assms False xk by (auto simp: apart_def)
  qed
  then show ?thesis by (simp add: bytes_of_def word_less_nat_alt)
qed

lemma set_word_words:
  "words (sl_mem (set_word a w s)) a = Some w"
  "apart a x \<Longrightarrow> words (sl_mem (set_word a w s)) x = words (sl_mem s) x"
proof -
  show "words (sl_mem (set_word a w s)) a = Some w" by (simp add: set_word_def)
  assume "apart a x"
  moreover have "overwrite (bytes_of a w) x v = v" for v
    by (rule overwrite_outside) (rule bytes_of_apart [OF \<open>apart a x\<close>])
  ultimately show "words (sl_mem (set_word a w s)) x = words (sl_mem s) x"
    by (auto simp: set_word_def dest: apart_distinct intro: option.map_ident_strong)
qed

lemma set_word_same [simp]:
  "caches (set_word a w s) = caches s" "slabs (set_word a w s) = slabs s" "sl_lists (set_word a w s) = sl_lists s"
  "kheap (sl_mem (set_word a w s)) = kheap (sl_mem s)" "cache_chain_lock (set_word a w s) = cache_chain_lock s"
  by (simp_all add: set_word_def)

text \<open>The list of objects that starts at an address.\<close>

fun chain :: "(u32 \<rightharpoonup> u32) \<Rightarrow> u32 \<Rightarrow> u32 list \<Rightarrow> bool" where
  "chain ws p [] \<longleftrightarrow> p = 0"
| "chain ws p (x # xs) \<longleftrightarrow> p = x \<and> x \<noteq> 0 \<and> (\<exists>q. ws x = Some q \<and> chain ws q xs)"

lemma chain_same: "(\<And>x. x \<in> set xs \<Longrightarrow> ws' x = ws x) \<Longrightarrow> chain ws' p xs = chain ws p xs"
  by (induction xs arbitrary: p) auto

text \<open>The objects of a slab, from address \<open>p\<close> on.\<close>

definition objs_from :: "u32 \<Rightarrow> nat \<Rightarrow> nat \<Rightarrow> u32 list" where
  "objs_from p sz n = map (\<lambda>i. of_nat (unat p + i * sz)) [0..<n]"

lemma objs_from_unat:
  assumes "unat p + n * sz < 2 ^ 32"
  shows "map unat (objs_from p sz n) = map (\<lambda>i. unat p + i * sz) [0..<n]"
proof -
  have "unat (of_nat (unat p + i * sz) :: u32) = unat p + i * sz" if "i < n" for i
    using assms that mult_le_mono1 [of i n sz] by (intro unat_of_nat_u32) linarith
  then show ?thesis by (simp add: objs_from_def)
qed

lemma objs_from_Suc:
  "objs_from p sz (Suc n) = p # objs_from (p + of_nat sz) sz n"
proof -
  have "(of_nat (unat p + Suc i * sz) :: u32) = of_nat (unat (p + of_nat sz) + i * sz)" for i
    by (simp add: of_nat_add algebra_simps)
  then show ?thesis by (simp add: objs_from_def upt_conv_Cons map_Suc_upt [symmetric] del: upt_Suc)
qed

lemma link_objects_same [simp]:
  "caches (link_objects n sz p s) = caches s" "slabs (link_objects n sz p s) = slabs s"
  "sl_lists (link_objects n sz p s) = sl_lists s" "kheap (sl_mem (link_objects n sz p s)) = kheap (sl_mem s)"
  "cache_chain_lock (link_objects n sz p s) = cache_chain_lock s"
  by (induction n arbitrary: p s) simp_all

lemma link_objects_frame:
  assumes "\<And>i. i \<le> n \<Longrightarrow> apart (p + of_nat i * sz) x"
  shows "words (sl_mem (link_objects n sz p s)) x = words (sl_mem s) x"
  using assms
proof (induction n arbitrary: p s)
  case 0
  from 0 [of 0] show ?case by (simp add: set_word_words)
next
  case (Suc n)
  have "apart (p + sz + of_nat i * sz) x" if "i \<le> n" for i
    using Suc.prems [of "Suc i"] that by (simp add: algebra_simps)
  from Suc.IH [OF this] Suc.prems [of 0] show ?case by (simp add: set_word_words)
qed

lemma link_objects_chain:
  assumes "p \<noteq> 0" and "4 \<le> unat sz" and "unat p + Suc n * unat sz < 2 ^ 32"
  shows "chain (words (sl_mem (link_objects n sz p s))) p (objs_from p (unat sz) (Suc n))"
  using assms
proof (induction n arbitrary: p s)
  case 0
  then show ?case by (simp add: objs_from_def set_word_words)
next
  case (Suc n)
  have psz: "unat (p + sz) = unat p + unat sz" using Suc.prems(3) by (subst unat_add_lem [THEN iffD1]) auto
  let ?s = "link_objects n sz (p + sz) (set_word p (p + sz) s)"
  have nz: "p + sz \<noteq> 0" using psz Suc.prems(2) by (metis add_is_0 not_numeral_le_zero unat_0)
  have "unat (p + sz) + Suc n * unat sz < 2 ^ 32" using Suc.prems(3) psz by simp
  from Suc.IH [OF nz Suc.prems(2) this] have tail: "chain (words (sl_mem ?s)) (p + sz) (objs_from (p + sz) (unat sz) (Suc n))" .
  have "apart (p + sz + of_nat i * sz) p" if "i \<le> n" for i
  proof -
    have "i * unat sz \<le> n * unat sz" using that by simp
    then have "unat p + Suc i * unat sz + 4 < 2 ^ 32" using Suc.prems(2,3) unfolding mult_Suc by linarith
    moreover have "p + sz + of_nat i * sz = of_nat (unat p + Suc i * unat sz)" by (simp add: of_nat_add algebra_simps)
    ultimately have "unat (p + sz + of_nat i * sz) = unat p + Suc i * unat sz" by (simp add: unat_of_nat_u32)
    with \<open>unat p + Suc i * unat sz + 4 < 2 ^ 32\<close> Suc.prems(2) show ?thesis by (simp add: apart_def)
  qed
  then have "words (sl_mem ?s) p = words (sl_mem (set_word p (p + sz) s)) p" by (rule link_objects_frame)
  then show ?case using tail Suc.prems(1) by (simp add: objs_from_Suc [of p _ "Suc n"] set_word_words)
qed

section \<open>The state of the caches\<close>

text \<open>
  A cache without poisoning and constructor whose objects are large enough for a link and fit into the page of a slab,
  behind its header and its offset.
\<close>

definition plain_cache :: "'l list_ops \<Rightarrow> kmem_cache \<Rightarrow> bool" where
  "plain_cache L k \<longleftrightarrow> kc_flags k AND SLAB_POISON = 0 \<and> ctor k = 0 \<and> gfporder k = 0 \<and> num k \<noteq> 0 \<and> 4 \<le> object_size k \<and>
     unat (sizeof_slab L) + unat (colour_off k) + unat (num k) * unat (object_size k) \<le> 4096"

definition page_at :: "u32 \<Rightarrow> bool" where
  "page_at a \<longleftrightarrow> a \<noteq> 0 \<and> unat a mod 4096 = 0 \<and> unat a + 4096 < 2 ^ 32"

definition slab_objs :: "'l list_ops \<Rightarrow> kmem_cache \<Rightarrow> u32 \<Rightarrow> u32 list" where
  "slab_objs L k a = objs_from (a + sizeof_slab L + colour_off k) (unat (object_size k)) (unat (num k))"

lemma slab_base:
  assumes "plain_cache L k" and "page_at a"
  shows "unat (a + sizeof_slab L + colour_off k) = unat a + unat (sizeof_slab L) + unat (colour_off k)"
proof -
  have "a + sizeof_slab L + colour_off k = of_nat (unat a + unat (sizeof_slab L) + unat (colour_off k))" by (simp add: of_nat_add)
  moreover have "unat a + unat (sizeof_slab L) + unat (colour_off k) < 2 ^ 32" using assms unfolding plain_cache_def page_at_def by linarith
  ultimately show ?thesis by (simp add: unat_of_nat_u32)
qed

lemma slab_objs_unat:
  assumes "plain_cache L k" and "page_at a"
  shows "map unat (slab_objs L k a) =
    map (\<lambda>i. unat a + unat (sizeof_slab L) + unat (colour_off k) + i * unat (object_size k)) [0..<unat (num k)]"
  using assms slab_base [OF assms] unfolding slab_objs_def
  by (subst objs_from_unat) (auto simp: plain_cache_def page_at_def)

lemma slab_objs_nth:
  assumes "plain_cache L k" and "page_at a" and "x \<in> set (slab_objs L k a)"
  obtains i where "i < unat (num k)" "unat x = unat a + unat (sizeof_slab L) + unat (colour_off k) + i * unat (object_size k)"
proof -
  have "unat x \<in> set (map unat (slab_objs L k a))" using assms(3) by simp
  then show ?thesis using that unfolding slab_objs_unat [OF assms(1,2)] by auto
qed

lemma slab_objs_bounds:
  assumes "plain_cache L k" and "page_at a" and "x \<in> set (slab_objs L k a)"
  shows "unat a \<le> unat x" and "unat x + unat (object_size k) \<le> unat a + 4096"
proof -
  obtain i where i: "i < unat (num k)" "unat x = unat a + unat (sizeof_slab L) + unat (colour_off k) + i * unat (object_size k)"
    by (rule slab_objs_nth [OF assms])
  have "Suc i * unat (object_size k) \<le> unat (num k) * unat (object_size k)" using i(1) by (intro mult_le_mono1) simp
  then show "unat a \<le> unat x" "unat x + unat (object_size k) \<le> unat a + 4096" using i(2) assms(1) by (auto simp: plain_cache_def)
qed

lemma slab_objs_distinct: "plain_cache L k \<Longrightarrow> page_at a \<Longrightarrow> distinct (slab_objs L k a)"
proof -
  assume a: "plain_cache L k" "page_at a"
  then have "0 < unat (object_size k)" by (auto simp: plain_cache_def word_le_nat_alt)
  then have "distinct (map unat (slab_objs L k a))"
    unfolding slab_objs_unat [OF a] by (simp add: distinct_map inj_on_def)
  then show ?thesis by (simp add: distinct_map)
qed

lemma slab_objs_page:
  assumes "plain_cache L k" and "page_at a" and "x \<in> set (slab_objs L k a)"
  shows "x AND NOT (PAGE_SIZE - 1) = a" and "x \<noteq> 0"
proof -
  note b = slab_objs_bounds [OF assms]
  have sz: "4 \<le> unat (object_size k)" using assms(1) by (simp add: plain_cache_def word_le_nat_alt)
  obtain d where d: "unat x = unat a + d" using b(1) by (metis le_add_diff_inverse)
  then have "unat x mod 4096 = d mod 4096" using assms(2) by (simp add: page_at_def mod_add_left_eq [symmetric])
  also have "\<dots> = unat x - unat a" using b(2) sz d by simp
  finally have "unat x - unat x mod 4096 = unat a" using b(1) by simp
  then show "x AND NOT (PAGE_SIZE - 1) = a"
    using unat_and_not_mask [of x 12] by (simp add: word_unat_eq_iff)
  show "x \<noteq> 0" using b(1) assms(2) by (auto simp: page_at_def word_unat_eq_iff)
qed

lemma pages_apart:
  assumes "page_at a" and "page_at a'" and "a \<noteq> a'"
  shows "unat a + 4096 \<le> unat a' \<or> unat a' + 4096 \<le> unat a"
proof -
  have "unat a \<noteq> unat a'" using assms(3) by (simp add: word_unat_eq_iff)
  moreover obtain i j where "unat a = 4096 * i" "unat a' = 4096 * j" using assms(1,2) unfolding page_at_def by (metis mult_div_mod_eq add_0_right)
  ultimately show ?thesis by (cases "i < j") (auto simp: not_less dest!: le_neq_implies_less)
qed

lemma objs_disjoint:
  assumes "plain_cache L k" and "page_at a" and "x \<in> set (slab_objs L k a)"
    and "plain_cache L k'" and "page_at a'" and "x' \<in> set (slab_objs L k' a')" and "x \<noteq> x'" and "a = a' \<Longrightarrow> k = k'"
  shows "unat x + unat (object_size k) \<le> unat x' \<or> unat x' + unat (object_size k') \<le> unat x"
proof (cases "a = a'")
  case True
  then have k: "k' = k" using assms(8) by simp
  obtain i where i: "unat x = unat a + unat (sizeof_slab L) + unat (colour_off k) + i * unat (object_size k)"
    by (rule slab_objs_nth [OF assms(1-3)])
  obtain j where j: "unat x' = unat a + unat (sizeof_slab L) + unat (colour_off k) + j * unat (object_size k)"
    by (rule slab_objs_nth [OF assms(4-6)]) (use True k in auto)
  have "i \<noteq> j" using i j assms(7) by (auto simp: word_unat_eq_iff)
  then have "Suc i * unat (object_size k) \<le> j * unat (object_size k) \<or> Suc j * unat (object_size k) \<le> i * unat (object_size k)"
    by (cases "i < j") (auto intro!: mult_le_mono1 simp del: mult_Suc)
  then show ?thesis using i j k by auto
next
  case False
  note b = slab_objs_bounds [OF assms(1-3)] slab_objs_bounds [OF assms(4-6)]
  from pages_apart [OF assms(2,5) False] show ?thesis using b by linarith
qed

lemma objs_apart:
  assumes "plain_cache L k" and "page_at a" and "x \<in> set (slab_objs L k a)"
    and "plain_cache L k'" and "page_at a'" and "x' \<in> set (slab_objs L k' a')" and "x \<noteq> x'" and "a = a' \<Longrightarrow> k = k'"
  shows "apart x x'"
proof -
  have sz: "4 \<le> unat (object_size k)" "4 \<le> unat (object_size k')" using assms(1,4) by (auto simp: plain_cache_def word_le_nat_alt)
  have top: "unat a + 4096 < 2 ^ 32" "unat a' + 4096 < 2 ^ 32" using assms(2,5) by (auto simp: page_at_def)
  from objs_disjoint [OF assms] show ?thesis
    using slab_objs_bounds [OF assms(1-3)] slab_objs_bounds [OF assms(4-6)] sz top unfolding apart_def by linarith
qed

text \<open>The list a slab is on.\<close>

definition slab_home :: "kmem_cache \<Rightarrow> slab \<Rightarrow> list_node" where
  "slab_home k b = (if inuse b = num k then Full (slab_cache b) else if inuse b = 0 then Free (slab_cache b) else Partial (slab_cache b))"

text \<open>The free objects \<open>fl\<close> of a slab are linked from its header; the others are in use.\<close>

definition slab_ok :: "'l list_ops \<Rightarrow> kmem_cache \<Rightarrow> (u32 \<rightharpoonup> u32) \<Rightarrow> u32 \<Rightarrow> slab \<Rightarrow> u32 list \<Rightarrow> bool" where
  "slab_ok L k ws a b fl \<longleftrightarrow> page_at a \<and> slab_magic b = SLAB_RED_MAGIC1 \<and> chain ws (freelist b) fl \<and> distinct fl \<and>
     set fl \<subseteq> set (slab_objs L k a) \<and> unat (inuse b) + length fl = unat (num k)"

definition lists_ok :: "('l \<Rightarrow> list_node \<rightharpoonup> list_node list) \<Rightarrow> 'l slab_sys \<Rightarrow> u32 \<Rightarrow> kmem_cache \<Rightarrow> bool" where
  "lists_ok \<alpha> s c k \<longleftrightarrow> (\<forall>h\<in>{Full c, Partial c, Free c}.
     \<exists>xs. \<alpha> (sl_lists s) h = Some xs \<and> set xs = Slab_Link ` {a. \<exists>b. slabs s a = Some b \<and> slab_home k b = h})"

definition slab_inv :: "'l list_ops \<Rightarrow> ('l \<Rightarrow> list_node \<rightharpoonup> list_node list) \<Rightarrow> 'l slab_sys \<Rightarrow> (u32 \<Rightarrow> u32 list) \<Rightarrow> region set \<Rightarrow> bool" where
  "slab_inv L \<alpha> s F R \<longleftrightarrow> heap_live (kheap (sl_mem s)) R \<and>
     (\<forall>c k. caches s c = Some k \<longrightarrow> c \<noteq> 0 \<and> plain_cache L k \<and> lists_ok \<alpha> s c k) \<and>
     (\<forall>a b. slabs s a = Some b \<longrightarrow> (\<exists>k. caches s (slab_cache b) = Some k \<and> slab_ok L k (words (sl_mem s)) a b (F a)) \<and>
        (\<exists>r\<in>R. {unat a ..< unat a + 4096} \<subseteq> region_of r)) \<and>
     (\<forall>xs\<in>ran (\<alpha> (sl_lists s)). \<forall>a. Slab_Link a \<in> set xs \<longrightarrow> a \<in> dom (slabs s)) \<and>
     (\<forall>c\<in>dom (caches s). \<exists>r\<in>R. unat c \<in> region_of r) \<and> \<alpha> (sl_lists s) Chain \<noteq> None \<and>
     (\<forall>xs\<in>ran (\<alpha> (sl_lists s)). \<forall>c. Cache_Link c \<in> set xs \<longrightarrow> c \<in> dom (caches s))"

text \<open>The objects in use, for each cache.\<close>

definition objects_in_use :: "'l list_ops \<Rightarrow> 'l slab_sys \<Rightarrow> (u32 \<Rightarrow> u32 list) \<Rightarrow> u32 \<rightharpoonup> u32 set" where
  "objects_in_use L s F = (\<lambda>c. map_option (\<lambda>k. {p. \<exists>a b. slabs s a = Some b \<and> slab_cache b = c \<and>
     p \<in> set (slab_objs L k a) \<and> p \<notin> set (F a)}) (caches s c))"

lemma slab_invD:
  assumes "slab_inv L \<alpha> s F R"
  shows "heap_live (kheap (sl_mem s)) R"
    and "caches s c = Some k \<Longrightarrow> c \<noteq> 0" and "caches s c = Some k \<Longrightarrow> plain_cache L k"
    and "caches s c = Some k \<Longrightarrow> lists_ok \<alpha> s c k"
    and "slabs s a = Some b \<Longrightarrow> \<exists>k. caches s (slab_cache b) = Some k \<and> slab_ok L k (words (sl_mem s)) a b (F a)"
    and "slabs s a = Some b \<Longrightarrow> \<exists>r\<in>R. {unat a ..< unat a + 4096} \<subseteq> region_of r"
    and "\<alpha> (sl_lists s) h = Some xs \<Longrightarrow> Slab_Link a \<in> set xs \<Longrightarrow> \<exists>b. slabs s a = Some b"
    and "caches s c = Some k \<Longrightarrow> \<exists>r\<in>R. unat c \<in> region_of r" and "\<exists>xs. \<alpha> (sl_lists s) Chain = Some xs"
    and "\<alpha> (sl_lists s) h = Some xs \<Longrightarrow> Cache_Link c \<in> set xs \<Longrightarrow> \<exists>k. caches s c = Some k"
  using assms unfolding slab_inv_def by (auto simp: ran_def)

text \<open>Fields that the state of the caches does not depend on.\<close>

definition config :: "kmem_cache \<Rightarrow> u32 \<times> u32 \<times> u32 \<times> u32 \<times> u32 \<times> u32" where
  "config k = (kc_flags k, ctor k, gfporder k, num k, object_size k, colour_off k)"

lemma config_same:
  assumes "config k' = config k"
  shows "plain_cache L k' = plain_cache L k" "slab_objs L k' a = slab_objs L k a" "slab_home k' b = slab_home k b"
    "slab_ok L k' ws a b fl = slab_ok L k ws a b fl"
  using assms unfolding config_def plain_cache_def slab_objs_def slab_home_def slab_ok_def by auto

lemma upd_cache_stats:
  assumes "\<And>k. config (f k) = config k"
  shows "slab_inv L \<alpha> (upd_cache c f s) F R = slab_inv L \<alpha> s F R"
    and "objects_in_use L (upd_cache c f s) F = objects_in_use L s F"
proof -
  have look: "caches (upd_cache c f s) x = map_option (\<lambda>k. if x = c then f k else k) (caches s x)" for x
    by (cases "caches s x") (auto simp: upd_cache_def)
  have same: "slabs (upd_cache c f s) = slabs s" "sl_mem (upd_cache c f s) = sl_mem s" "sl_lists (upd_cache c f s) = sl_lists s"
    by (simp_all add: upd_cache_def)
  note cong = config_same [OF assms]
  have 1: "(\<forall>x k. caches (upd_cache c f s) x = Some k \<longrightarrow> P x k) = (\<forall>x k. caches s x = Some k \<longrightarrow> P x k)"
    if "\<And>x k. P x (f k) = P x k" for P
  proof -
    have "(\<forall>k. caches (upd_cache c f s) x = Some k \<longrightarrow> P x k) = (\<forall>k. caches s x = Some k \<longrightarrow> P x k)" for x
      unfolding look using that by (cases "caches s x") auto
    then show ?thesis by blast
  qed
  have 2: "(\<exists>k. caches (upd_cache c f s) x = Some k \<and> P k) = (\<exists>k. caches s x = Some k \<and> P k)" if "\<And>k. P (f k) = P k" for P x
    using that unfolding look by (cases "caches s x") auto
  have "lists_ok \<alpha> (upd_cache c f s) x k = lists_ok \<alpha> s x k" for x k by (simp add: lists_ok_def same)
  moreover have "dom (caches (upd_cache c f s)) = dom (caches s)" unfolding dom_def look by simp
  ultimately show "slab_inv L \<alpha> (upd_cache c f s) F R = slab_inv L \<alpha> s F R"
    unfolding slab_inv_def same by (subst 1, simp add: cong lists_ok_def) (simp add: 2 cong)
  have one: "slab_objs L (if x = c then f k else k) a = slab_objs L k a" for x k a by (simp add: cong)
  show "objects_in_use L (upd_cache c f s) F = objects_in_use L s F"
    unfolding objects_in_use_def same look by (intro ext) (simp only: option.map_comp comp_def one)
qed

lemma slab_inv_cong:
  assumes "caches t = caches s" "slabs t = slabs s" "sl_mem t = sl_mem s" "sl_lists t = sl_lists s"
  shows "slab_inv L \<alpha> t F R = slab_inv L \<alpha> s F R" and "objects_in_use L t F = objects_in_use L s F"
  using assms by (simp_all add: slab_inv_def lists_ok_def objects_in_use_def)

text \<open>A slab moves to the list of its new home.\<close>

definition rehome :: "'l list_ops \<Rightarrow> u32 \<Rightarrow> list_node \<Rightarrow> list_node \<Rightarrow> 'l slab_sys \<Rightarrow> 'l slab_sys" where
  "rehome L a h g s = (if h = g then s else move_slab L a g s)"

lemma slab_home_in: "slab_home k b \<in> {Full c, Partial c, Free c} \<longleftrightarrow> slab_cache b = c"
  by (simp add: slab_home_def)

lemma slab_ok_frame:
  assumes "slab_ok L k ws a b fl" and "\<And>x. x \<in> set (slab_objs L k a) \<Longrightarrow> ws' x = ws x"
  shows "slab_ok L k ws' a b fl"
proof -
  have "chain ws' (freelist b) fl = chain ws (freelist b) fl" by (rule chain_same) (use assms in \<open>auto simp: slab_ok_def\<close>)
  then show ?thesis using assms(1) by (simp add: slab_ok_def)
qed

text \<open>The slab at \<open>a\<close> is replaced or added, and is then on the list of its home and on no other list of a cache.\<close>

definition relinked :: "('l \<Rightarrow> list_node \<rightharpoonup> list_node list) \<Rightarrow> 'l slab_sys \<Rightarrow> u32 \<Rightarrow> list_node \<Rightarrow> 'l \<Rightarrow> bool" where
  "relinked \<alpha> s a g l \<longleftrightarrow> dom (\<alpha> l) = dom (\<alpha> (sl_lists s)) \<and>
     (\<forall>h zs. \<alpha> (sl_lists s) h = Some zs \<longrightarrow> (\<exists>ys. \<alpha> l h = Some ys \<and> set ys \<subseteq> insert (Slab_Link a) (set zs) \<and>
        (\<forall>c. caches s c \<noteq> None \<and> h \<in> {Full c, Partial c, Free c} \<longrightarrow> set ys = (if h = g then {Slab_Link a} else {}) \<union> (set zs - {Slab_Link a}))))"

lemma relinkedD:
  assumes "relinked \<alpha> s a g l"
  shows "\<alpha> (sl_lists s) h = Some zs \<Longrightarrow> \<exists>ys. \<alpha> l h = Some ys"
    and "\<alpha> (sl_lists s) h = Some zs \<Longrightarrow> caches s c = Some k \<Longrightarrow> h \<in> {Full c, Partial c, Free c} \<Longrightarrow>
      \<exists>ys. \<alpha> l h = Some ys \<and> set ys = (if h = g then {Slab_Link a} else {}) \<union> (set zs - {Slab_Link a})"
    and "\<alpha> l h = Some ys \<Longrightarrow> \<exists>zs. \<alpha> (sl_lists s) h = Some zs \<and> set ys \<subseteq> insert (Slab_Link a) (set zs)"
proof -
  assume h: "\<alpha> (sl_lists s) h = Some zs"
  show "\<exists>ys. \<alpha> l h = Some ys" using assms h unfolding relinked_def by blast
  assume "caches s c = Some k" "h \<in> {Full c, Partial c, Free c}"
  then show "\<exists>ys. \<alpha> l h = Some ys \<and> set ys = (if h = g then {Slab_Link a} else {}) \<union> (set zs - {Slab_Link a})"
    using assms h unfolding relinked_def by fastforce
next
  assume ys: "\<alpha> l h = Some ys"
  then obtain zs where "\<alpha> (sl_lists s) h = Some zs" using assms unfolding relinked_def by blast
  then show "\<exists>zs. \<alpha> (sl_lists s) h = Some zs \<and> set ys \<subseteq> insert (Slab_Link a) (set zs)"
    using assms ys unfolding relinked_def by fastforce
qed

lemma slab_heads:
  assumes "slab_inv L \<alpha> s F R" and "caches s c = Some k" and "h \<in> {Full c, Partial c, Free c}"
  obtains zs where "\<alpha> (sl_lists s) h = Some zs" "set zs = Slab_Link ` {x. \<exists>d. slabs s x = Some d \<and> slab_home k d = h}"
  using slab_invD(4) [OF assms(1,2)] assms(3) unfolding lists_ok_def by blast

lemma relinked_lists_ok:
  assumes inv: "slab_inv L \<alpha> s F R" and k: "caches s (slab_cache b) = Some k" and t: "slabs t = (slabs s)(a \<mapsto> b)"
    and lists: "relinked \<alpha> s a (slab_home k b) (sl_lists t)" and c: "caches s c = Some k'"
  shows "lists_ok \<alpha> t c k'"
  unfolding lists_ok_def
proof
  fix h assume h: "h \<in> {Full c, Partial c, Free c}"
  let ?A = "{x. \<exists>d. slabs s x = Some d \<and> slab_home k' d = h}"
  obtain zs where zs: "\<alpha> (sl_lists s) h = Some zs" "set zs = Slab_Link ` ?A" by (rule slab_heads [OF inv c h])
  have home: "slab_home k' b = h \<longleftrightarrow> h = slab_home k b" using h c k slab_home_in by (metis option.inject)
  have "{x. \<exists>d. slabs t x = Some d \<and> slab_home k' d = h} = (if h = slab_home k b then {a} else {}) \<union> (?A - {a})"
    using home unfolding t by (auto split: if_splits)
  moreover obtain ys where ys: "\<alpha> (sl_lists t) h = Some ys" "set ys = (if h = slab_home k b then {Slab_Link a} else {}) \<union> (set zs - {Slab_Link a})"
    using relinkedD(2) [OF lists zs(1) c h] by blast
  moreover have "Slab_Link ` (X - {a}) = Slab_Link ` X - {Slab_Link a}" for X by auto
  ultimately have "set ys = Slab_Link ` {x. \<exists>d. slabs t x = Some d \<and> slab_home k' d = h}" using zs(2) by (simp add: image_Un)
  with ys(1) show "\<exists>xs. \<alpha> (sl_lists t) h = Some xs \<and> set xs = Slab_Link ` {a. \<exists>b. slabs t a = Some b \<and> slab_home k' b = h}" by blast
qed

lemma slab_change:
  assumes inv: "slab_inv L \<alpha> s F R" and k: "caches s (slab_cache b) = Some k"
    and t: "caches t = caches s" "slabs t = (slabs s)(a \<mapsto> b)" "heap_live (kheap (sl_mem t)) R'"
    and R: "R \<subseteq> R'" "\<exists>r\<in>R'. {unat a ..< unat a + 4096} \<subseteq> region_of r" and ok: "slab_ok L k (words (sl_mem t)) a b fl"
    and frame: "\<And>a' b' k' x. a' \<noteq> a \<Longrightarrow> slabs s a' = Some b' \<Longrightarrow> caches s (slab_cache b') = Some k' \<Longrightarrow>
      x \<in> set (slab_objs L k' a') \<Longrightarrow> words (sl_mem t) x = words (sl_mem s) x"
    and lists: "relinked \<alpha> s a (slab_home k b) (sl_lists t)"
  shows "slab_inv L \<alpha> t (F(a := fl)) R'"
proof -
  have slabs_ok: "(\<exists>k. caches t (slab_cache d) = Some k \<and> slab_ok L k (words (sl_mem t)) x d ((F(a := fl)) x)) \<and>
      (\<exists>r\<in>R'. {unat x ..< unat x + 4096} \<subseteq> region_of r)" if d: "slabs t x = Some d" for x d
  proof (cases "x = a")
    case True
    then show ?thesis using d k ok R(2) t(1,2) by auto
  next
    case False
    then have d: "slabs s x = Some d" using d t(2) by simp
    obtain k' where k': "caches s (slab_cache d) = Some k'" "slab_ok L k' (words (sl_mem s)) x d (F x)"
      using slab_invD(5) [OF inv d] by blast
    have "slab_ok L k' (words (sl_mem t)) x d (F x)" by (rule slab_ok_frame [OF k'(2) frame [OF False d k'(1)]])
    then show ?thesis using False k'(1) t(1) slab_invD(6) [OF inv d] R(1) by auto
  qed
  show ?thesis
    unfolding slab_inv_def
  proof (intro conjI)
    show "\<forall>c k. caches t c = Some k \<longrightarrow> c \<noteq> 0 \<and> plain_cache L k \<and> lists_ok \<alpha> t c k"
      using slab_invD(2,3) [OF inv] relinked_lists_ok [OF inv k t(2) lists] t(1) by simp
    show "\<forall>xs\<in>ran (\<alpha> (sl_lists t)). \<forall>a'. Slab_Link a' \<in> set xs \<longrightarrow> a' \<in> dom (slabs t)"
      using relinkedD(3) [OF lists] slab_invD(7) [OF inv] unfolding ran_def t(2) by fastforce
    show "\<forall>c\<in>dom (caches t). \<exists>r\<in>R'. unat c \<in> region_of r" using slab_invD(8) [OF inv] R(1) t(1) by (metis domD subsetD)
    show "\<alpha> (sl_lists t) Chain \<noteq> None" using slab_invD(9) [OF inv] relinkedD(1) [OF lists] by force
    show "\<forall>xs\<in>ran (\<alpha> (sl_lists t)). \<forall>d. Cache_Link d \<in> set xs \<longrightarrow> d \<in> dom (caches t)"
      using relinkedD(3) [OF lists] slab_invD(10) [OF inv] unfolding ran_def t(1) by fastforce
  qed (use slabs_ok t(3) in blast)+
qed

lemma slab_link_home:
  assumes inv: "slab_inv L \<alpha> s F R" and b: "slabs s a = Some b" "caches s (slab_cache b) = Some k"
    and c: "caches s c \<noteq> None" "h \<in> {Full c, Partial c, Free c}" "\<alpha> (sl_lists s) h = Some zs"
  shows "Slab_Link a \<in> set zs \<longleftrightarrow> h = slab_home k b"
proof -
  obtain k' where k': "caches s c = Some k'" using c(1) by blast
  have "set zs = Slab_Link ` {x. \<exists>d. slabs s x = Some d \<and> slab_home k' d = h}" by (rule slab_heads [OF inv k' c(2)]) (use c(3) in simp)
  then have "Slab_Link a \<in> set zs \<longleftrightarrow> slab_home k' b = h" using b(1) by auto
  also have "\<dots> \<longleftrightarrow> h = slab_home k b" using c(2) k' b(2) slab_home_in by (metis option.inject)
  finally show ?thesis .
qed

lemma slab_step:
  assumes L: "list_contract L \<alpha>" and inv: "slab_inv L \<alpha> s F R"
    and b: "slabs s a = Some b" and k: "caches s (slab_cache b) = Some k"
    and t: "caches t = caches s" "slabs t = (slabs s)(a \<mapsto> b')" "kheap (sl_mem t) = kheap (sl_mem s)" "sl_lists t = sl_lists s"
    and b': "slab_cache b' = slab_cache b" and ok: "slab_ok L k (words (sl_mem t)) a b' fl"
    and frame: "\<And>a' b' k' x. a' \<noteq> a \<Longrightarrow> slabs s a' = Some b' \<Longrightarrow> caches s (slab_cache b') = Some k' \<Longrightarrow>
      x \<in> set (slab_objs L k' a') \<Longrightarrow> words (sl_mem t) x = words (sl_mem s) x"
  shows "slab_inv L \<alpha> (rehome L a (slab_home k b) (slab_home k b') t) (F(a := fl)) R"
proof -
  let ?c = "slab_cache b" and ?h = "slab_home k b" and ?g = "slab_home k b'" and ?x = "Slab_Link a"
  let ?t = "rehome L a ?h ?g t"
  note link = slab_link_home [OF inv b k]
  have hin: "?h \<in> {Full ?c, Partial ?c, Free ?c}" "?g \<in> {Full ?c, Partial ?c, Free ?c}" using slab_home_in b' by metis+
  obtain xs where xs: "\<alpha> (sl_lists s) ?h = Some xs" by (rule slab_heads [OF inv k hin(1)])
  obtain ys where ys: "\<alpha> (sl_lists s) ?g = Some ys" by (rule slab_heads [OF inv k hin(2)])
  have x: "?x \<in> set xs" using link [OF _ hin(1) xs] k by simp
  have "relinked \<alpha> s a ?g (sl_lists ?t)"
  proof (cases "?h = ?g")
    case True
    then have "sl_lists ?t = sl_lists s" using t(4) by (simp add: rehome_def)
    then show ?thesis using link True unfolding relinked_def by auto
  next
    case False
    then have new: "\<alpha> (sl_lists ?t) = (\<lambda>i. map_option (removeAll ?x) (\<alpha> (sl_lists s) i))(?g \<mapsto> ?x # removeAll ?x ys)"
      using list_contract_move [OF L xs x ys] t(4) by (simp add: rehome_def move_slab_def upd_lists_def)
    then show ?thesis using ys unfolding relinked_def by auto
  qed
  then show ?thesis
    by (intro slab_change [OF inv k [folded b']]) (use t ok frame slab_invD(1,6) [OF inv] b in \<open>auto simp: rehome_def move_slab_def upd_lists_def\<close>)
qed

section \<open>A new slab\<close>

lemma bind_run_InrE:
  assumes "bind_run r f = Some (Inr y)"
  obtains x where "r = Some (Inr x)" "f x = Some (Inr y)"
  using assms unfolding bind_run_Inr_iff by blast

lemma kmalloc_aligned_cases:
  assumes "kmalloc_aligned sz al m = Some (Inr (p, m'))" and "sz \<noteq> 0" "al \<noteq> 0" "al AND (al - 1) = 0"
  obtains raw h where "kmalloc (sz + al - 1 + 4 + 4) (kheap m) = Some (Inr (raw, h))"
    "p = (if raw = 0 then 0 else (raw + 4 + 4 + al - 1) AND NOT (al - 1))"
    "m' = (if raw = 0 then m\<lparr>kheap := h\<rparr> else m\<lparr>kheap := h, words := (words m)(p - 4 \<mapsto> raw - HDR, p - 4 - 4 \<mapsto> al)\<rparr>)"
proof -
  let ?f = "\<lambda>(raw, h). if raw = 0 then Some (Inr (0, m\<lparr>kheap := h\<rparr>)) :: (u32 \<times> aligned_heap) run
    else let a = (raw + 4 + 4 + al - 1) AND NOT (al - 1)
         in Some (Inr (a, m\<lparr>kheap := h, words := (words m)(a - 4 \<mapsto> raw - HDR, a - 4 - 4 \<mapsto> al)\<rparr>))"
  have "bind_run (kmalloc (sz + al - 1 + 4 + 4) (kheap m)) ?f = Some (Inr (p, m'))"
    using assms unfolding kmalloc_aligned_def Let_def by (simp only: simp_thms if_False)
  then obtain x where x: "kmalloc (sz + al - 1 + 4 + 4) (kheap m) = Some (Inr x)" "?f x = Some (Inr (p, m'))"
    by (rule bind_run_InrE)
  obtain raw h where r: "x = (raw, h)" by (cases x)
  show ?thesis
    by (rule that [OF x(1) [unfolded r]]) (use x(2) r in \<open>auto simp: Let_def split: if_splits\<close>)
qed

lemma kmalloc_aligned_page:
  assumes live: "heap_live (kheap m) R" and run: "kmalloc_aligned 4096 PAGE_SIZE m = Some (Inr (p, m'))"
  shows "p = 0 \<and> heap_live (kheap m') R \<and> words m' = words m \<or>
    page_at p \<and> (\<exists>r. heap_live (kheap m') (insert r R) \<and> {unat p - 8 ..< unat p + 4096} \<subseteq> region_of r \<and>
      (\<forall>q\<in>R. region_of r \<inter> region_of q = {}) \<and> (\<forall>x. x \<noteq> p - 4 \<and> x \<noteq> p - 8 \<longrightarrow> words m' x = words m x))"
proof -
  let ?al = "\<lambda>raw::u32. (raw + 4 + 4 + PAGE_SIZE - 1) AND NOT (PAGE_SIZE - 1)"
  obtain raw h where k: "kmalloc (4096 + PAGE_SIZE - 1 + 4 + 4) (kheap m) = Some (Inr (raw, h))"
    "p = (if raw = 0 then 0 else ?al raw)"
    "m' = (if raw = 0 then m\<lparr>kheap := h\<rparr> else m\<lparr>kheap := h, words := (words m)(p - 4 \<mapsto> raw - HDR, p - 4 - 4 \<mapsto> PAGE_SIZE)\<rparr>)"
    by (rule kmalloc_aligned_cases [OF run]) simp_all
  show ?thesis
  proof (cases "raw = 0")
    case True
    then show ?thesis using k kheap.alloc_null [OF live] by auto
  next
    case False
    have total: "unat (4096 + PAGE_SIZE - 1 + 4 + 4 :: u32) = 8199" by simp
    from kheap.alloc_fresh_region [OF live k(1) False] obtain n where n:
      "8199 \<le> n" "unat raw + n < 2 ^ 32" "heap_live h (insert (unat raw, n) R)" "\<forall>q\<in>R. region_of (unat raw, n) \<inter> region_of q = {}"
      unfolding total by auto
    have p: "p = ?al raw" using k(2) False by simp
    note up = align_up [of PAGE_SIZE 12 raw, folded p]
    have up: "unat p mod 4096 = 0" "unat raw + 8 \<le> unat p" "unat p \<le> unat raw + 7 + 4096"
      using up n(1,2) by simp_all
    have "{unat p - 8 ..< unat p + 4096} \<subseteq> region_of (unat raw, n)" using up n(1) by (auto simp: region_of_def)
    moreover have "page_at p" using up n(1,2) by (auto simp: page_at_def)
    ultimately show ?thesis using n k(3) False by auto
  qed
qed

lemma slab_add:
  assumes L: "list_contract L \<alpha>" and inv: "slab_inv L \<alpha> s F R" and new: "slabs s a = None" and k: "caches s (slab_cache b) = Some k"
    and t: "caches t = caches s" "slabs t = (slabs s)(a \<mapsto> b)" "sl_lists t = sl_lists s" "heap_live (kheap (sl_mem t)) (insert r R)"
    and r: "{unat a ..< unat a + 4096} \<subseteq> region_of r" and ok: "slab_ok L k (words (sl_mem t)) a b fl"
    and frame: "\<And>a' b' k' x. slabs s a' = Some b' \<Longrightarrow> caches s (slab_cache b') = Some k' \<Longrightarrow>
      x \<in> set (slab_objs L k' a') \<Longrightarrow> words (sl_mem t) x = words (sl_mem s) x"
    and t': "t' = upd_lists (list_add L (Slab_Link a) (slab_home k b)) t"
  shows "slab_inv L \<alpha> t' (F(a := fl)) (insert r R)" and "\<exists>xs. \<alpha> (sl_lists t') (slab_home k b) = Some (Slab_Link a # xs)"
proof -
  let ?c = "slab_cache b" and ?g = "slab_home k b" and ?x = "Slab_Link a"
  have gin: "?g \<in> {Full ?c, Partial ?c, Free ?c}" by (simp add: slab_home_def)
  obtain ys where ys: "\<alpha> (sl_lists s) ?g = Some ys" using slab_invD(4) [OF inv k] gin unfolding lists_ok_def by blast
  have off: "?x \<notin> set zs" if "\<alpha> (sl_lists s) h = Some zs" for h zs using slab_invD(7) [OF inv that] new by fastforce
  then have lists: "\<alpha> (sl_lists t') = (\<alpha> (sl_lists s))(?g \<mapsto> ?x # ys)"
    using list_contractD(2) [OF L ys] t(3) t' by (simp add: upd_lists_def ran_def) blast
  then show "\<exists>xs. \<alpha> (sl_lists t') ?g = Some (?x # xs)" by simp
  have "relinked \<alpha> s a ?g (sl_lists t')" unfolding relinked_def lists using ys off by auto
  then show "slab_inv L \<alpha> t' (F(a := fl)) (insert r R)"
    by (intro slab_change [OF inv k]) (use t t' r ok frame in \<open>auto simp: upd_lists_def\<close>)
qed

text \<open>The heap has no page left for a slab.\<close>

definition no_page :: "aligned_heap \<Rightarrow> bool" where
  "no_page m \<longleftrightarrow> (\<forall>a m'. kmalloc_aligned 4096 PAGE_SIZE m = Some (Inr (a, m')) \<longrightarrow> a = 0)"

lemma plain_page: "plain_cache L k \<Longrightarrow> PAGE_SIZE * push_bit (unat (gfporder k)) 1 = 4096" by (simp add: plain_cache_def)

text \<open>The page of a new slab is not that of another one, and its objects are none of theirs.\<close>

lemma slab_addr_live:
  assumes "slab_inv L \<alpha> s F R" and "slabs s a = Some b"
  shows "page_at a" "\<exists>q\<in>R. {unat a ..< unat a + 4096} \<subseteq> region_of q"
  using slab_invD(5,6) [OF assms] by (auto simp: slab_ok_def)

lemma page_below: "page_at a \<Longrightarrow> unat (a - 4) \<in> {unat a - 8 ..< unat a + 4096} \<and> unat (a - 8) \<in> {unat a - 8 ..< unat a + 4096}"
proof -
  assume a: "page_at a"
  then have "unat a \<noteq> 0" "unat a mod 4096 = 0" by (auto simp: page_at_def unat_eq_zero)
  then have "8 \<le> unat a" by (cases "unat a < 4096") auto
  then show ?thesis by (simp add: unat_sub word_le_nat_alt) linarith
qed

text \<open>The objects in use, split into those of the slab at \<open>a\<close> and the others.\<close>

definition used_elsewhere :: "'l list_ops \<Rightarrow> 'l slab_sys \<Rightarrow> (u32 \<Rightarrow> u32 list) \<Rightarrow> u32 \<Rightarrow> kmem_cache \<Rightarrow> u32 \<Rightarrow> u32 set" where
  "used_elsewhere L s F c k a = {p. \<exists>d e. d \<noteq> a \<and> slabs s d = Some e \<and> slab_cache e = c \<and> p \<in> set (slab_objs L k d) \<and> p \<notin> set (F d)}"

lemma in_use_split:
  assumes "caches s c = Some k"
  shows "objects_in_use L s F c = Some (used_elsewhere L s F c k a \<union>
    (case slabs s a of Some b \<Rightarrow> if slab_cache b = c then set (slab_objs L k a) - set (F a) else {} | None \<Rightarrow> {}))"
proof -
  have "(\<exists>d b. slabs s d = Some b \<and> slab_cache b = c \<and> p \<in> set (slab_objs L k d) \<and> p \<notin> set (F d)) \<longleftrightarrow>
    p \<in> used_elsewhere L s F c k a \<union>
    (case slabs s a of Some b \<Rightarrow> if slab_cache b = c then set (slab_objs L k a) - set (F a) else {} | None \<Rightarrow> {})" for p
    unfolding used_elsewhere_def by (auto split: option.splits) (metis option.distinct(1), metis option.inject)
  then show ?thesis using assms by (simp add: objects_in_use_def) blast
qed

lemma in_use_step:
  assumes "caches t = caches s" and "slabs t = (slabs s)(a \<mapsto> b)" and "caches s (slab_cache b) = Some k"
    and "\<And>b'. slabs s a = Some b' \<Longrightarrow> slab_cache b' = slab_cache b"
  shows "objects_in_use L t (F(a := fl)) = (objects_in_use L s F)(slab_cache b \<mapsto>
    used_elsewhere L s F (slab_cache b) k a \<union> (set (slab_objs L k a) - set fl))"
proof
  fix c
  have same: "used_elsewhere L t (F(a := fl)) c k' a = used_elsewhere L s F c k' a" for k'
    using assms(2) unfolding used_elsewhere_def by (intro Collect_cong ex_cong1) auto
  show "objects_in_use L t (F(a := fl)) c = ((objects_in_use L s F)(slab_cache b \<mapsto>
      used_elsewhere L s F (slab_cache b) k a \<union> (set (slab_objs L k a) - set fl))) c"
  proof (cases "c = slab_cache b")
    case True
    then have "caches t c = Some k" using assms by simp
    from in_use_split [OF this, of L "F(a := fl)" a] True show ?thesis using assms(2) same by simp
  next
    case False
    show ?thesis
    proof (cases "caches s c")
      case None
      then show ?thesis using False assms(1) by (simp add: objects_in_use_def)
    next
      case (Some k')
      then have "caches t c = Some k'" using assms(1) by simp
      from in_use_split [OF this, of L "F(a := fl)" a] in_use_split [OF Some, of L F a] show ?thesis
        using False assms(2) assms(4) [THEN sym] same [of k'] by (cases "slabs s a") simp_all
    qed
  qed
qed

text \<open>A page that \<^verbatim>\<open>kmalloc_aligned\<close> has just given.\<close>

definition fresh_page :: "u32 \<Rightarrow> region \<Rightarrow> region set \<Rightarrow> aligned_heap \<Rightarrow> aligned_heap \<Rightarrow> bool" where
  "fresh_page a r R m m' \<longleftrightarrow> page_at a \<and> heap_live (kheap m') (insert r R) \<and> {unat a - 8 ..< unat a + 4096} \<subseteq> region_of r \<and>
     (\<forall>q\<in>R. region_of r \<inter> region_of q = {}) \<and> (\<forall>x. x \<noteq> a - 4 \<and> x \<noteq> a - 8 \<longrightarrow> words m' x = words m x)"

lemma fresh_page_slab:
  assumes "fresh_page a r R m m'" and "slab_inv L \<alpha> s F R"
  shows "slabs s a = None"
proof (rule ccontr)
  assume "slabs s a \<noteq> None"
  then obtain q where "q \<in> R" "{unat a ..< unat a + 4096} \<subseteq> region_of q" using slab_addr_live [OF assms(2)] by blast
  moreover have "unat a \<in> {unat a ..< unat a + 4096}" "unat a \<in> {unat a - 8 ..< unat a + 4096}" by auto
  ultimately show False using assms(1) unfolding fresh_page_def by blast
qed

lemma plain_count: "plain_cache L k \<Longrightarrow> Suc (unat (num k - 1)) = unat (num k)"
  by (simp add: plain_cache_def unat_minus_one unat_gt_0)

lemma new_slab_ok:
  assumes plain: "plain_cache L k" and page: "page_at a"
    and b: "freelist b = a + sizeof_slab L + colour_off k" "inuse b = 0" "slab_magic b = SLAB_RED_MAGIC1"
  shows "slab_ok L k (words (sl_mem (link_objects (unat (num k - 1)) (object_size k) (a + sizeof_slab L + colour_off k) s))) a b (slab_objs L k a)"
proof -
  let ?objp = "a + sizeof_slab L + colour_off k"
  note base = slab_base [OF plain page]
  have "unat ?objp + unat (num k) * unat (object_size k) < 2 ^ 32" using plain page base unfolding plain_cache_def page_at_def by linarith
  moreover have "?objp \<noteq> 0" using base page by (metis page_at_def add_is_0 unat_0 unat_eq_zero)
  moreover have "4 \<le> unat (object_size k)" using plain by (simp add: plain_cache_def word_le_nat_alt)
  ultimately show ?thesis
    using link_objects_chain [of ?objp "object_size k" "unat (num k - 1)"] page slab_objs_distinct [OF plain page] b
    unfolding slab_ok_def slab_objs_def by (simp add: plain_count [OF plain] objs_from_def)
qed

lemma new_slab_frame:
  assumes plain: "plain_cache L k" and fp: "fresh_page a r R (sl_mem s) m" and inv: "slab_inv L \<alpha> s F R" and u: "sl_mem u = m"
    and d: "slabs s a' = Some d" "caches s (slab_cache d) = Some k'" "x \<in> set (slab_objs L k' a')"
  shows "words (sl_mem (link_objects (unat (num k - 1)) (object_size k) (a + sizeof_slab L + colour_off k) u)) x = words (sl_mem s) x"
proof -
  let ?objp = "a + sizeof_slab L + colour_off k"
  have page: "page_at a" using fp by (simp add: fresh_page_def)
  have p': "page_at a'" "plain_cache L k'" using slab_addr_live(1) [OF inv d(1)] slab_invD(3) [OF inv d(2)] .
  have ne: "a' \<noteq> a" using fresh_page_slab [OF fp inv] d(1) by auto
  have "apart (?objp + of_nat i * object_size k) x" if "i \<le> unat (num k - 1)" for i
  proof -
    have "?objp + of_nat i * object_size k = of_nat (unat ?objp + i * unat (object_size k))" by (simp add: of_nat_add)
    then have o: "?objp + of_nat i * object_size k \<in> set (slab_objs L k a)"
      using that plain_count [OF plain] unfolding slab_objs_def objs_from_def by auto
    moreover have "?objp + of_nat i * object_size k \<noteq> x"
      using slab_objs_page(1) [OF plain page o] slab_objs_page(1) [OF p'(2,1) d(3)] ne by metis
    ultimately show ?thesis using objs_apart [OF plain page _ p'(2,1) d(3)] ne by blast
  qed
  then have "words (sl_mem (link_objects (unat (num k - 1)) (object_size k) ?objp u)) x = words m x" using u by (subst link_objects_frame) auto
  moreover obtain q where q: "q \<in> R" "unat x \<in> region_of q"
    using slab_addr_live(2) [OF inv d(1)] slab_objs_bounds [OF p'(2,1) d(3)] p'(2)
    by (auto simp: plain_cache_def word_le_nat_alt dest!: subsetD [where c = "unat x"])
  then have "unat x \<notin> region_of r" using fp unfolding fresh_page_def by blast
  then have "x \<noteq> a - 4" "x \<noteq> a - 8" using fp page_below [OF page] unfolding fresh_page_def by auto
  ultimately show ?thesis using fp unfolding fresh_page_def by simp
qed

text \<open>The slab that \<^verbatim>\<open>alloc_slab\<close> leaves in such a page, once it is on the list of free slabs.\<close>

lemma new_slab_inv:
  assumes L: "list_contract L \<alpha>" and inv: "slab_inv L \<alpha> s F R" and k: "caches s c = Some k" and fp: "fresh_page a r R (sl_mem s) m"
    and b: "b = \<lparr>slab_cache = c, s_mem = a + sizeof_slab L + colour_off k, inuse = 0, freelist = a + sizeof_slab L + colour_off k, objects = num k,
      slab_magic = SLAB_RED_MAGIC1, slab_end = e\<rparr>"
    and u: "u = link_objects (unat (num k - 1)) (object_size k) (a + sizeof_slab L + colour_off k) (s\<lparr>sl_mem := m, slabs := (slabs s)(a \<mapsto> b)\<rparr>)"
    and u': "u' = upd_lists (list_add L (Slab_Link a) (Free c)) u"
  shows "slab_inv L \<alpha> u' (F(a := slab_objs L k a)) (insert r R)" and "\<exists>xs. \<alpha> (sl_lists u') (Free c) = Some (Slab_Link a # xs)"
    and "objects_in_use L u' (F(a := slab_objs L k a)) = objects_in_use L s F"
proof -
  have plain: "plain_cache L k" using slab_invD(3) [OF inv k] .
  have fresh: "slabs s a = None" by (rule fresh_page_slab [OF fp inv])
  have heap: "heap_live (kheap (sl_mem u)) (insert r R)" using fp u by (simp add: fresh_page_def)
  have "{unat a - 8 ..< unat a + 4096} \<subseteq> region_of r" using fp by (simp add: fresh_page_def)
  then have reg: "{unat a ..< unat a + 4096} \<subseteq> region_of r" by (rule subset_trans [rotated]) auto
  have u1: "caches u = caches s" "slabs u = (slabs s)(a \<mapsto> b)" "sl_lists u = sl_lists s" by (simp_all add: u)
  have cb: "slab_cache b = c" and home: "slab_home k b = Free c" using plain by (simp_all add: b slab_home_def plain_cache_def)
  have ok: "slab_ok L k (words (sl_mem u)) a b (slab_objs L k a)"
    unfolding u by (rule new_slab_ok [OF plain]) (use fp in \<open>simp_all add: fresh_page_def b\<close>)
  have frame: "words (sl_mem u) x = words (sl_mem s) x"
    if "slabs s a' = Some d" "caches s (slab_cache d) = Some k'" "x \<in> set (slab_objs L k' a')" for a' d k' x
    unfolding u by (rule new_slab_frame [OF plain fp inv _ that]) simp
  show "slab_inv L \<alpha> u' (F(a := slab_objs L k a)) (insert r R)" "\<exists>xs. \<alpha> (sl_lists u') (Free c) = Some (Slab_Link a # xs)"
    using slab_add [OF L inv fresh k [folded cb] u1 heap reg ok frame u' [folded home]] home by simp_all
  show "objects_in_use L u' (F(a := slab_objs L k a)) = objects_in_use L s F"
    using in_use_step [of u' s a b k L F, unfolded cb, OF _ _ k] u1 u' fresh k by (simp add: upd_lists_def in_use_split [of _ _ _ L F a] fun_upd_idem_iff)
qed

lemma alloc_slab_ok:
  assumes L: "list_contract L \<alpha>" and inv: "slab_inv L \<alpha> s F R" and k: "caches s c = Some k"
    and run: "alloc_slab L call c s = Some (Inr (a, t))"
  obtains "a = 0" "no_page (sl_mem s)" "slab_inv L \<alpha> t F R" "objects_in_use L t F = objects_in_use L s F" "cache_chain_lock t = cache_chain_lock s"
  | r b xs t' where "a \<noteq> 0" "t' = upd_lists (list_add L (Slab_Link a) (Free c)) t" "slabs t a = Some b" "caches t c \<noteq> None" "slab_cache b = c" "inuse b = 0"
      "slab_inv L \<alpha> t' (F(a := slab_objs L k a)) (insert r R)" "\<alpha> (sl_lists t') (Free c) = Some (Slab_Link a # xs)"
      "objects_in_use L t' (F(a := slab_objs L k a)) = objects_in_use L s F" "slab_objs L k a \<noteq> []" "cache_chain_lock t = cache_chain_lock s"
proof -
  have plain: "plain_cache L k" using slab_invD(3) [OF inv k] .
  obtain m where m: "kmalloc_aligned 4096 PAGE_SIZE (sl_mem s) = Some (Inr (a, m))"
    using run k plain plain_page [OF plain] unfolding alloc_slab_def the_cache_def by (auto simp: bind_run_Inr_iff Let_def split: if_splits)
  note pg = kmalloc_aligned_page [OF slab_invD(1) [OF inv] m]
  show ?thesis
  proof (cases "a = 0")
    case True
    then have t: "t = s\<lparr>sl_mem := m\<rparr>" using run k m plain_page [OF plain] by (simp add: alloc_slab_def the_cache_def Let_def)
    moreover have "heap_live (kheap m) R" "words m = words (sl_mem s)" using pg True by (auto simp: page_at_def)
    moreover have "no_page (sl_mem s)" using m True by (simp add: no_page_def)
    ultimately show ?thesis using inv True by (intro that(1)) (simp_all add: slab_inv_def objects_in_use_def lists_ok_def)
  next
    case False
    obtain r where fp: "fresh_page a r R (sl_mem s) m" using pg False unfolding fresh_page_def by blast
    let ?objp = "a + sizeof_slab L + colour_off k" and ?f = "kc_stats_update (st_allocated_update (\<lambda>n. n + num k))"
    define b where "b = \<lparr>slab_cache = c, s_mem = ?objp, inuse = 0, freelist = ?objp, objects = num k,
      slab_magic = SLAB_RED_MAGIC1, slab_end = a + 4096\<rparr>"
    define u where "u = link_objects (unat (num k - 1)) (object_size k) ?objp (s\<lparr>sl_mem := m, slabs := (slabs s)(a \<mapsto> b)\<rparr>)"
    have t: "t = upd_cache c ?f u"
      using run k m False plain plain_page [OF plain] unfolding u_def b_def plain_cache_def
      by (simp add: alloc_slab_def the_cache_def Let_def)
    let ?t' = "upd_lists (list_add L (Slab_Link a) (Free c)) t" and ?u' = "upd_lists (list_add L (Slab_Link a) (Free c)) u"
    have cfg: "config (?f k1) = config k1" for k1 by (simp add: config_def)
    have t': "?t' = upd_cache c ?f ?u'" unfolding t by (simp add: upd_cache_def upd_lists_def)
    note new = new_slab_inv [OF L inv k fp b_def u_def refl]
    obtain xs where "\<alpha> (sl_lists ?t') (Free c) = Some (Slab_Link a # xs)" using new(2) by (auto simp: t' upd_cache_def)
    moreover have "slab_objs L k a \<noteq> []" using plain by (simp add: slab_objs_def objs_from_def plain_cache_def unat_gt_0)
    ultimately show ?thesis
      using new(1,3) k False by (intro that(2) [of ?t' b r xs]) (simp_all add: upd_cache_stats [OF cfg] t', simp_all add: t u_def b_def upd_cache_def)
  qed
qed

text \<open>The two ends of the lock.\<close>

lemma chain_acquire_free: "cache_chain_lock s = 0 \<Longrightarrow> chain_acquire s = Some (Inr (s\<lparr>cache_chain_lock := 1\<rparr>))"
  by (simp add: chain_acquire_def)

lemma lock_inv [simp]:
  "slab_inv L \<alpha> (s\<lparr>cache_chain_lock := w\<rparr>) F R = slab_inv L \<alpha> s F R" "slab_inv L \<alpha> (chain_release s) F R = slab_inv L \<alpha> s F R"
  "objects_in_use L (s\<lparr>cache_chain_lock := w\<rparr>) F = objects_in_use L s F" "objects_in_use L (chain_release s) F = objects_in_use L s F"
  unfolding chain_release_def by (rule slab_inv_cong; simp)+

lemma lock_same [simp]:
  "caches (chain_release s) = caches s" "slabs (chain_release s) = slabs s" "sl_lists (chain_release s) = sl_lists s"
  "sl_mem (chain_release s) = sl_mem s" "cache_chain_lock (chain_release s) = 0"
  by (simp_all add: chain_release_def spin_unlock_def)

definition panics :: "'a run \<Rightarrow> bool" where
  "panics r \<longleftrightarrow> (\<exists>msg. r = Some (Inl (Panic msg)))"

lemma alloc_slab_returns:
  assumes inv: "slab_inv L \<alpha> s F R" and k: "caches s c = Some k" and no: "\<nexists>x. alloc_slab L call c s = Some (Inr x)"
  shows "panics (alloc_slab L call c s) \<and> no_page (sl_mem s)"
proof -
  have plain: "plain_cache L k" using slab_invD(3) [OF inv k] .
  note live = slab_invD(1) [OF inv]
  obtain res where res: "kmalloc (4096 + PAGE_SIZE - 1 + 4 + 4) (kheap (sl_mem s)) = Some res" using kheap.alloc_returns [OF live] by blast
  show ?thesis
  proof (cases res)
    case (Inl e)
    then show ?thesis using kheap.alloc_panic [OF live] res k plain_page [OF plain]
      by (auto simp: alloc_slab_def the_cache_def kmalloc_aligned_def Let_def panics_def no_page_def)
  next
    case (Inr x)
    then have "\<exists>y. kmalloc_aligned 4096 PAGE_SIZE (sl_mem s) = Some (Inr y)"
      using res by (cases x) (auto simp: kmalloc_aligned_def Let_def)
    then have "\<exists>x. alloc_slab L call c s = Some (Inr x)"
      using k plain plain_page [OF plain] by (auto simp: alloc_slab_def the_cache_def Let_def plain_cache_def)
    then show ?thesis using no by blast
  qed
qed

text \<open>A slab with a free object, for the cache \<open>c\<close>; the lock is held.\<close>

definition chosen :: "'l list_ops \<Rightarrow> ('l \<Rightarrow> list_node \<rightharpoonup> list_node list) \<Rightarrow> u32 \<Rightarrow> (u32 \<rightharpoonup> u32 set) \<Rightarrow> u32 \<Rightarrow> 'l slab_sys \<Rightarrow> bool" where
  "chosen L \<alpha> c U a t \<longleftrightarrow> (\<exists>F R b. slab_inv L \<alpha> t F R \<and> objects_in_use L t F = U \<and> slabs t a = Some b \<and> slab_cache b = c \<and> F a \<noteq> []) \<and> cache_chain_lock t = 1"

definition slab_live :: "'l list_ops \<Rightarrow> ('l \<Rightarrow> list_node \<rightharpoonup> list_node list) \<Rightarrow> 'l slab_sys \<Rightarrow> (u32 \<rightharpoonup> u32 set) \<Rightarrow> bool" where
  "slab_live L \<alpha> s U \<longleftrightarrow> list_contract L \<alpha> \<and> cache_chain_lock s = 0 \<and> (\<exists>F R. slab_inv L \<alpha> s F R \<and> U = objects_in_use L s F)"

lemma cache_grow_ok:
  assumes L: "list_contract L \<alpha>" and inv: "slab_inv L \<alpha> s F R" and k: "caches s c = Some k" and lock: "cache_chain_lock s = 0"
  obtains "panics (cache_grow L call c s)" "no_page (sl_mem s)"
  | t where "cache_grow L call c s = Some (Inr (-1, t))" "no_page (sl_mem s)" "slab_live L \<alpha> t (objects_in_use L s F)"
  | t F' R' a b xs where "cache_grow L call c s = Some (Inr (0, t))" "cache_chain_lock t = 0" "slab_inv L \<alpha> t F' R'"
      "objects_in_use L t F' = objects_in_use L s F" "slabs t a = Some b" "slab_cache b = c" "F' a \<noteq> []"
      "\<alpha> (sl_lists t) (Free c) = Some (Slab_Link a # xs)"
proof (cases "\<exists>x. alloc_slab L call c s = Some (Inr x)")
  case False
  from alloc_slab_returns [OF inv k this] that(1) show ?thesis by (auto simp: panics_def cache_grow_def)
next
  case True
  then obtain a t where run: "alloc_slab L call c s = Some (Inr (a, t))" by auto
  show ?thesis
  proof (rule alloc_slab_ok [OF L inv k run])
    assume a: "a = 0" "no_page (sl_mem s)" "slab_inv L \<alpha> t F R" "objects_in_use L t F = objects_in_use L s F" "cache_chain_lock t = cache_chain_lock s"
    then have "slab_live L \<alpha> t (objects_in_use L s F)" using lock L unfolding slab_live_def by force
    moreover have "cache_grow L call c s = Some (Inr (-1, t))" using run a(1) by (simp add: cache_grow_def)
    ultimately show ?thesis using that(2) a(2) by blast
  next
    fix r b xs t' assume a: "a \<noteq> 0" "t' = upd_lists (list_add L (Slab_Link a) (Free c)) t" "slabs t a = Some b" "caches t c \<noteq> None" "slab_cache b = c" "inuse b = 0"
      "slab_inv L \<alpha> t' (F(a := slab_objs L k a)) (insert r R)" "\<alpha> (sl_lists t') (Free c) = Some (Slab_Link a # xs)"
      "objects_in_use L t' (F(a := slab_objs L k a)) = objects_in_use L s F" "slab_objs L k a \<noteq> []" "cache_chain_lock t = cache_chain_lock s"
    have "cache_grow L call c s = Some (Inr (0, chain_release t'))"
      using run a lock by (auto simp: cache_grow_def chain_acquire_free the_slab_def the_cache_def Let_def upd_lists_def chain_release_def spin_unlock_def)
    then show ?thesis
      using that(3) [OF _ _ _ _ _ a(5), of "chain_release t'" "F(a := slab_objs L k a)" "insert r R" a xs] a by (simp add: upd_lists_def)
  qed
qed

lemma first_slab_hd:
  assumes "list_contract L \<alpha>" and "\<alpha> (sl_lists s) h = Some (Slab_Link a # xs)"
  shows "first_slab L h s = Some (Inr a)" and "\<not> list_empty L h (sl_lists s)"
  using list_contractD(4) [OF assms(1), of "sl_lists s" h] list_contractD(6) [OF assms] assms(2) by (simp_all add: first_slab_def)

lemma slab_home_free:
  assumes "slab_ok L k ws a b fl" and "plain_cache L k" and "slab_home k b \<in> {Partial c, Free c}"
  shows "slab_cache b = c" and "fl \<noteq> []"
  using assms by (auto simp: slab_home_def slab_ok_def plain_cache_def word_unat_eq_iff split: if_splits)

lemma choose_slab_ok:
  assumes L: "list_contract L \<alpha>" and inv: "slab_inv L \<alpha> s F R" and k: "caches s c = Some k" and lock: "cache_chain_lock s = 1"
  obtains "panics (choose_slab L call c s)" "no_page (sl_mem s)"
  | t where "choose_slab L call c s = Some (Inr (0, t))" "no_page (sl_mem s)" "slab_live L \<alpha> t (objects_in_use L s F)"
  | a t where "choose_slab L call c s = Some (Inr (a, t))" "a \<noteq> 0" "chosen L \<alpha> c (objects_in_use L s F) a t"
proof -
  obtain ps fs where ps: "\<alpha> (sl_lists s) (Partial c) = Some ps" "set ps = Slab_Link ` {a. \<exists>b. slabs s a = Some b \<and> slab_home k b = Partial c}"
    and fs: "\<alpha> (sl_lists s) (Free c) = Some fs" "set fs = Slab_Link ` {a. \<exists>b. slabs s a = Some b \<and> slab_home k b = Free c}"
    using slab_invD(4) [OF inv k] unfolding lists_ok_def by auto
  have plain: "plain_cache L k" using slab_invD(3) [OF inv k] .
  have pick: "a \<noteq> 0 \<and> chosen L \<alpha> c (objects_in_use L s F) a s" if pk: "slabs s a = Some b" "slab_home k b \<in> {Partial c, Free c}" for a b
  proof -
    have c: "slab_cache b = c" using pk(2) by (auto simp: slab_home_def split: if_splits)
    then have ok: "slab_ok L k (words (sl_mem s)) a b (F a)" using slab_invD(5) [OF inv pk(1)] k by auto
    then have "a \<noteq> 0" by (simp add: slab_ok_def page_at_def)
    moreover have "F a \<noteq> []" by (rule slab_home_free(2) [OF ok plain pk(2)])
    ultimately show ?thesis unfolding chosen_def using inv lock pk(1) c by blast
  qed
  have empty: "list_empty L (Partial c) (sl_lists s) = (ps = [])" "list_empty L (Free c) (sl_lists s) = (fs = [])"
    using list_contractD(4) [OF L ps(1)] list_contractD(4) [OF L fs(1)] .
  show ?thesis
  proof (cases ps)
    case (Cons x xs)
    then have "x \<in> set ps" by simp
    then obtain a b where a: "x = Slab_Link a" "slabs s a = Some b" "slab_home k b = Partial c" unfolding ps(2) by blast
    then show ?thesis using first_slab_hd(1) [OF L, of s "Partial c" a xs] ps(1) Cons empty pick [of a b] that(3) [of a s] by (simp add: choose_slab_def)
  next
    case Nil
    show ?thesis
    proof (cases fs)
      case (Cons x xs)
      then have "x \<in> set fs" by simp
    then obtain a b where a: "x = Slab_Link a" "slabs s a = Some b" "slab_home k b = Free c" unfolding fs(2) by blast
      then show ?thesis using first_slab_hd(1) [OF L, of s "Free c" a xs] fs(1) Cons Nil empty pick [of a b] that(3) [of a s] by (simp add: choose_slab_def)
    next
      case fs0: Nil
      let ?s = "chain_release s"
      have inv': "slab_inv L \<alpha> ?s F R" "caches ?s c = Some k" "cache_chain_lock ?s = 0" using inv k by simp_all
      have run: "choose_slab L call c s = bind_run (cache_grow L call c ?s) (\<lambda>(r, s1).
           if r < 0 then Some (Inr (0, upd_cache c (kc_stats_update (st_errors_update (\<lambda>n. n + 1))) s1))
           else bind_run (chain_acquire s1) (\<lambda>s2. bind_run (first_slab L (Free c) s2) (\<lambda>a. Some (Inr (a, s2)))))"
        using Nil fs0 empty by (simp add: choose_slab_def)
      have cfg: "config (kc_stats_update (st_errors_update (\<lambda>n. n + 1)) k1) = config k1" for k1 by (simp add: config_def)
      show ?thesis
      proof (rule cache_grow_ok [OF L inv', of call])
        assume "panics (cache_grow L call c ?s)" "no_page (sl_mem ?s)"
        then show ?thesis using that(1) run by (auto simp: panics_def)
      next
        fix t assume t: "cache_grow L call c ?s = Some (Inr (-1, t))" "no_page (sl_mem ?s)" "slab_live L \<alpha> t (objects_in_use L ?s F)"
        let ?t = "upd_cache c (kc_stats_update (st_errors_update (\<lambda>n. n + 1))) t"
        have "slab_live L \<alpha> ?t (objects_in_use L s F)"
          using t(3) unfolding slab_live_def upd_cache_stats [OF cfg] by (simp add: upd_cache_def)
        then show ?thesis using that(2) [of ?t] t(1,2) run by simp
      next
        fix t F' R' a b xs
        assume t: "cache_grow L call c ?s = Some (Inr (0, t))" "cache_chain_lock t = 0" "slab_inv L \<alpha> t F' R'"
          "objects_in_use L t F' = objects_in_use L ?s F" "slabs t a = Some b" "slab_cache b = c" "F' a \<noteq> []"
          "\<alpha> (sl_lists t) (Free c) = Some (Slab_Link a # xs)"
        let ?t = "t\<lparr>cache_chain_lock := 1\<rparr>"
        have "first_slab L (Free c) ?t = Some (Inr a)" using t(8) by (intro first_slab_hd(1) [OF L]) simp
        then have "choose_slab L call c s = Some (Inr (a, ?t))" using run t(1,2) by (simp add: chain_acquire_free)
        moreover have "a \<noteq> 0" using slab_addr_live(1) [OF t(3,5)] by (simp add: page_at_def)
        moreover have "chosen L \<alpha> c (objects_in_use L s F) a ?t"
          unfolding chosen_def using t(3-7) by (intro conjI exI [of _ F'] exI [of _ R'] exI [of _ b]) auto
        ultimately show ?thesis using that(3) by blast
      qed
    qed
  qed
qed

section \<open>Taking and returning an object\<close>

lemma unat_succ: "unat (w :: u32) < unat (v :: u32) \<Longrightarrow> unat (w + 1) = unat w + 1"
proof -
  assume "unat w < unat v"
  moreover have "unat v < 2 ^ 32" using unsigned_less [of v, where 'a = nat] by simp
  ultimately show ?thesis by (subst unat_add_lem [THEN iffD1]) auto
qed

lemma unat_pred: "w \<noteq> 0 \<Longrightarrow> Suc (unat ((w :: u32) - 1)) = unat w"
  by (simp add: unat_minus_one unat_gt_0)

lemma obj_not_elsewhere:
  assumes "slab_inv L \<alpha> s F R" and "plain_cache L k" and "page_at a" and "x \<in> set (slab_objs L k a)"
  shows "x \<notin> used_elsewhere L s F c k a"
proof
  assume "x \<in> used_elsewhere L s F c k a"
  then obtain d e where d: "d \<noteq> a" "slabs s d = Some e" "x \<in> set (slab_objs L k d)" by (auto simp: used_elsewhere_def)
  then show False using slab_objs_page(1) [OF assms(2-4)] slab_objs_page(1) [OF assms(2) slab_addr_live(1) [OF assms(1) d(2)] d(3)] by metis
qed

text \<open>A slab with an object in use: its count is not zero, and linking the object in front of the free ones is sound.\<close>

lemma slab_ok_put:
  assumes plain: "plain_cache L k" and ok: "slab_ok L k ws a b fl" and p: "p \<in> set (slab_objs L k a)" "p \<notin> set fl"
    and ws: "ws' p = Some (freelist b)" "\<And>x. x \<in> set (slab_objs L k a) \<Longrightarrow> x \<noteq> p \<Longrightarrow> ws' x = ws x"
  shows "inuse b \<noteq> 0" and "slab_ok L k ws' a (b\<lparr>freelist := p, inuse := inuse b - 1\<rparr>) (p # fl)"
proof -
  have page: "page_at a" and fl: "distinct fl" "set fl \<subseteq> set (slab_objs L k a)" using ok by (auto simp: slab_ok_def)
  have "length (p # fl) = card (set (p # fl))" using fl p(2) by (metis distinct.simps(2) distinct_card)
  also have "\<dots> \<le> card (set (slab_objs L k a))" by (rule card_mono) (use fl p(1) in auto)
  also have "\<dots> = unat (num k)" unfolding distinct_card [OF slab_objs_distinct [OF plain page]] by (simp add: slab_objs_def objs_from_def)
  finally show nz: "inuse b \<noteq> 0" using ok by (auto simp: slab_ok_def)
  have "chain ws' (freelist b) fl = chain ws (freelist b) fl" by (rule chain_same, rule ws(2)) (use fl p(2) in auto)
  then have "chain ws' p (p # fl)" using ok ws(1) slab_objs_page(2) [OF plain page p(1)] by (simp add: slab_ok_def)
  then show "slab_ok L k ws' a (b\<lparr>freelist := p, inuse := inuse b - 1\<rparr>) (p # fl)"
    using ok p unat_pred [OF nz] by (simp add: slab_ok_def)
qed

lemma take_object:
  assumes L: "list_contract L \<alpha>" and inv: "slab_inv L \<alpha> s F R" and b: "slabs s a = Some b" "slab_cache b = c" and k: "caches s c = Some k"
    and F: "F a = x # xs"
  obtains q where "freelist b = x" "x \<noteq> 0" "words (sl_mem s) x = Some q"
    "\<And>s4. s4 = (let s3 = upd_slab a (\<lambda>b. b\<lparr>freelist := q, inuse := inuse b + 1\<rparr>) s
         in if inuse b + 1 = num k then move_slab L a (Full c) s3 else if inuse b + 1 = 1 then move_slab L a (Partial c) s3 else s3) \<Longrightarrow>
       slab_inv L \<alpha> s4 (F(a := xs)) R \<and> (\<exists>X. objects_in_use L s F c = Some X \<and> x \<notin> X \<and> x \<in> set (slab_objs L k a) \<and>
         objects_in_use L s4 (F(a := xs)) = (objects_in_use L s F)(c \<mapsto> insert x X))"
proof -
  have ok: "slab_ok L k (words (sl_mem s)) a b (x # xs)" using slab_invD(5) [OF inv b(1)] b(2) k F by auto
  have plain: "plain_cache L k" using slab_invD(3) [OF inv k] .
  obtain q where q: "freelist b = x" "x \<noteq> 0" "words (sl_mem s) x = Some q" "chain (words (sl_mem s)) q xs"
    using ok by (auto simp: slab_ok_def)
  have x: "x \<in> set (slab_objs L k a)" "x \<notin> set xs" using ok by (auto simp: slab_ok_def)
  have lt: "unat (inuse b) < unat (num k)" using ok by (auto simp: slab_ok_def)
  note used = unat_succ [OF lt]
  define b' where "b' = b\<lparr>freelist := q, inuse := inuse b + 1\<rparr>"
  have ok': "slab_ok L k (words (sl_mem s)) a b' xs" using ok q(4) used by (auto simp: slab_ok_def b'_def)
  define s3 where "s3 = upd_slab a (\<lambda>b. b\<lparr>freelist := q, inuse := inuse b + 1\<rparr>) s"
  have s3: "caches s3 = caches s" "slabs s3 = (slabs s)(a \<mapsto> b')" "sl_mem s3 = sl_mem s" "sl_lists s3 = sl_lists s"
    using b(1) by (simp_all add: s3_def upd_slab_def b'_def)
  have "slab_inv L \<alpha> (rehome L a (slab_home k b) (slab_home k b') s3) (F(a := xs)) R"
    by (rule slab_step [OF L inv b(1) k [folded b(2)]]) (use s3 ok' in \<open>simp_all add: b'_def\<close>)
  moreover have "rehome L a (slab_home k b) (slab_home k b') s3 =
      (if inuse b + 1 = num k then move_slab L a (Full c) s3 else if inuse b + 1 = 1 then move_slab L a (Partial c) s3 else s3)"
  proof -
    have "inuse b \<noteq> num k" "inuse b + 1 \<noteq> 0" using lt used by (auto simp: word_unat_eq_iff)
    then show ?thesis using b(2) by (auto simp: rehome_def slab_home_def b'_def)
  qed
  ultimately have inv': "slab_inv L \<alpha> (let s3 = s3 in if inuse b + 1 = num k then move_slab L a (Full c) s3
      else if inuse b + 1 = 1 then move_slab L a (Partial c) s3 else s3) (F(a := xs)) R" (is "slab_inv L \<alpha> ?s4 _ R") by simp
  have s4: "caches ?s4 = caches s" "slabs ?s4 = (slabs s)(a \<mapsto> b')" using s3 by (simp_all add: move_slab_def upd_lists_def)
  let ?E = "used_elsewhere L s F c k a" and ?O = "set (slab_objs L k a)"
  have X: "objects_in_use L s F c = Some (?E \<union> (?O - set (x # xs)))" using in_use_split [OF k, of L F a] b F by simp
  have X': "objects_in_use L ?s4 (F(a := xs)) = (objects_in_use L s F)(c \<mapsto> ?E \<union> (?O - set xs))"
    using in_use_step [OF s4, of k L F xs] b k by (simp add: b'_def)
  have "x \<notin> ?E" using obj_not_elsewhere [OF inv plain _ x(1)] ok by (simp add: slab_ok_def)
  moreover have "?E \<union> (?O - set xs) = insert x (?E \<union> (?O - set (x # xs)))" using x by auto
  ultimately have "\<exists>X. objects_in_use L s F c = Some X \<and> x \<notin> X \<and> x \<in> ?O \<and>
      objects_in_use L ?s4 (F(a := xs)) = (objects_in_use L s F)(c \<mapsto> insert x X)" using X X' x by auto
  then show ?thesis using inv' q unfolding s3_def by (intro that [OF q(1-3)]) simp
qed

lemma put_object:
  assumes L: "list_contract L \<alpha>" and inv: "slab_inv L \<alpha> s F R" and k: "caches s c = Some k" and U: "objects_in_use L s F c = Some X" "p \<in> X"
  obtains a b where "p AND NOT (PAGE_SIZE - 1) = a" "p \<noteq> 0" "slabs s a = Some b" "slab_cache b = c" "slab_magic b = SLAB_RED_MAGIC1"
    "\<And>s4. s4 = (let s3 = upd_slab a (\<lambda>b. b\<lparr>freelist := p, inuse := inuse b - 1\<rparr>) (set_word p (freelist b) s)
         in if inuse b - 1 = 0 then move_slab L a (Free c) s3 else if inuse b - 1 = num k - 1 then move_slab L a (Partial c) s3 else s3) \<Longrightarrow>
       slab_inv L \<alpha> s4 (F(a := p # F a)) R \<and> objects_in_use L s4 (F(a := p # F a)) = (objects_in_use L s F)(c \<mapsto> X - {p})"
proof -
  have plain: "plain_cache L k" using slab_invD(3) [OF inv k] .
  obtain a b where b: "slabs s a = Some b" "slab_cache b = c" and p: "p \<in> set (slab_objs L k a)" "p \<notin> set (F a)"
    using U k by (auto simp: objects_in_use_def)
  have ok: "slab_ok L k (words (sl_mem s)) a b (F a)" using slab_invD(5) [OF inv b(1)] b(2) k by auto
  have page: "page_at a" using ok by (simp add: slab_ok_def)
  note pg = slab_objs_page [OF plain page p(1)]
  define b' where "b' = b\<lparr>freelist := p, inuse := inuse b - 1\<rparr>"
  define s3 where "s3 = upd_slab a (\<lambda>b. b\<lparr>freelist := p, inuse := inuse b - 1\<rparr>) (set_word p (freelist b) s)"
  have s3: "caches s3 = caches s" "slabs s3 = (slabs s)(a \<mapsto> b')" "kheap (sl_mem s3) = kheap (sl_mem s)" "sl_lists s3 = sl_lists s"
    and mem: "sl_mem s3 = sl_mem (set_word p (freelist b) s)"
    using b(1) by (simp_all add: s3_def upd_slab_def b'_def)
  have frame: "words (sl_mem s3) x = words (sl_mem s) x"
    if "slabs s a' = Some d" "caches s (slab_cache d) = Some k'" "x \<in> set (slab_objs L k' a')" "x \<noteq> p" for a' d k' x
  proof -
    have "a = a' \<Longrightarrow> k = k'" using that(1,2) b k by auto
    then have "apart p x" using objs_apart [OF plain page p(1) slab_invD(3) [OF inv that(2)] slab_addr_live(1) [OF inv that(1)] that(3)] that(4) by blast
    then show ?thesis unfolding mem by (rule set_word_words(2))
  qed
  note put = slab_ok_put [OF plain ok p, of "words (sl_mem s3)", OF _ frame [OF b(1) k [folded b(2)]]]
  have nz: "inuse b \<noteq> 0" and ok': "slab_ok L k (words (sl_mem s3)) a b' (p # F a)"
    using put by (simp_all add: mem set_word_words(1) b'_def)
  have other: "words (sl_mem s3) x = words (sl_mem s) x"
    if d: "a' \<noteq> a" "slabs s a' = Some d" "caches s (slab_cache d) = Some k'" "x \<in> set (slab_objs L k' a')" for a' d k' x
  proof (rule frame [OF d(2-4)])
    show "x \<noteq> p" using slab_objs_page(1) [OF slab_invD(3) [OF inv d(3)] slab_addr_live(1) [OF inv d(2)] d(4)] pg(1) d(1) by metis
  qed
  have "slab_inv L \<alpha> (rehome L a (slab_home k b) (slab_home k b') s3) (F(a := p # F a)) R"
    by (rule slab_step [OF L inv b(1) k [folded b(2)] s3(1) s3(2) s3(3) s3(4) _ ok' other]) (simp_all add: b'_def)
  moreover have "rehome L a (slab_home k b) (slab_home k b') s3 =
      (if inuse b - 1 = 0 then move_slab L a (Free c) s3 else if inuse b - 1 = num k - 1 then move_slab L a (Partial c) s3 else s3)"
  proof -
    have "inuse b - 1 \<noteq> num k" using unat_pred [OF nz] ok by (auto simp: slab_ok_def word_unat_eq_iff)
    moreover have "inuse b - 1 = num k - 1 \<longleftrightarrow> inuse b = num k" by simp
    ultimately show ?thesis using b(2) nz by (auto simp: rehome_def slab_home_def b'_def)
  qed
  ultimately have inv': "slab_inv L \<alpha> (let s3 = s3 in if inuse b - 1 = 0 then move_slab L a (Free c) s3
      else if inuse b - 1 = num k - 1 then move_slab L a (Partial c) s3 else s3) (F(a := p # F a)) R" (is "slab_inv L \<alpha> ?s4 _ R") by simp
  have s4: "caches ?s4 = caches s" "slabs ?s4 = (slabs s)(a \<mapsto> b')" using s3 by (simp_all add: move_slab_def upd_lists_def)
  let ?E = "used_elsewhere L s F c k a" and ?O = "set (slab_objs L k a)"
  have X: "X = ?E \<union> (?O - set (F a))" using in_use_split [OF k, of L F a] b U(1) by simp
  have "p \<notin> ?E" by (rule obj_not_elsewhere [OF inv plain page p(1)])
  then have "X - {p} = ?E \<union> (?O - set (p # F a))" unfolding X by auto
  then have "objects_in_use L ?s4 (F(a := p # F a)) = (objects_in_use L s F)(c \<mapsto> X - {p})"
    using in_use_step [OF s4, of k L F "p # F a"] b k by (simp add: b'_def)
  then show ?thesis using inv' ok unfolding s3_def by (intro that [OF pg b]) (auto simp: slab_ok_def)
qed

end
