(* ===== verification/Solix_SlabSpec.thy ===== *)
theory Solix_SlabSpec
  imports Solix_SlabInv
begin

text \<open>
  What the slab allocator promises. The state of the caches is seen as the set of objects in use of every cache (\<open>slab_live\<close>). The contract of
  a cache of objects is the locale \<open>object_cache\<close>, in which the bulk operations are verified, and \<open>obj_cache\<close> is its interpretation. The last
  section is about initialisation, which does not get far, and about the caches with cache line alignment, whose objects
  do not fit into their slabs.
\<close>

declare of_nat_add [simp del]

section \<open>The contract of a cache of objects\<close>

text \<open>
  \<open>rep s U\<close>: in the state \<open>s\<close> the objects \<open>U c\<close> of the cache \<open>c\<close> are in use. Allocation returns an object that is not, and
  can fail only when the memory is exhausted (\<open>full\<close>); an object in use can always be released.
\<close>

locale object_cache =
  fixes rep :: "'s \<Rightarrow> (u32 \<rightharpoonup> u32 set) \<Rightarrow> bool"
    and full :: "'s \<Rightarrow> bool"
    and alloc :: "u32 \<Rightarrow> 's \<Rightarrow> (u32 \<times> 's) run"
    and release :: "u32 \<Rightarrow> u32 \<Rightarrow> 's \<Rightarrow> 's run"
  assumes alloc_outcome: "rep s U \<Longrightarrow> U c = Some X \<Longrightarrow>
      (\<exists>p t. alloc c s = Some (Inr (p, t)) \<and> p \<noteq> 0 \<and> p \<notin> X \<and> rep t (U(c \<mapsto> insert p X))) \<or>
      full s \<and> (panics (alloc c s) \<or> (\<exists>t. alloc c s = Some (Inr (0, t)) \<and> rep t U))"
    and release_outcome: "rep s U \<Longrightarrow> U c = Some X \<Longrightarrow> p \<in> X \<Longrightarrow>
      \<exists>t. release c p s = Some (Inr t) \<and> rep t (U(c \<mapsto> X - {p}))"
begin

lemma free_each_outcome:
  assumes "rep s U" and "U c = Some X" and "distinct ps" and "set ps \<subseteq> X"
  shows "\<exists>t. free_each (release c) ps s = Some (Inr t) \<and> rep t (U(c \<mapsto> X - set ps))"
  using assms
proof (induction ps arbitrary: s U X)
  case Nil
  then show ?case by (simp add: fun_upd_idem)
next
  case (Cons p ps)
  obtain t where t: "release c p s = Some (Inr t)" "rep t (U(c \<mapsto> X - {p}))" using release_outcome [OF Cons.prems(1,2)] Cons.prems(4) by auto
  have "set ps \<subseteq> X - {p}" using Cons.prems(3,4) by auto
  from Cons.IH [OF t(2) fun_upd_same _ this] Cons.prems(3) obtain u where "free_each (release c) ps t = Some (Inr u)" "rep u (U(c \<mapsto> X - {p} - set ps))"
    unfolding fun_upd_upd by (meson distinct.simps(2))
  with t(1) show ?case by (simp add: Diff_insert2 [symmetric] del: fun_upd_apply)
qed

text \<open>A bulk allocation hands out new and different objects, or none at all.\<close>

lemma bulk_loop_outcome:
  assumes "rep s (U(c \<mapsto> X \<union> set ps))" and "distinct ps" and "set ps \<inter> X = {}"
  shows "panics (bulk_loop (alloc c) (release c) n ps s) \<or>
    (\<exists>qs t. bulk_loop (alloc c) (release c) n ps s = Some (Inr ((-1, qs), t)) \<and> rep t (U(c \<mapsto> X))) \<or>
    (\<exists>qs t. bulk_loop (alloc c) (release c) n ps s = Some (Inr ((of_nat (length ps + n), ps @ qs), t)) \<and> length qs = n \<and>
       distinct (ps @ qs) \<and> set (ps @ qs) \<inter> X = {} \<and> 0 \<notin> set qs \<and> rep t (U(c \<mapsto> X \<union> set (ps @ qs))))"
  using assms
proof (induction n arbitrary: s ps)
  case 0
  then have "rep s (U(c \<mapsto> X \<union> set (ps @ [])))" by (simp only: append_Nil2)
  with 0 show ?case by (intro disjI2 exI [of _ "[]"] exI [of _ s]) (simp del: fun_upd_apply)
next
  case (Suc n)
  from alloc_outcome [OF Suc.prems(1) fun_upd_same, unfolded fun_upd_upd] consider
      p t where "alloc c s = Some (Inr (p, t))" "p \<noteq> 0" "p \<notin> X \<union> set ps" "rep t (U(c \<mapsto> insert p (X \<union> set ps)))"
    | "panics (alloc c s)" | t where "alloc c s = Some (Inr (0, t))" "rep t (U(c \<mapsto> X \<union> set ps))" by blast
  then show ?case
  proof cases
    case 1
    note p0 = 1(2)
    have "insert p (X \<union> set ps) = X \<union> set (ps @ [p])" by simp
    then have "rep t (U(c \<mapsto> X \<union> set (ps @ [p])))" using 1(4) by metis
    moreover have "distinct (ps @ [p])" "set (ps @ [p]) \<inter> X = {}" using Suc.prems 1(3) by auto
    ultimately have IH: "panics (bulk_loop (alloc c) (release c) n (ps @ [p]) t) \<or>
      (\<exists>qs u. bulk_loop (alloc c) (release c) n (ps @ [p]) t = Some (Inr ((-1, qs), u)) \<and> rep u (U(c \<mapsto> X))) \<or>
      (\<exists>qs u. bulk_loop (alloc c) (release c) n (ps @ [p]) t = Some (Inr ((of_nat (length (ps @ [p]) + n), (ps @ [p]) @ qs), u)) \<and> length qs = n \<and>
        distinct ((ps @ [p]) @ qs) \<and> set ((ps @ [p]) @ qs) \<inter> X = {} \<and> 0 \<notin> set qs \<and> rep u (U(c \<mapsto> X \<union> set ((ps @ [p]) @ qs))))"
      by (rule Suc.IH)
    have "bulk_loop (alloc c) (release c) (Suc n) ps s = bulk_loop (alloc c) (release c) n (ps @ [p]) t" using 1 by simp
    then show ?thesis
      using IH
    proof (elim disjE exE conjE, goal_cases)
      case 1
      then show ?case by metis
    next
      case (2 qs u)
      then show ?case by metis
    next
      case (3 qs u)
      with p0 show ?case by (intro disjI2 exI [of _ "p # qs"] exI [of _ u]) (simp add: of_nat_add add.assoc del: fun_upd_apply)
    qed
  next
    case 2
    then show ?thesis by (auto simp: panics_def)
  next
    case 3
    have "X \<union> set ps - set (rev ps) = X" using Suc.prems(3) by auto
    then obtain u where "free_each (release c) (rev ps) t = Some (Inr u)" "rep u (U(c \<mapsto> X))"
      using free_each_outcome [OF 3(2) fun_upd_same, of "rev ps", unfolded fun_upd_upd] Suc.prems(2) by (auto simp del: fun_upd_apply)
    then show ?thesis using 3(1) by (auto simp del: fun_upd_apply)
  qed
qed

end

lemma count_active_config: "config (count_active k) = config k"
  by (simp add: count_active_def config_def Let_def)

lemma slab_liveI:
  assumes "list_contract L \<alpha>" and "slab_inv L \<alpha> s F R" and "objects_in_use L s F = U" and "\<And>k. config (f k) = config k"
  shows "slab_live L \<alpha> (upd_cache c f (chain_release s)) U" and "slab_live L \<alpha> (chain_release (upd_cache c f s)) U"
  using assms unfolding slab_live_def lock_inv upd_cache_stats [OF assms(4)] by (auto simp: upd_cache_def)

lemma slab_live_cache:
  assumes "slab_live L \<alpha> s U" and "U c = Some X"
  obtains F R k where "list_contract L \<alpha>" "cache_chain_lock s = 0" "slab_inv L \<alpha> s F R" "U = objects_in_use L s F" "caches s c = Some k" "c \<noteq> 0" "plain_cache L k"
  using assms slab_invD(2,3) unfolding slab_live_def by (fastforce simp: objects_in_use_def)

lemma alloc_live:
  assumes live: "slab_live L \<alpha> s U" and c: "U c = Some X"
  shows "(\<exists>p t. kmem_cache_alloc L call c s = Some (Inr (p, t)) \<and> p \<noteq> 0 \<and> p \<notin> X \<and> slab_live L \<alpha> t (U(c \<mapsto> insert p X))) \<or>
    no_page (sl_mem s) \<and> (panics (kmem_cache_alloc L call c s) \<or> (\<exists>t. kmem_cache_alloc L call c s = Some (Inr (0, t)) \<and> slab_live L \<alpha> t U))"
proof -
  obtain F R k where L: "list_contract L \<alpha>" and lock: "cache_chain_lock s = 0" and inv: "slab_inv L \<alpha> s F R" and U: "U = objects_in_use L s F"
    and k: "caches s c = Some k" "c \<noteq> 0" by (rule slab_live_cache [OF assms])
  let ?s = "s\<lparr>cache_chain_lock := 1\<rparr>"
  have inv': "slab_inv L \<alpha> ?s F R" "caches ?s c = Some k" "cache_chain_lock ?s = 1" "objects_in_use L ?s F = U" "sl_mem ?s = sl_mem s"
    using inv k U by simp_all
  note acq = chain_acquire_free [OF lock]
  show ?thesis
  proof (rule choose_slab_ok [OF L inv'(1-3), of call])
    assume "panics (choose_slab L call c ?s)" "no_page (sl_mem ?s)"
    then show ?thesis using k(2) acq by (auto simp: kmem_cache_alloc_def panics_def)
  next
    fix t assume "choose_slab L call c ?s = Some (Inr (0, t))" "no_page (sl_mem ?s)" "slab_live L \<alpha> t (objects_in_use L ?s F)"
    then show ?thesis using k(2) acq inv'(4) by (auto simp: kmem_cache_alloc_def)
  next
    fix a t assume a: "choose_slab L call c ?s = Some (Inr (a, t))" "a \<noteq> 0" "chosen L \<alpha> c (objects_in_use L ?s F) a t"
    then obtain F' R' b where t: "slab_inv L \<alpha> t F' R'" "objects_in_use L t F' = U" "slabs t a = Some b" "slab_cache b = c" "F' a \<noteq> []"
      using inv'(4) by (auto simp: chosen_def)
    obtain k' where k': "caches t c = Some k'" using slab_invD(5) [OF t(1,3)] t(4) by auto
    obtain x xs where x: "F' a = x # xs" using t(5) by (cases "F' a") auto
    have plain: "kc_flags k' AND SLAB_POISON = 0" using slab_invD(3) [OF t(1) k'] by (simp add: plain_cache_def)
    show ?thesis
    proof (rule take_object [OF L t(1,3,4) k' x])
      fix q assume q: "freelist b = x" "x \<noteq> 0" "words (sl_mem t) x = Some q"
      define s4 where "s4 = (let s3 = upd_slab a (\<lambda>b. b\<lparr>freelist := q, inuse := inuse b + 1\<rparr>) t
         in if inuse b + 1 = num k' then move_slab L a (Full c) s3 else if inuse b + 1 = 1 then move_slab L a (Partial c) s3 else s3)"
      assume "\<And>s4. s4 = (let s3 = upd_slab a (\<lambda>b. b\<lparr>freelist := q, inuse := inuse b + 1\<rparr>) t
         in if inuse b + 1 = num k' then move_slab L a (Full c) s3 else if inuse b + 1 = 1 then move_slab L a (Partial c) s3 else s3) \<Longrightarrow>
       slab_inv L \<alpha> s4 (F'(a := xs)) R' \<and> (\<exists>X. objects_in_use L t F' c = Some X \<and> x \<notin> X \<and> x \<in> set (slab_objs L k' a) \<and>
         objects_in_use L s4 (F'(a := xs)) = (objects_in_use L t F')(c \<mapsto> insert x X))"
      from this [OF s4_def] have s4: "slab_inv L \<alpha> s4 (F'(a := xs)) R'" "x \<notin> X" "objects_in_use L s4 (F'(a := xs)) = U(c \<mapsto> insert x X)"
        using t(2) c by auto
      have "kmem_cache_alloc L call c s = Some (Inr (x, upd_cache c count_active (chain_release s4)))"
        using k(2) acq a(1,2) t(3) k' q plain by (simp add: kmem_cache_alloc_def the_slab_def the_cache_def Let_def load_word_def s4_def)
      moreover note slab_liveI(1) [OF L s4(1,3) count_active_config]
      ultimately show ?thesis using q(2) s4(2) by blast
    qed
  qed
qed

lemma free_live:
  assumes live: "slab_live L \<alpha> s U" and c: "U c = Some X" and p: "p \<in> X"
  shows "\<exists>t. kmem_cache_free L c p s = Some (Inr t) \<and> slab_live L \<alpha> t (U(c \<mapsto> X - {p}))"
proof -
  obtain F R k where L: "list_contract L \<alpha>" and lock: "cache_chain_lock s = 0" and inv: "slab_inv L \<alpha> s F R" and U: "U = objects_in_use L s F"
    and k: "caches s c = Some k" "c \<noteq> 0" and plain: "plain_cache L k" by (rule slab_live_cache [OF live c])
  let ?s = "s\<lparr>cache_chain_lock := 1\<rparr>"
  have inv': "slab_inv L \<alpha> ?s F R" "caches ?s c = Some k" "objects_in_use L ?s F = U" using inv k U by simp_all
  note acq = chain_acquire_free [OF lock]
  show ?thesis
  proof (rule put_object [OF L inv'(1,2) inv'(3) [THEN fun_cong, of c, unfolded c] p])
    fix a b assume b: "p AND NOT (PAGE_SIZE - 1) = a" "p \<noteq> 0" "slabs ?s a = Some b" "slab_cache b = c" "slab_magic b = SLAB_RED_MAGIC1"
    define s4 where "s4 = (let s3 = upd_slab a (\<lambda>b. b\<lparr>freelist := p, inuse := inuse b - 1\<rparr>) (set_word p (freelist b) ?s)
         in if inuse b - 1 = 0 then move_slab L a (Free c) s3 else if inuse b - 1 = num k - 1 then move_slab L a (Partial c) s3 else s3)"
    assume "\<And>s4. s4 = (let s3 = upd_slab a (\<lambda>b. b\<lparr>freelist := p, inuse := inuse b - 1\<rparr>) (set_word p (freelist b) ?s)
         in if inuse b - 1 = 0 then move_slab L a (Free c) s3 else if inuse b - 1 = num k - 1 then move_slab L a (Partial c) s3 else s3) \<Longrightarrow>
       slab_inv L \<alpha> s4 (F(a := p # F a)) R \<and> objects_in_use L s4 (F(a := p # F a)) = (objects_in_use L ?s F)(c \<mapsto> X - {p})"
    from this [OF s4_def] have s4: "slab_inv L \<alpha> s4 (F(a := p # F a)) R" "objects_in_use L s4 (F(a := p # F a)) = U(c \<mapsto> X - {p})"
      using inv'(3) by auto
    have "kmem_cache_free L c p s = Some (Inr (chain_release (upd_cache c (kc_stats_update (st_active_update (\<lambda>n. n - 1))) s4)))"
      unfolding kmem_cache_free_def Let_def b(1) using k acq b(2-5) plain by (simp add: the_slab_def the_cache_def s4_def plain_cache_def Let_def)
    moreover have "slab_live L \<alpha> (chain_release (upd_cache c (kc_stats_update (st_active_update (\<lambda>n. n - 1))) s4)) (U(c \<mapsto> X - {p}))"
      by (rule slab_liveI(2) [OF L s4]) (simp add: config_def)
    ultimately show ?thesis by blast
  qed
qed

interpretation obj_cache: object_cache "slab_live L \<alpha>" "\<lambda>s. no_page (sl_mem s)" "kmem_cache_alloc L call" "kmem_cache_free L" for L \<alpha> call
  by unfold_locales (rule alloc_live, assumption+, rule free_live)

section \<open>Creating a cache\<close>

lemma calculate_objects_page:
  assumes "unat (sizeof_slab L) \<le> 4096"
  shows "unat (calculate_objects L 0 sz al fl) =
    (4096 - unat (sizeof_slab L)) div unat sz + (if fl AND SLAB_HWCACHE_ALIGN \<noteq> 0 \<and> 4 \<le> (4096 - unat (sizeof_slab L)) mod unat sz then 1 else 0)"
proof -
  let ?r = "4096 - unat (sizeof_slab L)" and ?w = "PAGE_SIZE - sizeof_slab L"
  have room: "unat ?w = ?r" using assms by (simp add: unat_sub word_le_nat_alt)
  have objs: "unat (?w div sz) = ?r div unat sz" by (simp add: unat_div_distrib room)
  moreover have "?r div unat sz \<le> 4096" by (meson diff_le_self div_le_dividend le_trans)
  ultimately have "unat (?w div sz + 1) = ?r div unat sz + 1" by (subst unat_add_lem [THEN iffD1]) auto
  moreover have "4 \<le> ?w mod sz \<longleftrightarrow> 4 \<le> ?r mod unat sz" by (simp add: word_le_nat_alt unat_mod_distrib room)
  ultimately show ?thesis using objs by (simp add: calculate_objects_def Let_def)
qed

definition new_cache :: "'l list_ops \<Rightarrow> string \<Rightarrow> u32 \<Rightarrow> u32 \<Rightarrow> u32 \<Rightarrow> u32 \<Rightarrow> u32 \<Rightarrow> kmem_cache" where
  "new_cache L nm sz al fl ct dt =
     (let n = calculate_objects L 0 sz al fl;
          k0 = \<lparr>kc_name = nm, object_size = sz, kc_align = al, ctor = ct, dtor = dt, num = n, batchcount = SLAB_BATCH_COUNT,
                kc_limit = n * 2, colour_next = 0, colour_off = 0, colour = 0, kc_flags = fl, gfporder = 0,
                kc_stats = \<lparr>st_allocated = 0, st_freed = 0, st_errors = 0, st_max_active = 0, st_active = 0\<rparr>\<rparr>
      in k0\<lparr>colour := fst (calculate_colours k0), colour_off := snd (calculate_colours k0)\<rparr>)"

lemma new_cache_plain:
  assumes "4 \<le> sz" and "unat (sizeof_slab L) + unat sz \<le> 4096" and "fl AND SLAB_POISON = 0" and "fl AND SLAB_HWCACHE_ALIGN = 0"
  shows "plain_cache L (new_cache L nm sz al fl 0 dt)" and "calculate_objects L 0 sz al fl \<noteq> 0"
proof -
  let ?n = "calculate_objects L 0 sz al fl" and ?r = "4096 - unat (sizeof_slab L)"
  have n: "unat ?n = ?r div unat sz" using calculate_objects_page [of L sz al fl] assms(2,4) by simp
  have "0 < unat sz" using assms(1) by (auto simp: word_le_nat_alt)
  then have "0 < ?r div unat sz" using assms(2) by (intro div_greater_zero_iff [THEN iffD2]) auto
  then show nz: "?n \<noteq> 0" using n by auto
  have "unat (sizeof_slab L) + unat ?n * unat sz \<le> 4096"
    using assms(2) div_times_less_eq_dividend [of ?r "unat sz"] unfolding n by linarith
  then show "plain_cache L (new_cache L nm sz al fl 0 dt)"
    using assms nz by (simp add: plain_cache_def new_cache_def calculate_colours_def Let_def)
qed

lemma create_inv:
  assumes L: "list_contract L \<alpha>" and inv: "slab_inv L \<alpha> s F R" and fresh: "caches s c = None" and c: "c \<noteq> 0" and plain: "plain_cache L k"
    and heap: "heap_live h (insert r R)" and r: "unat c \<in> region_of r"
    and t: "caches t = (caches s)(c \<mapsto> k)" "slabs t = slabs s" "words (sl_mem t) = words (sl_mem s)" "kheap (sl_mem t) = h"
      "sl_lists t = list_add L (Cache_Link c) Chain (INIT_LIST_HEAD L (Free c) (INIT_LIST_HEAD L (Partial c) (INIT_LIST_HEAD L (Full c) (sl_lists s))))"
  shows "slab_inv L \<alpha> t F (insert r R)" and "objects_in_use L t F = (objects_in_use L s F)(c \<mapsto> {})"
proof -
  obtain ys where ys: "\<alpha> (sl_lists s) Chain = Some ys" using slab_invD(9) [OF inv] by blast
  have none: "slab_cache b \<noteq> c" if "slabs s a = Some b" for a b using slab_invD(5) [OF inv that] fresh by auto
  have "\<forall>zs\<in>ran (\<alpha> (sl_lists s)). Cache_Link c \<notin> set zs" using slab_invD(10) [OF inv] fresh unfolding ran_def by fastforce
  then have lists: "\<alpha> (sl_lists t) = (\<alpha> (sl_lists s))(Full c \<mapsto> [], Partial c \<mapsto> [], Free c \<mapsto> [], Chain \<mapsto> Cache_Link c # ys)"
    unfolding t(5) by (subst list_contractD(2) [OF L, of _ Chain ys]) (auto simp: list_contractD(1) [OF L] ys ran_def)
  have links: "lists_ok \<alpha> t c' k'" if c': "caches t c' = Some k'" for c' k'
  proof (cases "c' = c")
    case True
    have "{a. \<exists>b. slabs s a = Some b \<and> slab_home k' b = h} = {}" if "h \<in> {Full c, Partial c, Free c}" for h
      using none that slab_home_in by blast
    then show ?thesis unfolding lists_ok_def lists t(2) using True by auto
  next
    case False
    then have "lists_ok \<alpha> s c' k'" using slab_invD(4) [OF inv] c' t(1) by simp
    then show ?thesis unfolding lists_ok_def lists t(2) using False by auto
  qed
  have "(\<exists>k. caches t (slab_cache b) = Some k \<and> slab_ok L k (words (sl_mem t)) a b (F a)) \<and>
      (\<exists>r\<in>insert r R. {unat a ..< unat a + 4096} \<subseteq> region_of r)" if "slabs s a = Some b" for a b
    using slab_invD(5,6) [OF inv that] none [OF that] t(1,3) by auto
  moreover have "\<forall>xs\<in>ran (\<alpha> (sl_lists t)). \<forall>a. Slab_Link a \<in> set xs \<longrightarrow> a \<in> dom (slabs t)"
    using slab_invD(7) [OF inv] ys unfolding ran_def lists t(2) by (auto split: if_splits)
  moreover have "\<forall>xs\<in>ran (\<alpha> (sl_lists t)). \<forall>a. Cache_Link a \<in> set xs \<longrightarrow> a \<in> dom (caches t)"
    using slab_invD(10) [OF inv] ys unfolding ran_def lists t(1) by (auto split: if_splits)
  moreover have "\<forall>d\<in>dom (caches t). \<exists>r\<in>insert r R. unat d \<in> region_of r"
    using slab_invD(8) [OF inv] r unfolding t(1) by (auto split: if_splits)
  moreover have "\<forall>d k'. caches t d = Some k' \<longrightarrow> d \<noteq> 0 \<and> plain_cache L k' \<and> lists_ok \<alpha> t d k'"
    using slab_invD(2,3) [OF inv] links c plain unfolding t(1) by (auto split: if_splits)
  ultimately show "slab_inv L \<alpha> t F (insert r R)"
    unfolding slab_inv_def using heap t(2,4) lists by auto
  show "objects_in_use L t F = (objects_in_use L s F)(c \<mapsto> {})"
    unfolding objects_in_use_def t(1,2) using none by (intro ext) auto
qed

lemma create_live:
  assumes live: "slab_live L \<alpha> s U" and "4 \<le> sz" and "unat (sizeof_slab L) + unat sz \<le> 4096" and "fl AND SLAB_POISON = 0" and "fl AND SLAB_HWCACHE_ALIGN = 0"
    and kc: "0 < sizeof_kmem_cache L" "sizeof_kmem_cache L \<le> 0xFFFFFFFC"
  shows "(\<exists>c t. kmem_cache_create L (Some nm) sz al fl 0 dt s = Some (Inr (c, t)) \<and> U c = None \<and> c \<noteq> 0 \<and> slab_live L \<alpha> t (U(c \<mapsto> {}))) \<or>
    (\<nexists>c h. kmalloc (sizeof_kmem_cache L) (kheap (sl_mem s)) = Some (Inr (c, h)) \<and> c \<noteq> 0) \<and>
      (panics (kmem_cache_create L (Some nm) sz al fl 0 dt s) \<or> (\<exists>t. kmem_cache_create L (Some nm) sz al fl 0 dt s = Some (Inr (0, t)) \<and> slab_live L \<alpha> t U))"
proof -
  obtain F R where L: "list_contract L \<alpha>" and lock: "cache_chain_lock s = 0" and inv: "slab_inv L \<alpha> s F R" and U: "U = objects_in_use L s F"
    using live by (auto simp: slab_live_def)
  note heap = slab_invD(1) [OF inv] and plain = new_cache_plain [OF assms(2-5)]
  have sz: "\<not> (sz = 0 \<or> sz > KMALLOC_MAX_SIZE)" using assms(2,3) by (auto simp: word_le_nat_alt word_less_nat_alt)
  obtain res where res: "kmalloc (sizeof_kmem_cache L) (kheap (sl_mem s)) = Some res" using kheap.alloc_returns [OF heap] by blast
  show ?thesis
  proof (cases res)
    case (Inl e)
    then show ?thesis using kheap.alloc_panic [OF heap] res sz by (auto simp: kmem_cache_create_def panics_def)
  next
    case (Inr x)
    then obtain c h where k: "kmalloc (sizeof_kmem_cache L) (kheap (sl_mem s)) = Some (Inr (c, h))" using res by (cases x) auto
    show ?thesis
    proof (cases "c = 0")
      case True
      let ?t = "s\<lparr>sl_mem := (sl_mem s)\<lparr>kheap := h\<rparr>\<rparr>"
      have "slab_inv L \<alpha> ?t F R" using kheap.alloc_null [OF heap] k True inv by (simp add: slab_inv_def lists_ok_def)
      moreover have "objects_in_use L ?t F = U" by (simp add: U objects_in_use_def)
      ultimately have "slab_live L \<alpha> ?t U" using L lock unfolding slab_live_def by auto
      moreover have "kmem_cache_create L (Some nm) sz al fl 0 dt s = Some (Inr (0, ?t))" using k True sz by (simp add: kmem_cache_create_def)
      ultimately show ?thesis using k True by auto
    next
      case False
      from kheap.alloc_fresh_region [OF heap k False kc(2)] obtain n where n: "unat (sizeof_kmem_cache L) \<le> n"
        "heap_live h (insert (unat c, n) R)" "\<forall>q\<in>R. region_of (unat c, n) \<inter> region_of q = {}" by blast
      have r: "unat c \<in> region_of (unat c, n)" using n(1) kc(1) by (auto simp: region_of_def word_less_nat_alt)
      have fresh: "caches s c = None" using slab_invD(8) [OF inv, of c] n(3) r by (cases "caches s c") auto
      define u where "u = chain_release (upd_lists (list_add L (Cache_Link c) Chain)
        (upd_lists (INIT_LIST_HEAD L (Free c) \<circ> INIT_LIST_HEAD L (Partial c) \<circ> INIT_LIST_HEAD L (Full c))
          (s\<lparr>sl_mem := (sl_mem s)\<lparr>kheap := h\<rparr>, caches := (caches s)(c \<mapsto> new_cache L nm sz al fl 0 dt)\<rparr>)\<lparr>cache_chain_lock := 1\<rparr>))"
      let ?t = "sl_debug 3 (''Created cache '' @ [CHR 0x27] @ ''%s'' @ [CHR 0x27] @ '': objsize=%d, objs=%d, order=%d'') u"
      have run: "kmem_cache_create L (Some nm) sz al fl 0 dt s = Some (Inr (c, ?t))"
        using k False sz plain(2) lock
        by (simp add: kmem_cache_create_def Let_def chain_acquire_def upd_lists_def u_def new_cache_def del: append.simps append_assoc)
      have t: "caches ?t = (caches s)(c \<mapsto> new_cache L nm sz al fl 0 dt)" "slabs ?t = slabs s" "words (sl_mem ?t) = words (sl_mem s)"
        "kheap (sl_mem ?t) = h" "sl_lists ?t = list_add L (Cache_Link c) Chain (INIT_LIST_HEAD L (Free c) (INIT_LIST_HEAD L (Partial c)
            (INIT_LIST_HEAD L (Full c) (sl_lists s))))" "cache_chain_lock ?t = 0"
        by (simp_all add: sl_debug_def u_def upd_lists_def)
      note new = create_inv [OF L inv fresh False plain(1) n(2) r t(1-5)]
      have "slab_live L \<alpha> ?t (U(c \<mapsto> {}))" unfolding slab_live_def using L t(6) new U by metis
      moreover have "U c = None" using fresh U by (simp add: objects_in_use_def)
      ultimately show ?thesis using run False by blast
    qed
  qed
qed

section \<open>Properties\<close>

definition osize :: "'l slab_sys \<Rightarrow> u32 \<Rightarrow> nat" where
  "osize s c = (case caches s c of None \<Rightarrow> 0 | Some k \<Rightarrow> unat (object_size k))"

lemma live_objects_disjoint:
  assumes "slab_live L \<alpha> s U" and "U c = Some X" "p \<in> X" and "U d = Some Y" "q \<in> Y" and "p \<noteq> q"
  shows "{unat p ..< unat p + osize s c} \<inter> {unat q ..< unat q + osize s d} = {}"
proof -
  obtain F R where inv: "slab_inv L \<alpha> s F R" and U: "U = objects_in_use L s F" using assms(1) by (auto simp: slab_live_def)
  obtain k a b where k: "caches s c = Some k" "slabs s a = Some b" "slab_cache b = c" "p \<in> set (slab_objs L k a)"
    using assms(2,3) U by (auto simp: objects_in_use_def)
  obtain k' a' b' where k': "caches s d = Some k'" "slabs s a' = Some b'" "slab_cache b' = d" "q \<in> set (slab_objs L k' a')"
    using assms(4,5) U by (auto simp: objects_in_use_def)
  have "a = a' \<Longrightarrow> k = k'" using k k' by auto
  from objs_disjoint [OF slab_invD(3) [OF inv k(1)] slab_addr_live(1) [OF inv k(2)] k(4) slab_invD(3) [OF inv k'(1)] slab_addr_live(1) [OF inv k'(2)] k'(4) assms(6) this]
  show ?thesis using k(1) k'(1) by (auto simp: osize_def)
qed

text \<open>
  C36. What \<^verbatim>\<open>kmem_cache_alloc\<close> and \<^verbatim>\<open>kmem_cache_free\<close> promise, in terms of the set of objects in use of every cache, for caches
  without poisoning and constructor whose objects fit into a slab, and list functions that do what they are documented to. An allocation
  returns an object that was not in use and shares no byte with an object in use of any cache, whether it comes from
  a partial, a free or a new slab; it fails only if \<^verbatim>\<open>kmalloc_aligned\<close> has no page, and then nothing is taken.
  Freeing an object in use succeeds and takes exactly this object out of the set.
\<close>

theorem kmem_cache_contract:
  assumes "slab_live L \<alpha> s U" and "U c = Some X"
  shows "((\<exists>p t. kmem_cache_alloc L call c s = Some (Inr (p, t)) \<and> p \<noteq> 0 \<and> p \<notin> X \<and> slab_live L \<alpha> t (U(c \<mapsto> insert p X)) \<and>
        (\<forall>d Y q. U d = Some Y \<and> q \<in> Y \<and> q \<noteq> p \<longrightarrow> {unat p ..< unat p + osize t c} \<inter> {unat q ..< unat q + osize t d} = {})) \<or>
      no_page (sl_mem s) \<and>
        (panics (kmem_cache_alloc L call c s) \<or> (\<exists>t. kmem_cache_alloc L call c s = Some (Inr (0, t)) \<and> slab_live L \<alpha> t U))) \<and>
    (\<forall>p\<in>X. \<exists>t. kmem_cache_free L c p s = Some (Inr t) \<and> slab_live L \<alpha> t (U(c \<mapsto> X - {p})))"
proof (intro conjI ballI)
  fix p assume "p \<in> X"
  then show "\<exists>t. kmem_cache_free L c p s = Some (Inr t) \<and> slab_live L \<alpha> t (U(c \<mapsto> X - {p}))"
    by (rule obj_cache.release_outcome [OF assms])
next
  have "{unat p ..< unat p + osize t c} \<inter> {unat q ..< unat q + osize t d} = {}"
    if t: "slab_live L \<alpha> t (U(c \<mapsto> insert p X))" and q: "U d = Some Y" "q \<in> Y" "q \<noteq> p" for p t d Y q
    by (cases "d = c")
      (use q assms(2) live_objects_disjoint [OF t, of c "insert p X" p d] in auto)
  with obj_cache.alloc_outcome [OF assms, of call]
  show "(\<exists>p t. kmem_cache_alloc L call c s = Some (Inr (p, t)) \<and> p \<noteq> 0 \<and> p \<notin> X \<and> slab_live L \<alpha> t (U(c \<mapsto> insert p X)) \<and>
        (\<forall>d Y q. U d = Some Y \<and> q \<in> Y \<and> q \<noteq> p \<longrightarrow> {unat p ..< unat p + osize t c} \<inter> {unat q ..< unat q + osize t d} = {})) \<or>
      no_page (sl_mem s) \<and>
        (panics (kmem_cache_alloc L call c s) \<or> (\<exists>t. kmem_cache_alloc L call c s = Some (Inr (0, t)) \<and> slab_live L \<alpha> t U))"
    by blast
qed

text \<open>
  C37. \<^verbatim>\<open>kmem_cache_create\<close>, for objects that can hold a link and fit into a page behind the header of a slab, without poisoning and
  cache line alignment: the new cache is none of the existing ones, has no object in use, and no other cache changes;
  it fails only if \<^verbatim>\<open>kmalloc\<close> does.
\<close>

theorem kmem_cache_create_contract:
  assumes "slab_live L \<alpha> s U" and "4 \<le> sz" and "unat (sizeof_slab L) + unat sz \<le> 4096" and "fl AND SLAB_POISON = 0" and "fl AND SLAB_HWCACHE_ALIGN = 0"
    and "0 < sizeof_kmem_cache L" "sizeof_kmem_cache L \<le> 0xFFFFFFFC"
  shows "(\<exists>c t. kmem_cache_create L (Some nm) sz al fl 0 dt s = Some (Inr (c, t)) \<and> U c = None \<and> c \<noteq> 0 \<and> slab_live L \<alpha> t (U(c \<mapsto> {}))) \<or>
    (\<nexists>c h. kmalloc (sizeof_kmem_cache L) (kheap (sl_mem s)) = Some (Inr (c, h)) \<and> c \<noteq> 0) \<and>
      (panics (kmem_cache_create L (Some nm) sz al fl 0 dt s) \<or> (\<exists>t. kmem_cache_create L (Some nm) sz al fl 0 dt s = Some (Inr (0, t)) \<and> slab_live L \<alpha> t U))"
  by (rule create_live [OF assms])

text \<open>
  C38. \<^verbatim>\<open>kmem_cache_alloc_bulk\<close> and \<^verbatim>\<open>kmem_cache_free_bulk\<close>, for the caches of the contract above. A bulk allocation either hands out
  as many objects as requested, all different and none of them in use before, and freeing them in bulk restores
  the state of all caches; or it frees what it got and returns \<^verbatim>\<open>-1\<close>, with every cache as before; or the heap panics.
\<close>

theorem bulk_round_trip:
  assumes "slab_live L \<alpha> s U" and "U c = Some X"
  shows "panics (kmem_cache_alloc_bulk L call c n s) \<or>
    (\<exists>qs t. kmem_cache_alloc_bulk L call c n s = Some (Inr ((-1, qs), t)) \<and> slab_live L \<alpha> t U) \<or>
    (\<exists>qs t u. kmem_cache_alloc_bulk L call c n s = Some (Inr ((n, qs), t)) \<and> length qs = unat n \<and> distinct qs \<and> set qs \<inter> X = {} \<and> 0 \<notin> set qs \<and>
       slab_live L \<alpha> t (U(c \<mapsto> X \<union> set qs)) \<and> kmem_cache_free_bulk L c qs t = Some (Inr u) \<and> slab_live L \<alpha> u U)"
proof -
  have U: "U(c \<mapsto> X) = U" using assms(2) by (simp add: fun_upd_idem)
  have undo: "\<exists>u. kmem_cache_free_bulk L c qs t = Some (Inr u) \<and> slab_live L \<alpha> u U"
    if t: "slab_live L \<alpha> t (U(c \<mapsto> X \<union> set qs))" and qs: "distinct qs" "set qs \<inter> X = {}" for qs t
  proof -
    have "X \<union> set qs - set qs = X" using qs(2) by auto
    then show ?thesis
      using obj_cache.free_each_outcome [OF t fun_upd_same qs(1), unfolded fun_upd_upd] U unfolding kmem_cache_free_bulk_def by auto
  qed
  have start: "slab_live L \<alpha> s (U(c \<mapsto> X \<union> set []))" using assms(1) U by (metis list.set(1) sup_bot_right)
  from obj_cache.bulk_loop_outcome [OF start _ _, where n = "unat n" and call = call] U undo show ?thesis
    unfolding kmem_cache_alloc_bulk_def by (fastforce simp del: fun_upd_apply)
qed

text \<open>The list functions on finite lists, and the state after \<^verbatim>\<open>heap_init\<close>.\<close>

definition plain_lists :: "(list_node \<rightharpoonup> list_node list) list_ops" where
  "plain_lists = \<lparr>INIT_LIST_HEAD = (\<lambda>h l. l(h \<mapsto> [])), list_add = (\<lambda>x h l. l(h := map_option ((#) x) (l h))),
     list_del = (\<lambda>x l h. map_option (removeAll x) (l h)), list_empty = (\<lambda>h l. l h = Some []), list_first = (\<lambda>h l. hd (the (l h))),
     list_entries = (\<lambda>h l. the (l h)), sizeof_slab = 40, sizeof_kmem_cache = 100\<rparr>"

lemma plain_lists_contract: "list_contract plain_lists (\<lambda>l. l)"
  by (auto simp: list_contract_def plain_lists_def)

definition boot_slabs :: "heap \<Rightarrow> kernel \<Rightarrow> (list_node \<rightharpoonup> list_node list) slab_sys" where
  "boot_slabs h K = \<lparr>caches = Map.empty, slabs = Map.empty, sl_mem = boot_aligned h, sl_lists = [Chain \<mapsto> []], cache_chain_lock = 0,
     kmalloc_caches = replicate 12 0, common_caches = (\<lambda>_. 0), sl_kernel = K, sl_out = []\<rparr>"

lemma boot_slabs_live: "heap_live h {} \<Longrightarrow> slab_live plain_lists (\<lambda>l. l) (boot_slabs h K) Map.empty"
  unfolding slab_live_def using plain_lists_contract
  by (auto intro!: exI [of _ "{}"] simp: boot_slabs_def boot_aligned_def slab_inv_def objects_in_use_def fun_eq_iff)

lemma create_result:
  assumes "kmem_cache_create L (Some nm) sz al fl ct dt s = Some (Inr (c, t))" and "c \<noteq> 0"
  shows "\<exists>h. kmalloc (sizeof_kmem_cache L) (kheap (sl_mem s)) = Some (Inr (c, h)) \<and> kheap (sl_mem t) = h"
    and "caches t c = Some (new_cache L nm sz al fl ct dt)" and "0 < sz" "sz \<le> KMALLOC_MAX_SIZE"
  using assms
  by (auto simp: kmem_cache_create_def new_cache_def Let_def bind_run_Inr_iff chain_acquire_def sl_debug_def upd_lists_def word_neq_0_conv
      simp del: append.simps split: if_splits)

lemma boot_cache:
  obtains h c t where "heap_init 0x200000 = Inr h" "kmem_cache_create plain_lists (Some ''demo'') 64 0 0 0 0 (boot_slabs h K) = Some (Inr (c, t))"
    "slab_live plain_lists (\<lambda>l. l) t [c \<mapsto> {}]" "\<not> no_page (sl_mem t)"
proof -
  obtain h where h: "heap_init 0x200000 = Inr h" "boot_shape h ([] @ [(16777192, False)])" "heap_live h {}" by (rule boot_heap_shape)
  let ?s = "boot_slabs h K" and ?n = "sizeof_kmem_cache plain_lists"
  have hs: "kheap (sl_mem ?s) = h" by (simp add: boot_slabs_def boot_aligned_def)
  have "unat (round_size ?n) = 100" by (simp add: plain_lists_def round_size_def)
  with boot_shape_kmalloc_fits [OF h(2), of ?n] obtain h' where k: "kmalloc ?n h = Some (Inr (of_nat (heap_lo h + 24), h'))"
    "boot_shape h' ([(100, True)] @ [(16777068, False)])" "(of_nat (heap_lo h + 24) :: u32) \<noteq> 0"
    by (auto simp: plain_lists_def)
  have "\<exists>c t. kmem_cache_create plain_lists (Some ''demo'') 64 0 0 0 0 ?s = Some (Inr (c, t)) \<and> c \<noteq> 0 \<and> slab_live plain_lists (\<lambda>l. l) t [c \<mapsto> {}]"
    using create_live [OF boot_slabs_live [OF h(3)], of 64 0 "''demo''" 0 0 K] k(1,3) hs by (auto simp: plain_lists_def)
  then obtain c t where c: "kmem_cache_create plain_lists (Some ''demo'') 64 0 0 0 0 ?s = Some (Inr (c, t))" "c \<noteq> 0" "slab_live plain_lists (\<lambda>l. l) t [c \<mapsto> {}]"
    by blast
  have "kheap (sl_mem t) = h'" using create_result(1) [OF c(1,2)] k(1) hs by auto
  then have "\<not> no_page (sl_mem t)"
    using boot_kmalloc_aligned [of "sl_mem t" "[(100, True)]" 16777068 4096 PAGE_SIZE] k(2) by (auto simp: no_page_def)
  with that [OF h(1) c(1,3)] show ?thesis .
qed

theorem kmem_cache_contract_witness:
  "\<forall>K call. \<exists>h c t p u v. heap_init 0x200000 = Inr h \<and>
     kmem_cache_create plain_lists (Some ''demo'') 64 0 0 0 0 (boot_slabs h K) = Some (Inr (c, t)) \<and>
     kmem_cache_alloc plain_lists call c t = Some (Inr (p, u)) \<and> p \<noteq> 0 \<and> slab_live plain_lists (\<lambda>l. l) u [c \<mapsto> {p}] \<and>
     kmem_cache_free plain_lists c p u = Some (Inr v) \<and> slab_live plain_lists (\<lambda>l. l) v [c \<mapsto> {}]"
proof (intro allI)
  fix K call
  obtain h c t where s: "heap_init 0x200000 = Inr h" "kmem_cache_create plain_lists (Some ''demo'') 64 0 0 0 0 (boot_slabs h K) = Some (Inr (c, t))"
    "slab_live plain_lists (\<lambda>l. l) t [c \<mapsto> {}]" "\<not> no_page (sl_mem t)" by (rule boot_cache)
  obtain p u where p: "kmem_cache_alloc plain_lists call c t = Some (Inr (p, u))" "p \<noteq> 0" "slab_live plain_lists (\<lambda>l. l) u [c \<mapsto> {p}]"
    using kmem_cache_contract [OF s(3), of c "{}" call] s(4) by auto
  obtain v where "kmem_cache_free plain_lists c p u = Some (Inr v)" "slab_live plain_lists (\<lambda>l. l) v [c \<mapsto> {}]"
    using kmem_cache_contract [OF p(3), of c "{p}" call] by auto
  with s p show "\<exists>h c t p u v. heap_init 0x200000 = Inr h \<and>
     kmem_cache_create plain_lists (Some ''demo'') 64 0 0 0 0 (boot_slabs h K) = Some (Inr (c, t)) \<and>
     kmem_cache_alloc plain_lists call c t = Some (Inr (p, u)) \<and> p \<noteq> 0 \<and> slab_live plain_lists (\<lambda>l. l) u [c \<mapsto> {p}] \<and>
     kmem_cache_free plain_lists c p u = Some (Inr v) \<and> slab_live plain_lists (\<lambda>l. l) v [c \<mapsto> {}]" by blast
qed

theorem kmem_cache_create_contract_witness:
  "\<forall>K. \<exists>h c t. heap_init 0x200000 = Inr h \<and>
     kmem_cache_create plain_lists (Some ''inode'') 128 0 0 0 0 (boot_slabs h K) = Some (Inr (c, t)) \<and> c \<noteq> 0 \<and>
     slab_live plain_lists (\<lambda>l. l) t [c \<mapsto> {}]"
proof
  fix K
  obtain h where h: "heap_init 0x200000 = Inr h" "boot_shape h ([] @ [(16777192, False)])" "heap_live h {}" by (rule boot_heap_shape)
  have pre: "(4 :: u32) \<le> 128" "unat (sizeof_slab plain_lists) + unat (128 :: u32) \<le> 4096" "(0 :: u32) AND SLAB_POISON = 0"
    "(0 :: u32) AND SLAB_HWCACHE_ALIGN = 0" "0 < sizeof_kmem_cache plain_lists" "sizeof_kmem_cache plain_lists \<le> 0xFFFFFFFC"
    by (simp_all add: plain_lists_def)
  have hs: "kheap (sl_mem (boot_slabs h K)) = h" by (simp add: boot_slabs_def boot_aligned_def)
  obtain c h' where k: "kmalloc (sizeof_kmem_cache plain_lists) h = Some (Inr (c, h'))" "c \<noteq> 0"
    using boot_shape_kmalloc_fits [OF h(2), of "sizeof_kmem_cache plain_lists"] by (auto simp: plain_lists_def round_size_def)
  from kmem_cache_create_contract [OF boot_slabs_live [OF h(3)] pre, of "''inode''" 0 0 K] h(1) hs k
  show "\<exists>h c t. heap_init 0x200000 = Inr h \<and>
     kmem_cache_create plain_lists (Some ''inode'') 128 0 0 0 0 (boot_slabs h K) = Some (Inr (c, t)) \<and> c \<noteq> 0 \<and>
     slab_live plain_lists (\<lambda>l. l) t [c \<mapsto> {}]" by metis
qed

theorem bulk_round_trip_witness:
  "\<forall>K call. \<exists>h c t. heap_init 0x200000 = Inr h \<and>
     kmem_cache_create plain_lists (Some ''demo'') 64 0 0 0 0 (boot_slabs h K) = Some (Inr (c, t)) \<and>
     (panics (kmem_cache_alloc_bulk plain_lists call c 5 t) \<or>
      (\<exists>qs u. kmem_cache_alloc_bulk plain_lists call c 5 t = Some (Inr ((-1, qs), u)) \<and> slab_live plain_lists (\<lambda>l. l) u [c \<mapsto> {}]) \<or>
      (\<exists>qs u v. kmem_cache_alloc_bulk plain_lists call c 5 t = Some (Inr ((5, qs), u)) \<and> length qs = 5 \<and> distinct qs \<and>
         kmem_cache_free_bulk plain_lists c qs u = Some (Inr v) \<and> slab_live plain_lists (\<lambda>l. l) v [c \<mapsto> {}]))"
proof (intro allI)
  fix K call
  obtain h c t where s: "heap_init 0x200000 = Inr h" "kmem_cache_create plain_lists (Some ''demo'') 64 0 0 0 0 (boot_slabs h K) = Some (Inr (c, t))"
    "slab_live plain_lists (\<lambda>l. l) t [c \<mapsto> {}]" by (rule boot_cache)
  have five: "unat (5 :: u32) = 5" by simp
  from bulk_round_trip [OF s(3) fun_upd_same, of call 5, unfolded five] s(1,2)
  show "\<exists>h c t. heap_init 0x200000 = Inr h \<and>
     kmem_cache_create plain_lists (Some ''demo'') 64 0 0 0 0 (boot_slabs h K) = Some (Inr (c, t)) \<and>
     (panics (kmem_cache_alloc_bulk plain_lists call c 5 t) \<or>
      (\<exists>qs u. kmem_cache_alloc_bulk plain_lists call c 5 t = Some (Inr ((-1, qs), u)) \<and> slab_live plain_lists (\<lambda>l. l) u [c \<mapsto> {}]) \<or>
      (\<exists>qs u v. kmem_cache_alloc_bulk plain_lists call c 5 t = Some (Inr ((5, qs), u)) \<and> length qs = 5 \<and> distinct qs \<and>
         kmem_cache_free_bulk plain_lists c qs u = Some (Inr v) \<and> slab_live plain_lists (\<lambda>l. l) v [c \<mapsto> {}]))" by blast
qed

section \<open>Initialisation\<close>

definition settled :: "'l slab_sys \<Rightarrow> bool" where
  "settled s \<longleftrightarrow> cache_chain_lock s = 0 \<and> (\<exists>R. heap_live (kheap (sl_mem s)) R)"

lemma create_returns:
  assumes "settled s"
  shows "panics (kmem_cache_create L nm sz al fl ct dt s) \<or> (\<exists>c t. kmem_cache_create L nm sz al fl ct dt s = Some (Inr (c, t)) \<and> settled t)"
proof (cases "nm = None \<or> sz = 0 \<or> sz > KMALLOC_MAX_SIZE")
  case True
  then show ?thesis using assms by (auto simp: kmem_cache_create_def split: option.split)
next
  case False
  then obtain name where nm: "nm = Some name" "\<not> (sz = 0 \<or> sz > KMALLOC_MAX_SIZE)" by auto
  obtain R where heap: "heap_live (kheap (sl_mem s)) R" and lock: "cache_chain_lock s = 0" using assms by (auto simp: settled_def)
  obtain res where res: "kmalloc (sizeof_kmem_cache L) (kheap (sl_mem s)) = Some res" using kheap.alloc_returns [OF heap] by blast
  show ?thesis
  proof (cases res)
    case (Inl e)
    then show ?thesis using kheap.alloc_panic [OF heap] res nm by (auto simp: kmem_cache_create_def panics_def)
  next
    case (Inr x)
    then obtain c h where k: "kmalloc (sizeof_kmem_cache L) (kheap (sl_mem s)) = Some (Inr (c, h))" using res by (cases x) auto
    show ?thesis
    proof (cases "c = 0")
      case True
      then show ?thesis using k nm kheap.alloc_null [OF heap] lock by (auto simp: kmem_cache_create_def settled_def)
    next
      case False
      obtain n where n: "heap_live h (insert (unat c, n) R)" using kmalloc_live [OF heap k] False by blast
      show ?thesis
      proof (cases "calculate_objects L 0 sz al fl = 0")
        case True
        then show ?thesis
          using k nm False lock n kheap.release_region [OF n insertI1] kheap.release_panic [OF n insertI1]
          by (cases "kfree c h") (auto simp: kmem_cache_create_def settled_def panics_def upd_lists_def Let_def)
      next
        case some: False
        then show ?thesis
          using k nm False lock n
          by (auto simp: kmem_cache_create_def settled_def upd_lists_def Let_def chain_acquire_def sl_debug_def simp del: append.simps)
      qed
    qed
  qed
qed

lemma create_too_large: "sz > KMALLOC_MAX_SIZE \<Longrightarrow> kmem_cache_create L nm sz al fl ct dt s = Some (Inr (0, s))"
  by (simp add: kmem_cache_create_def split: option.split)

lemma create_kmalloc_caches_panics:
  assumes "settled s" and "sz \<in> set szs" "sz > KMALLOC_MAX_SIZE"
  shows "panics (create_kmalloc_caches L i szs s)"
  using assms(1,2)
proof (induction szs arbitrary: i s)
  case (Cons x xs)
  have upd: "settled (t\<lparr>kmalloc_caches := ks\<rparr>) = settled t" for t :: "'a slab_sys" and ks by (simp add: settled_def)
  from create_returns [OF Cons.prems(1), of L "Some (''kmalloc-'' @ dec (unat x))" x 0 SLAB_HWCACHE_ALIGN 0 0]
  consider "panics (kmem_cache_create L (Some (''kmalloc-'' @ dec (unat x))) x 0 SLAB_HWCACHE_ALIGN 0 0 s)"
    | c t where "kmem_cache_create L (Some (''kmalloc-'' @ dec (unat x))) x 0 SLAB_HWCACHE_ALIGN 0 0 s = Some (Inr (c, t))" "settled t" by blast
  then show ?case
  proof cases
    case 1
    then show ?thesis by (auto simp: panics_def)
  next
    case (2 c t)
    show ?thesis
    proof (cases "c = 0")
      case True
      then show ?thesis using 2 by (simp add: panics_def)
    next
      case False
      then have "x \<noteq> sz" using 2(1) create_too_large [OF assms(3), of L _ 0 SLAB_HWCACHE_ALIGN 0 0 s] by auto
      then show ?thesis using False 2 Cons.prems(2) Cons.IH by (simp add: upd)
    qed
  qed
qed simp

text \<open>
  C39. \<^verbatim>\<open>slab_init\<close> never returns: its table of sizes ends with 16384, twice what \<^verbatim>\<open>kmem_cache_create\<close> accepts, and for the null pointer
  it gets it calls \<^verbatim>\<open>panic\<close>. On every sound heap, with the lock free, \<^verbatim>\<open>slab_init\<close> and hence \<^verbatim>\<open>kmem_cache_init\<close> end in a
  panic, whatever the list functions do.
\<close>

theorem slab_init_panics:
  assumes "heap_live (kheap (sl_mem s)) R" and "cache_chain_lock s = 0"
  shows "\<exists>msg. slab_init L s = Some (Inl (Panic msg)) \<and> kmem_cache_init L sizes s = Some (Inl (Panic msg))"
proof -
  let ?s = "upd_lists (INIT_LIST_HEAD L Chain) (sl_debug 3 ''Initializing Linux-inspired SLAB allocator'' s)"
  have "settled ?s" using assms by (auto simp: settled_def upd_lists_def sl_debug_def)
  moreover have "16384 \<in> set kmalloc_sizes" by (simp add: kmalloc_sizes_def)
  ultimately have "panics (create_kmalloc_caches L 0 kmalloc_sizes ?s)" by (rule create_kmalloc_caches_panics) simp
  then show ?thesis by (auto simp: panics_def slab_init_def kmem_cache_init_def)
qed

theorem slab_init_panics_witness:
  "\<forall>K. \<exists>h msg. heap_init 0x200000 = Inr h \<and> slab_init plain_lists (boot_slabs h K) = Some (Inl (Panic msg))"
proof
  fix K
  obtain h where h: "heap_init 0x200000 = Inr h" "heap_live h {}" by (rule boot_heap_shape)
  have "heap_live (kheap (sl_mem (boot_slabs h K))) {}" "cache_chain_lock (boot_slabs h K) = 0"
    using h(2) by (simp_all add: boot_slabs_def boot_aligned_def)
  from slab_init_panics [OF this] h(1) show "\<exists>h msg. heap_init 0x200000 = Inr h \<and> slab_init plain_lists (boot_slabs h K) = Some (Inl (Panic msg))" by blast
qed

text \<open>
  C40. What \<^verbatim>\<open>calculate_objects\<close> and \<^verbatim>\<open>calculate_colours\<close> make of a cache with cache line alignment, when the header of a slab has the 40 bytes of
  its fields on this machine: the last object of every slab reaches beyond the end of its page exactly if the division leaves four bytes or more, or
  fewer than the offset of the first object. This is the case for each of the caches that \<^verbatim>\<open>slab_init\<close> creates.
\<close>

theorem aligned_caches_overrun:
  assumes "sizeof_slab L = 40" and "kmem_cache_create L (Some nm) sz al SLAB_HWCACHE_ALIGN ct dt s = Some (Inr (c, t))" and "c \<noteq> 0"
  shows "\<exists>k. caches t c = Some k \<and> object_size k = sz \<and> gfporder k = 0 \<and>
    (40 + unat (colour_off k) + unat (num k) * unat sz > 4096 \<longleftrightarrow> 4056 mod unat sz \<ge> 4 \<or> 4056 mod unat sz < unat sz mod 64) \<and>
    (sz \<in> set kmalloc_sizes \<longrightarrow> 40 + unat (colour_off k) + unat (num k) * unat sz > 4096)"
proof -
  let ?k = "new_cache L nm sz al SLAB_HWCACHE_ALIGN ct dt" and ?q = "4056 div unat sz" and ?r = "4056 mod unat sz"
  note res = create_result(2-4) [OF assms(2,3)]
  have n: "unat (num ?k) = ?q + (if 4 \<le> ?r then 1 else 0)"
    using calculate_objects_page [of L sz al SLAB_HWCACHE_ALIGN] assms(1) by (simp add: new_cache_def Let_def)
  have off: "unat (colour_off ?k) = unat sz mod 64"
    by (simp add: new_cache_def Let_def calculate_colours_def unat_mod_distrib) (simp add: word_unat_eq_iff unat_mod_distrib)
  have sz: "0 < unat sz" using res(2) by (simp add: word_less_nat_alt)
  have split: "?q * unat sz + ?r = 4056" by simp
  have lt: "?r < unat sz" using sz by simp
  have iff: "40 + unat (colour_off ?k) + unat (num ?k) * unat sz > 4096 \<longleftrightarrow> ?r \<ge> 4 \<or> ?r < unat sz mod 64"
  proof (cases "4 \<le> ?r")
    case True
    have "unat (num ?k) * unat sz = ?q * unat sz + unat sz" unfolding n if_P [OF True] by simp
    then show ?thesis using True split lt by linarith
  next
    case False
    have "unat (num ?k) * unat sz = ?q * unat sz" unfolding n if_not_P [OF False] by simp
    then show ?thesis using False split unfolding off by linarith
  qed
  moreover have "?r \<ge> 4 \<or> ?r < unat sz mod 64" if "sz \<in> set kmalloc_sizes"
    using that res(3) by (auto simp: kmalloc_sizes_def)
  moreover have "object_size ?k = sz" "gfporder ?k = 0" by (simp_all add: new_cache_def Let_def)
  ultimately show ?thesis using res(1) by blast
qed

theorem aligned_caches_overrun_witness:
  "\<forall>K. \<exists>h c t k. heap_init 0x200000 = Inr h \<and>
     kmem_cache_create plain_lists (Some ''kmalloc-64'') 64 0 SLAB_HWCACHE_ALIGN 0 0 (boot_slabs h K) = Some (Inr (c, t)) \<and> c \<noteq> 0 \<and>
     caches t c = Some k \<and> 40 + unat (colour_off k) + unat (num k) * 64 > 4096"
proof
  fix K
  obtain h where h: "heap_init 0x200000 = Inr h" "boot_shape h ([] @ [(16777192, False)])" by (rule boot_heap_shape)
  obtain c h' where k: "kmalloc (sizeof_kmem_cache plain_lists) h = Some (Inr (c, h'))" "c \<noteq> 0"
    using boot_shape_kmalloc_fits [OF h(2), of "sizeof_kmem_cache plain_lists"] by (auto simp: plain_lists_def round_size_def)
  have s: "kheap (sl_mem (boot_slabs h K)) = h" "cache_chain_lock (boot_slabs h K) = 0" by (simp_all add: boot_slabs_def boot_aligned_def)
  have "calculate_objects plain_lists 0 64 0 SLAB_HWCACHE_ALIGN \<noteq> 0" by (simp add: calculate_objects_def plain_lists_def Let_def)
  then have "\<exists>t. kmem_cache_create plain_lists (Some ''kmalloc-64'') 64 0 SLAB_HWCACHE_ALIGN 0 0 (boot_slabs h K) = Some (Inr (c, t))"
    using k s by (simp add: kmem_cache_create_def Let_def chain_acquire_def upd_lists_def del: append.simps)
  then obtain t where t: "kmem_cache_create plain_lists (Some ''kmalloc-64'') 64 0 SLAB_HWCACHE_ALIGN 0 0 (boot_slabs h K) = Some (Inr (c, t))" by blast
  have "sizeof_slab plain_lists = 40" "unat (64 :: u32) = 64" "(64 :: u32) \<in> set kmalloc_sizes" by (simp_all add: plain_lists_def kmalloc_sizes_def)
  with aligned_caches_overrun [OF _ t k(2)] h(1) t k(2)
  show "\<exists>h c t k. heap_init 0x200000 = Inr h \<and>
     kmem_cache_create plain_lists (Some ''kmalloc-64'') 64 0 SLAB_HWCACHE_ALIGN 0 0 (boot_slabs h K) = Some (Inr (c, t)) \<and> c \<noteq> 0 \<and>
     caches t c = Some k \<and> 40 + unat (colour_off k) + unat (num k) * 64 > 4096" by metis
qed

end
