(* ===== verification/Spec2Isabelle.thy ===== *)
theory Spec2Isabelle
  imports Solix_Paging Solix_Net Solix_Screen Solix_Interrupts Solix_Printk Solix_Shell Solix_Pkg Solix_Ethernet Solix_Wifi Solix_Irq Solix_SlabSpec
begin

text \<open>
  \<^bold>\<open>Verification of SolixOS.\<close> SolixOS is a small operating system for 32 bit x86 machines, written in C:
  memory management and processes (\<^verbatim>\<open>kernel/\<close>), drivers for screen, keyboard, timer and network
  devices (\<^verbatim>\<open>drivers/\<close>), an Internet stack (\<^verbatim>\<open>net/\<close>), a file system (\<^verbatim>\<open>fs/\<close>), a command shell
  (\<^verbatim>\<open>shell/\<close>) and some applications (\<^verbatim>\<open>apps/\<close>). The paths in this library are relative to the
  repository's root.

  \<^bold>\<open>How the parts interact.\<close> \<^verbatim>\<open>kernel_main\<close> sets up memory, processes, interrupts and the file system and
  starts the shell. Everybody allocates from the kernel heap, which lies in the memory that paging
  maps. Interrupts reach the timer, the keyboard and the scheduler. The shell reads characters
  from the keyboard's ring, writes to the screen and calls the file system and the process table.
  The network stack takes its packet buffers from the heap and calls the transmit functions of
  devices. Messages of the kernel go through a log ring to console drivers and the screen.

  \<^bold>\<open>Conventions.\<close> A C structure is a record, a machine integer a word of its width (\<open>u8\<close>, \<open>u16\<close>,
  \<open>u32\<close>), so that wrap-around is part of the model. An operation that can fault (access outside of an array,
  through a null or wild pointer, or a kernel panic) returns \<open>Inl\<close> of a \<open>fault\<close>; one that may also run
  for ever returns a \<open>run\<close>, an option in which \<open>None\<close> means that it does not return, as when a spin lock is taken
  by the thread that holds it. Objects the
  code links by pointers (heap headers, page tables, consoles) are values in stores indexed by
  addresses. File-scope variables are the fields of one record per component, passed through.
  What is not part of the repository is an argument: the disk driver (\<open>D\<close>), the transmit function of
  a network driver (\<open>drv\<close>), the port instructions of the processor (\<open>P\<close>), the addresses of assembler
  stubs, the handlers of drivers and the lock functions that save the interrupt flag (\<open>E\<close>), the kernel's lists (\<open>L\<close>) that \<^verbatim>\<open>slab.c\<close> uses, with
  their documented behaviour (\<open>list_contract\<close>) as a hypothesis, and the operations of the file system
  and of TCP that are declared and not defined. Theorems about a disk
  assume that a block that was written is read back, those about the browser that TCP stores no more
  bytes than it is asked for; no theorem assumes anything about a network driver unless it says so.

  \<^bold>\<open>The theories.\<close>
  \<^item> \<open>Solix_Base\<close>: words, faults, the two monads, bitmaps in arrays of words, and the locale
    \<open>slot_allocator\<close>, the contract of an allocator of numbered slots.
  \<^item> \<open>Solix_Frames\<close>: the bitmap of physical frames (\<^verbatim>\<open>kernel/mm.c\<close>). Interpretation \<open>frame\<close> of
    \<open>slot_allocator\<close>; allocation succeeds exactly as often as there are free frames.
  \<^item> \<open>Solix_Heap\<close>, \<open>Solix_Alloc\<close>, \<open>Solix_HeapInv\<close>: \<^verbatim>\<open>kmalloc\<close> and \<^verbatim>\<open>kfree\<close> (\<^verbatim>\<open>kernel/mm.c\<close>). They refine best-fit
    allocation on the list of blocks. The locale \<open>region_allocator\<close> is what clients rely
    on, \<open>kheap\<close> its interpretation; the invariant of all reachable heaps is proved by rule
    induction over \<open>heap_reach\<close>, and a counterexample shows how a checksum goes stale.
  \<^item> \<open>Solix_Paging\<close>: aligned allocation, page directories and tables, \<^verbatim>\<open>paging_init\<close>. Mapping and unmapping refine
    updates of a partial map (locale \<open>page_mapper\<close>, interpretation \<open>pages\<close>).
  \<^item> \<open>Solix_Process\<close>: the process table, round-robin scheduling, system calls (\<^verbatim>\<open>kernel/kernel.c\<close>,
    \<^verbatim>\<open>kernel/debug.c\<close>, \<^verbatim>\<open>kernel/interrupts.c\<close>). Interpretations \<open>pids\<close> and \<open>pids_next\<close> of
    \<open>slot_allocator\<close>; invariant of reachable tables (\<open>proc_reach\<close>) and fairness.
  \<^item> \<open>Solix_Interrupts\<close>: descriptor table, dispatcher and timer (\<^verbatim>\<open>kernel/interrupts.c\<close>, \<^verbatim>\<open>drivers/timer.c\<close>).
  \<^item> \<open>Solix_Screen\<close>: \<^verbatim>\<open>drivers/screen.c\<close>; the buffered driver shows what an unbuffered reference shows.
  \<^item> \<open>Solix_Keyboard\<close>: \<^verbatim>\<open>drivers/keyboard.c\<close>; the ring is a bounded queue (locale \<open>bounded_queue\<close>,
    interpretation \<open>kbd\<close>), readers get what was typed.
  \<^item> \<open>Solix_Printk\<close>: \<^verbatim>\<open>kernel/printk.c\<close>; the formatter equals a reference formatter, the log ring and the
    list of consoles are characterised.
  \<^item> \<open>Solix_Netutil\<close>, \<open>Solix_Tables\<close>, \<open>Solix_Net\<close>: \<^verbatim>\<open>net/net.c\<close> and the device table of
    \<^verbatim>\<open>drivers/wifi.c\<close>. Locales \<open>device_registry\<close> (interpretations \<open>net_devs\<close>, \<open>wifi_devs\<close>) and \<open>bounded_map\<close>
    (\<open>arp\<close>); checksums, address conversion, safety of the receive path, end-to-end delivery.
  \<^item> \<open>Solix_Fs\<close>, \<open>Solix_Files\<close>, \<open>Solix_Vfs\<close>: \<^verbatim>\<open>fs/solixfs.c\<close> and \<^verbatim>\<open>fs/vfs.c\<close>. Interpretations \<open>blocks\<close> and \<open>inodes\<close> of
    \<open>slot_allocator\<close>; reading and writing refine slicing and replacing in byte sequences; what path lookup
    makes of that.
  \<^item> \<open>Solix_Shell\<close>: \<^verbatim>\<open>shell/shell.c\<close> over the models above: well-formed state, line editing, a session, and
    what \<^verbatim>\<open>kill\<close> leaves behind.
  \<^item> \<open>Solix_Html\<close>, \<open>Solix_Browser\<close>: \<^verbatim>\<open>apps/browser/lynx.c\<close>. The HTML formatter equals three passes in a row, link
    extraction is characterised on pages cut at their links; the invariant of all sessions
    (\<open>browser_reach\<close>) gives memory safety; following a link spoils the history.
  \<^item> \<open>Solix_Apps\<close>: the commands of \<^verbatim>\<open>apps/net/\<close>, with their safety.
  \<^item> \<open>Solix_Pkg\<close>: the package manager \<^verbatim>\<open>apps/pkg/pkg.c\<close> over the file system and TCP. The list of packages survives being
    written and read again, the search is characterised; no command installs anything.
  \<^item> \<open>Solix_Irq\<close>: \<^verbatim>\<open>kernel/irq.c\<close> and the spin locks of \<^verbatim>\<open>include/slab.h\<close>: descriptors, chips and flow control. Enabling and
    disabling nest as a counter, an interrupt is counted once; the flow control and its chip call each other for ever.
  \<^item> \<open>Solix_Slab\<close>, \<open>Solix_SlabInv\<close>, \<open>Solix_SlabSpec\<close>: \<^verbatim>\<open>kernel/slab.c\<close> over aligned allocation and the spin locks. On an invariant of slabs, lists and
    free objects, allocating and freeing refine the insertion into and the removal from the set of objects in use (locale \<open>object_cache\<close>, interpretation \<open>obj_cache\<close>);
    bulk operations are all or nothing. Initialisation always panics, and caches with cache line alignment overrun their pages.
  \<^item> \<open>Solix_Ethernet\<close>: \<^verbatim>\<open>drivers/ethernet.c\<close>; the interrupt handler delivers the packets of the receive ring to the
    stack, and the search of the PCI bus ends exactly if there is a card.
  \<^item> \<open>Solix_Wifi\<close>: the rest of \<^verbatim>\<open>drivers/wifi.c\<close>, on the registry of \<open>Solix_Tables\<close>.

  \<^bold>\<open>Loops and bounds.\<close> Walks over linked structures that may be cyclic (\<open>find_best\<close>,
  \<open>verify_heap_from\<close>, \<open>con_walk\<close>, \<open>find_link\<close>) are partial functions into an option; that they return is proved
  for well-formed structures, and for \<open>verify_heap_from\<close> for all. So are loops that wait for the world: the
  search of the PCI bus, the receive ring of the network card, the main loop of the browser, spin locks, the reading of an HTTP reply by
  the package manager, and the chip functions of \<^verbatim>\<open>kernel/irq.c\<close> that call back into their callers. Other loops are total functions,
  with measures where the recursion is not structural. No model uses fuel. The constants are those of the headers.

  \<^bold>\<open>Not modelled.\<close> The second scheduler, loadable modules
  and the second virtual file system (\<^verbatim>\<open>kernel/scheduler.c\<close>, \<^verbatim>\<open>kernel/module.c\<close>,
  \<^verbatim>\<open>kernel/linux_vfs.c\<close>) rest on a list library and on atomic operations that are defined
  nowhere in the repository, and \<^verbatim>\<open>kernel/Makefile\<close> leaves them out. The headers \<^verbatim>\<open>usb.h\<close>, \<^verbatim>\<open>nvme.h\<close>, \<^verbatim>\<open>security.h\<close>,
  \<^verbatim>\<open>fs_modern.h\<close> and \<^verbatim>\<open>net_modern.h\<close> hold declarations only. The boot loader and the interrupt stubs are
  assembler; the desktop in \<^verbatim>\<open>gui/\<close> is C++ and QML over Qt. Memory dumps and stack traces read raw
  memory. Concurrency between an interrupt and the code it interrupts is not modelled:
  interrupts are steps between operations.
\<close>

end
